(* ===== verification/Prelude.thy ===== *)
theory Prelude
  imports Main "HOL-Library.Word"
begin

text \<open>
  Shared vocabulary of the development: how a C function that may terminate the process is
  written (\<open>res\<close>, \<open>bindR\<close>), C strings, the pieces of the C library that the sources use
  (\<open>strtol\<close>, \<open>atoi\<close>, \<open>snprintf\<close>, \<open>strncpy\<close>, \<open>strchr\<close>), and the machine widths of an LP64
  Linux system. A C string is an Isabelle \<open>string\<close> without its terminating null byte.
\<close>

unbundle bit_operations_syntax

named_theorems res_simps \<open>unfolding rules for the result type and its sequencing\<close>
named_theorems cstr_simps \<open>evaluation rules for the C string functions\<close>

section \<open>Results of C functions\<close>

text \<open>
  \<open>Ret\<close> is a normal return with the updated state, \<open>Exit\<close> a call of exit(3) or _exit(2) with
  its status, \<open>Abort\<close> a call of abort(3), \<open>Undef\<close> a use of C behaviour that the language
  leaves undefined (a null or uninitialised pointer or slot, a write outside an array).
\<close>

datatype ('s, 'a) res = Ret 'a 's | Exit int 's | Abort 's | Undef

fun bindR :: "('s, 'a) res \<Rightarrow> ('a \<Rightarrow> 's \<Rightarrow> ('s, 'b) res) \<Rightarrow> ('s, 'b) res" where
  "bindR (Ret a s) f = f a s"
| "bindR (Exit c s) f = Exit c s"
| "bindR (Abort s) f = Abort s"
| "bindR Undef f = Undef"

declare bindR.simps [res_simps]

definition EXIT_SUCCESS :: int where [simp]: "EXIT_SUCCESS = 0"
definition EXIT_FAILURE :: int where [simp]: "EXIT_FAILURE = 1"

text \<open>\<open>res_inv P r\<close>: whenever the call leaves a state behind, the state satisfies \<open>P\<close>.\<close>

fun res_inv :: "('s \<Rightarrow> bool) \<Rightarrow> ('s, 'a) res \<Rightarrow> bool" where
  "res_inv P (Ret a s) = P s"
| "res_inv P (Exit c s) = P s"
| "res_inv P (Abort s) = P s"
| "res_inv P Undef = True"

lemma res_inv_bindR:
  "res_inv P r \<Longrightarrow> (\<And>a s. r = Ret a s \<Longrightarrow> P s \<Longrightarrow> res_inv P (f a s)) \<Longrightarrow> res_inv P (bindR r f)"
  by (cases r) auto

lemma bindR_Ret_iff:
  "bindR r f = Ret b t \<longleftrightarrow> (\<exists>a s. r = Ret a s \<and> f a s = Ret b t)"
  by (cases r) auto

lemma bindR_assoc: "bindR (bindR r f) g = bindR r (\<lambda>a s. bindR (f a s) g)"
  by (cases r) auto

text \<open>\<open>post Q r\<close>: if the call returns, its value and state satisfy \<open>Q\<close>.\<close>

fun post :: "('a \<Rightarrow> 's \<Rightarrow> bool) \<Rightarrow> ('s, 'a) res \<Rightarrow> bool" where
  "post Q (Ret a s) = Q a s"
| "post Q (Exit c s) = True"
| "post Q (Abort s) = True"
| "post Q Undef = True"

declare post.simps [res_simps]

lemma post_bindR: "post Q (bindR r f) = post (\<lambda>a s. post Q (f a s)) r"
  by (cases r) auto

lemma post_mono: "post P r \<Longrightarrow> (\<And>a s. r = Ret a s \<Longrightarrow> P a s \<Longrightarrow> Q a s) \<Longrightarrow> post Q r"
  by (cases r) auto

lemma postI: "(\<And>a s. r = Ret a s \<Longrightarrow> Q a s) \<Longrightarrow> post Q r"
  by (cases r) auto

lemma post_if: "(c \<Longrightarrow> post Q a) \<Longrightarrow> (\<not> c \<Longrightarrow> post Q b) \<Longrightarrow> post Q (if c then a else b)"
  by simp

lemma postD: "post Q r \<Longrightarrow> r = Ret a s \<Longrightarrow> Q a s"
  by simp

lemma bindR_Undef_iff: "bindR r f = Undef \<longleftrightarrow> r = Undef \<or> (\<exists>a s. r = Ret a s \<and> f a s = Undef)"
  by (cases r) auto

text \<open>\<open>safeR Q r\<close>: the call meets no undefined behaviour, and if it returns, \<open>Q\<close> holds.\<close>

fun safeR :: "('a \<Rightarrow> 's \<Rightarrow> bool) \<Rightarrow> ('s, 'a) res \<Rightarrow> bool" where
  "safeR Q (Ret a s) = Q a s"
| "safeR Q (Exit c s) = True"
| "safeR Q (Abort s) = True"
| "safeR Q Undef = False"

lemma safeR_bindR: "safeR Q (bindR r f) = safeR (\<lambda>a s. safeR Q (f a s)) r"
  by (cases r) auto

lemma safeR_mono: "safeR P r \<Longrightarrow> (\<And>a s. P a s \<Longrightarrow> Q a s) \<Longrightarrow> safeR Q r"
  by (cases r) auto

section \<open>C strings\<close>

abbreviation code :: "char \<Rightarrow> nat" where "code c \<equiv> of_char c"

definition nl :: string where "nl = [CHR 0x0A]"

definition isspace :: "char \<Rightarrow> bool" where
  "isspace c = (code c = 32 \<or> (9 \<le> code c \<and> code c \<le> 13))"

definition isdigit :: "char \<Rightarrow> bool" where
  "isdigit c = (48 \<le> code c \<and> code c \<le> 57)"

text \<open>
  A linear search for the first index whose element satisfies a test, the loop
  \<^verbatim>\<open>for (j = 0; j < n; j++) if (P(a[j])) return j; return -1;\<close> with \<open>None\<close> for \<open>-1\<close>.
\<close>

fun find_idx :: "('a \<Rightarrow> bool) \<Rightarrow> 'a list \<Rightarrow> nat option" where
  "find_idx P [] = None"
| "find_idx P (x # xs) = (if P x then Some 0 else map_option Suc (find_idx P xs))"

lemma find_idx_None_iff: "find_idx P xs = None \<longleftrightarrow> (\<forall>x \<in> set xs. \<not> P x)"
  by (induction xs) auto

lemma find_idx_SomeD:
  "find_idx P xs = Some i \<Longrightarrow> i < length xs \<and> P (xs ! i) \<and> (\<forall>j < i. \<not> P (xs ! j))"
proof (induction xs arbitrary: i)
  case Nil
  then show ?case by simp
next
  case (Cons x xs)
  then show ?case
    by (cases i) (auto simp: less_Suc_eq_0_disj split: if_splits)
qed

lemma find_idx_SomeI:
  "i < length xs \<Longrightarrow> P (xs ! i) \<Longrightarrow> \<exists>j. find_idx P xs = Some j"
  using find_idx_None_iff [of P xs] by (cases "find_idx P xs") (auto dest: nth_mem)

text \<open>
  A loop over array indices whose body at index \<open>j\<close> only rewrites element \<open>j\<close> of an array held in
  the state, as a map over the array.
\<close>

lemma fold_upd_map:
  assumes "\<And>j s. j < length (arr s) \<Longrightarrow> arr (g j s) = (arr s)[j := f (arr s ! j)]"
    and "n \<le> length (arr s)"
  shows "arr (fold g [n..<length (arr s)] s) = take n (arr s) @ map f (drop n (arr s))"
  using assms(2)
proof (induction "length (arr s) - n" arbitrary: n s)
  case 0
  then show ?case by simp
next
  case (Suc m)
  then have n: "n < length (arr s)" by simp
  have a: "arr (g n s) = (arr s)[n := f (arr s ! n)]" using n by (rule assms(1))
  have IH: "arr (fold g [Suc n..<length (arr (g n s))] (g n s))
      = take (Suc n) (arr (g n s)) @ map f (drop (Suc n) (arr (g n s)))"
    by (rule Suc.hyps(1)) (use Suc.hyps(2) n a in auto)
  have "[n..<length (arr s)] = n # [Suc n..<length (arr s)]" using n by (rule upt_conv_Cons)
  then have "arr (fold g [n..<length (arr s)] s) = arr (fold g [Suc n..<length (arr (g n s))] (g n s))"
    by (simp add: a)
  also have "\<dots> = take n (arr s) @ f (arr s ! n) # map f (drop (Suc n) (arr s))"
    unfolding IH using n by (simp add: a take_Suc_conv_app_nth)
  also have "\<dots> = take n (arr s) @ map f (drop n (arr s))"
    using n by (metis Cons_nth_drop_Suc list.map(2))
  finally show ?case .
qed

lemmas fold_upd_map0 = fold_upd_map [where n = 0, simplified]

text \<open>Inserting a key only if it is absent, in a sequence of insertions where the first one wins.\<close>

lemma map_add_first:
  "map_of xs ++ (if m d = None then m(d \<mapsto> p) else m) = map_of ((d, p) # xs) ++ m"
  by (auto simp: fun_eq_iff map_add_def split: option.splits)

text \<open>strchr(3) for a character other than the null byte: the index of the first occurrence.\<close>

definition strchr :: "string \<Rightarrow> char \<Rightarrow> nat option" where
  "strchr s c = find_idx (\<lambda>x. x = c) s"

text \<open>
  snprintf(3) into a buffer of \<open>n\<close> bytes keeps at most \<open>n - 1\<close> characters; strncpy(3) copies at
  most \<open>n\<close> (and leaves the buffer unterminated when the source has \<open>n\<close> or more).
\<close>

definition snprintf :: "nat \<Rightarrow> string \<Rightarrow> string" where
  "snprintf n s = take (n - 1) s"

definition strncpy :: "nat \<Rightarrow> string \<Rightarrow> string" where
  "strncpy n s = take n s"

text \<open>The characters of an array up to the null byte, which printf's \<open>%s\<close> prints.\<close>

definition cstr :: "string \<Rightarrow> string" where
  "cstr b = takeWhile (\<lambda>c. c \<noteq> CHR 0x00) b"

text \<open>The text of an output call: the pieces of its format, literal text and conversions, in order.\<close>

definition msg :: "string list \<Rightarrow> string" where
  "msg ps = concat ps"

text \<open>Decimal output, the conversion of printf's \<open>%d\<close>, \<open>%ld\<close> and \<open>%u\<close>.\<close>

definition digit_char :: "nat \<Rightarrow> char" where
  "digit_char d = char_of (48 + d)"

fun digits10 :: "nat \<Rightarrow> string" where
  "digits10 n = (if n < 10 then [digit_char n] else digits10 (n div 10) @ [digit_char (n mod 10)])"

declare digits10.simps [simp del]

definition dec :: "int \<Rightarrow> string" where
  "dec i = (if i < 0 then ''-'' @ digits10 (nat (- i)) else digits10 (nat i))"

section \<open>Number parsing of the C library\<close>

definition LONG_MAX :: int where "LONG_MAX = 2 ^ 63 - 1"
definition LONG_MIN :: int where "LONG_MIN = - (2 ^ 63)"
definition INT_MAX :: int where "INT_MAX = 2 ^ 31 - 1"
definition INT_MIN :: int where "INT_MIN = - (2 ^ 31)"

lemmas long_limits = LONG_MAX_def LONG_MIN_def INT_MAX_def INT_MIN_def

definition digit_of :: "char \<Rightarrow> nat option" where
  "digit_of c =
     (let n = code c in
      if 48 \<le> n \<and> n \<le> 57 then Some (n - 48)
      else if 97 \<le> n \<and> n \<le> 122 then Some (n - 87)
      else if 65 \<le> n \<and> n \<le> 90 then Some (n - 55)
      else None)"

definition is_base_digit :: "nat \<Rightarrow> char \<Rightarrow> bool" where
  "is_base_digit b c = (case digit_of c of None \<Rightarrow> False | Some d \<Rightarrow> d < b)"

fun scan_digits :: "nat \<Rightarrow> nat \<Rightarrow> string \<Rightarrow> nat \<times> string" where
  "scan_digits b a [] = (a, [])"
| "scan_digits b a (c # cs) =
     (if is_base_digit b c then scan_digits b (a * b + the (digit_of c)) cs else (a, c # cs))"

fun scan_sign :: "string \<Rightarrow> bool \<times> string" where
  "scan_sign [] = (False, [])"
| "scan_sign (c # cs) =
     (if c = CHR ''-'' then (True, cs) else if c = CHR ''+'' then (False, cs) else (False, c # cs))"

definition hex_prefix :: "string \<Rightarrow> bool" where
  "hex_prefix s =
     (case s of a # b # c # _ \<Rightarrow>
        a = CHR ''0'' \<and> (b = CHR ''x'' \<or> b = CHR ''X'') \<and> is_base_digit 16 c
      | _ \<Rightarrow> False)"

definition scan_base :: "nat \<Rightarrow> string \<Rightarrow> nat \<times> string" where
  "scan_base base s =
     (if (base = 0 \<or> base = 16) \<and> hex_prefix s then (16, drop 2 s)
      else if base = 0 then (if s \<noteq> [] \<and> hd s = CHR ''0'' then (8, s) else (10, s))
      else (base, s))"

text \<open>
  strtol(3): the value, the unconverted rest of the string (what \<open>endptr\<close> points to; the whole
  argument when there is nothing to convert), and whether errno became ERANGE.
\<close>

definition strtol :: "string \<Rightarrow> nat \<Rightarrow> int \<times> string \<times> bool" where
  "strtol arg base =
     (let (neg, s2) = scan_sign (dropWhile isspace arg);
          (b, s3) = scan_base base s2
      in if s3 = [] \<or> \<not> is_base_digit b (hd s3) then (0, arg, False)
         else let (v, rest) = scan_digits b 0 s3;
                  r = (if neg then - int v else int v)
              in if r > LONG_MAX then (LONG_MAX, rest, True)
                 else if r < LONG_MIN then (LONG_MIN, rest, True)
                 else (r, rest, False))"

text \<open>Conversion of a value to C's \<open>int\<close>: the low 32 bits in two's complement.\<close>

definition to_int32 :: "int \<Rightarrow> int" where
  "to_int32 i = sint (word_of_int i :: 32 word)"

text \<open>Conversion to \<open>short\<close>.\<close>

definition to_int16 :: "int \<Rightarrow> int" where
  "to_int16 i = sint (word_of_int i :: 16 word)"

text \<open>atoi(3), which glibc implements as \<open>(int) strtol(s, NULL, 10)\<close>.\<close>

definition atoi :: "string \<Rightarrow> int" where
  "atoi s = to_int32 (fst (strtol s 10))"

section \<open>Lemmas on decimal printing and parsing\<close>

lemma code_digit_char [simp]: "d < 10 \<Longrightarrow> code (digit_char d) = 48 + d"
  by (simp add: digit_char_def)

lemma digit_of_digit_char [simp]: "d < 10 \<Longrightarrow> digit_of (digit_char d) = Some d"
  by (simp add: digit_of_def Let_def)

lemma is_base_digit_digit_char [simp]: "d < 10 \<Longrightarrow> is_base_digit 10 (digit_char d)"
  by (simp add: is_base_digit_def)

lemma digits10_nonempty [simp]: "digits10 n \<noteq> []"
  by (subst digits10.simps) simp

lemma digits10_digits: "\<forall>c \<in> set (digits10 n). is_base_digit 10 c"
proof (induction n rule: digits10.induct)
  case (1 n)
  then show ?case by (subst digits10.simps) auto
qed

lemma scan_digits_digits10:
  "scan_digits 10 a (digits10 n @ rest) = scan_digits 10 (a * 10 ^ length (digits10 n) + n) rest"
proof (induction n arbitrary: a rest rule: digits10.induct)
  case (1 n)
  show ?case
  proof (cases "n < 10")
    case True
    then show ?thesis by (simp add: digits10.simps [of n])
  next
    case False
    then have eq: "digits10 n = digits10 (n div 10) @ [digit_char (n mod 10)]"
      by (subst digits10.simps) simp
    have "scan_digits 10 a (digits10 n @ rest)
        = scan_digits 10 a (digits10 (n div 10) @ (digit_char (n mod 10) # rest))"
      by (simp add: eq)
    also have "\<dots> = scan_digits 10 (a * 10 ^ length (digits10 (n div 10)) + n div 10)
                       (digit_char (n mod 10) # rest)"
      using False by (rule "1.IH")
    also have "\<dots> = scan_digits 10 (a * 10 ^ length (digits10 n) + n) rest"
      by (simp add: eq algebra_simps)
    finally show ?thesis .
  qed
qed

definition no_digit :: "string \<Rightarrow> bool" where
  "no_digit s = (s = [] \<or> \<not> is_base_digit 10 (hd s))"

lemma no_digit_Nil [simp]: "no_digit []"
  by (simp add: no_digit_def)

lemma scan_digits_stop: "no_digit rest \<Longrightarrow> scan_digits 10 a rest = (a, rest)"
  by (cases rest) (auto simp: no_digit_def)

lemma hd_digits10: "\<exists>d cs. d < 10 \<and> digits10 n = digit_char d # cs"
proof (induction n rule: digits10.induct)
  case (1 n)
  show ?case
  proof (cases "n < 10")
    case True
    then show ?thesis by (subst digits10.simps) auto
  next
    case False
    with "1" obtain d cs where "d < 10" "digits10 (n div 10) = digit_char d # cs" by blast
    with False show ?thesis by (subst digits10.simps) auto
  qed
qed

lemma digit_char_not:
  assumes "d < 10"
  shows "digit_char d \<noteq> CHR ''-''" and "digit_char d \<noteq> CHR ''+''" and "\<not> isspace (digit_char d)"
proof -
  have c: "code (digit_char d) = 48 + d" using assms by simp
  show "digit_char d \<noteq> CHR ''-''"
  proof
    assume "digit_char d = CHR ''-''"
    with c have "code (CHR ''-'') = 48 + d" by metis
    then show False by simp
  qed
  show "digit_char d \<noteq> CHR ''+''"
  proof
    assume "digit_char d = CHR ''+''"
    with c have "code (CHR ''+'') = 48 + d" by metis
    then show False by simp
  qed
  show "\<not> isspace (digit_char d)" using assms by (simp add: isspace_def)
qed

text \<open>strtol(3) in base 10 reads back what \<open>%d\<close> printed, and stops at the first non-digit.\<close>

lemma strtol_dec:
  assumes range: "LONG_MIN \<le> i" "i \<le> LONG_MAX" and stop: "no_digit rest"
  shows "strtol (dec i @ rest) 10 = (i, rest, False)"
proof -
  obtain d cs where d: "d < 10" and hd: "digits10 (nat \<bar>i\<bar>) = digit_char d # cs"
    using hd_digits10 by blast
  have scan: "scan_digits 10 0 (digit_char d # cs @ rest) = (nat \<bar>i\<bar>, rest)"
    using scan_digits_digits10 [of 0 "nat \<bar>i\<bar>" rest] stop by (simp add: hd scan_digits_stop)
  show ?thesis
  proof (cases "i < 0")
    case True
    then have "dec i = CHR ''-'' # digit_char d # cs" using hd by (simp add: dec_def)
    moreover have "\<not> isspace (CHR ''-'')" by (simp add: isspace_def)
    ultimately show ?thesis using True d scan range
      by (simp add: strtol_def scan_base_def Let_def)
  next
    case False
    then have "dec i = digit_char d # cs" using hd by (simp add: dec_def)
    then show ?thesis using False d scan range
      by (simp add: strtol_def scan_base_def Let_def digit_char_not)
  qed
qed

lemma to_int32_id [simp]: "INT_MIN \<le> i \<Longrightarrow> i \<le> INT_MAX \<Longrightarrow> to_int32 i = i"
  unfolding to_int32_def long_limits
  by (simp add: sint_sbintrunc' signed_take_bit_int_eq_self)

lemma to_int32_range: "INT_MIN \<le> to_int32 i \<and> to_int32 i \<le> INT_MAX"
  using sint_range_size [of "word_of_int i :: 32 word"]
  by (simp add: to_int32_def long_limits word_size)

lemma to_int16_id [simp]: "- 32768 \<le> i \<Longrightarrow> i \<le> 32767 \<Longrightarrow> to_int16 i = i"
  unfolding to_int16_def by (simp add: sint_sbintrunc' signed_take_bit_int_eq_self)

lemma atoi_dec:
  assumes "INT_MIN \<le> i" "i \<le> INT_MAX" "no_digit rest"
  shows "atoi (dec i @ rest) = i"
  using assms strtol_dec [of i rest] by (simp add: atoi_def long_limits)

section \<open>Separated text\<close>

lemma strchr_less: "strchr s c = Some i \<Longrightarrow> i < length s"
  unfolding strchr_def by (drule find_idx_SomeD) simp

lemma strchr_append: "c \<notin> set a \<Longrightarrow> strchr (a @ c # b) c = Some (length a)"
  unfolding strchr_def by (induction a) auto

lemma strchr_None: "c \<notin> set a \<Longrightarrow> strchr a c = None"
  unfolding strchr_def by (auto simp: find_idx_None_iff)

text \<open>A list of strings with commas between them, and the characters of a decimal number.\<close>

fun commas :: "string list \<Rightarrow> string" where
  "commas [] = ''''"
| "commas [s] = s"
| "commas (s # t # ts) = s @ '','' @ commas (t # ts)"

lemma dec_digits: "0 \<le> i \<Longrightarrow> c \<in> set (dec i) \<Longrightarrow> is_base_digit 10 c"
  using digits10_digits [of "nat i"] by (simp add: dec_def)

lemma dec_no_mark:
  assumes "0 \<le> i"
  shows "CHR '':'' \<notin> set (dec i)" "CHR '','' \<notin> set (dec i)"
proof -
  have "\<not> is_base_digit 10 (CHR '':'')" "\<not> is_base_digit 10 (CHR '','')"
    by (simp_all add: is_base_digit_def digit_of_def)
  then show "CHR '':'' \<notin> set (dec i)" "CHR '','' \<notin> set (dec i)" using dec_digits [OF assms] by blast+
qed

text \<open>Sums over lists.\<close>

lemma sum_list_upd:
  "i < length xs \<Longrightarrow> sum_list (map f (xs[i := y])) = sum_list (map f xs) - f (xs ! i) + (f y :: int)"
proof (induction xs arbitrary: i)
  case (Cons x xs)
  then show ?case by (cases i) auto
qed simp

lemma sum_list_le:
  "\<forall>x \<in> set xs. f x \<le> n \<Longrightarrow> sum_list (map f xs) \<le> int (length xs) * (n :: int)"
  by (induction xs) (auto simp: algebra_simps)

end
