(* ===== verification/DTree_State.thy ===== *)
theory DTree_State
  imports Prelude
begin

text \<open>
  The global state of \<open>tlpi-dist/inotify/inotify_dtree.c\<close>, the system calls it makes, its logging
  functions and its watch structure. The kernel and the C library behind the calls are the
  parameter \<open>'k sys\<close>: every call takes the kernel's state \<open>'k\<close> and returns a new one, so that the
  model is deterministic and any behaviour of the kernel is an instance. A failed call is \<open>Inl\<close> of
  its errno.
\<close>

record fstat =
  st_mode :: nat
  st_ino :: nat
  st_dev :: nat

definition S_ISDIR :: "nat \<Rightarrow> bool" where
  "S_ISDIR m = (m AND 0xF000 = 0x4000)"

record watch =
  wd :: int
  path :: string

record 'k sys =
  sys_lstat :: "string \<Rightarrow> 'k \<Rightarrow> (int + fstat) \<times> 'k"
  sys_add_watch :: "int \<Rightarrow> string \<Rightarrow> 32 word \<Rightarrow> 'k \<Rightarrow> (int + int) \<times> 'k"
  sys_rm_watch :: "int \<Rightarrow> int \<Rightarrow> 'k \<Rightarrow> int option \<times> 'k"
  sys_inotify_init :: "'k \<Rightarrow> (int + int) \<times> 'k"
  sys_close :: "int \<Rightarrow> 'k \<Rightarrow> 'k"
  sys_nftw :: "string \<Rightarrow> 'k \<Rightarrow> (string \<times> fstat) list \<times> int option \<times> 'k"
  sys_read :: "int \<Rightarrow> nat \<Rightarrow> 'k \<Rightarrow> (int + string) \<times> 'k"
  sys_creat :: "string \<Rightarrow> 'k \<Rightarrow> 'k"
  sys_write_file :: "string \<Rightarrow> string list \<Rightarrow> 'k \<Rightarrow> int option \<times> 'k"
  sys_fopen_log :: "string \<Rightarrow> 'k \<Rightarrow> int option \<times> 'k"
  sys_select :: "int \<Rightarrow> 'k \<Rightarrow> (int + int list) \<times> 'k"
  sys_strerror :: "int \<Rightarrow> string"
  sys_ptrs :: string
  sys_fresh :: watch

text \<open>
  \<open>sys_rm_watch\<close>, \<open>sys_nftw\<close> and \<open>sys_write_file\<close> give \<open>Some\<close> errno on failure. \<open>sys_nftw\<close> lists
  the objects that nftw(3) passes to its callback, in order. \<open>sys_fresh\<close> is what realloc(3) leaves
  in a new array slot, \<open>sys_ptrs\<close> the text that the addresses of a log message print as.
\<close>

record 'k dstate =
  verboseMask :: int
  checkCache :: bool
  dumpCache :: bool
  readBufferSize :: int
  stopFile :: "string option"
  abortOnCacheProblem :: bool
  logfp :: "string list option"
  inotifyReadCnt :: nat
  wlCache :: "watch list"
  rootDirPaths :: "string option list"
  numRootDirs :: nat
  ignoreRootDirs :: nat
  dirCnt :: nat
  ifd :: int
  reinitCnt :: nat
  overflowCnt :: nat
  errOut :: "string list"
  stdOut :: "string list"
  kern :: 'k

text \<open>
  \<open>wlCache\<close> is the dynamic array; its length is \<open>cacheSize\<close>. \<open>logfp\<close> is the text written to the
  log file so far, \<open>None\<close> while the pointer is null; \<open>errOut\<close> and \<open>stdOut\<close> are the texts written to
  the standard streams.
\<close>

definition cacheSize :: "'k dstate \<Rightarrow> nat" where
  "cacheSize s = length (wlCache s)"

definition VB_BASIC :: int where "VB_BASIC = 1"
definition VB_NOISY :: int where "VB_NOISY = 2"

definition PATH_MAX :: nat where "PATH_MAX = 4096"
definition NAME_MAX :: nat where "NAME_MAX = 255"
definition SIZEOF_EVENT :: nat where "SIZEOF_EVENT = 16"
definition INOTIFY_READ_BUF_LEN :: nat where
  "INOTIFY_READ_BUF_LEN = 100 * (SIZEOF_EVENT + NAME_MAX + 1)"

definition ENOENT :: int where "ENOENT = 2"
definition EINTR :: int where "EINTR = 4"

lemmas dtree_consts = VB_BASIC_def VB_NOISY_def PATH_MAX_def NAME_MAX_def SIZEOF_EVENT_def
  INOTIFY_READ_BUF_LEN_def ENOENT_def EINTR_def

section \<open>Output\<close>

definition to_stderr :: "string \<Rightarrow> 'k dstate \<Rightarrow> 'k dstate" where
  "to_stderr t s = s\<lparr>errOut := errOut s @ [t]\<rparr>"

definition to_stdout :: "string \<Rightarrow> 'k dstate \<Rightarrow> 'k dstate" where
  "to_stdout t s = s\<lparr>stdOut := stdOut s @ [t]\<rparr>"

definition to_log :: "string \<Rightarrow> 'k dstate \<Rightarrow> 'k dstate" where
  "to_log t s = s\<lparr>logfp := map_option (\<lambda>l. l @ [t]) (logfp s)\<rparr>"

definition logMessage :: "int \<Rightarrow> string \<Rightarrow> 'k dstate \<Rightarrow> 'k dstate" where
  "logMessage vb_mask t s =
     (let s1 = (if vb_mask = 0 \<or> vb_mask AND verboseMask s \<noteq> 0 then to_stderr t s else s)
      in if logfp s1 \<noteq> None then to_log t s1 else s1)"

text \<open>The macro \<open>errExit\<close> of this program: perror(3), then exit.\<close>

definition perror :: "'k sys \<Rightarrow> string \<Rightarrow> int \<Rightarrow> 'k dstate \<Rightarrow> 'k dstate" where
  "perror S m errno s = to_stderr (msg [m, '': '', sys_strerror S errno, nl]) s"

definition errExit :: "'k sys \<Rightarrow> string \<Rightarrow> int \<Rightarrow> 'k dstate \<Rightarrow> ('k dstate, 'a) res" where
  "errExit S m errno s = Exit EXIT_FAILURE (perror S m errno s)"

text \<open>\<open>dumpCacheToLog\<close> writes through \<open>logfp\<close> without testing it: a null pointer is undefined.\<close>

fun dump_lines :: "nat \<Rightarrow> watch list \<Rightarrow> string list" where
  "dump_lines j [] = []"
| "dump_lines j (w # ws) =
     (if 0 \<le> wd w
      then msg [dec (int j), '': wd = '', dec (wd w), ''; '', path w, nl] # dump_lines (Suc j) ws
      else dump_lines (Suc j) ws)"

definition dumpCacheToLog :: "'k dstate \<Rightarrow> ('k dstate, unit) res" where
  "dumpCacheToLog s =
     (case logfp s of
        None \<Rightarrow> Undef
      | Some l \<Rightarrow>
          let ls = dump_lines 0 (wlCache s)
          in Ret () (s\<lparr>logfp := Some (l @ ls @ [msg [''Total entries: '', dec (int (length ls)), nl]])\<rparr>))"

definition createStopFileAndAbort :: "'k sys \<Rightarrow> 'k dstate \<Rightarrow> ('k dstate, 'a) res" where
  "createStopFileAndAbort S s =
     (let s1 = (case stopFile s of
                  None \<Rightarrow> s
                | Some f \<Rightarrow> s\<lparr>kern := sys_creat S f (kern s)\<rparr>)
      in bindR (dumpCacheToLog s1) (\<lambda>_ s. Abort s))"

section \<open>What output leaves alone\<close>

lemma log_cache [simp]:
  "wlCache (to_stderr t s) = wlCache s" "wlCache (to_stdout t s) = wlCache s"
  "wlCache (to_log t s) = wlCache s"
  by (simp_all add: to_stderr_def to_stdout_def to_log_def)

lemma logMessage_fields [simp]:
  "wlCache (logMessage v t s) = wlCache s"
  "rootDirPaths (logMessage v t s) = rootDirPaths s"
  "numRootDirs (logMessage v t s) = numRootDirs s"
  "ignoreRootDirs (logMessage v t s) = ignoreRootDirs s"
  "kern (logMessage v t s) = kern s"
  "dirCnt (logMessage v t s) = dirCnt s"
  "ifd (logMessage v t s) = ifd s"
  "reinitCnt (logMessage v t s) = reinitCnt s"
  "overflowCnt (logMessage v t s) = overflowCnt s"
  "verboseMask (logMessage v t s) = verboseMask s"
  "checkCache (logMessage v t s) = checkCache s"
  "dumpCache (logMessage v t s) = dumpCache s"
  "readBufferSize (logMessage v t s) = readBufferSize s"
  "stopFile (logMessage v t s) = stopFile s"
  "abortOnCacheProblem (logMessage v t s) = abortOnCacheProblem s"
  "inotifyReadCnt (logMessage v t s) = inotifyReadCnt s"
  "stdOut (logMessage v t s) = stdOut s"
  "(logfp (logMessage v t s) = None) = (logfp s = None)"
  by (simp_all add: logMessage_def to_stderr_def to_log_def Let_def)

text \<open>
  \<open>frame s t\<close>: between \<open>s\<close> and \<open>t\<close> only the cache and the messages on stderr and in the log have
  changed.
\<close>

definition frame :: "'k dstate \<Rightarrow> 'k dstate \<Rightarrow> bool" where
  "frame s t =
     (verboseMask t = verboseMask s \<and> checkCache t = checkCache s \<and> dumpCache t = dumpCache s \<and>
      readBufferSize t = readBufferSize s \<and> stopFile t = stopFile s \<and>
      abortOnCacheProblem t = abortOnCacheProblem s \<and> inotifyReadCnt t = inotifyReadCnt s \<and>
      rootDirPaths t = rootDirPaths s \<and> numRootDirs t = numRootDirs s \<and>
      ignoreRootDirs t = ignoreRootDirs s \<and> dirCnt t = dirCnt s \<and> ifd t = ifd s \<and>
      reinitCnt t = reinitCnt s \<and> overflowCnt t = overflowCnt s \<and> stdOut t = stdOut s \<and>
      kern t = kern s \<and> (logfp t = None) = (logfp s = None))"

lemma frame_refl [simp]: "frame s s"
  by (simp add: frame_def)

lemma frame_trans: "frame s t \<Longrightarrow> frame t u \<Longrightarrow> frame s u"
  by (simp add: frame_def)

lemma frame_logMessage [simp]: "frame s (logMessage v t s)"
  by (simp add: frame_def)

lemma frame_wlCache [simp]: "frame s (t\<lparr>wlCache := ws\<rparr>) = frame s t"
  by (simp add: frame_def)

lemma frame_fold: "(\<And>x s. frame s (f x s)) \<Longrightarrow> frame s (fold f xs s)"
  by (induction xs arbitrary: s) (auto intro: frame_trans)

text \<open>A log message leaves no trace when its class is silent and there is no log file.\<close>

lemma logMessage_silent:
  "verboseMask s = 0 \<Longrightarrow> logfp s = None \<Longrightarrow> v \<noteq> 0 \<Longrightarrow> logMessage v t s = s"
  by (simp add: logMessage_def)

end
