(* ===== verification/DTree_Cache.thy ===== *)
theory DTree_Cache
  imports DTree_State
begin

text \<open>
  The watch list cache of \<open>inotify_dtree.c\<close>: a growing array of slots (watch descriptor, pathname),
  searched linearly, where descriptor \<open>-1\<close> marks a free slot. The functions are the source's, with
  \<open>None\<close> for a returned \<open>-1\<close>. Against them stands the abstract view \<open>cache_map\<close>, a partial map from
  descriptors to pathnames, and the invariant \<open>cache_ok\<close> under which the array represents it; the
  locale \<open>wd_store\<close> is the contract the rest of the program relies on.
\<close>

section \<open>The operations\<close>

definition freeCache :: "'k dstate \<Rightarrow> 'k dstate" where
  "freeCache s = s\<lparr>wlCache := []\<rparr>"

definition findWatch :: "int \<Rightarrow> 'k dstate \<Rightarrow> nat option" where
  "findWatch d s = find_idx (\<lambda>w. wd w = d) (wlCache s)"

definition findWatchChecked :: "'k sys \<Rightarrow> int \<Rightarrow> 'k dstate \<Rightarrow> ('k dstate, nat option) res" where
  "findWatchChecked S d s =
     (case findWatch d s of
        Some slot \<Rightarrow> Ret (Some slot) s
      | None \<Rightarrow>
          let s1 = logMessage 0 (msg [''Could not find watch '', dec d, nl]) s
          in if abortOnCacheProblem s1 then createStopFileAndAbort S s1 else Ret None s1)"

definition markCacheSlotEmpty :: "nat \<Rightarrow> 'k dstate \<Rightarrow> 'k dstate" where
  "markCacheSlotEmpty slot s =
     (let w = wlCache s ! slot;
          s1 = logMessage VB_NOISY
                 (msg [''        markCacheSlotEmpty: slot = '', dec (int slot), '';  wd = '', dec (wd w), ''; path = '', path w, nl]) s
      in s1\<lparr>wlCache := (wlCache s1)[slot := w\<lparr>wd := - 1, path := ''''\<rparr>]\<rparr>)"

definition ALLOC_INCR :: nat where "ALLOC_INCR = 200"

definition findEmptyCacheSlot :: "'k sys \<Rightarrow> 'k dstate \<Rightarrow> nat \<times> 'k dstate" where
  "findEmptyCacheSlot S s =
     (case find_idx (\<lambda>w. wd w = - 1) (wlCache s) of
        Some j \<Rightarrow> (j, s)
      | None \<Rightarrow>
          let s1 = s\<lparr>wlCache := wlCache s @ replicate ALLOC_INCR (sys_fresh S)\<rparr>;
              s2 = fold markCacheSlotEmpty [cacheSize s1 - ALLOC_INCR..<cacheSize s1] s1
          in (cacheSize s2 - ALLOC_INCR, s2))"

definition addWatchToCache :: "'k sys \<Rightarrow> int \<Rightarrow> string \<Rightarrow> 'k dstate \<Rightarrow> nat \<times> 'k dstate" where
  "addWatchToCache S d pathname s =
     (let (slot, s1) = findEmptyCacheSlot S s
      in (slot, s1\<lparr>wlCache := (wlCache s1)[slot := \<lparr>wd = d, path = strncpy PATH_MAX pathname\<rparr>]\<rparr>))"

definition pathnameToCacheSlot :: "string \<Rightarrow> 'k dstate \<Rightarrow> nat option" where
  "pathnameToCacheSlot pathname s = find_idx (\<lambda>w. 0 \<le> wd w \<and> path w = pathname) (wlCache s)"

definition pathnameInCache :: "string \<Rightarrow> 'k dstate \<Rightarrow> bool" where
  "pathnameInCache pathname s = (pathnameToCacheSlot pathname s \<noteq> None)"

text \<open>
  \<open>checkCacheConsistency\<close>: lstat(2) every live slot; a missing object is counted and reported, an
  object that is not a directory ends the program.
\<close>

fun check_slots :: "'k sys \<Rightarrow> nat \<Rightarrow> nat \<Rightarrow> watch list \<Rightarrow> 'k dstate \<Rightarrow> ('k dstate, nat) res" where
  "check_slots S j failures [] s = Ret failures s"
| "check_slots S j failures (w # ws) s =
     (if 0 \<le> wd w then
        (case sys_lstat S (path w) (kern s) of
           (Inl errno, k) \<Rightarrow>
             check_slots S (Suc j) (Suc failures) ws
               (logMessage 0 (msg [''checkCacheConsistency: stat: [slot = '', dec (int j), ''; wd = '', dec (wd w), ''] '', path w, '': '', sys_strerror S errno, nl]) (s\<lparr>kern := k\<rparr>))
         | (Inr sb, k) \<Rightarrow>
             if \<not> S_ISDIR (st_mode sb) then
               Exit EXIT_FAILURE (logMessage 0 (msg [''checkCacheConsistency: '', path w, '' is not a directory'', nl]) (s\<lparr>kern := k\<rparr>))
             else check_slots S (Suc j) failures ws (s\<lparr>kern := k\<rparr>))
      else check_slots S (Suc j) failures ws s)"

definition checkCacheConsistency :: "'k sys \<Rightarrow> 'k dstate \<Rightarrow> ('k dstate, unit) res" where
  "checkCacheConsistency S s =
     bindR (check_slots S 0 0 (wlCache s) s)
       (\<lambda>failures s. Ret ()
          (if failures > 0
           then logMessage VB_NOISY (msg [''checkCacheConsistency: '', dec (int failures), '' failures'', nl]) s
           else s))"

section \<open>The abstract view\<close>

definition live :: "watch \<Rightarrow> bool" where
  "live w = (0 \<le> wd w)"

definition cache_map :: "watch list \<Rightarrow> (int \<rightharpoonup> string)" where
  "cache_map ws = map_of (map (\<lambda>w. (wd w, path w)) (filter live ws))"

text \<open>
  A well-formed cache: descriptors of live slots are distinct, a slot that is not live is marked
  \<open>-1\<close> and holds the empty string, and every pathname is terminated within its buffer.
\<close>

definition cache_ok :: "watch list \<Rightarrow> bool" where
  "cache_ok ws =
     (distinct (map wd (filter live ws)) \<and>
      (\<forall>w \<in> set ws. (live w \<or> wd w = - 1 \<and> path w = '''') \<and> length (path w) < PATH_MAX))"

lemma cache_ok_Nil [simp]: "cache_ok []"
  by (simp add: cache_ok_def)

lemma cache_map_Nil [simp]: "cache_map [] = Map.empty"
  by (simp add: cache_map_def)

lemma cache_map_append: "cache_map (xs @ ys) = cache_map ys ++ cache_map xs"
  by (simp add: cache_map_def)

lemma dom_cache_map: "dom (cache_map ws) = wd ` set (filter live ws)"
  by (force simp: cache_map_def dom_map_of_conv_image_fst)

lemma cache_map_None_iff: "cache_map ws d = None \<longleftrightarrow> d \<notin> wd ` set (filter live ws)"
  using dom_cache_map [of ws] by (metis domIff)

lemma cache_map_Cons:
  "cache_map (w # ws) = (if live w then (cache_map ws)(wd w \<mapsto> path w) else cache_map ws)"
  by (simp add: cache_map_def)

lemma cache_map_nonneg: "cache_map ws d = Some p \<Longrightarrow> 0 \<le> d"
  using cache_map_None_iff [of ws d] by (auto simp: live_def)

lemma cache_map_Some_iff:
  assumes "cache_ok ws"
  shows "cache_map ws d = Some p \<longleftrightarrow> (\<exists>w \<in> set ws. live w \<and> wd w = d \<and> path w = p)"
proof -
  have "distinct (map fst (map (\<lambda>w. (wd w, path w)) (filter live ws)))"
    using assms by (simp add: cache_ok_def comp_def)
  then show ?thesis
    unfolding cache_map_def by (auto simp: map_of_eq_Some_iff)
qed

text \<open>Writing a slot whose old content was free adds to the map; freeing a live slot removes.\<close>

lemma split_at: "i < length xs \<Longrightarrow> xs = take i xs @ xs ! i # drop (Suc i) xs"
  by (simp add: id_take_nth_drop)

lemma slot_split:
  assumes "i < length ws"
  obtains xs ys where "ws = xs @ ws ! i # ys" "length xs = i"
    "\<And>v. ws[i := v] = xs @ v # ys"
proof -
  have "ws = take i ws @ ws ! i # drop (Suc i) ws" using assms by (rule split_at)
  moreover have "length (take i ws) = i" using assms by simp
  moreover have "\<And>v. ws[i := v] = take i ws @ v # drop (Suc i) ws"
    using assms by (simp add: upd_conv_take_nth_drop)
  ultimately show ?thesis by (rule that)
qed

lemma cache_map_update:
  assumes "i < length ws" "\<not> live (ws ! i)" "0 \<le> d" "d \<notin> dom (cache_map ws)"
  shows "cache_map (ws[i := \<lparr>wd = d, path = p\<rparr>]) = (cache_map ws)(d \<mapsto> p)"
proof -
  obtain xs ys where ws: "ws = xs @ ws ! i # ys" and upd: "\<And>v. ws[i := v] = xs @ v # ys"
    using assms(1) by (rule slot_split) blast
  have old: "cache_map ws = cache_map ys ++ cache_map xs"
    by (subst ws) (simp add: cache_map_append cache_map_Cons assms(2))
  then have "cache_map xs d = None" using assms(4) by (auto simp: domIff)
  then show ?thesis unfolding upd old cache_map_append cache_map_Cons
    using assms(3) by (auto simp: live_def map_add_def fun_eq_iff split: option.splits)
qed

lemma cache_ok_update:
  assumes "i < length ws" "cache_ok ws" "\<not> live (ws ! i)" "0 \<le> d" "d \<notin> dom (cache_map ws)"
    "length p < PATH_MAX"
  shows "cache_ok (ws[i := \<lparr>wd = d, path = p\<rparr>])"
proof -
  obtain xs ys where ws: "ws = xs @ ws ! i # ys" and upd: "\<And>v. ws[i := v] = xs @ v # ys"
    using assms(1) by (rule slot_split) blast
  have d: "d \<notin> wd ` set (filter live ws)" using assms(5) by (simp add: dom_cache_map)
  have f: "filter live ws = filter live xs @ filter live ys" by (subst ws) (simp add: assms(3))
  have s: "set ws = insert (ws ! i) (set xs \<union> set ys)" by (subst ws) auto
  show ?thesis unfolding upd using assms(2,4,6) d f s
    by (auto simp: cache_ok_def live_def)
qed

lemma cache_map_free:
  assumes "i < length ws" "cache_ok ws" "live (ws ! i)"
  shows "cache_map (ws[i := (ws ! i)\<lparr>wd := - 1, path := ''''\<rparr>]) = (cache_map ws)(wd (ws ! i) := None)"
proof -
  obtain xs ys where ws: "ws = xs @ ws ! i # ys" and upd: "\<And>v. ws[i := v] = xs @ v # ys"
    using assms(1) by (rule slot_split) blast
  have "distinct (map wd (filter live (xs @ ws ! i # ys)))"
    using assms(2) ws by (simp add: cache_ok_def)
  then have nx: "cache_map xs (wd (ws ! i)) = None" and ny: "cache_map ys (wd (ws ! i)) = None"
    using assms(3) by (auto simp: cache_map_None_iff)
  have old: "cache_map ws = (cache_map ys)(wd (ws ! i) \<mapsto> path (ws ! i)) ++ cache_map xs"
    by (subst ws) (simp add: cache_map_append cache_map_Cons assms(3))
  show ?thesis unfolding upd old cache_map_append cache_map_Cons
    using nx ny by (auto simp: live_def map_add_def fun_eq_iff split: option.splits)
qed

lemma cache_ok_free:
  assumes "i < length ws" "cache_ok ws"
  shows "cache_ok (ws[i := (ws ! i)\<lparr>wd := - 1, path := ''''\<rparr>])"
proof -
  obtain xs ys where ws: "ws = xs @ ws ! i # ys" and upd: "\<And>v. ws[i := v] = xs @ v # ys"
    using assms(1) by (rule slot_split) blast
  have "cache_ok (xs @ ws ! i # ys)" using assms(2) ws by simp
  then show ?thesis unfolding upd
    by (auto simp: cache_ok_def live_def PATH_MAX_def split: if_splits)
qed

section \<open>The operations on the abstract view\<close>

lemma findWatch_Some:
  assumes "cache_ok (wlCache s)" "0 \<le> d" "findWatch d s = Some i"
  shows "i < length (wlCache s)" "live (wlCache s ! i)" "wd (wlCache s ! i) = d"
    "cache_map (wlCache s) d = Some (path (wlCache s ! i))"
proof -
  show i: "i < length (wlCache s)" and d: "wd (wlCache s ! i) = d"
    using find_idx_SomeD [OF assms(3) [unfolded findWatch_def]] by auto
  then show l: "live (wlCache s ! i)" using assms(2) by (simp add: live_def)
  show "cache_map (wlCache s) d = Some (path (wlCache s ! i))"
    unfolding cache_map_Some_iff [OF assms(1)] using i d l nth_mem by blast
qed

lemma findWatch_None:
  assumes "0 \<le> d"
  shows "findWatch d s = None \<longleftrightarrow> cache_map (wlCache s) d = None"
  using assms by (auto simp: findWatch_def find_idx_None_iff cache_map_None_iff live_def)

lemma frame_markCacheSlotEmpty [simp]: "frame s (markCacheSlotEmpty i s)"
  by (simp add: markCacheSlotEmpty_def Let_def)

lemma wlCache_markCacheSlotEmpty:
  "wlCache (markCacheSlotEmpty i s) = (wlCache s)[i := (wlCache s ! i)\<lparr>wd := - 1, path := ''''\<rparr>]"
  by (simp add: markCacheSlotEmpty_def Let_def)

abbreviation free_slot :: watch where "free_slot \<equiv> \<lparr>wd = - 1, path = ''''\<rparr>"

lemma watch_reset: "w\<lparr>wd := - 1, path := ''''\<rparr> = free_slot" for w :: watch
  by (cases w) simp

lemma wlCache_fold_mark:
  assumes "wlCache s = ws @ ys"
  shows "wlCache (fold markCacheSlotEmpty [length ws..<length ws + length ys] s)
    = ws @ replicate (length ys) free_slot"
  using fold_upd_map [of wlCache markCacheSlotEmpty "\<lambda>w. free_slot" "length ws" s] assms
  by (simp add: wlCache_markCacheSlotEmpty watch_reset map_replicate_const)

lemma findEmptyCacheSlot_spec:
  assumes "findEmptyCacheSlot S s = (i, t)" "cache_ok (wlCache s)"
  shows "i < length (wlCache t)" "\<not> live (wlCache t ! i)" "cache_ok (wlCache t)"
    "cache_map (wlCache t) = cache_map (wlCache s)"
proof -
  consider (hit) "find_idx (\<lambda>w. wd w = - 1) (wlCache s) = Some i" "t = s"
    | (grow) "wlCache t = wlCache s @ replicate ALLOC_INCR free_slot" "i = length (wlCache s)"
  proof (cases "find_idx (\<lambda>w. wd w = - 1) (wlCache s)")
    case None
    let ?s1 = "s\<lparr>wlCache := wlCache s @ replicate ALLOC_INCR (sys_fresh S)\<rparr>"
    have "wlCache (fold markCacheSlotEmpty [length (wlCache s)..<length (wlCache s) + ALLOC_INCR] ?s1)
        = wlCache s @ replicate ALLOC_INCR free_slot"
      using wlCache_fold_mark [of ?s1 "wlCache s" "replicate ALLOC_INCR (sys_fresh S)"] by simp
    with None assms(1) show ?thesis
      by (intro that(2)) (auto simp: findEmptyCacheSlot_def cacheSize_def Let_def)
  next
    case (Some j)
    with assms(1) show ?thesis by (intro that(1)) (auto simp: findEmptyCacheSlot_def)
  qed
  then have "i < length (wlCache t) \<and> \<not> live (wlCache t ! i) \<and> cache_ok (wlCache t)
      \<and> cache_map (wlCache t) = cache_map (wlCache s)"
  proof cases
    case hit
    then show ?thesis using find_idx_SomeD [OF hit(1)] assms(2) by (simp add: live_def)
  next
    case grow
    have "cache_map (replicate ALLOC_INCR free_slot) = Map.empty"
      by (simp add: cache_map_def live_def)
    then show ?thesis using grow assms(2)
      by (auto simp: ALLOC_INCR_def nth_append live_def cache_map_append cache_ok_def PATH_MAX_def)
  qed
  then show "i < length (wlCache t)" "\<not> live (wlCache t ! i)" "cache_ok (wlCache t)"
    "cache_map (wlCache t) = cache_map (wlCache s)" by auto
qed

lemma addWatchToCache_spec:
  assumes "addWatchToCache S d p s = (i, t)" "cache_ok (wlCache s)" "0 \<le> d"
    "cache_map (wlCache s) d = None" "length p < PATH_MAX"
  shows "cache_ok (wlCache t)" "cache_map (wlCache t) = (cache_map (wlCache s))(d \<mapsto> p)"
proof -
  obtain s1 where f: "findEmptyCacheSlot S s = (i, s1)"
    and t: "wlCache t = (wlCache s1)[i := \<lparr>wd = d, path = p\<rparr>]"
    using assms(1,5) by (auto simp: addWatchToCache_def strncpy_def split: prod.splits)
  note spec = findEmptyCacheSlot_spec [OF f assms(2)]
  have d: "d \<notin> dom (cache_map (wlCache s1))" using assms(4) spec(4) by (simp add: domIff)
  show "cache_ok (wlCache t)" unfolding t
    using spec(1-3) d assms(3,5) by (intro cache_ok_update)
  show "cache_map (wlCache t) = (cache_map (wlCache s))(d \<mapsto> p)" unfolding t
    using cache_map_update [OF spec(1,2) assms(3) d] spec(4) by simp
qed

lemma frame_addWatchToCache: "addWatchToCache S d p s = (i, t) \<Longrightarrow> frame s t"
proof -
  have "frame s (fold markCacheSlotEmpty js (s\<lparr>wlCache := ws\<rparr>))" for js ws
    by (rule frame_trans [OF _ frame_fold]) simp_all
  then show "addWatchToCache S d p s = (i, t) \<Longrightarrow> frame s t"
    by (auto simp: addWatchToCache_def findEmptyCacheSlot_def Let_def split: option.splits)
qed

lemma pathnameInCache_iff:
  assumes "cache_ok (wlCache s)"
  shows "pathnameInCache p s \<longleftrightarrow> p \<in> ran (cache_map (wlCache s))"
proof -
  have "pathnameInCache p s \<longleftrightarrow> (\<exists>w \<in> set (wlCache s). live w \<and> path w = p)"
    by (auto simp: pathnameInCache_def pathnameToCacheSlot_def find_idx_None_iff live_def
             simp del: not_None_eq)
  also have "\<dots> \<longleftrightarrow> p \<in> ran (cache_map (wlCache s))"
    using cache_map_Some_iff [OF assms] by (auto simp: ran_def)
  finally show ?thesis .
qed

section \<open>The contract of a descriptor store\<close>

text \<open>
  What the tree walk and the event handlers use of the cache: a finite map from watch descriptors
  to pathnames that can be searched, extended by a new descriptor, and cleared at a slot that a
  search returned. \<open>add_all\<close> inserts a sequence of pairs, skipping a descriptor that is already
  present, which is how a tree walk fills the store.
\<close>

fun add_all :: "(int \<Rightarrow> 'c \<Rightarrow> nat option) \<Rightarrow> (int \<Rightarrow> string \<Rightarrow> 'c \<Rightarrow> 'c) \<Rightarrow> (int \<times> string) list \<Rightarrow> 'c \<Rightarrow> 'c"
where
  "add_all fnd add [] c = c"
| "add_all fnd add ((d, p) # xs) c =
     add_all fnd add xs (if fnd d c = None then add d p c else c)"

locale wd_store =
  fixes lookup :: "'c \<Rightarrow> int \<Rightarrow> string option"
    and ok :: "'c \<Rightarrow> bool"
    and fnd :: "int \<Rightarrow> 'c \<Rightarrow> nat option"
    and slot_path :: "nat \<Rightarrow> 'c \<Rightarrow> string"
    and add :: "int \<Rightarrow> string \<Rightarrow> 'c \<Rightarrow> 'c"
    and clear :: "nat \<Rightarrow> 'c \<Rightarrow> 'c"
  assumes fnd_None: "ok c \<Longrightarrow> 0 \<le> d \<Longrightarrow> fnd d c = None \<longleftrightarrow> lookup c d = None"
    and fnd_Some: "ok c \<Longrightarrow> 0 \<le> d \<Longrightarrow> fnd d c = Some i \<Longrightarrow> lookup c d = Some (slot_path i c)"
    and lookup_add: "ok c \<Longrightarrow> 0 \<le> d \<Longrightarrow> lookup c d = None \<Longrightarrow> length p < PATH_MAX \<Longrightarrow>
          lookup (add d p c) = (lookup c)(d \<mapsto> p)"
    and ok_add: "ok c \<Longrightarrow> 0 \<le> d \<Longrightarrow> lookup c d = None \<Longrightarrow> length p < PATH_MAX \<Longrightarrow> ok (add d p c)"
    and lookup_clear: "ok c \<Longrightarrow> 0 \<le> d \<Longrightarrow> fnd d c = Some i \<Longrightarrow>
          lookup (clear i c) = (lookup c)(d := None)"
    and ok_clear: "ok c \<Longrightarrow> 0 \<le> d \<Longrightarrow> fnd d c = Some i \<Longrightarrow> ok (clear i c)"
begin

lemma fnd_after_add:
  assumes "ok c" "0 \<le> d" "fnd d c = None" "length p < PATH_MAX" "0 \<le> e"
  shows "fnd e (add d p c) = None \<longleftrightarrow> e \<noteq> d \<and> fnd e c = None"
  using assms by (simp add: fnd_None ok_add lookup_add)

lemma clear_after_add:
  assumes "ok c" "0 \<le> d" "fnd d c = None" "length p < PATH_MAX" "fnd d (add d p c) = Some i"
  shows "lookup (clear i (add d p c)) = lookup c"
  using assms lookup_clear [of "add d p c" d i]
  by (simp add: fnd_None ok_add lookup_add fun_eq_iff)

lemma add_all_spec:
  assumes "ok c" "\<forall>(d, p) \<in> set xs. 0 \<le> d \<and> length p < PATH_MAX"
  shows "ok (add_all fnd add xs c) \<and> lookup (add_all fnd add xs c) = map_of xs ++ lookup c"
  using assms
proof (induction xs arbitrary: c)
  case Nil
  then show ?case by simp
next
  case (Cons x xs)
  obtain d p where x: "x = (d, p)" by (cases x)
  have d: "0 \<le> d" and p: "length p < PATH_MAX" using Cons.prems x by auto
  let ?c = "if fnd d c = None then add d p c else c"
  have "ok ?c" using Cons.prems(1) d p by (simp add: fnd_None ok_add)
  then have IH: "ok (add_all fnd add xs ?c)"
      "lookup (add_all fnd add xs ?c) = map_of xs ++ lookup ?c"
    using Cons.IH [of ?c] Cons.prems(2) by auto
  have "lookup ?c = (if lookup c d = None then (lookup c)(d \<mapsto> p) else lookup c)"
    using Cons.prems(1) d p by (simp add: fnd_None lookup_add)
  then have "map_of xs ++ lookup ?c = map_of ((d, p) # xs) ++ lookup c"
    by (simp only: map_add_first)
  with IH x show ?case by (simp add: fun_upd_def)
qed

end

interpretation cache: wd_store
  "\<lambda>s. cache_map (wlCache s)" "\<lambda>s. cache_ok (wlCache s)" findWatch
  "\<lambda>i s. path (wlCache s ! i)" "\<lambda>d p s. snd (addWatchToCache S d p s)" markCacheSlotEmpty
  for S
proof (unfold_locales, goal_cases)
  case (1 c d)
  then show ?case by (simp add: findWatch_None)
next
  case (2 c d i)
  then show ?case by (simp add: findWatch_Some(4))
next
  case (3 c d p)
  then show ?case using addWatchToCache_spec(2) by (metis prod.collapse)
next
  case (4 c d p)
  then show ?case using addWatchToCache_spec(1) by (metis prod.collapse)
next
  case (5 c d i)
  then show ?case using cache_map_free [of i "wlCache c"] findWatch_Some [of c d i]
    by (simp add: wlCache_markCacheSlotEmpty)
next
  case (6 c d i)
  then show ?case using cache_ok_free [of i "wlCache c"] findWatch_Some [of c d i]
    by (simp add: wlCache_markCacheSlotEmpty)
qed

end
