(* ===== verification/DTree_Roots.thy ===== *)
theory DTree_Roots
  imports DTree_State
begin

text \<open>
  The root directories of \<open>inotify_dtree.c\<close>: the pathnames of the command line, which of them are
  still monitored, and the function that stops monitoring one of them. A null entry of
  \<open>rootDirPaths\<close> is \<open>None\<close>. Allocation failures of calloc(3) and strdup(3) are not modelled.
\<close>

definition sq :: string where "sq = [CHR 0x27]"

fun check_args :: "'k sys \<Rightarrow> string list \<Rightarrow> 'k dstate \<Rightarrow> ('k dstate, unit) res" where
  "check_args S [] s = Ret () s"
| "check_args S (p # ps) s =
     (case sys_lstat S p (kern s) of
        (Inl errno, k) \<Rightarrow>
          Exit EXIT_FAILURE (to_stderr (msg [''lstat() failed on '', sq, p, sq, nl]) (s\<lparr>kern := k\<rparr>))
      | (Inr sb, k) \<Rightarrow>
          if \<not> S_ISDIR (st_mode sb)
          then Exit EXIT_FAILURE (to_stderr (msg [sq, p, sq, '' is not a directory'', nl]) (s\<lparr>kern := k\<rparr>))
          else check_args S ps (s\<lparr>kern := k, numRootDirs := Suc (numRootDirs s)\<rparr>))"

definition same_object :: "fstat \<Rightarrow> fstat \<Rightarrow> bool" where
  "same_object a b = (st_ino a = st_ino b \<and> st_dev a = st_dev b)"

fun copy_args :: "'k sys \<Rightarrow> (string \<times> fstat) list \<Rightarrow> string list \<Rightarrow> 'k dstate \<Rightarrow>
    ('k dstate, (string \<times> fstat) list) res" where
  "copy_args S seen [] s = Ret seen s"
| "copy_args S seen (p # ps) s =
     (let s1 = s\<lparr>rootDirPaths := rootDirPaths s @ [Some p]\<rparr>
      in case sys_lstat S p (kern s1) of
           (Inl errno, k) \<Rightarrow> errExit S ''lstat'' errno (s1\<lparr>kern := k\<rparr>)
         | (Inr sb, k) \<Rightarrow>
             (case find (\<lambda>(q, sb'). same_object sb sb') seen of
                Some (q, _) \<Rightarrow>
                  Exit EXIT_FAILURE (to_stderr (msg [''Duplicate filesystem objects: '', p, '', '', q, nl])
                    (s1\<lparr>kern := k\<rparr>))
              | None \<Rightarrow> copy_args S (seen @ [(p, sb)]) ps (s1\<lparr>kern := k\<rparr>)))"

text \<open>The result is \<open>rootDirStat\<close>, paired with the arguments.\<close>

definition copyRootDirPaths :: "'k sys \<Rightarrow> string list \<Rightarrow> 'k dstate \<Rightarrow>
    ('k dstate, (string \<times> fstat) list) res" where
  "copyRootDirPaths S argv s =
     bindR (check_args S argv (s\<lparr>numRootDirs := 0\<rparr>)) (\<lambda>_ s1.
     bindR (copy_args S [] argv (s1\<lparr>rootDirPaths := []\<rparr>)) (\<lambda>sts s2.
     Ret sts (s2\<lparr>ignoreRootDirs := 0\<rparr>)))"

definition findRootDirPath :: "string \<Rightarrow> 'k dstate \<Rightarrow> nat option" where
  "findRootDirPath p s = find_idx (\<lambda>r. r = Some p) (rootDirPaths s)"

definition isRootDirPath :: "string \<Rightarrow> 'k dstate \<Rightarrow> bool" where
  "isRootDirPath p s = (findRootDirPath p s \<noteq> None)"

definition zapRootDirPath :: "string \<Rightarrow> 'k dstate \<Rightarrow> ('k dstate, unit) res" where
  "zapRootDirPath p s =
     (let s1 = to_stdout (msg [''zapRootDirPath: '', p, nl]) s
      in case findRootDirPath p s1 of
           None \<Rightarrow> Exit EXIT_FAILURE (to_stderr (msg [''zapRootDirPath(): path not found!'', nl]) s1)
         | Some i \<Rightarrow>
             let s2 = s1\<lparr>rootDirPaths := (rootDirPaths s1)[i := None],
                         ignoreRootDirs := Suc (ignoreRootDirs s1)\<rparr>
             in if ignoreRootDirs s2 = numRootDirs s2
                then Exit EXIT_SUCCESS (to_stderr (msg [''No more root paths left to monitor; bye!'', nl]) s2)
                else Ret () s2)"

section \<open>The root list invariant\<close>

text \<open>
  The counters describe the list: \<open>numRootDirs\<close> is its length and \<open>ignoreRootDirs\<close> the number of
  entries no longer monitored.
\<close>

definition roots_ok :: "'k dstate \<Rightarrow> bool" where
  "roots_ok s =
     (numRootDirs s = length (rootDirPaths s) \<and>
      ignoreRootDirs s = length (filter (\<lambda>r. r = None) (rootDirPaths s)))"

definition live_roots :: "'k dstate \<Rightarrow> string list" where
  "live_roots s = map the (filter (\<lambda>r. r \<noteq> None) (rootDirPaths s))"

lemma roots_ok_empty_iff:
  "roots_ok s \<Longrightarrow> ignoreRootDirs s = numRootDirs s \<longleftrightarrow> live_roots s = []"
  using sum_length_filter_compl [of "\<lambda>r. r = None" "rootDirPaths s"]
  by (auto simp: roots_ok_def live_roots_def)

lemma findRootDirPath_Some:
  assumes "findRootDirPath p s = Some i"
  obtains xs ys where "rootDirPaths s = xs @ Some p # ys" "Some p \<notin> set xs"
    "(rootDirPaths s)[i := None] = xs @ None # ys"
proof -
  have i: "i < length (rootDirPaths s)" "rootDirPaths s ! i = Some p"
      "\<forall>j < i. rootDirPaths s ! j \<noteq> Some p"
    using find_idx_SomeD [OF assms [unfolded findRootDirPath_def]] by auto
  show ?thesis
  proof (rule that)
    show "rootDirPaths s = take i (rootDirPaths s) @ Some p # drop (Suc i) (rootDirPaths s)"
      using i(1,2) by (metis id_take_nth_drop)
    show "Some p \<notin> set (take i (rootDirPaths s))"
      using i(1,3) by (auto simp: in_set_conv_nth)
    show "(rootDirPaths s)[i := None] = take i (rootDirPaths s) @ None # drop (Suc i) (rootDirPaths s)"
      using i(1) by (rule upd_conv_take_nth_drop)
  qed
qed

lemma findRootDirPath_None: "findRootDirPath p s = None \<longleftrightarrow> p \<notin> set (live_roots s)"
  by (force simp: findRootDirPath_def find_idx_None_iff live_roots_def image_iff)

lemma isRootDirPath_iff: "isRootDirPath p s \<longleftrightarrow> p \<in> set (live_roots s)"
  using findRootDirPath_None [of p s] by (auto simp: isRootDirPath_def)

lemma zapRootDirPath_cases:
  assumes "roots_ok s" "p \<in> set (live_roots s)"
  obtains (last) t where "live_roots s = [p]" "zapRootDirPath p s = Exit EXIT_SUCCESS t"
    | (more) t where "zapRootDirPath p s = Ret () t" "roots_ok t" "live_roots t \<noteq> []"
        "live_roots t = remove1 p (live_roots s)" "wlCache t = wlCache s" "kern t = kern s"
proof -
  define s1 where "s1 = to_stdout (msg [''zapRootDirPath: '', p, nl]) s"
  have s1: "rootDirPaths s1 = rootDirPaths s" "numRootDirs s1 = numRootDirs s"
      "ignoreRootDirs s1 = ignoreRootDirs s" "wlCache s1 = wlCache s" "kern s1 = kern s"
    by (simp_all add: s1_def to_stdout_def)
  have fs: "findRootDirPath p s1 = findRootDirPath p s" by (simp add: findRootDirPath_def s1)
  obtain i where i: "findRootDirPath p s1 = Some i"
    using assms(2) findRootDirPath_None [of p s] fs by fastforce
  obtain xs ys where split: "rootDirPaths s1 = xs @ Some p # ys" "Some p \<notin> set xs"
      "(rootDirPaths s1)[i := None] = xs @ None # ys"
    using i by (rule findRootDirPath_Some) blast
  define t where "t = s1\<lparr>rootDirPaths := (rootDirPaths s1)[i := None],
      ignoreRootDirs := Suc (ignoreRootDirs s1)\<rparr>"
  have ok: "roots_ok t" using assms(1) split s1 by (simp add: t_def roots_ok_def)
  have "p \<notin> set (map the (filter (\<lambda>r. r \<noteq> None) xs))" using split(2) by force
  then have live: "live_roots t = remove1 p (live_roots s)"
    using split s1 by (simp add: t_def live_roots_def remove1_append)
  have zap: "zapRootDirPath p s =
      (if ignoreRootDirs t = numRootDirs t
       then Exit EXIT_SUCCESS (to_stderr (msg [''No more root paths left to monitor; bye!'', nl]) t)
       else Ret () t)"
    by (simp add: zapRootDirPath_def Let_def s1_def [symmetric] i t_def)
  show ?thesis
  proof (cases "live_roots t = []")
    case True
    then have "live_roots s = [p]" using live assms(2)
      by (cases "live_roots s") (auto split: if_splits)
    then show ?thesis using zap True roots_ok_empty_iff [OF ok] by (intro last) auto
  next
    case False
    then have "zapRootDirPath p s = Ret () t" using zap roots_ok_empty_iff [OF ok] by simp
    moreover have "wlCache t = wlCache s" "kern t = kern s" using s1 by (simp_all add: t_def)
    ultimately show ?thesis using ok live False by (intro more [of t])
  qed
qed

section \<open>Start-up\<close>

lemma check_args_Ret:
  assumes "check_args S ps s = Ret u t"
  shows "numRootDirs t = numRootDirs s + length ps"
  using assms
  by (induction ps arbitrary: s) (force split: prod.splits sum.splits if_splits)+

lemma copy_args_Ret:
  assumes "copy_args S seen ps s = Ret sts t"
    "sorted_wrt (\<lambda>a b. \<not> same_object (snd a) (snd b)) seen"
  shows "rootDirPaths t = rootDirPaths s @ map Some ps" "map fst sts = map fst seen @ ps"
    "sorted_wrt (\<lambda>a b. \<not> same_object (snd a) (snd b)) sts" "numRootDirs t = numRootDirs s"
proof -
  have "rootDirPaths t = rootDirPaths s @ map Some ps \<and> map fst sts = map fst seen @ ps
    \<and> sorted_wrt (\<lambda>a b. \<not> same_object (snd a) (snd b)) sts \<and> numRootDirs t = numRootDirs s"
    using assms
  proof (induction ps arbitrary: s seen)
    case Nil
    then show ?case by simp
  next
    case (Cons p ps)
    obtain r k where l: "sys_lstat S p (kern s) = (r, k)" by fastforce
    from Cons.prems(1) l obtain sb where r: "r = Inr sb"
      and nodup: "find (\<lambda>(q, sb'). same_object sb sb') seen = None"
      and rec: "copy_args S (seen @ [(p, sb)]) ps
          (s\<lparr>rootDirPaths := rootDirPaths s @ [Some p], kern := k\<rparr>) = Ret sts t"
      by (auto simp: errExit_def Let_def split: sum.splits option.splits)
    have "sorted_wrt (\<lambda>a b. \<not> same_object (snd a) (snd b)) (seen @ [(p, sb)])"
    proof -
      have "\<forall>x \<in> set seen. \<not> same_object sb (snd x)"
        using nodup by (auto simp: find_None_iff)
      then show ?thesis using Cons.prems(2)
        by (auto simp: sorted_wrt_append same_object_def)
    qed
    from Cons.IH [OF rec this] show ?case by simp
  qed
  then show "rootDirPaths t = rootDirPaths s @ map Some ps" "map fst sts = map fst seen @ ps"
    "sorted_wrt (\<lambda>a b. \<not> same_object (snd a) (snd b)) sts" "numRootDirs t = numRootDirs s" by auto
qed

lemma copyRootDirPaths_Ret:
  assumes "copyRootDirPaths S argv s = Ret sts t"
  shows "roots_ok t" "live_roots t = argv" "map fst sts = argv"
    "sorted_wrt (\<lambda>a b. \<not> same_object (snd a) (snd b)) sts"
proof -
  obtain u s1 s2 where c: "check_args S argv (s\<lparr>numRootDirs := 0\<rparr>) = Ret u s1"
    and a: "copy_args S [] argv (s1\<lparr>rootDirPaths := []\<rparr>) = Ret sts s2"
    and t: "t = s2\<lparr>ignoreRootDirs := 0\<rparr>"
    using assms by (auto simp: copyRootDirPaths_def bindR_Ret_iff)
  note ca = copy_args_Ret [OF a]
  show "roots_ok t" "live_roots t = argv" "map fst sts = argv"
    "sorted_wrt (\<lambda>a b. \<not> same_object (snd a) (snd b)) sts"
    using check_args_Ret [OF c] ca t
    by (auto simp: roots_ok_def live_roots_def comp_def)
qed

end
