(* ===== verification/DTree_Watch.thy ===== *)
theory DTree_Watch
  imports DTree_Cache DTree_Roots
begin

text \<open>
  Filling and maintaining the cache of \<open>inotify_dtree.c\<close>: the tree walk that adds watches
  (\<open>traverseTree\<close>, \<open>watchDir\<close>, \<open>watchSubtree\<close>), the rewriting of cached pathnames after a rename,
  the removal of a subtree, and the rebuild of the whole cache. The lemmas state each of them on the
  abstract map of the cache; the locale \<open>path_store\<close> extends the descriptor store by the two
  operations on subtrees.
\<close>

definition IN_MOVED_FROM :: "32 word" where "IN_MOVED_FROM = 0x40"
definition IN_MOVED_TO :: "32 word" where "IN_MOVED_TO = 0x80"
definition IN_CREATE :: "32 word" where "IN_CREATE = 0x100"
definition IN_DELETE_SELF :: "32 word" where "IN_DELETE_SELF = 0x400"
definition IN_MOVE_SELF :: "32 word" where "IN_MOVE_SELF = 0x800"
definition IN_UNMOUNT :: "32 word" where "IN_UNMOUNT = 0x2000"
definition IN_Q_OVERFLOW :: "32 word" where "IN_Q_OVERFLOW = 0x4000"
definition IN_IGNORED :: "32 word" where "IN_IGNORED = 0x8000"
definition IN_ONLYDIR :: "32 word" where "IN_ONLYDIR = 0x01000000"
definition IN_ISDIR :: "32 word" where "IN_ISDIR = 0x40000000"

lemmas in_flags = IN_MOVED_FROM_def IN_MOVED_TO_def IN_CREATE_def IN_DELETE_SELF_def
  IN_MOVE_SELF_def IN_UNMOUNT_def IN_Q_OVERFLOW_def IN_IGNORED_def IN_ONLYDIR_def IN_ISDIR_def

section \<open>Adding watches\<close>

definition watch_flags :: "string \<Rightarrow> 'k dstate \<Rightarrow> 32 word" where
  "watch_flags pathname s =
     (let flags = IN_CREATE OR IN_MOVED_FROM OR IN_MOVED_TO OR IN_DELETE_SELF
      in (if isRootDirPath pathname s then flags OR IN_MOVE_SELF else flags) OR IN_ONLYDIR)"

definition traverseTree :: "'k sys \<Rightarrow> string \<Rightarrow> fstat \<Rightarrow> 'k dstate \<Rightarrow> ('k dstate, unit) res" where
  "traverseTree S pathname sb s =
     (if \<not> S_ISDIR (st_mode sb) then Ret () s
      else
        case sys_add_watch S (ifd s) pathname (watch_flags pathname s) (kern s) of
          (Inl errno, k) \<Rightarrow>
            let s1 = logMessage VB_BASIC
                       (msg [''inotify_add_watch: '', pathname, '': '', sys_strerror S errno, nl])
                       (s\<lparr>kern := k\<rparr>)
            in if errno = ENOENT then Ret () s1 else Exit EXIT_FAILURE s1
        | (Inr d, k) \<Rightarrow>
            let s1 = s\<lparr>kern := k\<rparr>
            in if findWatch d s1 \<noteq> None
               then Ret () (logMessage VB_BASIC
                      (msg [''WD '', dec d, '' already in cache ('', pathname, '')'', nl]) s1)
               else
                 let s2 = s1\<lparr>dirCnt := Suc (dirCnt s1)\<rparr>;
                     (slot, s3) = addWatchToCache S d pathname s2
                 in Ret () (logMessage VB_NOISY
                      (msg [''    watchDir: wd = '', dec d, '' [cache slot: '', dec (int slot), '']; '',
                            pathname, nl]) s3))"

fun walk :: "'k sys \<Rightarrow> (string \<times> fstat) list \<Rightarrow> 'k dstate \<Rightarrow> ('k dstate, unit) res" where
  "walk S [] s = Ret () s"
| "walk S ((p, sb) # es) s = bindR (traverseTree S p sb s) (\<lambda>_ s. walk S es s)"

definition watchDir :: "'k sys \<Rightarrow> int \<Rightarrow> string \<Rightarrow> 'k dstate \<Rightarrow> ('k dstate, nat) res" where
  "watchDir S inotifyFd pathname s =
     (let s1 = s\<lparr>dirCnt := 0, ifd := inotifyFd\<rparr>;
          (es, failed, k) = sys_nftw S pathname (kern s1)
      in bindR (walk S es (s1\<lparr>kern := k\<rparr>)) (\<lambda>_ s2.
           Ret (dirCnt s2)
             (case failed of
                None \<Rightarrow> s2
              | Some errno \<Rightarrow> logMessage VB_BASIC
                  (msg [''nftw: '', pathname, '': '', sys_strerror S errno,
                        '' (directory probably deleted before we could watch)'', nl]) s2)))"

definition watchSubtree :: "'k sys \<Rightarrow> int \<Rightarrow> string \<Rightarrow> 'k dstate \<Rightarrow> ('k dstate, unit) res" where
  "watchSubtree S inotifyFd p s =
     bindR (watchDir S inotifyFd p s) (\<lambda>cnt s1.
       Ret () (logMessage VB_BASIC
         (msg [''    watchSubtree: '', p, '': '', dec (int cnt), '' entries added'', nl]) s1))"

section \<open>Subtrees of the cache\<close>

text \<open>
  The test of the source:
  \<^verbatim>\<open>strncmp(pn, path, len) == 0 && (path[len] == '/' || path[len] == '\0')\<close> with \<open>len = strlen(pn)\<close>.
\<close>

definition in_subtree :: "string \<Rightarrow> string \<Rightarrow> bool" where
  "in_subtree pn p =
     (take (length pn) p = pn \<and>
      (length p = length pn \<or> length pn < length p \<and> p ! length pn = CHR ''/''))"

definition rewrite_slot :: "string \<Rightarrow> string \<Rightarrow> nat \<Rightarrow> 'k dstate \<Rightarrow> 'k dstate" where
  "rewrite_slot fullPath newPrefix j s =
     (let w = wlCache s ! j
      in if in_subtree fullPath (path w) then
           let newPath = snprintf PATH_MAX (newPrefix @ drop (length fullPath) (path w))
           in logMessage VB_NOISY
                (msg [''    wd '', dec (wd w), '' [cache slot '', dec (int j), ''] ==> '', newPath, nl])
                (s\<lparr>wlCache := (wlCache s)[j := w\<lparr>path := strncpy PATH_MAX newPath\<rparr>]\<rparr>)
         else s)"

definition rewriteCachedPaths :: "string \<Rightarrow> string \<Rightarrow> string \<Rightarrow> string \<Rightarrow> 'k dstate \<Rightarrow> 'k dstate" where
  "rewriteCachedPaths oldPathPrefix oldName newPathPrefix newName s =
     (let fullPath = snprintf PATH_MAX (oldPathPrefix @ ''/'' @ oldName);
          newPrefix = snprintf PATH_MAX (newPathPrefix @ ''/'' @ newName);
          s1 = logMessage VB_BASIC (msg [''Rename: '', fullPath, '' ==> '', newPrefix, nl]) s
      in fold (rewrite_slot fullPath newPrefix) [0..<cacheSize s1] s1)"

fun zap_slots :: "'k sys \<Rightarrow> int \<Rightarrow> string \<Rightarrow> nat list \<Rightarrow> nat \<Rightarrow> 'k dstate \<Rightarrow> nat option \<times> 'k dstate" where
  "zap_slots S inotifyFd pn [] cnt s = (Some cnt, s)"
| "zap_slots S inotifyFd pn (j # js) cnt s =
     (let w = wlCache s ! j
      in if 0 \<le> wd w \<and> in_subtree pn (path w) then
           let s1 = logMessage VB_NOISY
                      (msg [''    removing watch: wd = '', dec (wd w), '' ('', path w, '')'', nl]) s
           in case sys_rm_watch S inotifyFd (wd w) (kern s1) of
                (Some errno, k) \<Rightarrow>
                  (None, logMessage 0
                     (msg [''inotify_rm_watch wd = '', dec (wd w), '' ('', path w, ''): '',
                           sys_strerror S errno, nl]) (s1\<lparr>kern := k\<rparr>))
              | (None, k) \<Rightarrow>
                  zap_slots S inotifyFd pn js (Suc cnt) (markCacheSlotEmpty j (s1\<lparr>kern := k\<rparr>))
         else zap_slots S inotifyFd pn js cnt s)"

definition zapSubtree :: "'k sys \<Rightarrow> int \<Rightarrow> string \<Rightarrow> 'k dstate \<Rightarrow> nat option \<times> 'k dstate" where
  "zapSubtree S inotifyFd p s =
     (let s1 = logMessage VB_NOISY (msg [''Zapping subtree: '', p, nl]) s
      in zap_slots S inotifyFd p [0..<cacheSize s1] 0 s1)"

section \<open>Rebuilding the cache\<close>

fun watch_roots :: "'k sys \<Rightarrow> int \<Rightarrow> string option list \<Rightarrow> 'k dstate \<Rightarrow> ('k dstate, unit) res" where
  "watch_roots S inotifyFd [] s = Ret () s"
| "watch_roots S inotifyFd (None # rs) s = watch_roots S inotifyFd rs s"
| "watch_roots S inotifyFd (Some p # rs) s =
     bindR (watchSubtree S inotifyFd p s) (\<lambda>_ s. watch_roots S inotifyFd rs s)"

definition reinitialize :: "'k sys \<Rightarrow> int \<Rightarrow> 'k dstate \<Rightarrow> ('k dstate, int) res" where
  "reinitialize S oldInotifyFd s =
     (let s1 = (if 0 \<le> oldInotifyFd then
                  let s0 = s\<lparr>kern := sys_close S oldInotifyFd (kern s), reinitCnt := Suc (reinitCnt s)\<rparr>
                  in logMessage 0 (msg [''Reinitializing cache and inotify FD (reinitCnt = '',
                       dec (int (reinitCnt s0)), '')'', nl]) s0
                else (logMessage 0 (msg [''Initializing cache'', nl]) s)\<lparr>reinitCnt := 0\<rparr>)
      in case sys_inotify_init S (kern s1) of
           (Inl errno, k) \<Rightarrow> errExit S ''inotify_init'' errno (s1\<lparr>kern := k\<rparr>)
         | (Inr inotifyFd, k) \<Rightarrow>
             let s2 = logMessage VB_BASIC (msg [''    new inotifyFd = '', dec inotifyFd, nl])
                        (s1\<lparr>kern := k\<rparr>);
                 s3 = freeCache s2
             in bindR (watch_roots S inotifyFd (rootDirPaths s3) s3) (\<lambda>_ s4.
                  let cnt = length (filter (\<lambda>w. 0 \<le> wd w) (wlCache s4))
                  in Ret inotifyFd
                       (if 0 \<le> oldInotifyFd
                        then logMessage 0 (msg [''Rebuilt cache with '', dec (int cnt), '' entries'', nl]) s4
                        else s4)))"

section \<open>What a walk adds\<close>

text \<open>
  The kernel's promises used below: inotify_add_watch(2) returns a nonnegative descriptor, and
  nftw(3) reports pathnames that fit a pathname buffer.
\<close>

definition kernel_ok :: "'k sys \<Rightarrow> bool" where
  "kernel_ok S =
     ((\<forall>fd p fl k d k'. sys_add_watch S fd p fl k = (Inr d, k') \<longrightarrow> 0 \<le> d) \<and>
      (\<forall>p k es e k'. sys_nftw S p k = (es, e, k') \<longrightarrow> (\<forall>q \<in> fst ` set es. length q < PATH_MAX)))"

text \<open>
  The descriptors the kernel hands out during a walk, with the pathname each was requested for, in
  order: what a correct cache must hold afterwards.
\<close>

fun walk_adds :: "'k sys \<Rightarrow> int \<Rightarrow> (string \<Rightarrow> 32 word) \<Rightarrow> (string \<times> fstat) list \<Rightarrow> 'k \<Rightarrow>
    (int \<times> string) list \<times> 'k" where
  "walk_adds S fd fl [] k = ([], k)"
| "walk_adds S fd fl ((p, sb) # es) k =
     (if \<not> S_ISDIR (st_mode sb) then walk_adds S fd fl es k
      else case sys_add_watch S fd p (fl p) k of
             (Inl errno, k') \<Rightarrow> walk_adds S fd fl es k'
           | (Inr d, k') \<Rightarrow> (let (ds, k'') = walk_adds S fd fl es k' in ((d, p) # ds, k'')))"

lemma frame_fields:
  assumes "frame s t"
  shows "rootDirPaths t = rootDirPaths s" "numRootDirs t = numRootDirs s"
    "ignoreRootDirs t = ignoreRootDirs s" "kern t = kern s" "ifd t = ifd s" "dirCnt t = dirCnt s"
    "checkCache t = checkCache s" "dumpCache t = dumpCache s"
  using assms by (auto simp: frame_def)

text \<open>\<open>same_setup\<close>: what a walk leaves unchanged.\<close>

definition same_setup :: "'k dstate \<Rightarrow> 'k dstate \<Rightarrow> bool" where
  "same_setup s t =
     (rootDirPaths t = rootDirPaths s \<and> numRootDirs t = numRootDirs s \<and>
      ignoreRootDirs t = ignoreRootDirs s \<and> checkCache t = checkCache s \<and> dumpCache t = dumpCache s)"

lemma same_setup_refl [simp]: "same_setup s s"
  by (simp add: same_setup_def)

lemma same_setup_trans: "same_setup s t \<Longrightarrow> same_setup t u \<Longrightarrow> same_setup s u"
  by (simp add: same_setup_def)

lemma frame_same_setup: "frame s t \<Longrightarrow> same_setup s t"
  by (simp add: frame_def same_setup_def)

lemma watch_flags_same_setup: "same_setup s t \<Longrightarrow> watch_flags p t = watch_flags p s"
  by (simp add: watch_flags_def isRootDirPath_def findRootDirPath_def same_setup_def)

lemma traverseTree_file: "\<not> S_ISDIR (st_mode sb) \<Longrightarrow> traverseTree S p sb s = Ret () s"
  by (simp add: traverseTree_def)

lemma traverseTree_fail:
  assumes "S_ISDIR (st_mode sb)" "traverseTree S p sb s = Ret u t"
    "sys_add_watch S (ifd s) p (watch_flags p s) (kern s) = (Inl e, k)"
  shows "wlCache t = wlCache s" "kern t = k" "ifd t = ifd s" "same_setup s t"
  using assms by (auto simp: traverseTree_def Let_def same_setup_def split: if_splits)

lemma traverseTree_add:
  assumes "S_ISDIR (st_mode sb)" "traverseTree S p sb s = Ret u t"
    "sys_add_watch S (ifd s) p (watch_flags p s) (kern s) = (Inr d, k)"
    "0 \<le> d" "cache_ok (wlCache s)" "length p < PATH_MAX"
  shows "cache_ok (wlCache t)"
    "cache_map (wlCache t) =
       (if cache_map (wlCache s) d = None then (cache_map (wlCache s))(d \<mapsto> p)
        else cache_map (wlCache s))"
    "kern t = k" "ifd t = ifd s" "same_setup s t"
proof -
  let ?s1 = "s\<lparr>kern := k\<rparr>"
  have "cache_ok (wlCache t) \<and> cache_map (wlCache t) =
       (if cache_map (wlCache s) d = None then (cache_map (wlCache s))(d \<mapsto> p)
        else cache_map (wlCache s)) \<and> kern t = k \<and> ifd t = ifd s \<and> same_setup s t"
  proof (cases "findWatch d ?s1")
    case (Some i)
    then have "cache_map (wlCache s) d \<noteq> None" using findWatch_None [OF assms(4), of ?s1] by simp
    then show ?thesis using Some assms by (auto simp: traverseTree_def Let_def same_setup_def)
  next
    case None
    then have new: "cache_map (wlCache s) d = None" using findWatch_None [OF assms(4), of ?s1] by simp
    obtain i s3 where a: "addWatchToCache S d p (?s1\<lparr>dirCnt := Suc (dirCnt s)\<rparr>) = (i, s3)" by fastforce
    have t: "t = logMessage VB_NOISY (msg [''    watchDir: wd = '', dec d, '' [cache slot: '',
        dec (int i), '']; '', p, nl]) s3"
      using assms(1-3) None a by (simp add: traverseTree_def Let_def)
    note sp = addWatchToCache_spec [OF a, simplified, OF assms(5,4) new assms(6)]
    note fr = frame_fields [OF frame_addWatchToCache [OF a]]
    show ?thesis using sp fr new by (simp add: t same_setup_def)
  qed
  then show "cache_ok (wlCache t)"
    "cache_map (wlCache t) =
       (if cache_map (wlCache s) d = None then (cache_map (wlCache s))(d \<mapsto> p)
        else cache_map (wlCache s))"
    "kern t = k" "ifd t = ifd s" "same_setup s t" by blast+
qed

lemma walk_Ret:
  assumes "kernel_ok S" "walk S es s = Ret u t" "cache_ok (wlCache s)"
    "\<forall>q \<in> fst ` set es. length q < PATH_MAX"
    "walk_adds S (ifd s) (\<lambda>p. watch_flags p s) es (kern s) = (ds, k)"
  shows "cache_ok (wlCache t) \<and> cache_map (wlCache t) = map_of ds ++ cache_map (wlCache s)
    \<and> kern t = k \<and> ifd t = ifd s \<and> same_setup s t"
  using assms(2-5)
proof (induction es arbitrary: s ds)
  case Nil
  then show ?case by simp
next
  case (Cons e es)
  obtain p sb where e: "e = (p, sb)" by (cases e)
  obtain s1 where tr: "traverseTree S p sb s = Ret () s1" and w: "walk S es s1 = Ret u t"
    using Cons.prems(1) e by (auto simp: bindR_Ret_iff)
  have lens: "length p < PATH_MAX" "\<forall>q \<in> fst ` set es. length q < PATH_MAX"
    using Cons.prems(3) e by auto
  have flags: "(\<lambda>p. watch_flags p s1) = (\<lambda>p. watch_flags p s)" if "same_setup s s1"
    using watch_flags_same_setup [OF that] by blast
  show ?case
  proof (cases "S_ISDIR (st_mode sb)")
    case False
    then have "s1 = s" using tr by (simp add: traverseTree_file)
    then show ?thesis using Cons.IH [of s] w Cons.prems lens e False by simp
  next
    case True
    obtain r k1 where a: "sys_add_watch S (ifd s) p (watch_flags p s) (kern s) = (r, k1)" by fastforce
    show ?thesis
    proof (cases r)
      case (Inl errno)
      note f = traverseTree_fail [OF True tr a [unfolded Inl]]
      have "walk_adds S (ifd s1) (\<lambda>p. watch_flags p s1) es (kern s1) = (ds, k)"
        using Cons.prems(4) e True a Inl f by (simp add: flags)
      from Cons.IH [OF w _ lens(2) this] show ?thesis
        using f Cons.prems(2) by (auto intro: same_setup_trans)
    next
      case (Inr d)
      have d: "0 \<le> d" using assms(1) a Inr unfolding kernel_ok_def by blast
      note f = traverseTree_add [OF True tr a [unfolded Inr] d Cons.prems(2) lens(1)]
      obtain ds' where ds: "ds = (d, p) # ds'"
        and rest: "walk_adds S (ifd s1) (\<lambda>p. watch_flags p s1) es (kern s1) = (ds', k)"
        using Cons.prems(4) e True a Inr f by (auto simp: flags split: prod.splits)
      from Cons.IH [OF w f(1) lens(2) rest]
      have IH: "cache_ok (wlCache t)" "cache_map (wlCache t) = map_of ds' ++ cache_map (wlCache s1)"
        "kern t = k" "ifd t = ifd s1" "same_setup s1 t" by auto
      have "cache_map (wlCache t) = map_of ds ++ cache_map (wlCache s)"
        unfolding IH(2) f(2) ds by (rule map_add_first)
      then show ?thesis using IH f by (auto intro: same_setup_trans)
    qed
  qed
qed

definition subtree_adds :: "'k sys \<Rightarrow> int \<Rightarrow> (string \<Rightarrow> 32 word) \<Rightarrow> string \<Rightarrow> 'k \<Rightarrow>
    (int \<times> string) list \<times> 'k" where
  "subtree_adds S fd fl p k = (let (es, e, k1) = sys_nftw S p k in walk_adds S fd fl es k1)"

fun roots_adds :: "'k sys \<Rightarrow> int \<Rightarrow> (string \<Rightarrow> 32 word) \<Rightarrow> string list \<Rightarrow> 'k \<Rightarrow>
    (int \<times> string) list \<times> 'k" where
  "roots_adds S fd fl [] k = ([], k)"
| "roots_adds S fd fl (p # ps) k =
     (let (ds, k1) = subtree_adds S fd fl p k; (ds', k2) = roots_adds S fd fl ps k1 in (ds @ ds', k2))"

lemma watchSubtree_Ret:
  assumes "kernel_ok S" "watchSubtree S fd p s = Ret u t" "cache_ok (wlCache s)"
    "subtree_adds S fd (\<lambda>p. watch_flags p s) p (kern s) = (ds, k)"
  shows "cache_ok (wlCache t) \<and> cache_map (wlCache t) = map_of ds ++ cache_map (wlCache s)
    \<and> kern t = k \<and> same_setup s t"
proof -
  obtain es e k1 where n: "sys_nftw S p (kern s) = (es, e, k1)" by (metis prod_cases3)
  define s1 where "s1 = s\<lparr>dirCnt := 0, ifd := fd, kern := k1\<rparr>"
  have s1: "same_setup s s1" "wlCache s1 = wlCache s" "ifd s1 = fd" "kern s1 = k1"
    by (simp_all add: s1_def same_setup_def)
  obtain v s2 where w: "walk S es s1 = Ret v s2"
    and t: "wlCache t = wlCache s2" "kern t = kern s2" "same_setup s2 t"
    using assms(2) n
    by (auto simp: watchSubtree_def watchDir_def bindR_Ret_iff s1_def same_setup_def Let_def
             split: option.splits)
  have len: "\<forall>q \<in> fst ` set es. length q < PATH_MAX"
    using assms(1) n unfolding kernel_ok_def by blast
  have adds: "walk_adds S (ifd s1) (\<lambda>p. watch_flags p s1) es (kern s1) = (ds, k)"
    using assms(4) n s1 watch_flags_same_setup [OF s1(1)] by (simp add: subtree_adds_def)
  from walk_Ret [OF assms(1) w _ len adds] assms(3) s1 t show ?thesis
    by (auto intro: same_setup_trans)
qed

lemma watch_roots_Ret:
  assumes "kernel_ok S" "watch_roots S fd rs s = Ret u t" "cache_ok (wlCache s)"
    "roots_adds S fd (\<lambda>p. watch_flags p s) (map the (filter (\<lambda>r. r \<noteq> None) rs)) (kern s) = (ds, k)"
  shows "cache_ok (wlCache t) \<and> cache_map (wlCache t) = map_of ds ++ cache_map (wlCache s)
    \<and> kern t = k \<and> same_setup s t"
  using assms(2-4)
proof (induction rs arbitrary: s ds)
  case Nil
  then show ?case by simp
next
  case (Cons r rs)
  show ?case
  proof (cases r)
    case None
    with Cons show ?thesis by simp
  next
    case (Some p)
    obtain s1 where w: "watchSubtree S fd p s = Ret () s1" and r: "watch_roots S fd rs s1 = Ret u t"
      using Cons.prems(1) Some by (auto simp: bindR_Ret_iff)
    obtain d1 d2 k1 where a: "subtree_adds S fd (\<lambda>p. watch_flags p s) p (kern s) = (d1, k1)"
      "roots_adds S fd (\<lambda>p. watch_flags p s) (map the (filter (\<lambda>r. r \<noteq> None) rs)) k1 = (d2, k)"
      "ds = d1 @ d2"
      using Cons.prems(3) Some by (auto simp: Let_def split: prod.splits)
    note s1 = watchSubtree_Ret [OF assms(1) w Cons.prems(2) a(1)]
    have "roots_adds S fd (\<lambda>p. watch_flags p s1) (map the (filter (\<lambda>r. r \<noteq> None) rs)) (kern s1) = (d2, k)"
      using a(2) s1 watch_flags_same_setup [of s s1] by simp
    from Cons.IH [OF r _ this] s1
    have IH: "cache_ok (wlCache t)" "cache_map (wlCache t) = map_of d2 ++ cache_map (wlCache s1)"
      "kern t = k" "same_setup s1 t" by auto
    have cm: "cache_map (wlCache s1) = map_of d1 ++ cache_map (wlCache s)" using s1 by blast
    have "cache_map (wlCache t) = map_of ds ++ cache_map (wlCache s)"
      unfolding IH(2) cm a(3) by simp
    then show ?thesis using IH s1 by (auto intro: same_setup_trans)
  qed
qed

lemma reinitialize_Ret:
  assumes "kernel_ok S" "reinitialize S old s = Ret fd t"
  obtains k1 ds where
    "sys_inotify_init S (if 0 \<le> old then sys_close S old (kern s) else kern s) = (Inr fd, k1)"
    "roots_adds S fd (\<lambda>p. watch_flags p s) (live_roots s) k1 = (ds, kern t)"
    "cache_ok (wlCache t)" "cache_map (wlCache t) = map_of ds" "same_setup s t"
proof -
  define s0 where "s0 = (if 0 \<le> old then
      let s0 = s\<lparr>kern := sys_close S old (kern s), reinitCnt := Suc (reinitCnt s)\<rparr>
      in logMessage 0 (msg [''Reinitializing cache and inotify FD (reinitCnt = '',
           dec (int (reinitCnt s0)), '')'', nl]) s0
    else (logMessage 0 (msg [''Initializing cache'', nl]) s)\<lparr>reinitCnt := 0\<rparr>)"
  have s0: "same_setup s s0" "kern s0 = (if 0 \<le> old then sys_close S old (kern s) else kern s)"
    by (simp_all add: s0_def same_setup_def Let_def)
  obtain r k1 where i: "sys_inotify_init S (kern s0) = (r, k1)" by fastforce
  obtain fd' where r: "r = Inr fd'"
    using assms(2) i by (cases r) (auto simp: reinitialize_def s0_def [symmetric] errExit_def Let_def)
  define s1 where "s1 = freeCache (logMessage VB_BASIC (msg [''    new inotifyFd = '', dec fd', nl])
      (s0\<lparr>kern := k1\<rparr>))"
  have s1: "same_setup s s1" "wlCache s1 = []" "kern s1 = k1"
    using s0(1) by (simp_all add: s1_def freeCache_def same_setup_def)
  obtain u s2 where w: "watch_roots S fd' (rootDirPaths s1) s1 = Ret u s2" and fd: "fd = fd'"
    and t: "wlCache t = wlCache s2" "kern t = kern s2" "same_setup s2 t"
    using assms(2) i r
    by (auto simp: reinitialize_def s0_def [symmetric] s1_def [symmetric] bindR_Ret_iff same_setup_def
             Let_def split: if_splits)
  obtain ds k where a: "roots_adds S fd' (\<lambda>p. watch_flags p s1) (live_roots s1) k1 = (ds, k)"
    by fastforce
  from watch_roots_Ret [OF assms(1) w, of ds k] a s1
  have res: "cache_ok (wlCache s2)" "cache_map (wlCache s2) = map_of ds" "kern s2 = k" "same_setup s1 s2"
    by (auto simp: live_roots_def)
  have lr: "live_roots s1 = live_roots s" and fl: "(\<lambda>p. watch_flags p s1) = (\<lambda>p. watch_flags p s)"
    using s1(1) watch_flags_same_setup by (auto simp: live_roots_def same_setup_def)
  show ?thesis
    using that [of k1 ds] i r fd s0 a res t s1(1) lr fl by (auto intro: same_setup_trans)
qed

end
