(* ===== verification/DTree_Subtree.thy ===== *)
theory DTree_Subtree
  imports DTree_Watch
begin

text \<open>
  What the two subtree operations of \<open>inotify_dtree.c\<close>, \<open>rewriteCachedPaths\<close> and \<open>zapSubtree\<close>, do to
  the abstract map of the cache, and the contract \<open>path_store\<close> that the event handlers rely on.
\<close>

section \<open>Path prefixes\<close>

lemma in_subtree_iff: "in_subtree pn p \<longleftrightarrow> p = pn \<or> (\<exists>r. p = pn @ ''/'' @ r)"
proof
  assume a: "in_subtree pn p"
  then have p: "p = pn @ drop (length pn) p" by (metis append_take_drop_id in_subtree_def)
  show "p = pn \<or> (\<exists>r. p = pn @ ''/'' @ r)"
  proof (cases "drop (length pn) p")
    case Nil
    with p show ?thesis by simp
  next
    case (Cons c r)
    then have "length pn < length p" "p ! length pn = c"
      by (metis drop_all linorder_not_le list.simps(3)) (metis Cons nth_append_length p)
    with a have "c = CHR ''/''" by (auto simp: in_subtree_def)
    with p Cons show ?thesis by auto
  qed
next
  assume "p = pn \<or> (\<exists>r. p = pn @ ''/'' @ r)"
  then show "in_subtree pn p" by (auto simp: in_subtree_def)
qed

lemma in_subtree_refl [simp]: "in_subtree p p"
  by (simp add: in_subtree_def)

lemma in_subtree_Nil_iff: "in_subtree pn '''' \<longleftrightarrow> pn = ''''"
  by (auto simp: in_subtree_def)

lemma in_subtree_trans: "in_subtree a b \<Longrightarrow> in_subtree b c \<Longrightarrow> in_subtree a c"
  by (auto simp: in_subtree_iff)

text \<open>The new name of a pathname when directory \<open>old\<close> becomes \<open>new\<close>.\<close>

definition rename_path :: "string \<Rightarrow> string \<Rightarrow> string \<Rightarrow> string" where
  "rename_path old new p = (if in_subtree old p then new @ drop (length old) p else p)"

lemma rename_path_under: "rename_path old new (old @ r) = (if in_subtree old (old @ r) then new @ r else old @ r)"
  by (simp add: rename_path_def)

lemma in_subtree_rename: "in_subtree old p \<Longrightarrow> in_subtree new (rename_path old new p)"
  by (auto simp: in_subtree_iff rename_path_def)

lemma rename_path_back:
  assumes "\<not> in_subtree new p"
  shows "rename_path new old (rename_path old new p) = p"
  using assms by (auto simp: rename_path_def in_subtree_iff)

section \<open>Renaming\<close>

definition rewrite_watch :: "string \<Rightarrow> string \<Rightarrow> watch \<Rightarrow> watch" where
  "rewrite_watch old new w =
     (if in_subtree old (path w)
      then w\<lparr>path := snprintf PATH_MAX (new @ drop (length old) (path w))\<rparr> else w)"

lemma frame_rewrite_slot [simp]: "frame s (rewrite_slot old new j s)"
  by (auto simp: rewrite_slot_def Let_def intro: frame_trans [OF _ frame_logMessage])

lemma wlCache_rewrite_slot:
  "j < length (wlCache s) \<Longrightarrow>
   wlCache (rewrite_slot old new j s) = (wlCache s)[j := rewrite_watch old new (wlCache s ! j)]"
  by (simp add: rewrite_slot_def rewrite_watch_def Let_def snprintf_def strncpy_def PATH_MAX_def)

lemma rewriteCachedPaths_spec:
  fixes s :: "'k dstate"
  assumes "old = snprintf PATH_MAX (oldPrefix @ ''/'' @ oldName)"
    "new = snprintf PATH_MAX (newPrefix @ ''/'' @ newName)"
  shows "wlCache (rewriteCachedPaths oldPrefix oldName newPrefix newName s)
      = map (rewrite_watch old new) (wlCache s)"
    "frame s (rewriteCachedPaths oldPrefix oldName newPrefix newName s)"
proof -
  define s1 :: "'k dstate" where "s1 = logMessage VB_BASIC (msg [''Rename: '', old, '' ==> '', new, nl]) s"
  have c: "wlCache s1 = wlCache s" and f: "frame s s1" by (simp_all add: s1_def)
  have r: "rewriteCachedPaths oldPrefix oldName newPrefix newName s
      = fold (rewrite_slot old new) [0..<length (wlCache s1)] s1"
    unfolding s1_def assms by (simp add: rewriteCachedPaths_def Let_def cacheSize_def)
  show "wlCache (rewriteCachedPaths oldPrefix oldName newPrefix newName s)
      = map (rewrite_watch old new) (wlCache s)"
    unfolding r c [symmetric] by (rule fold_upd_map0) (simp add: wlCache_rewrite_slot)
  show "frame s (rewriteCachedPaths oldPrefix oldName newPrefix newName s)"
    unfolding r by (rule frame_trans [OF f frame_fold]) simp
qed

lemma cache_ok_Cons:
  "cache_ok (w # ws) \<longleftrightarrow> cache_ok ws \<and> (live w \<or> wd w = - 1 \<and> path w = '''') \<and> length (path w) < PATH_MAX
     \<and> (live w \<longrightarrow> wd w \<notin> wd ` set (filter live ws))"
  by (auto simp: cache_ok_def)

lemma rewrite_watch_wd [simp]: "wd (rewrite_watch old new w) = wd w" "live (rewrite_watch old new w) = live w"
  by (simp_all add: rewrite_watch_def live_def)

lemma cache_ok_rewrite:
  assumes "cache_ok ws" "old \<noteq> ''''"
  shows "cache_ok (map (rewrite_watch old new) ws)"
  using assms(1)
proof (induction ws)
  case (Cons w ws)
  have "set (filter live (map (rewrite_watch old new) ws)) = rewrite_watch old new ` set (filter live ws)"
    by auto
  then have "wd ` set (filter live (map (rewrite_watch old new) ws)) = wd ` set (filter live ws)"
    by (simp add: image_image)
  moreover have "path w = '''' \<Longrightarrow> rewrite_watch old new w = w"
    using assms(2) by (simp add: rewrite_watch_def in_subtree_Nil_iff)
  moreover have "length (path (rewrite_watch old new w)) < PATH_MAX"
    using Cons.prems by (auto simp: rewrite_watch_def cache_ok_Cons snprintf_def PATH_MAX_def)
  ultimately show ?case using Cons by (auto simp: cache_ok_Cons)
qed simp

definition fits :: "string \<Rightarrow> string \<Rightarrow> (int \<rightharpoonup> string) \<Rightarrow> bool" where
  "fits old new m = (\<forall>p \<in> ran m. length (rename_path old new p) < PATH_MAX)"

lemma cache_map_rewrite:
  assumes "cache_ok ws" "fits old new (cache_map ws)"
  shows "cache_map (map (rewrite_watch old new) ws) = (\<lambda>d. map_option (rename_path old new) (cache_map ws d))"
proof -
  have "path (rewrite_watch old new w) = rename_path old new (path w)" if "w \<in> set ws" "live w" for w
  proof -
    have "path w \<in> ran (cache_map ws)"
      using that cache_map_Some_iff [OF assms(1), of "wd w" "path w"] by (auto intro: ranI)
    then show ?thesis using assms(2)
      by (auto simp: fits_def rewrite_watch_def rename_path_def snprintf_def)
  qed
  then show ?thesis
    by (induction ws) (auto simp: cache_map_Cons fun_eq_iff)
qed

section \<open>Removing a subtree\<close>

definition selected :: "string \<Rightarrow> watch \<Rightarrow> bool" where
  "selected pn w = (0 \<le> wd w \<and> in_subtree pn (path w))"

definition zap_watch :: "string \<Rightarrow> watch \<Rightarrow> watch" where
  "zap_watch pn w = (if selected pn w then free_slot else w)"

definition kern_frame :: "'k dstate \<Rightarrow> 'k dstate \<Rightarrow> bool" where
  "kern_frame s t = frame s (t\<lparr>kern := kern s\<rparr>)"

lemma kern_frame_refl [simp]: "kern_frame s s"
  by (simp add: kern_frame_def frame_def)

lemma kern_frame_trans: "kern_frame s t \<Longrightarrow> kern_frame t u \<Longrightarrow> kern_frame s u"
  by (simp add: kern_frame_def frame_def)

lemma kern_frameI: "frame s (t\<lparr>kern := kern s\<rparr>) \<Longrightarrow> kern_frame s t"
  by (simp add: kern_frame_def)

lemma kern_frame_same_setup: "kern_frame s t \<Longrightarrow> same_setup s t"
  by (simp add: kern_frame_def frame_def same_setup_def)

text \<open>
  \<open>zap_slots\<close> works through the slots in order: the slots \<open>done\<close> are dealt with, the slots \<open>todo\<close>
  are left when an inotify_rm_watch(2) fails.
\<close>

definition zap_at :: "string \<Rightarrow> nat \<Rightarrow> watch list \<Rightarrow> watch list" where
  "zap_at pn m ws = ws[m := zap_watch pn (ws ! m)]"

lemma zap_at_unselected: "\<not> selected pn (ws ! m) \<Longrightarrow> zap_at pn m ws = ws"
  by (simp add: zap_at_def zap_watch_def)

lemma zap_at_other: "m \<noteq> n \<Longrightarrow> zap_at pn m ws ! n = ws ! n"
  by (simp add: zap_at_def)

definition zap_log :: "watch \<Rightarrow> 'k dstate \<Rightarrow> 'k dstate" where
  "zap_log w = logMessage VB_NOISY (msg [''    removing watch: wd = '', dec (wd w), '' ('', path w, '')'', nl])"

lemma zap_slots_selected:
  assumes "selected pn (wlCache s ! i)"
  shows "zap_slots S fd pn (i # rest) cnt s =
    (case sys_rm_watch S fd (wd (wlCache s ! i)) (kern s) of
       (Some errno, k) \<Rightarrow> (None, logMessage 0 (msg [''inotify_rm_watch wd = '', dec (wd (wlCache s ! i)), '' ('',
            path (wlCache s ! i), ''): '', sys_strerror S errno, nl]) (zap_log (wlCache s ! i) s\<lparr>kern := k\<rparr>))
     | (None, k) \<Rightarrow> zap_slots S fd pn rest (Suc cnt)
                     (markCacheSlotEmpty i (zap_log (wlCache s ! i) s\<lparr>kern := k\<rparr>)))"
  using assms unfolding zap_log_def by (simp add: selected_def Let_def)

lemma zap_slots_unselected:
  "\<not> selected pn (wlCache s ! i) \<Longrightarrow> zap_slots S fd pn (i # rest) cnt s = zap_slots S fd pn rest cnt s"
  by (auto simp: selected_def Let_def)

declare zap_slots.simps(2) [simp del]

definition zapped :: "string \<Rightarrow> nat list \<Rightarrow> nat \<Rightarrow> watch list \<Rightarrow> nat option \<Rightarrow> watch list \<Rightarrow> bool" where
  "zapped pn is cnt ws r vs = (\<exists>donee todo. is = donee @ todo \<and> vs = fold (zap_at pn) donee ws \<and>
     (case r of
        Some n \<Rightarrow> todo = [] \<and> n = cnt + length (filter (\<lambda>m. selected pn (ws ! m)) is)
      | None \<Rightarrow> todo \<noteq> []))"

lemma zapped_Nil: "zapped pn [] cnt ws (Some cnt) ws"
  by (simp add: zapped_def)

lemma zapped_fail: "zapped pn (i # rest) cnt ws None ws"
  unfolding zapped_def by (intro exI [of _ "[]"] exI [of _ "i # rest"]) simp

lemma zapped_step:
  assumes "zapped pn rest (cnt + (if selected pn (ws ! i) then 1 else 0)) (zap_at pn i ws) r vs" "i \<notin> set rest"
  shows "zapped pn (i # rest) cnt ws r vs"
proof -
  have f: "filter (\<lambda>m. selected pn (zap_at pn i ws ! m)) rest = filter (\<lambda>m. selected pn (ws ! m)) rest"
  proof (rule filter_cong [OF refl])
    fix m assume "m \<in> set rest"
    with assms(2) have "i \<noteq> m" by auto
    then show "selected pn (zap_at pn i ws ! m) = selected pn (ws ! m)" by (simp add: zap_at_other)
  qed
  obtain donee todo where "rest = donee @ todo" "vs = fold (zap_at pn) donee (zap_at pn i ws)"
    "case r of Some n \<Rightarrow> todo = [] \<and> n = cnt + (if selected pn (ws ! i) then 1 else 0) +
         length (filter (\<lambda>m. selected pn (ws ! m)) rest)
      | None \<Rightarrow> todo \<noteq> []"
    using assms(1) unfolding zapped_def f by blast
  then show ?thesis unfolding zapped_def
    by (intro exI [of _ "i # donee"] exI [of _ todo]) (cases r; simp)
qed

lemma kern_frame_mark: "kern_frame s (markCacheSlotEmpty i (zap_log w s\<lparr>kern := k\<rparr>))"
  by (simp add: kern_frame_def frame_def markCacheSlotEmpty_def Let_def zap_log_def)

lemma zap_slots_spec:
  assumes "zap_slots S fd pn is cnt s = (r, t)" "distinct is"
  shows "kern_frame s t \<and> zapped pn is cnt (wlCache s) r (wlCache t)"
  using assms
proof (induction "is" arbitrary: s cnt)
  case Nil
  then show ?case by (auto simp: zapped_Nil)
next
  case (Cons i rest)
  have i: "i \<notin> set rest" and rest: "distinct rest" using Cons.prems(2) by auto
  show ?case
  proof (cases "selected pn (wlCache s ! i)")
    case False
    then have "zap_slots S fd pn rest cnt s = (r, t)"
      using Cons.prems(1) by (simp add: zap_slots_unselected)
    note IH = Cons.IH [OF this rest]
    have "zapped pn (i # rest) cnt (wlCache s) r (wlCache t)"
      by (rule zapped_step [OF _ i]) (use IH False in \<open>simp add: zap_at_unselected\<close>)
    with IH show ?thesis by simp
  next
    case True
    note step = Cons.prems(1) [unfolded zap_slots_selected [OF True]]
    obtain e k where rm: "sys_rm_watch S fd (wd (wlCache s ! i)) (kern s) = (e, k)" by fastforce
    show ?thesis
    proof (cases e)
      case (Some errno)
      then have "r = None" "wlCache t = wlCache s" "kern_frame s t"
        using step by (auto simp: rm zap_log_def kern_frame_def frame_def)
      then show ?thesis by (simp add: zapped_fail)
    next
      case None
      define u where "u = markCacheSlotEmpty i (zap_log (wlCache s ! i) s\<lparr>kern := k\<rparr>)"
      have u: "wlCache u = zap_at pn i (wlCache s)" using True
        by (simp add: u_def zap_log_def wlCache_markCacheSlotEmpty zap_at_def zap_watch_def watch_reset)
      have "zap_slots S fd pn rest (Suc cnt) u = (r, t)" using step None by (simp add: rm u_def)
      note IH = Cons.IH [OF this rest]
      have "kern_frame s u" unfolding u_def by (rule kern_frame_mark)
      with IH have "kern_frame s t" by (metis kern_frame_trans)
      moreover have "zapped pn (i # rest) cnt (wlCache s) r (wlCache t)"
        by (rule zapped_step [OF _ i]) (use IH u True in simp)
      ultimately show ?thesis ..
    qed
  qed
qed

lemma fold_zap_at: "j \<le> length ws \<Longrightarrow> fold (zap_at pn) [0..<j] ws = map (zap_watch pn) (take j ws) @ drop j ws"
proof (induction j)
  case (Suc j)
  then have "drop j ws = ws ! j # drop (Suc j) ws" by (simp add: Cons_nth_drop_Suc)
  with Suc show ?case
    by (simp add: zap_at_def take_Suc_conv_app_nth nth_append list_update_append)
qed simp

lemma zapSubtree_spec:
  assumes "zapSubtree S fd pn s = (r, t)"
  shows "kern_frame s t"
    "\<exists>j \<le> length (wlCache s). wlCache t = map (zap_watch pn) (take j (wlCache s)) @ drop j (wlCache s)"
    "r = Some n \<Longrightarrow> wlCache t = map (zap_watch pn) (wlCache s) \<and> n = length (filter (selected pn) (wlCache s))"
proof -
  let ?l = "logMessage VB_NOISY (msg [''Zapping subtree: '', pn, nl]) s" and ?n = "length (wlCache s)"
  have z: "zap_slots S fd pn [0..<?n] 0 ?l = (r, t)" using assms by (simp add: zapSubtree_def cacheSize_def)
  have "kern_frame s ?l" by (simp add: kern_frame_def frame_def)
  then show "kern_frame s t" using zap_slots_spec [OF z] by (auto intro: kern_frame_trans)
  have "\<exists>donee todo. [0..<?n] = donee @ todo \<and> wlCache t = fold (zap_at pn) donee (wlCache s) \<and>
    (case r of Some n \<Rightarrow> todo = [] \<and> n = length (filter (\<lambda>m. selected pn (wlCache s ! m)) [0..<?n])
     | None \<Rightarrow> todo \<noteq> [])"
    using zap_slots_spec [OF z, THEN conjunct2] unfolding zapped_def by (simp cong: option.case_cong)
  then obtain donee todo where dt: "[0..<?n] = donee @ todo" "wlCache t = fold (zap_at pn) donee (wlCache s)"
    "case r of Some n \<Rightarrow> todo = [] \<and> n = length (filter (\<lambda>m. selected pn (wlCache s ! m)) [0..<?n])
     | None \<Rightarrow> todo \<noteq> []" by blast
  let ?j = "length donee"
  have "length [0..<?n] = ?j + length todo" by (simp only: dt(1) length_append)
  then have jn: "?j \<le> ?n" by simp
  have "donee = take ?j [0..<?n]" by (simp only: dt(1)) simp
  then have j: "donee = [0..<?j]" using jn by (simp only: take_upt [of 0, simplified])
  then show "\<exists>j \<le> ?n. wlCache t = map (zap_watch pn) (take j (wlCache s)) @ drop j (wlCache s)"
    using jn dt(2) fold_zap_at [OF jn, of pn] by auto
  assume "r = Some n"
  with dt(3) have "todo = []" and n: "n = length (filter (\<lambda>m. selected pn (wlCache s ! m)) [0..<?n])"
    by simp_all
  with dt(1) have d: "donee = [0..<?n]" by simp
  have "filter (selected pn) (map ((!) (wlCache s)) [0..<?n])
      = map ((!) (wlCache s)) (filter (\<lambda>m. selected pn (wlCache s ! m)) [0..<?n])"
    by (simp add: filter_map comp_def del: map_nth)
  then have "length (filter (selected pn) (wlCache s)) = n" using n by (simp add: map_nth)
  then show "wlCache t = map (zap_watch pn) (wlCache s) \<and> n = length (filter (selected pn) (wlCache s))"
    using dt(2) fold_zap_at [of ?n "wlCache s" pn] d by simp
qed

lemma live_zap_watch: "live (zap_watch pn w) \<longleftrightarrow> live w \<and> \<not> in_subtree pn (path w)"
  by (auto simp: zap_watch_def selected_def live_def)

lemma zap_watch_kept: "live (zap_watch pn w) \<Longrightarrow> zap_watch pn w = w"
  by (auto simp: zap_watch_def selected_def live_def split: if_splits)

lemma cache_map_zap:
  assumes "cache_ok ws"
  shows "cache_map (map (zap_watch pn) ws) =
    (\<lambda>d. case cache_map ws d of Some p \<Rightarrow> if in_subtree pn p then None else Some p | None \<Rightarrow> None)"
  using assms
proof (induction ws)
  case (Cons w ws)
  have "cache_map ws (wd w) = None" if "live w"
    using Cons.prems that by (auto simp: cache_ok_Cons cache_map_None_iff)
  then show ?case using Cons
    by (auto simp: cache_map_Cons cache_ok_Cons fun_eq_iff live_zap_watch zap_watch_def selected_def live_def
        split: option.splits)
qed (simp add: cache_map_def)

lemma cache_freed:
  assumes "list_all2 (\<lambda>w v. v = w \<or> v = free_slot) ws vs" "cache_ok ws"
  shows "cache_ok vs \<and> cache_map vs \<subseteq>\<^sub>m cache_map ws"
  using assms
proof (induction rule: list_all2_induct)
  case (Cons w ws v vs)
  then have IH: "cache_ok vs" "cache_map vs \<subseteq>\<^sub>m cache_map ws" by (simp_all add: cache_ok_Cons)
  have sub: "wd ` set (filter live vs) \<subseteq> wd ` set (filter live ws)"
    using map_le_implies_dom_le [OF IH(2)] by (simp only: dom_cache_map)
  have fresh: "live w \<Longrightarrow> cache_map ws (wd w) = None"
    using Cons.prems by (simp add: cache_ok_Cons cache_map_None_iff)
  show ?case
  proof (cases "v = w")
    case True
    then show ?thesis using Cons.prems IH sub unfolding cache_ok_Cons cache_map_Cons
      by (auto simp: map_le_def)
  next
    case False
    then have v: "v = free_slot" using Cons.hyps by simp
    then have "cache_ok (v # vs)" using IH by (simp add: cache_ok_Cons live_def PATH_MAX_def)
    moreover have "cache_map (v # vs) = cache_map vs" using v by (simp add: cache_map_Cons live_def)
    moreover have "cache_map ws \<subseteq>\<^sub>m cache_map (w # ws)"
      using fresh by (auto simp: cache_map_Cons map_le_def)
    ultimately show ?thesis using map_le_trans [OF IH(2)] by simp
  qed
qed simp

section \<open>The store of pathnames\<close>

text \<open>The entries of a map whose pathname lies outside a subtree.\<close>

definition prune :: "string \<Rightarrow> (int \<rightharpoonup> string) \<Rightarrow> (int \<rightharpoonup> string)" where
  "prune pn m = (\<lambda>d. case m d of Some p \<Rightarrow> if in_subtree pn p then None else Some p | None \<Rightarrow> None)"

definition renamed :: "string \<Rightarrow> string \<Rightarrow> (int \<rightharpoonup> string) \<Rightarrow> (int \<rightharpoonup> string)" where
  "renamed old new m = (\<lambda>d. map_option (rename_path old new) (m d))"

abbreviation full :: "string \<Rightarrow> string \<Rightarrow> string" where
  "full pre name \<equiv> pre @ ''/'' @ name"

lemma renamed_back:
  assumes "\<forall>p \<in> ran m. \<not> in_subtree new p"
  shows "renamed new old (renamed old new m) = m"
proof
  fix d
  show "renamed new old (renamed old new m) d = m d"
    using assms by (cases "m d") (auto simp: renamed_def rename_path_back ranI)
qed

lemma prune_renamed:
  assumes "\<forall>p \<in> ran m. \<not> in_subtree new p"
  shows "prune new (renamed old new m) = prune old m"
proof
  fix d
  show "prune new (renamed old new m) d = prune old m d"
  proof (cases "m d")
    case (Some p)
    then have "\<not> in_subtree new p" using assms by (auto intro: ranI)
    then show ?thesis using Some in_subtree_rename [of old p new]
      by (auto simp: prune_def renamed_def rename_path_def)
  qed (simp add: prune_def renamed_def)
qed

lemma fits_renamed_back:
  assumes "\<forall>p \<in> ran m. \<not> in_subtree new p \<and> length p < PATH_MAX"
  shows "fits new old (renamed old new m)"
  using assms unfolding fits_def
  by (auto simp: renamed_def ran_def rename_path_back)

text \<open>
  What the event handlers rely on: the contract of \<open>wd_store\<close>, a rename that renames every pathname
  of the subtree, and a removal that removes every pathname of it.
\<close>

locale path_store = wd_store lookup ok fnd slot_path add clear
  for lookup :: "'c \<Rightarrow> int \<Rightarrow> string option"
    and ok :: "'c \<Rightarrow> bool"
    and fnd :: "int \<Rightarrow> 'c \<Rightarrow> nat option"
    and slot_path :: "nat \<Rightarrow> 'c \<Rightarrow> string"
    and add :: "int \<Rightarrow> string \<Rightarrow> 'c \<Rightarrow> 'c"
    and clear :: "nat \<Rightarrow> 'c \<Rightarrow> 'c" +
  fixes ren :: "string \<Rightarrow> string \<Rightarrow> string \<Rightarrow> string \<Rightarrow> 'c \<Rightarrow> 'c"
    and zap :: "string \<Rightarrow> 'c \<Rightarrow> nat option \<times> 'c"
  assumes bounded: "ok c \<Longrightarrow> p \<in> ran (lookup c) \<Longrightarrow> length p < PATH_MAX"
    and ok_ren: "ok c \<Longrightarrow> ok (ren a b a' b' c)"
    and lookup_ren: "ok c \<Longrightarrow> length (full a b) < PATH_MAX \<Longrightarrow> length (full a' b') < PATH_MAX \<Longrightarrow>
          fits (full a b) (full a' b') (lookup c) \<Longrightarrow>
          lookup (ren a b a' b' c) = renamed (full a b) (full a' b') (lookup c)"
    and ok_zap: "ok c \<Longrightarrow> zap p c = (r, c') \<Longrightarrow> ok c'"
    and le_zap: "ok c \<Longrightarrow> zap p c = (r, c') \<Longrightarrow> lookup c' \<subseteq>\<^sub>m lookup c"
    and lookup_zap: "ok c \<Longrightarrow> zap p c = (Some n, c') \<Longrightarrow> lookup c' = prune p (lookup c)"
    and count_zap: "ok c \<Longrightarrow> zap p c = (Some n, c') \<Longrightarrow>
          n = card {d \<in> dom (lookup c). in_subtree p (the (lookup c d))}"
begin

lemma ren_back:
  assumes "ok c" "length (full a b) < PATH_MAX" "length (full a' b') < PATH_MAX"
    "fits (full a b) (full a' b') (lookup c)" "\<forall>p \<in> ran (lookup c). \<not> in_subtree (full a' b') p"
  shows "lookup (ren a' b' a b (ren a b a' b' c)) = lookup c"
proof -
  have l: "lookup (ren a b a' b' c) = renamed (full a b) (full a' b') (lookup c)"
    using assms(1-4) by (rule lookup_ren)
  have "fits (full a' b') (full a b) (renamed (full a b) (full a' b') (lookup c))"
    using assms(5) bounded [OF assms(1)] by (intro fits_renamed_back) auto
  then show ?thesis
    using lookup_ren [OF ok_ren [OF assms(1)] assms(3,2)] l assms(5)
    by (simp only: renamed_back)
qed

lemma zap_after_ren:
  assumes "ok c" "length (full a b) < PATH_MAX" "length (full a' b') < PATH_MAX"
    "fits (full a b) (full a' b') (lookup c)" "\<forall>p \<in> ran (lookup c). \<not> in_subtree (full a' b') p"
    "zap (full a' b') (ren a b a' b' c) = (Some n, c')"
  shows "lookup c' = prune (full a b) (lookup c)"
  using lookup_zap [OF ok_ren [OF assms(1)] assms(6)] lookup_ren [OF assms(1-4)] prune_renamed [OF assms(5)]
  by (simp only:)

end

lemma cache_map_zapSubtree:
  assumes "cache_ok (wlCache s)" "zapSubtree S fd pn s = (Some n, t)"
  shows "cache_map (wlCache t) = prune pn (cache_map (wlCache s))"
    "n = card {d \<in> dom (cache_map (wlCache s)). in_subtree pn (the (cache_map (wlCache s) d))}"
proof -
  note z = zapSubtree_spec(3) [OF assms(2) refl]
  show "cache_map (wlCache t) = prune pn (cache_map (wlCache s))"
    using z cache_map_zap [OF assms(1)] by (simp add: prune_def)
  let ?sel = "filter (selected pn) (wlCache s)"
  have "filter (selected pn) (wlCache s) = filter (\<lambda>w. in_subtree pn (path w)) (filter live (wlCache s))"
    by (auto simp: selected_def live_def intro: filter_cong)
  then have "distinct (map wd ?sel)" using assms(1) by (simp add: cache_ok_def distinct_map_filter del: filter_filter)
  then have "length ?sel = card (wd ` set ?sel)" by (metis distinct_card length_map set_map)
  moreover have "wd ` set ?sel = {d \<in> dom (cache_map (wlCache s)). in_subtree pn (the (cache_map (wlCache s) d))}"
  proof (rule set_eqI)
    fix d
    have "d \<in> wd ` set ?sel \<longleftrightarrow> (\<exists>p. cache_map (wlCache s) d = Some p \<and> in_subtree pn p)"
      unfolding cache_map_Some_iff [OF assms(1)] by (auto simp: selected_def live_def image_iff)
    then show "d \<in> wd ` set ?sel \<longleftrightarrow>
        d \<in> {d \<in> dom (cache_map (wlCache s)). in_subtree pn (the (cache_map (wlCache s) d))}" by auto
  qed
  ultimately show "n = card {d \<in> dom (cache_map (wlCache s)). in_subtree pn (the (cache_map (wlCache s) d))}"
    using z by simp
qed

lemma cache_ok_zapSubtree:
  assumes "cache_ok (wlCache s)" "zapSubtree S fd pn s = (r, t)"
  shows "cache_ok (wlCache t)" "cache_map (wlCache t) \<subseteq>\<^sub>m cache_map (wlCache s)"
proof -
  obtain j where j: "wlCache t = map (zap_watch pn) (take j (wlCache s)) @ drop j (wlCache s)"
    using zapSubtree_spec(2) [OF assms(2)] by blast
  have "list_all2 (\<lambda>w v. v = w \<or> v = free_slot) (take j (wlCache s) @ drop j (wlCache s)) (wlCache t)"
    unfolding j by (intro list_all2_appendI) (auto simp: list_all2_conv_all_nth zap_watch_def)
  from cache_freed [OF this] assms(1)
  show "cache_ok (wlCache t)" "cache_map (wlCache t) \<subseteq>\<^sub>m cache_map (wlCache s)" by simp_all
qed

interpretation dtree: path_store
  "\<lambda>s. cache_map (wlCache s)" "\<lambda>s. cache_ok (wlCache s)" findWatch
  "\<lambda>i s. path (wlCache s ! i)" "\<lambda>d p s. snd (addWatchToCache S d p s)" markCacheSlotEmpty
  rewriteCachedPaths "zapSubtree S fd"
  for S fd
proof (unfold_locales, goal_cases)
  case (1 c p)
  then show ?case using cache_map_Some_iff [OF 1(1)] by (auto simp: ran_def cache_ok_def)
next
  case (2 c a b a' b')
  have "snprintf PATH_MAX (full a b) \<noteq> []" by (simp add: snprintf_def PATH_MAX_def)
  then show ?case using cache_ok_rewrite [OF 2] rewriteCachedPaths_spec(1) [OF refl refl] by metis
next
  case (3 c a b a' b')
  then have "snprintf PATH_MAX (full a b) = full a b" "snprintf PATH_MAX (full a' b') = full a' b'"
    by (simp_all add: snprintf_def)
  then show ?case using cache_map_rewrite [OF 3(1,4)] rewriteCachedPaths_spec(1) [OF refl refl]
    unfolding renamed_def by metis
qed (fact cache_ok_zapSubtree cache_map_zapSubtree)+

end
