(* ===== verification/DTree_Events.thy ===== *)
theory DTree_Events
  imports DTree_Subtree
begin

text \<open>
  The event side of \<open>inotify_dtree.c\<close>: the events as the kernel lays them out in the read buffer,
  the handler \<open>processNextInotifyEvent\<close>, one definition per branch, and the loop
  \<open>processInotifyEvents\<close> over a buffer, with its second read for a hanging \<open>IN_MOVED_FROM\<close>. The
  buffer is the list of the bytes written to it so far; what reads beyond them is undefined.
\<close>

section \<open>Events in memory\<close>

text \<open>
  \<open>struct inotify_event\<close>: four 32-bit fields and a terminated name. \<open>ev_name\<close> is \<open>None\<close> when there
  is no terminator in the memory that follows the header.
\<close>

record inotify_event =
  ev_wd :: int
  ev_mask :: "32 word"
  ev_cookie :: "32 word"
  ev_len :: nat
  ev_name :: "string option"

definition le32 :: "string \<Rightarrow> nat \<Rightarrow> 32 word" where
  "le32 b i = word_of_nat (code (b ! i) + 256 * code (b ! (i + 1)) + 65536 * code (b ! (i + 2))
                           + 16777216 * code (b ! (i + 3)))"

definition NUL :: char where "NUL = CHR 0x00"

definition cstr :: "string \<Rightarrow> string option" where
  "cstr b = (if NUL \<in> set b then Some (takeWhile (\<lambda>c. c \<noteq> NUL) b) else None)"

definition event_at :: "string \<Rightarrow> inotify_event option" where
  "event_at b =
     (if length b < SIZEOF_EVENT then None
      else Some \<lparr>ev_wd = sint (le32 b 0), ev_mask = le32 b 4, ev_cookie = le32 b 8,
                 ev_len = unat (le32 b 12), ev_name = cstr (drop SIZEOF_EVENT b)\<rparr>)"

definition has :: "inotify_event \<Rightarrow> 32 word \<Rightarrow> bool" where
  "has ev m = (ev_mask ev AND m \<noteq> 0)"

definition pad4 :: "string \<Rightarrow> string" where
  "pad4 t = replicate (4 - length t) (CHR '' '') @ t"

definition flag_texts :: "(32 word \<times> string) list" where
  "flag_texts =
     [(IN_ISDIR, ''IN_ISDIR ''), (IN_CREATE, ''IN_CREATE ''), (IN_DELETE_SELF, ''IN_DELETE_SELF ''),
      (IN_MOVE_SELF, ''IN_MOVE_SELF ''), (IN_MOVED_FROM, ''IN_MOVED_FROM ''),
      (IN_MOVED_TO, ''IN_MOVED_TO ''), (IN_IGNORED, ''IN_IGNORED ''),
      (IN_Q_OVERFLOW, ''IN_Q_OVERFLOW ''), (IN_UNMOUNT, ''IN_UNMOUNT '')]"

definition displayInotifyEvent :: "inotify_event \<Rightarrow> 'k dstate \<Rightarrow> ('k dstate, unit) res" where
  "displayInotifyEvent ev s =
     (let s1 = logMessage VB_NOISY (msg [''==> wd = '', dec (ev_wd ev), ''; '']) s;
          s2 = (if ev_cookie ev > 0
                then logMessage VB_NOISY (msg [''cookie = '', pad4 (dec (sint (ev_cookie ev))), ''; '']) s1
                else s1);
          s3 = logMessage VB_NOISY ''mask = '' s2;
          s4 = fold (\<lambda>(m, t) u. if has ev m then logMessage VB_NOISY t u else u) flag_texts s3;
          s5 = logMessage VB_NOISY nl s4
      in if ev_len ev > 0
         then case ev_name ev of
                None \<Rightarrow> Undef
              | Some n \<Rightarrow> Ret () (logMessage VB_NOISY (msg [''        name = '', n, nl]) s5)
         else Ret () s5)"

section \<open>The branches of the handler\<close>

text \<open>
  A branch gives the inotify descriptor and the number of bytes consumed, and whether the function
  returns at once (\<open>Early\<close>) or goes on to the checks at its end (\<open>Late\<close>). The cache slot of the
  event is \<open>None\<close> where the source has not initialised \<open>evCacheSlot\<close>.
\<close>

datatype handled = Early int int | Late int int

definition slot_of :: "nat option \<Rightarrow> 'k dstate \<Rightarrow> (nat \<Rightarrow> ('k dstate, 'a) res) \<Rightarrow> ('k dstate, 'a) res" where
  "slot_of evCacheSlot s f = (case evCacheSlot of None \<Rightarrow> Undef | Some i \<Rightarrow> f i)"

definition name_of :: "inotify_event \<Rightarrow> (string \<Rightarrow> ('k dstate, 'a) res) \<Rightarrow> ('k dstate, 'a) res" where
  "name_of ev f = (case ev_name ev of None \<Rightarrow> Undef | Some n \<Rightarrow> f n)"

definition resync :: "'k sys \<Rightarrow> int \<Rightarrow> 'k dstate \<Rightarrow> ('k dstate, handled) res" where
  "resync S inotifyFd s =
     bindR (reinitialize S inotifyFd s) (\<lambda>fd t. Ret (Early fd (int INOTIFY_READ_BUF_LEN)) t)"

definition on_create :: "'k sys \<Rightarrow> int \<Rightarrow> inotify_event \<Rightarrow> nat option \<Rightarrow> int \<Rightarrow> 'k dstate \<Rightarrow>
    ('k dstate, handled) res" where
  "on_create S inotifyFd ev evCacheSlot evLen s =
     slot_of evCacheSlot s (\<lambda>i. name_of ev (\<lambda>n.
       let fullPath = snprintf (PATH_MAX + NAME_MAX) (path (wlCache s ! i) @ ''/'' @ n);
           s1 = logMessage VB_BASIC (msg [''Directory creation on wd '', dec (ev_wd ev), '': '', fullPath, nl]) s
       in if \<not> pathnameInCache fullPath s1
          then bindR (watchSubtree S inotifyFd fullPath s1) (\<lambda>_ s2. Ret (Late inotifyFd evLen) s2)
          else Ret (Late inotifyFd evLen) s1))"

definition on_delete_self :: "int \<Rightarrow> inotify_event \<Rightarrow> nat option \<Rightarrow> int \<Rightarrow> 'k dstate \<Rightarrow>
    ('k dstate, handled) res" where
  "on_delete_self inotifyFd ev evCacheSlot evLen s =
     slot_of evCacheSlot s (\<lambda>i.
       let p = path (wlCache s ! i);
           s1 = logMessage VB_BASIC (msg [''Clearing watchlist item '', dec (ev_wd ev), '' ('', p, '')'', nl]) s
       in bindR (if isRootDirPath p s1 then zapRootDirPath p s1 else Ret () s1) (\<lambda>_ s2.
            Ret (Late inotifyFd evLen) (markCacheSlotEmpty i s2)))"

definition on_rename :: "'k sys \<Rightarrow> int \<Rightarrow> inotify_event \<Rightarrow> nat option \<Rightarrow> inotify_event \<Rightarrow> int \<Rightarrow>
    'k dstate \<Rightarrow> ('k dstate, handled) res" where
  "on_rename S inotifyFd ev evCacheSlot nextEv evLen s =
     bindR (findWatchChecked S (ev_wd nextEv) s) (\<lambda>nextEvCacheSlot s1.
       case nextEvCacheSlot of
         None \<Rightarrow> resync S inotifyFd s1
       | Some j \<Rightarrow>
           slot_of evCacheSlot s1 (\<lambda>i. name_of ev (\<lambda>n. name_of nextEv (\<lambda>n'.
             Ret (Late inotifyFd (evLen + int SIZEOF_EVENT + int (ev_len nextEv)))
               (rewriteCachedPaths (path (wlCache s1 ! i)) n (path (wlCache s1 ! j)) n' s1)))))"

definition on_moved_out :: "'k sys \<Rightarrow> int \<Rightarrow> inotify_event \<Rightarrow> nat option \<Rightarrow> int \<Rightarrow> int \<Rightarrow> bool \<Rightarrow>
    'k dstate \<Rightarrow> ('k dstate, handled) res" where
  "on_moved_out S inotifyFd ev evCacheSlot evLen bufSize firstTry s =
     slot_of evCacheSlot s (\<lambda>i. name_of ev (\<lambda>n.
       let s1 = logMessage VB_NOISY (msg [''MOVED_OUT: '', sys_ptrs S, nl]) s;
           s2 = logMessage VB_NOISY (msg [''firstTry = '', dec (if firstTry then 1 else 0),
                  ''; remaining bytes = '', dec (bufSize - evLen), nl]) s1;
           fullPath = snprintf (PATH_MAX + NAME_MAX) (path (wlCache s2 ! i) @ ''/'' @ n)
       in case zapSubtree S inotifyFd fullPath s2 of
            (None, s3) \<Rightarrow> resync S inotifyFd s3
          | (Some cnt, s3) \<Rightarrow> Ret (Late inotifyFd evLen) s3))"

text \<open>A hanging \<open>IN_MOVED_FROM\<close> returns \<open>-1\<close>, which the return type \<open>size_t\<close> turns into $2^{64} - 1$.\<close>

definition HANGING :: int where "HANGING = 2 ^ 64 - 1"

definition on_moved_from :: "'k sys \<Rightarrow> int \<Rightarrow> inotify_event \<Rightarrow> nat option \<Rightarrow> string \<Rightarrow> int \<Rightarrow> int \<Rightarrow> bool \<Rightarrow>
    'k dstate \<Rightarrow> ('k dstate, handled) res" where
  "on_moved_from S inotifyFd ev evCacheSlot buf bufSize evLen firstTry s =
     (if evLen < bufSize
      then case event_at (drop (nat evLen) buf) of
             None \<Rightarrow> Undef
           | Some nextEv \<Rightarrow>
               if has nextEv IN_MOVED_TO \<and> ev_cookie nextEv = ev_cookie ev
               then on_rename S inotifyFd ev evCacheSlot nextEv evLen s
               else on_moved_out S inotifyFd ev evCacheSlot evLen bufSize firstTry s
      else if \<not> firstTry then on_moved_out S inotifyFd ev evCacheSlot evLen bufSize firstTry s
      else Ret (Early inotifyFd HANGING) (logMessage VB_NOISY (msg [''HANGING IN_MOVED_FROM'', nl]) s))"

definition on_overflow :: "'k sys \<Rightarrow> int \<Rightarrow> 'k dstate \<Rightarrow> ('k dstate, handled) res" where
  "on_overflow S inotifyFd s =
     (let s1 = s\<lparr>overflowCnt := Suc (overflowCnt s)\<rparr>;
          s2 = logMessage 0 (msg [''Queue overflow ('', dec (int (overflowCnt s1)), '') (inotifyReadCnt = '',
                 dec (int (inotifyReadCnt s1)), '')'', nl]) s1
      in bindR (reinitialize S inotifyFd s2) (\<lambda>fd t. Ret (Late fd (int INOTIFY_READ_BUF_LEN)) t))"

definition on_unmount :: "int \<Rightarrow> nat option \<Rightarrow> int \<Rightarrow> 'k dstate \<Rightarrow> ('k dstate, handled) res" where
  "on_unmount inotifyFd evCacheSlot evLen s =
     slot_of evCacheSlot s (\<lambda>i.
       Ret (Late inotifyFd evLen)
         (markCacheSlotEmpty i (logMessage 0 (msg [''Filesystem unmounted: '', path (wlCache s ! i), nl]) s)))"

definition on_move_self :: "'k sys \<Rightarrow> int \<Rightarrow> nat option \<Rightarrow> int \<Rightarrow> 'k dstate \<Rightarrow> ('k dstate, handled) res" where
  "on_move_self S inotifyFd evCacheSlot evLen s =
     slot_of evCacheSlot s (\<lambda>i.
       let p = path (wlCache s ! i)
       in if isRootDirPath p s
          then bindR (zapRootDirPath p (logMessage 0 (msg [''Root path moved: '', p, nl]) s)) (\<lambda>_ s1.
                 case zapSubtree S inotifyFd (path (wlCache s1 ! i)) s1 of
                   (None, s2) \<Rightarrow> resync S inotifyFd s2
                 | (Some cnt, s2) \<Rightarrow> Ret (Late inotifyFd evLen) s2)
          else Ret (Late inotifyFd evLen) s)"

section \<open>The handler\<close>

definition dispatch :: "'k sys \<Rightarrow> int \<Rightarrow> inotify_event \<Rightarrow> nat option \<Rightarrow> string \<Rightarrow> int \<Rightarrow> bool \<Rightarrow>
    'k dstate \<Rightarrow> ('k dstate, handled) res" where
  "dispatch S inotifyFd ev evCacheSlot buf bufSize firstTry s =
     (let evLen = int SIZEOF_EVENT + int (ev_len ev)
      in if has ev IN_ISDIR \<and> has ev (IN_CREATE OR IN_MOVED_TO)
           then on_create S inotifyFd ev evCacheSlot evLen s
         else if has ev IN_DELETE_SELF then on_delete_self inotifyFd ev evCacheSlot evLen s
         else if ev_mask ev AND (IN_MOVED_FROM OR IN_ISDIR) = (IN_MOVED_FROM OR IN_ISDIR)
           then on_moved_from S inotifyFd ev evCacheSlot buf bufSize evLen firstTry s
         else if has ev IN_Q_OVERFLOW then on_overflow S inotifyFd s
         else if has ev IN_UNMOUNT then on_unmount inotifyFd evCacheSlot evLen s
         else if has ev IN_MOVE_SELF then on_move_self S inotifyFd evCacheSlot evLen s
         else Ret (Late inotifyFd evLen) s)"

definition finish :: "'k sys \<Rightarrow> handled \<Rightarrow> 'k dstate \<Rightarrow> ('k dstate, int \<times> int) res" where
  "finish S h s =
     (case h of
        Early fd n \<Rightarrow> Ret (fd, n) s
      | Late fd n \<Rightarrow>
          bindR (if checkCache s then checkCacheConsistency S s else Ret () s) (\<lambda>_ s1.
          bindR (if dumpCache s1 then dumpCacheToLog s1 else Ret () s1) (\<lambda>_ s2.
          Ret (fd, n) s2)))"

definition locate :: "'k sys \<Rightarrow> int \<Rightarrow> inotify_event \<Rightarrow> string \<Rightarrow> int \<Rightarrow> bool \<Rightarrow> 'k dstate \<Rightarrow>
    ('k dstate, handled) res" where
  "locate S inotifyFd ev buf bufSize firstTry s =
     (if ev_wd ev \<noteq> - 1 \<and> \<not> has ev IN_IGNORED
      then bindR (findWatchChecked S (ev_wd ev) s) (\<lambda>slot s1.
             case slot of
               None \<Rightarrow> resync S inotifyFd s1
             | Some i \<Rightarrow> dispatch S inotifyFd ev (Some i) buf bufSize firstTry s1)
      else dispatch S inotifyFd ev None buf bufSize firstTry s)"

definition processNextInotifyEvent :: "'k sys \<Rightarrow> int \<Rightarrow> string \<Rightarrow> int \<Rightarrow> bool \<Rightarrow> 'k dstate \<Rightarrow>
    ('k dstate, int \<times> int) res" where
  "processNextInotifyEvent S inotifyFd buf bufSize firstTry s =
     (case event_at buf of
        None \<Rightarrow> Undef
      | Some ev \<Rightarrow>
          bindR (displayInotifyEvent ev s) (\<lambda>_ s1.
          bindR (locate S inotifyFd ev buf bufSize firstTry s1) (finish S)))"

section \<open>The loop over a buffer\<close>

definition second_read :: "'k sys \<Rightarrow> int \<Rightarrow> string \<Rightarrow> int \<Rightarrow> nat \<Rightarrow> 'k dstate \<Rightarrow>
    ('k dstate, string \<times> int) res" where
  "second_read S inotifyFd buf numRead evp s =
     (let numRead1 = numRead - int evp;
          buf1 = take (nat numRead1) (drop evp buf) @ drop (nat numRead1) buf
      in case sys_read S inotifyFd (INOTIFY_READ_BUF_LEN - nat numRead1) (kern s) of
           (Inl errno, k) \<Rightarrow>
             if errno \<noteq> EINTR then errExit S ''read'' errno (s\<lparr>kern := k\<rparr>)
             else
               let s1 = s\<lparr>kern := k, inotifyReadCnt := Suc (inotifyReadCnt s)\<rparr>
               in Ret (buf1, numRead1 - 1)
                    (logMessage VB_NOISY (msg [nl, ''==========> SECONDARY Read '',
                       dec (int (inotifyReadCnt s1)), '': got '', dec (- 1), '' bytes'', nl]) s1)
         | (Inr bytes, k) \<Rightarrow>
             if bytes = []
             then Exit EXIT_FAILURE (to_stderr ''read() from inotify fd returned 0!'' (s\<lparr>kern := k\<rparr>))
             else if nat numRead1 + length bytes > INOTIFY_READ_BUF_LEN then Undef
             else
               let s1 = s\<lparr>kern := k, inotifyReadCnt := Suc (inotifyReadCnt s)\<rparr>
               in Ret (take (nat numRead1) buf1 @ bytes @ drop (nat numRead1 + length bytes) buf1,
                       numRead1 + int (length bytes))
                    (logMessage VB_NOISY (msg [nl, ''==========> SECONDARY Read '',
                       dec (int (inotifyReadCnt s1)), '': got '', dec (int (length bytes)), '' bytes'', nl]) s1))"

fun event_loop :: "nat \<Rightarrow> 'k sys \<Rightarrow> int \<Rightarrow> string \<Rightarrow> int \<Rightarrow> nat \<Rightarrow> bool \<Rightarrow> 'k dstate \<Rightarrow>
    ('k dstate, int) res option" where
  "event_loop 0 S inotifyFd buf numRead evp firstTry s = None"
| "event_loop (Suc n) S inotifyFd buf numRead evp firstTry s =
     (if \<not> int evp < numRead then Some (Ret inotifyFd s)
      else case processNextInotifyEvent S inotifyFd (drop evp buf) (numRead - int evp) firstTry s of
             Ret (fd, len) s1 \<Rightarrow>
               let evLen = to_int32 len
               in if 0 < evLen then event_loop n S fd buf numRead (evp + nat evLen) True s1
                  else (case second_read S fd buf numRead evp s1 of
                          Ret (buf1, numRead1) s2 \<Rightarrow> event_loop n S fd buf1 numRead1 0 False s2
                        | Exit st t \<Rightarrow> Some (Exit st t) | Abort t \<Rightarrow> Some (Abort t) | Undef \<Rightarrow> Some Undef)
           | Exit st t \<Rightarrow> Some (Exit st t) | Abort t \<Rightarrow> Some (Abort t) | Undef \<Rightarrow> Some Undef)"

definition processInotifyEvents :: "nat \<Rightarrow> 'k sys \<Rightarrow> int \<Rightarrow> 'k dstate \<Rightarrow> ('k dstate, int) res option" where
  "processInotifyEvents fuel S inotifyFd s =
     (let cnt = (if 0 < readBufferSize s then nat (readBufferSize s) else INOTIFY_READ_BUF_LEN)
      in case sys_read S inotifyFd cnt (kern s) of
           (Inl errno, k) \<Rightarrow> Some (errExit S ''read'' errno (s\<lparr>kern := k\<rparr>))
         | (Inr bytes, k) \<Rightarrow>
             if bytes = []
             then Some (Exit EXIT_FAILURE
                          (to_stderr ''read() from inotify fd returned 0!'' (s\<lparr>kern := k\<rparr>)))
             else if length bytes > INOTIFY_READ_BUF_LEN then Some Undef
             else
               let s1 = s\<lparr>kern := k, inotifyReadCnt := Suc (inotifyReadCnt s)\<rparr>;
                   s2 = logMessage VB_NOISY (msg [nl, ''==========> Read '', dec (int (inotifyReadCnt s1)),
                          '': got '', dec (int (length bytes)), '' bytes'', nl]) s1
               in event_loop fuel S inotifyFd bytes (int (length bytes)) 0 True s2)"

end
