(* ===== verification/DTree_Handler.thy ===== *)
theory DTree_Handler
  imports DTree_Events
begin

text \<open>
  The event handler of \<open>inotify_dtree.c\<close> keeps the cache and the root list well formed, and what
  it does on the abstract map for each kind of event.
\<close>

section \<open>The invariant\<close>

text \<open>The program runs only while there is a root directory to watch.\<close>

definition watching :: "'k dstate \<Rightarrow> bool" where
  "watching s = (roots_ok s \<and> live_roots s \<noteq> [])"

definition dtree_ok :: "'k dstate \<Rightarrow> bool" where
  "dtree_ok s = (cache_ok (wlCache s) \<and> watching s)"

lemma same_setup_ok: "same_setup s t \<Longrightarrow> watching t = watching s"
  by (simp add: same_setup_def watching_def roots_ok_def live_roots_def)

lemma same_setup_live: "same_setup s t \<Longrightarrow> live_roots t = live_roots s"
  by (simp add: same_setup_def live_roots_def)

lemma same_setup_is_root: "same_setup s t \<Longrightarrow> isRootDirPath p t = isRootDirPath p s"
  by (simp add: same_setup_def isRootDirPath_def findRootDirPath_def)

text \<open>\<open>same s t\<close>: the cache and the root list are those of \<open>s\<close>.\<close>

definition same :: "'k dstate \<Rightarrow> 'k dstate \<Rightarrow> bool" where
  "same s t = (wlCache t = wlCache s \<and> same_setup s t)"

lemma same_refl [simp]: "same s s"
  by (simp add: same_def)

lemma same_trans: "same s t \<Longrightarrow> same t u \<Longrightarrow> same s u"
  by (auto simp: same_def intro: same_setup_trans)

lemma same_ok: "same s t \<Longrightarrow> dtree_ok t = dtree_ok s"
  using same_setup_ok by (auto simp: same_def dtree_ok_def)

lemma same_output [simp]:
  "same s (logMessage v t u) = same s u" "same s (u\<lparr>kern := k\<rparr>) = same s u"
  "same s (u\<lparr>inotifyReadCnt := n\<rparr>) = same s u" "same s (u\<lparr>overflowCnt := n\<rparr>) = same s u"
  "same s (u\<lparr>logfp := l\<rparr>) = same s u" "same s (to_stderr t u) = same s u" "same s (to_stdout t u) = same s u"
  by (simp_all add: same_def same_setup_def to_stderr_def to_stdout_def)

lemma same_if [simp]: "same s (if c then t else u) = (if c then same s t else same s u)"
  by simp

lemma displayInotifyEvent_same: "post (\<lambda>_ t. same s t) (displayInotifyEvent ev s)"
proof -
  have f: "same s (fold (\<lambda>(m, t) u. if has ev m then logMessage VB_NOISY t u else u) xs u)"
    if "same s u" for xs u
    using that by (induction xs arbitrary: u) (auto split: if_splits)
  define u where "u = fold (\<lambda>(m, t) u. if has ev m then logMessage VB_NOISY t u else u) flag_texts
    (logMessage VB_NOISY ''mask = '' (if ev_cookie ev > 0
       then logMessage VB_NOISY (msg [''cookie = '', pad4 (dec (sint (ev_cookie ev))), ''; ''])
              (logMessage VB_NOISY (msg [''==> wd = '', dec (ev_wd ev), ''; '']) s)
       else logMessage VB_NOISY (msg [''==> wd = '', dec (ev_wd ev), ''; '']) s))"
  have "same s u" unfolding u_def by (rule f) simp
  then show ?thesis unfolding displayInotifyEvent_def Let_def u_def [symmetric] by (simp split: option.split)
qed

lemma check_slots_same: "post (\<lambda>_ t. same s t) (check_slots S j n ws s)"
proof -
  have "same s u \<Longrightarrow> post (\<lambda>_ t. same s t) (check_slots S j n ws u)" for u
    by (induction ws arbitrary: j n u) (auto split: sum.splits prod.splits)
  then show ?thesis by simp
qed

lemma finish_same: "post (\<lambda>_ t. same s t) (finish S h s)"
proof -
  have c: "post (\<lambda>_ t. same s t) (if checkCache s then checkCacheConsistency S s else Ret () s)"
    unfolding checkCacheConsistency_def post_bindR
    by (auto simp: post_bindR intro: post_mono [OF check_slots_same])
  have d: "post (\<lambda>_ t. same s t) (dumpCacheToLog u)" if "same s u" for u
    using that by (auto simp: dumpCacheToLog_def Let_def split: option.split)
  show ?thesis
  proof (cases h)
    case (Late fd n)
    have "post (\<lambda>_ t. same s t) (bindR (if dumpCache u then dumpCacheToLog u else Ret () u)
        (\<lambda>_ t. Ret (fd, n) t))" if "same s u" for u
      using d [OF that] that unfolding post_bindR by simp
    then show ?thesis unfolding finish_def Late handled.case post_bindR by (intro post_mono [OF c])
  qed (simp add: finish_def)
qed

lemma findWatchChecked_cases:
  obtains (found) i where "findWatch d s = Some i" "findWatchChecked S d s = Ret (Some i) s"
  | (lost) t where "findWatch d s = None" "findWatchChecked S d s = Ret None t" "same s t" "kern t = kern s"
  | (stop) "findWatch d s = None" "\<forall>a t. findWatchChecked S d s \<noteq> Ret a t" "abortOnCacheProblem s"
proof (cases "findWatch d s")
  case (Some i)
  then show ?thesis using found by (simp add: findWatchChecked_def)
next
  case None
  show ?thesis
  proof (cases "abortOnCacheProblem s")
    case True
    then have "findWatchChecked S d s \<noteq> Ret a t" for a t
      using None by (simp add: findWatchChecked_def createStopFileAndAbort_def bindR_Ret_iff Let_def)
    then show ?thesis using None True stop by simp
  next
    case False
    then show ?thesis using None lost by (simp add: findWatchChecked_def Let_def)
  qed
qed

text \<open>A rebuild gives a well-formed cache whatever state the old one was in.\<close>

lemma reinitialize_ok:
  assumes "kernel_ok S" "watching s"
  shows "post (\<lambda>_ t. dtree_ok t) (reinitialize S fd s)"
proof (rule postI)
  fix fd' t assume "reinitialize S fd s = Ret fd' t"
  with assms(1) obtain ds where "cache_ok (wlCache t)" "same_setup s t" by (rule reinitialize_Ret)
  with assms(2) show "dtree_ok t" using same_setup_ok by (auto simp: dtree_ok_def)
qed

lemma resync_ok: "kernel_ok S \<Longrightarrow> watching s \<Longrightarrow> post (\<lambda>_ t. dtree_ok t) (resync S fd s)"
  by (auto simp: resync_def post_bindR intro: reinitialize_ok)

lemma zapSubtree_ok:
  assumes "dtree_ok s" "zapSubtree S fd p s = (r, t)"
  shows "dtree_ok t"
  using assms(1) cache_ok_zapSubtree(1) [OF _ assms(2)]
    same_setup_ok [OF kern_frame_same_setup [OF zapSubtree_spec(1) [OF assms(2)]]]
  by (simp add: dtree_ok_def)

lemma zapRootDirPath_ok:
  assumes "dtree_ok s" "isRootDirPath p s"
  shows "post (\<lambda>_ t. dtree_ok t \<and> wlCache t = wlCache s) (zapRootDirPath p s)"
proof -
  have "roots_ok s" "p \<in> set (live_roots s)"
    using assms by (simp_all add: isRootDirPath_iff dtree_ok_def watching_def)
  then show ?thesis
    by (rule zapRootDirPath_cases) (use assms(1) in \<open>auto simp: dtree_ok_def watching_def\<close>)
qed

lemma markCacheSlotEmpty_ok:
  assumes "dtree_ok s"
  shows "dtree_ok (markCacheSlotEmpty i s)"
proof -
  have "list_all2 (\<lambda>w v. v = w \<or> v = free_slot) (wlCache s) (wlCache (markCacheSlotEmpty i s))"
    unfolding wlCache_markCacheSlotEmpty watch_reset list_all2_conv_all_nth
  proof (intro conjI allI impI)
    fix n assume "n < length (wlCache s)"
    then show "(wlCache s)[i := free_slot] ! n = wlCache s ! n \<or> (wlCache s)[i := free_slot] ! n = free_slot"
      by (cases "n = i") simp_all
  qed simp
  then have "cache_ok (wlCache (markCacheSlotEmpty i s))"
    using cache_freed assms by (auto simp: dtree_ok_def)
  then show ?thesis using assms same_setup_ok [OF frame_same_setup [OF frame_markCacheSlotEmpty, of s i]]
    by (simp add: dtree_ok_def)
qed

lemma watchSubtree_ok:
  assumes "kernel_ok S" "dtree_ok s"
  shows "post (\<lambda>_ t. dtree_ok t) (watchSubtree S fd p s)"
proof (rule postI)
  fix u t assume w: "watchSubtree S fd p s = Ret u t"
  obtain ds k where "subtree_adds S fd (\<lambda>p. watch_flags p s) p (kern s) = (ds, k)" by fastforce
  from watchSubtree_Ret [OF assms(1) w _ this] assms(2) have "cache_ok (wlCache t)" "same_setup s t"
    by (simp_all add: dtree_ok_def)
  with assms(2) show "dtree_ok t" using same_setup_ok by (auto simp: dtree_ok_def)
qed

lemma rewriteCachedPaths_ok:
  assumes "dtree_ok s"
  shows "dtree_ok (rewriteCachedPaths a b a' b' s)"
proof -
  have "watching (rewriteCachedPaths a b a' b' s) = watching s"
    by (rule same_setup_ok) (rule frame_same_setup [OF rewriteCachedPaths_spec(2) [OF refl refl]])
  then show ?thesis using assms dtree.ok_ren [of s a b a' b'] by (simp add: dtree_ok_def)
qed

lemmas step_ok = same_ok resync_ok zapSubtree_ok zapRootDirPath_ok markCacheSlotEmpty_ok watchSubtree_ok
  rewriteCachedPaths_ok reinitialize_ok

lemma ok_log [simp]: "dtree_ok (logMessage v t s) = dtree_ok s"
  by (rule same_ok) simp

lemma ok_watching: "dtree_ok s \<Longrightarrow> watching s"
  by (simp add: dtree_ok_def)

lemma slot_of_post: "(\<And>i. slot = Some i \<Longrightarrow> post Q (f i)) \<Longrightarrow> post Q (slot_of slot s f)"
  by (simp add: slot_of_def split: option.split)

lemma name_of_post: "(\<And>n. ev_name ev = Some n \<Longrightarrow> post Q (f n)) \<Longrightarrow> post Q (name_of ev f)"
  by (simp add: name_of_def split: option.split)

section \<open>Every branch keeps the invariant\<close>

lemma post_checked:
  assumes "\<And>i. findWatch d s = Some i \<Longrightarrow> post Q (f (Some i) s)"
    "\<And>t. findWatch d s = None \<Longrightarrow> same s t \<Longrightarrow> post Q (f None t)"
  shows "post Q (bindR (findWatchChecked S d s) f)"
proof (cases rule: findWatchChecked_cases [of d s S])
  case stop
  then show ?thesis by (cases "findWatchChecked S d s") auto
qed (use assms in auto)

lemma zap_root_mark_ok:
  assumes "dtree_ok s" "isRootDirPath p s"
  shows "post (\<lambda>_ t. dtree_ok (markCacheSlotEmpty i t)) (zapRootDirPath p s)"
  by (rule post_mono [OF zapRootDirPath_ok [OF assms]]) (simp add: markCacheSlotEmpty_ok)

lemma zap_or_resync_ok:
  assumes "kernel_ok S" "dtree_ok s"
  shows "post (\<lambda>_ t. dtree_ok t)
    (case zapSubtree S fd p s of (None, t) \<Rightarrow> resync S fd' t | (Some cnt, t) \<Rightarrow> Ret h t)"
proof -
  obtain r t where z: "zapSubtree S fd p s = (r, t)" by fastforce
  have "dtree_ok t" using zapSubtree_ok [OF assms(2) z] .
  then show ?thesis using assms(1) z by (cases r) (simp_all add: resync_ok ok_watching)
qed

lemma on_create_ok:
  assumes "kernel_ok S" "dtree_ok s"
  shows "post (\<lambda>_ t. dtree_ok t) (on_create S fd ev slot n s)"
  unfolding on_create_def Let_def
  by (intro slot_of_post name_of_post) (simp add: post_bindR watchSubtree_ok assms)

lemma on_delete_self_ok:
  assumes "dtree_ok s"
  shows "post (\<lambda>_ t. dtree_ok t) (on_delete_self fd ev slot n s)"
  unfolding on_delete_self_def Let_def
  by (intro slot_of_post) (simp add: post_bindR markCacheSlotEmpty_ok zap_root_mark_ok assms)

lemma on_rename_ok:
  assumes "kernel_ok S" "dtree_ok s"
  shows "post (\<lambda>_ t. dtree_ok t) (on_rename S fd ev slot nxt n s)"
  unfolding on_rename_def
proof (rule post_checked)
  fix t assume "same s t"
  then have "watching t" using assms(2) same_ok ok_watching by blast
  then show "post (\<lambda>_ t. dtree_ok t) (case None of None \<Rightarrow> resync S fd t
      | Some j \<Rightarrow> slot_of slot t (\<lambda>i. name_of ev (\<lambda>a. name_of nxt (\<lambda>b.
          Ret (Late fd (n + int SIZEOF_EVENT + int (ev_len nxt)))
            (rewriteCachedPaths (path (wlCache t ! i)) a (path (wlCache t ! j)) b t)))))"
    using assms(1) by (simp add: resync_ok)
qed (use assms(2) in \<open>auto intro!: slot_of_post name_of_post rewriteCachedPaths_ok\<close>)

lemma on_moved_out_ok:
  assumes "kernel_ok S" "dtree_ok s"
  shows "post (\<lambda>_ t. dtree_ok t) (on_moved_out S fd ev slot n sz ft s)"
  unfolding on_moved_out_def Let_def
  by (intro slot_of_post name_of_post zap_or_resync_ok) (simp_all add: assms)

lemma on_moved_from_ok:
  assumes "kernel_ok S" "dtree_ok s"
  shows "post (\<lambda>_ t. dtree_ok t) (on_moved_from S fd ev slot buf sz n ft s)"
  unfolding on_moved_from_def
  by (simp add: on_rename_ok on_moved_out_ok assms split: option.split)

lemma on_overflow_ok:
  assumes "kernel_ok S" "dtree_ok s"
  shows "post (\<lambda>_ t. dtree_ok t) (on_overflow S fd s)"
proof -
  have "watching (logMessage v m (s\<lparr>overflowCnt := n\<rparr>))" for v m n
    using assms(2) by (simp add: dtree_ok_def watching_def roots_ok_def live_roots_def)
  then show ?thesis using assms(1) by (simp add: on_overflow_def post_bindR reinitialize_ok Let_def)
qed

lemma on_unmount_ok: "dtree_ok s \<Longrightarrow> post (\<lambda>_ t. dtree_ok t) (on_unmount fd slot n s)"
  unfolding on_unmount_def by (intro slot_of_post) (simp add: markCacheSlotEmpty_ok)

lemma on_move_self_ok:
  assumes "kernel_ok S" "dtree_ok s"
  shows "post (\<lambda>_ t. dtree_ok t) (on_move_self S fd slot n s)"
  unfolding on_move_self_def Let_def
proof (intro slot_of_post)
  fix i
  let ?u = "logMessage 0 (msg [''Root path moved: '', path (wlCache s ! i), nl]) s"
  have "isRootDirPath (path (wlCache s ! i)) ?u = isRootDirPath (path (wlCache s ! i)) s"
    by (rule same_setup_is_root) (simp add: same_setup_def)
  then have "post (\<lambda>_ t. dtree_ok t) (zapRootDirPath (path (wlCache s ! i)) ?u)"
    if "isRootDirPath (path (wlCache s ! i)) s"
    using post_mono [OF zapRootDirPath_ok [of ?u "path (wlCache s ! i)"]] that assms(2) by simp
  then show "post (\<lambda>_ t. dtree_ok t)
    (if isRootDirPath (path (wlCache s ! i)) s
     then bindR (zapRootDirPath (path (wlCache s ! i)) ?u) (\<lambda>_ s1.
            case zapSubtree S fd (path (wlCache s1 ! i)) s1 of (None, s2) \<Rightarrow> resync S fd s2
            | (Some cnt, s2) \<Rightarrow> Ret (Late fd n) s2)
     else Ret (Late fd n) s)"
    using assms by (auto simp: post_bindR intro: post_mono zap_or_resync_ok)
qed

lemma dispatch_ok:
  assumes "kernel_ok S" "dtree_ok s"
  shows "post (\<lambda>_ t. dtree_ok t) (dispatch S fd ev slot buf sz ft s)"
  unfolding dispatch_def Let_def
  by (simp add: assms on_create_ok on_delete_self_ok on_moved_from_ok on_overflow_ok on_unmount_ok on_move_self_ok)

lemma locate_ok:
  assumes "kernel_ok S" "dtree_ok s"
  shows "post (\<lambda>_ t. dtree_ok t) (locate S fd ev buf sz ft s)"
proof -
  have "post (\<lambda>_ t. dtree_ok t) (bindR (findWatchChecked S (ev_wd ev) s) (\<lambda>slot s1. case slot of
      None \<Rightarrow> resync S fd s1 | Some i \<Rightarrow> dispatch S fd ev (Some i) buf sz ft s1))"
    by (rule post_checked) (use assms in \<open>auto simp: dispatch_ok same_ok ok_watching resync_ok\<close>)
  then show ?thesis by (simp add: locate_def dispatch_ok assms)
qed

lemma processNextInotifyEvent_keeps_ok:
  assumes "kernel_ok S" "dtree_ok s"
  shows "post (\<lambda>_ t. dtree_ok t) (processNextInotifyEvent S fd buf sz ft s)"
proof -
  have f: "dtree_ok t \<Longrightarrow> post (\<lambda>_ u. dtree_ok u) (finish S h t)" for h t
    by (rule post_mono [OF finish_same]) (simp add: same_ok)
  have "post (\<lambda>_ u. dtree_ok u) (bindR (locate S fd ev buf sz ft t) (finish S))" if "same s t" for ev t
    unfolding post_bindR using that assms by (intro post_mono [OF locate_ok] f) (simp_all add: same_ok)
  then have "post (\<lambda>_ u. dtree_ok u) (bindR (displayInotifyEvent ev s) (\<lambda>_ s1.
      bindR (locate S fd ev buf sz ft s1) (finish S)))" for ev
    unfolding post_bindR [of _ "displayInotifyEvent ev s"] by (intro post_mono [OF displayInotifyEvent_same])
  then show ?thesis by (simp add: processNextInotifyEvent_def split: option.split)
qed

end
