(* ===== verification/DTree_Effects.thy ===== *)
theory DTree_Effects
  imports DTree_Handler
begin

text \<open>
  The effect of each kind of event on the cache of \<open>inotify_dtree.c\<close>, from the bytes in the read
  buffer to the abstract map, and the loop over a whole buffer.
\<close>

section \<open>From the handler to its branches\<close>

definition readable :: "inotify_event \<Rightarrow> bool" where
  "readable ev = (0 < ev_len ev \<longrightarrow> ev_name ev \<noteq> None)"

definition plain :: "'k dstate \<Rightarrow> bool" where
  "plain s = (\<not> checkCache s \<and> \<not> dumpCache s)"

lemma displayInotifyEvent_Ret:
  assumes "readable ev"
  shows "\<exists>t. displayInotifyEvent ev s = Ret () t \<and> frame s t \<and> wlCache t = wlCache s"
proof -
  have f: "frame s (fold (\<lambda>(m, t) u. if has ev m then logMessage VB_NOISY t u else u) xs u) \<and>
      wlCache (fold (\<lambda>(m, t) u. if has ev m then logMessage VB_NOISY t u else u) xs u) = wlCache s"
    if "frame s u" "wlCache u = wlCache s" for xs u
    using that
  proof (induction xs arbitrary: u)
    case (Cons x xs)
    have "frame s (logMessage VB_NOISY (snd x) u)" using Cons.prems(1) frame_trans frame_logMessage by blast
    then show ?case using Cons by (cases x) simp
  qed simp
  define u where "u = (if ev_cookie ev > 0
       then logMessage VB_NOISY (msg [''cookie = '', pad4 (dec (sint (ev_cookie ev))), ''; ''])
              (logMessage VB_NOISY (msg [''==> wd = '', dec (ev_wd ev), ''; '']) s)
       else logMessage VB_NOISY (msg [''==> wd = '', dec (ev_wd ev), ''; '']) s)"
  have u: "frame s u" "wlCache u = wlCache s" by (auto simp: u_def intro: frame_trans [OF _ frame_logMessage])
  define v where "v = fold (\<lambda>(m, t) u. if has ev m then logMessage VB_NOISY t u else u) flag_texts
    (logMessage VB_NOISY ''mask = '' u)"
  have v: "frame s v \<and> wlCache v = wlCache s"
    unfolding v_def by (rule f) (use u frame_trans [OF u(1) frame_logMessage] in auto)
  show ?thesis using assms v frame_trans [OF _ frame_logMessage]
    unfolding displayInotifyEvent_def Let_def u_def [symmetric] v_def [symmetric] readable_def
    by (auto split: option.split)
qed

lemma frame_same: "frame s t \<Longrightarrow> wlCache t = wlCache s \<Longrightarrow> same s t"
  by (simp add: same_def frame_same_setup)

lemma frame_abort: "frame s t \<Longrightarrow> abortOnCacheProblem t = abortOnCacheProblem s"
  by (simp add: frame_def)

lemma handler_found:
  assumes "event_at buf = Some ev" "readable ev" "dtree_ok s" "0 \<le> ev_wd ev" "\<not> has ev IN_IGNORED"
    "cache_map (wlCache s) (ev_wd ev) = Some p"
  obtains i u where "processNextInotifyEvent S fd buf sz ft s =
      bindR (dispatch S fd ev (Some i) buf sz ft u) (finish S)"
    "findWatch (ev_wd ev) u = Some i" "path (wlCache u ! i) = p" "frame s u" "wlCache u = wlCache s"
proof -
  obtain u where u: "displayInotifyEvent ev s = Ret () u" "frame s u" "wlCache u = wlCache s"
    using displayInotifyEvent_Ret [OF assms(2)] by blast
  have ok: "cache_ok (wlCache u)" using assms(3) u(3) by (simp add: dtree_ok_def)
  obtain i where i: "findWatch (ev_wd ev) u = Some i"
    using findWatch_None [OF assms(4), of u] assms(6) u(3) by fastforce
  have "path (wlCache u ! i) = p" using findWatch_Some(4) [OF ok assms(4) i] assms(6) u(3) by simp
  moreover have "processNextInotifyEvent S fd buf sz ft s =
      bindR (dispatch S fd ev (Some i) buf sz ft u) (finish S)"
    using assms(1,4,5) u(1) i by (simp add: processNextInotifyEvent_def locate_def findWatchChecked_def)
  ultimately show ?thesis using that i u by blast
qed

lemma finish_late: "plain t \<Longrightarrow> finish S (Late fd n) t = Ret (fd, n) t"
  by (simp add: finish_def plain_def)

lemma plain_same: "same_setup s t \<Longrightarrow> plain t = plain s"
  by (simp add: plain_def same_setup_def)

section \<open>The effect of an event\<close>

definition is_created :: "inotify_event \<Rightarrow> bool" where
  "is_created ev = (has ev IN_ISDIR \<and> has ev (IN_CREATE OR IN_MOVED_TO) \<and> \<not> has ev IN_IGNORED)"

definition is_deleted :: "inotify_event \<Rightarrow> bool" where
  "is_deleted ev = (has ev IN_DELETE_SELF \<and> \<not> has ev (IN_CREATE OR IN_MOVED_TO) \<and> \<not> has ev IN_IGNORED)"

definition is_moved_from :: "inotify_event \<Rightarrow> bool" where
  "is_moved_from ev = (ev_mask ev AND (IN_MOVED_FROM OR IN_ISDIR) = (IN_MOVED_FROM OR IN_ISDIR) \<and>
     \<not> has ev (IN_CREATE OR IN_MOVED_TO) \<and> \<not> has ev IN_DELETE_SELF \<and> \<not> has ev IN_IGNORED)"

lemmas kinds = is_created_def is_deleted_def is_moved_from_def

definition event_len :: "inotify_event \<Rightarrow> nat" where
  "event_len ev = SIZEOF_EVENT + ev_len ev"

lemma readable_name: "ev_name ev = Some n \<Longrightarrow> readable ev"
  by (simp add: readable_def)

lemma same_cases: "same s t \<Longrightarrow> wlCache t = wlCache s" "same s t \<Longrightarrow> same_setup s t"
  by (simp_all add: same_def)

text \<open>The slot of a descriptor, and what clearing it does.\<close>

lemma event_deleted_lemma:
  assumes "event_at buf = Some ev" "readable ev" "is_deleted ev" "dtree_ok s" "plain s" "0 \<le> ev_wd ev"
    "cache_map (wlCache s) (ev_wd ev) = Some p" "p \<notin> set (live_roots s)"
  shows "\<exists>t. processNextInotifyEvent S fd buf sz ft s = Ret (fd, int (event_len ev)) t \<and>
    cache_map (wlCache t) = (cache_map (wlCache s))(ev_wd ev := None) \<and> live_roots t = live_roots s \<and> kern t = kern s"
proof -
  have ign: "\<not> has ev IN_IGNORED" using assms(3) by (simp add: kinds)
  obtain i u where h: "processNextInotifyEvent S fd buf sz ft s =
      bindR (dispatch S fd ev (Some i) buf sz ft u) (finish S)"
    "findWatch (ev_wd ev) u = Some i" "path (wlCache u ! i) = p" and u: "frame s u" "wlCache u = wlCache s"
    by (rule handler_found [OF assms(1,2,4,6) ign assms(7), where S = S and fd = fd and sz = sz and ft = ft])
  let ?l = "logMessage VB_BASIC (msg [''Clearing watchlist item '', dec (ev_wd ev), '' ('', p, '')'', nl]) u"
  define t where "t = markCacheSlotEmpty i ?l"
  have fr: "frame s t" unfolding t_def
    using frame_trans [OF frame_trans [OF u(1) frame_logMessage] frame_markCacheSlotEmpty] .
  have "live_roots ?l = live_roots s"
    using same_setup_live [OF frame_same_setup [OF frame_trans [OF u(1) frame_logMessage]]] .
  then have nr: "\<not> isRootDirPath p ?l" using assms(8) by (simp add: isRootDirPath_iff)
  have "dispatch S fd ev (Some i) buf sz ft u = Ret (Late fd (int (event_len ev))) t"
    using assms(3) h(3) nr
    by (simp add: dispatch_def kinds on_delete_self_def slot_of_def t_def event_len_def Let_def)
  moreover have "plain t" using assms(5) plain_same [OF frame_same_setup [OF fr]] by simp
  ultimately have r: "processNextInotifyEvent S fd buf sz ft s = Ret (fd, int (event_len ev)) t"
    using h(1) by (simp add: finish_late)
  have "cache_map (wlCache t) = (cache_map (wlCache s))(ev_wd ev := None)"
  proof -
    have "wlCache t = wlCache (markCacheSlotEmpty i u)"
      by (simp only: t_def wlCache_markCacheSlotEmpty logMessage_fields)
    moreover have "cache_ok (wlCache u)" using assms(4) u(2) by (simp add: dtree_ok_def)
    ultimately show ?thesis using cache.lookup_clear [OF _ assms(6) h(2)] u(2) by simp
  qed
  moreover have "live_roots t = live_roots s" "kern t = kern s"
    using same_setup_live [OF frame_same_setup [OF fr]] frame_fields(4) [OF fr] by simp_all
  ultimately show ?thesis using r by blast
qed

lemma event_renamed_lemma:
  assumes "event_at buf = Some ev" "ev_name ev = Some n" "is_moved_from ev" "dtree_ok s" "plain s" "0 \<le> ev_wd ev"
    "cache_map (wlCache s) (ev_wd ev) = Some p"
    and nxt: "int (event_len ev) < sz" "event_at (drop (event_len ev) buf) = Some nxt" "has nxt IN_MOVED_TO"
      "ev_cookie nxt = ev_cookie ev" "0 \<le> ev_wd nxt" "cache_map (wlCache s) (ev_wd nxt) = Some q"
      "ev_name nxt = Some n'"
    and len: "length (full p n) < PATH_MAX" "length (full q n') < PATH_MAX"
      "fits (full p n) (full q n') (cache_map (wlCache s))"
  shows "\<exists>t. processNextInotifyEvent S fd buf sz ft s = Ret (fd, int (event_len ev + event_len nxt)) t \<and>
    cache_map (wlCache t) = renamed (full p n) (full q n') (cache_map (wlCache s)) \<and>
    live_roots t = live_roots s \<and> kern t = kern s"
proof -
  have ign: "\<not> has ev IN_IGNORED" using assms(3) by (simp add: kinds)
  obtain i u where h: "processNextInotifyEvent S fd buf sz ft s =
      bindR (dispatch S fd ev (Some i) buf sz ft u) (finish S)"
    "findWatch (ev_wd ev) u = Some i" "path (wlCache u ! i) = p" and u: "frame s u" "wlCache u = wlCache s"
    by (rule handler_found [OF assms(1) readable_name [OF assms(2)] assms(4,6) ign assms(7),
          where S = S and fd = fd and sz = sz and ft = ft])
  have ok: "cache_ok (wlCache u)" using assms(4) u(2) by (simp add: dtree_ok_def)
  obtain j where j: "findWatch (ev_wd nxt) u = Some j"
    using findWatch_None [OF nxt(5), of u] nxt(6) u(2) by fastforce
  have q: "path (wlCache u ! j) = q" using findWatch_Some(4) [OF ok nxt(5) j] nxt(6) u(2) by simp
  define t where "t = rewriteCachedPaths p n q n' u"
  have fr: "frame s t" unfolding t_def using frame_trans [OF u(1) rewriteCachedPaths_spec(2) [OF refl refl]] .
  have "dispatch S fd ev (Some i) buf sz ft u = Ret (Late fd (int (event_len ev + event_len nxt))) t"
    using assms(2,3) h(3) nxt j q
    by (simp add: dispatch_def kinds on_moved_from_def on_rename_def slot_of_def name_of_def t_def event_len_def
        findWatchChecked_def nat_add_distrib Let_def)
  moreover have "plain t" using assms(5) plain_same [OF frame_same_setup [OF fr]] by simp
  ultimately have r: "processNextInotifyEvent S fd buf sz ft s = Ret (fd, int (event_len ev + event_len nxt)) t"
    using h(1) by (simp add: finish_late)
  have "cache_map (wlCache t) = renamed (full p n) (full q n') (cache_map (wlCache s))"
    unfolding t_def u(2) [symmetric] by (rule dtree.lookup_ren) (use ok len u(2) in simp_all)
  moreover have "live_roots t = live_roots s" "kern t = kern s"
    using same_setup_live [OF frame_same_setup [OF fr]] frame_fields(4) [OF fr] by simp_all
  ultimately show ?thesis using r by blast
qed

lemma zap_slots_total:
  assumes "\<And>fd d k. fst (sys_rm_watch S fd d k) = None"
  shows "fst (zap_slots S fd pn is cnt s) \<noteq> None"
proof (induction "is" arbitrary: cnt s)
  case (Cons i "is")
  show ?case
  proof (cases "selected pn (wlCache s ! i)")
    case True
    obtain k where "sys_rm_watch S fd (wd (wlCache s ! i)) (kern s) = (None, k)"
      using assms by (metis prod.collapse)
    then show ?thesis using Cons by (simp add: zap_slots_selected [OF True])
  qed (simp add: zap_slots_unselected Cons)
qed simp

lemma zapSubtree_total:
  assumes "\<And>fd d k. fst (sys_rm_watch S fd d k) = None"
  obtains cnt t where "zapSubtree S fd pn s = (Some cnt, t)"
  using zap_slots_total [OF assms, where fd = fd and pn = pn] unfolding zapSubtree_def Let_def
  by (metis not_None_eq prod.collapse)

text \<open>When is a \<open>IN_MOVED_FROM\<close> taken as a move out of the tree.\<close>

definition unmatched :: "string \<Rightarrow> int \<Rightarrow> bool \<Rightarrow> inotify_event \<Rightarrow> bool" where
  "unmatched buf sz ft ev =
     (if int (event_len ev) < sz
      then (case event_at (drop (event_len ev) buf) of
              None \<Rightarrow> False | Some nxt \<Rightarrow> \<not> (has nxt IN_MOVED_TO \<and> ev_cookie nxt = ev_cookie ev))
      else \<not> ft)"

text \<open>
  A kernel with resources left: inotify_init(2) succeeds and inotify_add_watch(2) fails only for a
  directory that is gone.
\<close>

definition kernel_up :: "'k sys \<Rightarrow> bool" where
  "kernel_up S =
     ((\<forall>k. \<exists>fd k'. sys_inotify_init S k = (Inr fd, k')) \<and>
      (\<forall>fd p fl k e k'. sys_add_watch S fd p fl k = (Inl e, k') \<longrightarrow> e = ENOENT))"

lemma walk_total:
  assumes "kernel_up S"
  shows "\<exists>t. walk S es s = Ret () t"
proof (induction es arbitrary: s)
  case (Cons e es)
  obtain p sb where e: "e = (p, sb)" by (cases e)
  obtain r k where a: "sys_add_watch S (ifd s) p (watch_flags p s) (kern s) = (r, k)" by fastforce
  have "r = Inl x \<Longrightarrow> x = ENOENT" for x using a assms unfolding kernel_up_def by blast
  with a have "\<exists>u. traverseTree S p sb s = Ret () u"
    by (cases r) (auto simp: traverseTree_def Let_def split: prod.split)
  with Cons.IH e show ?case by auto
qed simp

lemma watchSubtree_total:
  assumes "kernel_up S"
  shows "\<exists>t. watchSubtree S fd p s = Ret () t"
proof -
  obtain es f k where n: "sys_nftw S p (kern s) = (es, f, k)" by (metis prod_cases3)
  obtain u where "walk S es (s\<lparr>dirCnt := 0, ifd := fd, kern := k\<rparr>) = Ret () u"
    using walk_total [OF assms] by blast
  with n show ?thesis by (simp add: watchSubtree_def watchDir_def)
qed

lemma watch_roots_total:
  assumes "kernel_up S"
  shows "\<exists>t. watch_roots S fd rs s = Ret () t"
proof (induction rs arbitrary: s)
  case (Cons r rs)
  show ?case
  proof (cases r)
    case (Some p)
    obtain u where "watchSubtree S fd p s = Ret () u" using watchSubtree_total [OF assms] by blast
    with Some Cons.IH show ?thesis by simp
  qed (simp add: Cons.IH)
qed simp

lemma reinitialize_total:
  assumes "kernel_up S"
  shows "\<exists>fd' t. reinitialize S fd s = Ret fd' t"
proof -
  define u where "u = (if 0 \<le> fd then
      let s0 = s\<lparr>kern := sys_close S fd (kern s), reinitCnt := Suc (reinitCnt s)\<rparr>
      in logMessage 0 (msg [''Reinitializing cache and inotify FD (reinitCnt = '',
           dec (int (reinitCnt s0)), '')'', nl]) s0
    else (logMessage 0 (msg [''Initializing cache'', nl]) s)\<lparr>reinitCnt := 0\<rparr>)"
  obtain fd' k where i: "sys_inotify_init S (kern u) = (Inr fd', k)" using assms unfolding kernel_up_def by blast
  define v where "v = freeCache (logMessage VB_BASIC (msg [''    new inotifyFd = '', dec fd', nl]) (u\<lparr>kern := k\<rparr>))"
  obtain w where "watch_roots S fd' (rootDirPaths v) v = Ret () w" using watch_roots_total [OF assms] by blast
  with i show ?thesis by (simp add: reinitialize_def u_def [symmetric] v_def [symmetric] Let_def)
qed

lemma event_created_lemma:
  assumes "event_at buf = Some ev" "ev_name ev = Some n" "is_created ev" "dtree_ok s" "plain s" "0 \<le> ev_wd ev"
    "cache_map (wlCache s) (ev_wd ev) = Some p" "length (full p n) < PATH_MAX" "kernel_ok S" "kernel_up S"
    "subtree_adds S fd (\<lambda>q. watch_flags q s) (full p n) (kern s) = (ds, k)"
  shows "\<exists>t. processNextInotifyEvent S fd buf sz ft s = Ret (fd, int (event_len ev)) t \<and>
    cache_map (wlCache t) = (if full p n \<in> ran (cache_map (wlCache s)) then cache_map (wlCache s)
      else map_of ds ++ cache_map (wlCache s)) \<and> live_roots t = live_roots s"
proof -
  have ign: "\<not> has ev IN_IGNORED" using assms(3) by (simp add: kinds)
  obtain i u where h: "processNextInotifyEvent S fd buf sz ft s =
      bindR (dispatch S fd ev (Some i) buf sz ft u) (finish S)"
    "findWatch (ev_wd ev) u = Some i" "path (wlCache u ! i) = p" and u: "frame s u" "wlCache u = wlCache s"
    by (rule handler_found [OF assms(1) readable_name [OF assms(2)] assms(4,6) ign assms(7),
          where S = S and fd = fd and sz = sz and ft = ft])
  define v where "v = logMessage VB_BASIC (msg [''Directory creation on wd '', dec (ev_wd ev), '': '', full p n, nl]) u"
  have v: "frame s v" "wlCache v = wlCache s" unfolding v_def
    using frame_trans [OF u(1) frame_logMessage] u(2) by simp_all
  have ok: "cache_ok (wlCache v)" using assms(4) v(2) by (simp add: dtree_ok_def)
  have inc: "pathnameInCache (full p n) v \<longleftrightarrow> full p n \<in> ran (cache_map (wlCache s))"
    using pathnameInCache_iff [OF ok, of "full p n"] v(2) by simp
  obtain w where w: "watchSubtree S fd (full p n) v = Ret () w" using watchSubtree_total [OF assms(10)] by blast
  have "(\<lambda>q. watch_flags q v) = (\<lambda>q. watch_flags q s)" "kern v = kern s"
    using watch_flags_same_setup [OF frame_same_setup [OF v(1)]] frame_fields(4) [OF v(1)] by auto
  with assms(11) have "subtree_adds S fd (\<lambda>q. watch_flags q v) (full p n) (kern v) = (ds, k)" by simp
  note ws = watchSubtree_Ret [OF assms(9) w ok this]
  define t where "t = (if full p n \<in> ran (cache_map (wlCache s)) then v else w)"
  have st: "same_setup s t"
    using frame_same_setup [OF v(1)] same_setup_trans [of s v w] ws by (simp add: t_def)
  have "snprintf (PATH_MAX + NAME_MAX) (full p n) = full p n" using assms(8) by (simp add: snprintf_def)
  then have "dispatch S fd ev (Some i) buf sz ft u = Ret (Late fd (int (event_len ev))) t"
    using assms(2,3) h(3) inc w
    by (simp add: dispatch_def kinds on_create_def slot_of_def name_of_def event_len_def v_def t_def Let_def)
  moreover have "plain t" using assms(5) plain_same [OF st] by simp
  ultimately have "processNextInotifyEvent S fd buf sz ft s = Ret (fd, int (event_len ev)) t"
    using h(1) by (simp add: finish_late)
  then show ?thesis using same_setup_live [OF st] ws v(2) by (auto simp: t_def)
qed

section \<open>Rebuilding the cache\<close>

text \<open>
  What a rebuild leaves: a new inotify instance, and in the cache exactly what the walks of the remaining
  root directories register with it. \<open>k\<close> is the state of the kernel when the rebuild starts.
\<close>

definition rebuilt :: "'k sys \<Rightarrow> int \<Rightarrow> 'k \<Rightarrow> 'k dstate \<Rightarrow> int \<Rightarrow> 'k dstate \<Rightarrow> bool" where
  "rebuilt S fd k s fd' t =
     (case sys_inotify_init S (if 0 \<le> fd then sys_close S fd k else k) of
        (Inl e, k1) \<Rightarrow> False
      | (Inr new, k1) \<Rightarrow>
          new = fd' \<and>
          (case roots_adds S fd' (\<lambda>p. watch_flags p s) (live_roots s) k1 of
             (ds, k2) \<Rightarrow> kern t = k2 \<and> cache_map (wlCache t) = map_of ds \<and> live_roots t = live_roots s))"

definition ends_well :: "('s, 'a) res \<Rightarrow> bool" where
  "ends_well r = (case r of Ret x t \<Rightarrow> True | Exit st t \<Rightarrow> st = EXIT_FAILURE | Abort t \<Rightarrow> False | Undef \<Rightarrow> False)"

lemma ends_well_simps [simp]:
  "ends_well (Ret x t)" "ends_well (Exit st t) = (st = EXIT_FAILURE)" "\<not> ends_well (Abort t)" "\<not> ends_well Undef"
  by (simp_all add: ends_well_def)

lemma ends_well_bindR: "ends_well r \<Longrightarrow> (\<And>x t. ends_well (f x t)) \<Longrightarrow> ends_well (bindR r f)"
  by (cases r) auto

lemma ends_well_walk: "ends_well (walk S es s)"
proof (induction es arbitrary: s)
  case (Cons e es)
  have "ends_well (traverseTree S (fst e) (snd e) s)"
    by (auto simp: traverseTree_def Let_def split: sum.split prod.split)
  with Cons.IH show ?case by (cases e) (auto intro: ends_well_bindR)
qed simp

lemma ends_well_watch_roots: "ends_well (watch_roots S fd rs s)"
proof (induction rs arbitrary: s)
  case (Cons r rs)
  have "ends_well (watchSubtree S fd p s)" for p s
    by (auto simp: watchSubtree_def watchDir_def Let_def intro!: ends_well_bindR ends_well_walk split: prod.split)
  with Cons.IH show ?case by (cases r) (auto intro: ends_well_bindR)
qed simp

lemma ends_well_reinitialize: "ends_well (reinitialize S fd s)"
  by (auto simp: reinitialize_def errExit_def Let_def intro!: ends_well_bindR ends_well_watch_roots split: sum.split prod.split)

lemma rebuilt_setup:
  assumes "same_setup s v"
  shows "rebuilt S fd k v fd' t = rebuilt S fd k s fd' t"
proof -
  have "(\<lambda>p. watch_flags p v) = (\<lambda>p. watch_flags p s)" "live_roots v = live_roots s"
    using watch_flags_same_setup [OF assms] same_setup_live [OF assms] by auto
  then show ?thesis by (simp only: rebuilt_def)
qed

lemma reinitialize_outcome:
  assumes "kernel_ok S" "same_setup s v"
  shows "case reinitialize S fd v of
      Ret fd' t \<Rightarrow> rebuilt S fd (kern v) s fd' t
    | Exit st t \<Rightarrow> \<not> kernel_up S \<and> st = EXIT_FAILURE
    | Abort t \<Rightarrow> False | Undef \<Rightarrow> False"
proof (cases "reinitialize S fd v")
  case (Ret fd' t)
  with assms(1) obtain k1 ds where
    "sys_inotify_init S (if 0 \<le> fd then sys_close S fd (kern v) else kern v) = (Inr fd', k1)"
    "roots_adds S fd' (\<lambda>p. watch_flags p v) (live_roots v) k1 = (ds, kern t)"
    "cache_map (wlCache t) = map_of ds" "same_setup v t" by (rule reinitialize_Ret)
  then have "rebuilt S fd (kern v) v fd' t" using same_setup_live [of v t] by (simp add: rebuilt_def)
  then show ?thesis using Ret rebuilt_setup [OF assms(2)] by simp
next
  case (Exit st t)
  then show ?thesis using ends_well_reinitialize [of S fd v] reinitialize_total [of S fd v] by auto
qed (use ends_well_reinitialize [of S fd v] in auto)

lemma bindR_createStopFileAndAbort: "bindR (createStopFileAndAbort S v) f = createStopFileAndAbort S v"
  by (auto simp: createStopFileAndAbort_def dumpCacheToLog_def Let_def split: option.split)

lemma event_lost_lemma:
  assumes "event_at buf = Some ev" "readable ev" "\<not> has ev IN_IGNORED" "0 \<le> ev_wd ev"
    "cache_map (wlCache s) (ev_wd ev) = None" "kernel_ok S"
  shows "case processNextInotifyEvent S fd buf sz ft s of
      Ret (fd', n) t \<Rightarrow> \<not> abortOnCacheProblem s \<and> n = int INOTIFY_READ_BUF_LEN \<and> rebuilt S fd (kern s) s fd' t
    | Exit st t \<Rightarrow> \<not> abortOnCacheProblem s \<and> \<not> kernel_up S \<and> st = EXIT_FAILURE
    | Abort t \<Rightarrow> abortOnCacheProblem s \<and> logfp s \<noteq> None \<and> wlCache t = wlCache s \<and>
        kern t = (case stopFile s of None \<Rightarrow> kern s | Some f \<Rightarrow> sys_creat S f (kern s))
    | Undef \<Rightarrow> abortOnCacheProblem s \<and> logfp s = None"
proof -
  obtain u where u: "displayInotifyEvent ev s = Ret () u" "frame s u" "wlCache u = wlCache s"
    using displayInotifyEvent_Ret [OF assms(2)] by blast
  have none: "findWatch (ev_wd ev) u = None" using findWatch_None [OF assms(4), of u] assms(5) u(3) by simp
  define v where "v = logMessage 0 (msg [''Could not find watch '', dec (ev_wd ev), nl]) u"
  have v: "frame s v" "wlCache v = wlCache s" unfolding v_def using frame_trans [OF u(2) frame_logMessage] u(3) by simp_all
  then have f: "abortOnCacheProblem v = abortOnCacheProblem s" "stopFile v = stopFile s" "kern v = kern s" "logfp v = None \<longleftrightarrow> logfp s = None"
    by (simp_all add: frame_def)
  have p: "processNextInotifyEvent S fd buf sz ft s =
      (if abortOnCacheProblem s then createStopFileAndAbort S v else bindR (resync S fd v) (finish S))"
    using assms(1,3,4) u(1) none f(1)
    by (simp add: processNextInotifyEvent_def locate_def findWatchChecked_def v_def [symmetric] Let_def bindR_createStopFileAndAbort)
  show ?thesis
  proof (cases "abortOnCacheProblem s")
    case True
    then show ?thesis using f v(2)
      by (auto simp: p createStopFileAndAbort_def dumpCacheToLog_def Let_def split: option.splits)
  next
    case False
    then show ?thesis using reinitialize_outcome [OF assms(6) frame_same_setup [OF v(1)], of fd] f(3)
      by (cases "reinitialize S fd v") (auto simp: p resync_def finish_def)
  qed
qed

section \<open>Removing watches\<close>

text \<open>
  The calls of inotify_rm_watch(2) for a list of descriptors, up to the first that fails: whether all succeed,
  and the kernel afterwards. \<open>watches_below\<close> are the descriptors of a subtree in the order of their slots.
\<close>

fun rm_watches :: "'k sys \<Rightarrow> int \<Rightarrow> int list \<Rightarrow> 'k \<Rightarrow> bool \<times> 'k" where
  "rm_watches S fd [] k = (True, k)"
| "rm_watches S fd (d # ds) k =
     (case sys_rm_watch S fd d k of (Some e, k1) \<Rightarrow> (False, k1) | (None, k1) \<Rightarrow> rm_watches S fd ds k1)"

definition watches_below :: "string \<Rightarrow> watch list \<Rightarrow> int list" where
  "watches_below pn ws = map wd (filter (\<lambda>w. 0 \<le> wd w \<and> in_subtree pn (path w)) ws)"

lemma zap_slots_watches:
  assumes "distinct is"
  shows "rm_watches S fd (map (\<lambda>i. wd (wlCache s ! i)) (filter (\<lambda>i. selected pn (wlCache s ! i)) is)) (kern s) =
    (fst (zap_slots S fd pn is cnt s) \<noteq> None, kern (snd (zap_slots S fd pn is cnt s)))"
  using assms
proof (induction "is" arbitrary: cnt s)
  case (Cons i "is")
  show ?case
  proof (cases "selected pn (wlCache s ! i)")
    case True
    obtain r k where rm: "sys_rm_watch S fd (wd (wlCache s ! i)) (kern s) = (r, k)" by fastforce
    define u where "u = markCacheSlotEmpty i (zap_log (wlCache s ! i) s\<lparr>kern := k\<rparr>)"
    have u: "kern u = k" unfolding u_def frame_fields(4) [OF frame_markCacheSlotEmpty] by simp
    have o: "wlCache u ! j = wlCache s ! j" if "j \<in> set is" for j
    proof -
      have "i \<noteq> j" using that Cons.prems by auto
      then show ?thesis by (simp add: u_def zap_log_def wlCache_markCacheSlotEmpty)
    qed
    have "map (\<lambda>i. wd (wlCache u ! i)) (filter (\<lambda>i. selected pn (wlCache u ! i)) is) =
        map (\<lambda>i. wd (wlCache s ! i)) (filter (\<lambda>i. selected pn (wlCache s ! i)) is)"
      using o by (auto cong: filter_cong)
    then show ?thesis using Cons.IH [of u "Suc cnt"] Cons.prems rm u True
      by (cases r) (simp_all add: zap_slots_selected [OF True] u_def [symmetric])
  qed (use Cons in \<open>simp add: zap_slots_unselected\<close>)
qed simp

lemma zapSubtree_watches:
  assumes "zapSubtree S fd pn s = (r, t)"
  shows "rm_watches S fd (watches_below pn (wlCache s)) (kern s) = (r \<noteq> None, kern t)"
proof -
  let ?l = "logMessage VB_NOISY (msg [''Zapping subtree: '', pn, nl]) s"
  have "map (\<lambda>i. wd (wlCache s ! i)) (filter (\<lambda>i. selected pn (wlCache s ! i)) [0..<length (wlCache s)]) =
      map wd (filter (selected pn) (map (\<lambda>i. wlCache s ! i) [0..<length (wlCache s)]))"
    by (simp add: filter_map comp_def)
  also have "\<dots> = watches_below pn (wlCache s)" by (simp add: map_nth watches_below_def selected_def [abs_def])
  finally show ?thesis
    using zap_slots_watches [of "[0..<length (wlCache s)]" S fd ?l pn 0] assms by (simp add: zapSubtree_def cacheSize_def Let_def)
qed

lemma event_moved_out_lemma:
  assumes "event_at buf = Some ev" "ev_name ev = Some n" "is_moved_from ev" "dtree_ok s" "plain s" "0 \<le> ev_wd ev"
    "cache_map (wlCache s) (ev_wd ev) = Some p" "unmatched buf sz ft ev" "length (full p n) < PATH_MAX" "kernel_ok S"
    "rm_watches S fd (watches_below (full p n) (wlCache s)) (kern s) = (ok, k)"
  shows "case processNextInotifyEvent S fd buf sz ft s of
      Ret (fd', m) t \<Rightarrow>
        if ok then fd' = fd \<and> m = int (event_len ev) \<and> cache_map (wlCache t) = prune (full p n) (cache_map (wlCache s)) \<and>
          live_roots t = live_roots s \<and> kern t = k
        else m = int INOTIFY_READ_BUF_LEN \<and> rebuilt S fd k s fd' t
    | Exit st t \<Rightarrow> \<not> ok \<and> \<not> kernel_up S \<and> st = EXIT_FAILURE
    | Abort t \<Rightarrow> False | Undef \<Rightarrow> False"
proof -
  have ign: "\<not> has ev IN_IGNORED" using assms(3) by (simp add: kinds)
  obtain i u where h: "processNextInotifyEvent S fd buf sz ft s =
      bindR (dispatch S fd ev (Some i) buf sz ft u) (finish S)"
    "findWatch (ev_wd ev) u = Some i" "path (wlCache u ! i) = p" and u: "frame s u" "wlCache u = wlCache s"
    by (rule handler_found [OF assms(1) readable_name [OF assms(2)] assms(4,6) ign assms(7),
          where S = S and fd = fd and sz = sz and ft = ft])
  define v where "v = logMessage VB_NOISY (msg [''firstTry = '', dec (if ft then 1 else 0),
      ''; remaining bytes = '', dec (sz - int (event_len ev)), nl])
      (logMessage VB_NOISY (msg [''MOVED_OUT: '', sys_ptrs S, nl]) u)"
  have v: "frame s v" "wlCache v = wlCache s" "kern v = kern s" unfolding v_def
    using frame_trans [OF frame_trans [OF u(1) frame_logMessage] frame_logMessage] u(2) frame_fields(4) [OF u(1)] by simp_all
  obtain r t where z: "zapSubtree S fd (full p n) v = (r, t)" by fastforce
  have st: "same_setup s t"
    using same_setup_trans [OF frame_same_setup [OF v(1)] kern_frame_same_setup [OF zapSubtree_spec(1) [OF z]]] .
  have ok: "ok = (r \<noteq> None)" "kern t = k" using zapSubtree_watches [OF z] assms(11) v(2,3) by simp_all
  have "snprintf (PATH_MAX + NAME_MAX) (full p n) = full p n"
    using assms(9) by (simp add: snprintf_def)
  then have "on_moved_out S fd ev (Some i) (int (event_len ev)) sz ft u =
      (case r of None \<Rightarrow> resync S fd t | Some cnt \<Rightarrow> Ret (Late fd (int (event_len ev))) t)"
    using h(3) z u(2) assms(2)
    by (simp add: on_moved_out_def slot_of_def name_of_def v_def Let_def split: option.split)
  then have d: "dispatch S fd ev (Some i) buf sz ft u =
      (case r of None \<Rightarrow> resync S fd t | Some cnt \<Rightarrow> Ret (Late fd (int (event_len ev))) t)"
    using assms(3,8) unfolding dispatch_def kinds on_moved_from_def unmatched_def event_len_def Let_def
    by (auto simp: nat_add_distrib split: if_splits option.splits)
  show ?thesis
  proof (cases r)
    case None
    then show ?thesis using reinitialize_outcome [OF assms(10) st, of fd] ok
      by (cases "reinitialize S fd t") (auto simp: h(1) d resync_def finish_def)
  next
    case (Some cnt)
    have "cache_map (wlCache t) = prune (full p n) (cache_map (wlCache s))"
      using dtree.lookup_zap [OF _ z [unfolded Some]] assms(4) v(2) by (simp add: dtree_ok_def)
    moreover have "plain t" using assms(5) plain_same [OF st] by simp
    ultimately show ?thesis using Some ok same_setup_live [OF st] by (simp add: h(1) d finish_late)
  qed
qed

end
