(* ===== verification/DTree_Loop.thy ===== *)
theory DTree_Loop
  imports DTree_Effects
begin

text \<open>
  The loop \<open>processInotifyEvents\<close> of \<open>inotify_dtree.c\<close>: it ends once the kernel has no more events to
  deliver, it keeps the invariant, and a hanging \<open>IN_MOVED_FROM\<close> whose second read times out is
  treated as a move out of the tree.
\<close>

section \<open>What the handler does to the kernel\<close>

text \<open>\<open>kclosed S P\<close>: no call but read(2) leads out of \<open>P\<close>.\<close>

definition kclosed :: "'k sys \<Rightarrow> ('k \<Rightarrow> bool) \<Rightarrow> bool" where
  "kclosed S P =
     ((\<forall>p k. P k \<longrightarrow> P (snd (sys_lstat S p k))) \<and>
      (\<forall>fd p fl k. P k \<longrightarrow> P (snd (sys_add_watch S fd p fl k))) \<and>
      (\<forall>fd d k. P k \<longrightarrow> P (snd (sys_rm_watch S fd d k))) \<and>
      (\<forall>k. P k \<longrightarrow> P (snd (sys_inotify_init S k))) \<and>
      (\<forall>fd k. P k \<longrightarrow> P (sys_close S fd k)) \<and>
      (\<forall>p k. P k \<longrightarrow> P (snd (snd (sys_nftw S p k)))))"

lemma kclosedD:
  assumes "kclosed S P" "P k"
  shows "sys_lstat S p k = (a, k1) \<Longrightarrow> P k1" "sys_add_watch S fd p fl k = (b, k1) \<Longrightarrow> P k1"
    "sys_rm_watch S fd d k = (c, k1) \<Longrightarrow> P k1" "sys_inotify_init S k = (e, k1) \<Longrightarrow> P k1"
    "P (sys_close S fd k)" "sys_nftw S p k = (es, f, k1) \<Longrightarrow> P k1"
  using assms unfolding kclosed_def by (metis snd_conv)+

lemma frame_kern: "frame s t \<Longrightarrow> kern t = kern s"
  by (simp add: frame_def)

lemma traverseTree_closed:
  assumes "kclosed S P" "P (kern s)"
  shows "post (\<lambda>_ t. P (kern t)) (traverseTree S p sb s)"
proof -
  obtain r k where a: "sys_add_watch S (ifd s) p (watch_flags p s) (kern s) = (r, k)" by fastforce
  have k: "P k" using kclosedD(2) [OF assms a] .
  have "P (kern t)" if "addWatchToCache S d p (s\<lparr>kern := k, dirCnt := n\<rparr>) = (i, t)" for d n i t
    using k frame_kern [OF frame_addWatchToCache [OF that]] by simp
  with a k assms(2) show ?thesis by (auto simp: traverseTree_def Let_def split: sum.split prod.split)
qed

lemma walk_closed: "kclosed S P \<Longrightarrow> P (kern s) \<Longrightarrow> post (\<lambda>_ t. P (kern t)) (walk S es s)"
proof (induction es arbitrary: s)
  case (Cons e es)
  obtain p sb where e: "e = (p, sb)" by (cases e)
  show ?case unfolding e walk.simps post_bindR
    by (rule post_mono [OF traverseTree_closed [OF Cons.prems]]) (rule Cons.IH [OF Cons.prems(1)])
qed simp

lemma watchSubtree_closed:
  assumes "kclosed S P" "P (kern s)"
  shows "post (\<lambda>_ t. P (kern t)) (watchSubtree S fd p s)"
proof -
  obtain es f k where n: "sys_nftw S p (kern s) = (es, f, k)" by (metis prod_cases3)
  have k: "P k" using kclosedD(6) [OF assms n] .
  have "post (\<lambda>_ t. P (kern t)) (walk S es (s\<lparr>dirCnt := 0, ifd := fd, kern := k\<rparr>))"
    by (rule walk_closed [OF assms(1)]) (simp add: k)
  then show ?thesis using n unfolding watchSubtree_def watchDir_def
    by (simp add: post_bindR) (erule post_mono, simp split: option.split)
qed

lemma watch_roots_closed: "kclosed S P \<Longrightarrow> P (kern s) \<Longrightarrow> post (\<lambda>_ t. P (kern t)) (watch_roots S fd rs s)"
proof (induction rs arbitrary: s)
  case (Cons r rs)
  show ?case
  proof (cases r)
    case (Some p)
    show ?thesis unfolding Some watch_roots.simps post_bindR
      by (rule post_mono [OF watchSubtree_closed [OF Cons.prems]]) (rule Cons.IH [OF Cons.prems(1)])
  qed (simp add: Cons)
qed simp

lemma reinitialize_closed:
  assumes "kclosed S P" "P (kern s)"
  shows "post (\<lambda>_ t. P (kern t)) (reinitialize S fd s)"
proof -
  define u where "u = (if 0 \<le> fd then
      let s0 = s\<lparr>kern := sys_close S fd (kern s), reinitCnt := Suc (reinitCnt s)\<rparr>
      in logMessage 0 (msg [''Reinitializing cache and inotify FD (reinitCnt = '',
           dec (int (reinitCnt s0)), '')'', nl]) s0
    else (logMessage 0 (msg [''Initializing cache'', nl]) s)\<lparr>reinitCnt := 0\<rparr>)"
  have u: "P (kern u)" using assms kclosedD(5) [OF assms] by (simp add: u_def Let_def)
  obtain r k where i: "sys_inotify_init S (kern u) = (r, k)" by fastforce
  have k: "P k" using kclosedD(4) [OF assms(1) u i] .
  show ?thesis
  proof (cases r)
    case (Inl e)
    then show ?thesis using i by (simp add: reinitialize_def u_def [symmetric] errExit_def Let_def)
  next
    case (Inr fd')
    define v where "v = freeCache (logMessage VB_BASIC (msg [''    new inotifyFd = '', dec fd', nl]) (u\<lparr>kern := k\<rparr>))"
    have "P (kern v)" using k by (simp add: v_def freeCache_def)
    from watch_roots_closed [OF assms(1) this]
    have "post (\<lambda>_ t. P (kern t)) (watch_roots S fd' (rootDirPaths v) v)" .
    then show ?thesis using i Inr
      by (simp add: reinitialize_def u_def [symmetric] v_def [symmetric] post_bindR Let_def)
  qed
qed

lemma zap_slots_closed:
  "kclosed S P \<Longrightarrow> P (kern s) \<Longrightarrow> P (kern (snd (zap_slots S fd pn is cnt s)))"
proof (induction "is" arbitrary: cnt s)
  case (Cons i "is")
  show ?case
  proof (cases "selected pn (wlCache s ! i)")
    case True
    obtain r k where rm: "sys_rm_watch S fd (wd (wlCache s ! i)) (kern s) = (r, k)" by fastforce
    have k: "P k" using kclosedD(3) [OF Cons.prems rm] .
    have "P (kern (markCacheSlotEmpty i (zap_log (wlCache s ! i) s\<lparr>kern := k\<rparr>)))"
      unfolding frame_kern [OF frame_markCacheSlotEmpty] using k by simp
    then show ?thesis using k rm Cons by (simp add: zap_slots_selected [OF True] zap_log_def split: option.split)
  qed (simp add: zap_slots_unselected Cons)
qed simp

lemma zapSubtree_closed: "kclosed S P \<Longrightarrow> P (kern s) \<Longrightarrow> zapSubtree S fd pn s = (r, t) \<Longrightarrow> P (kern t)"
  using zap_slots_closed [of S P "logMessage VB_NOISY (msg [''Zapping subtree: '', pn, nl]) s"]
  by (metis logMessage_fields(5) snd_conv zapSubtree_def)

lemma zapRootDirPath_kern: "post (\<lambda>_ t. kern t = kern s) (zapRootDirPath p s)"
  by (simp add: zapRootDirPath_def to_stdout_def Let_def split: option.split)

lemma kern_mark [simp]: "kern (markCacheSlotEmpty i s) = kern s"
  by (rule frame_kern) simp

lemma kern_rewrite [simp]: "kern (rewriteCachedPaths a b a' b' s) = kern s"
  by (rule frame_kern) (rule rewriteCachedPaths_spec(2) [OF refl refl])

lemma findWatchChecked_kern: "post (\<lambda>_ t. kern t = kern s) (findWatchChecked S d s)"
  by (cases rule: findWatchChecked_cases [of d s S]) (auto intro: postI)

lemma resync_closed: "kclosed S P \<Longrightarrow> P (kern s) \<Longrightarrow> post (\<lambda>_ t. P (kern t)) (resync S fd s)"
  by (simp add: resync_def post_bindR reinitialize_closed)

lemma zap_or_resync_closed:
  assumes "kclosed S P" "P (kern s)"
  shows "post (\<lambda>_ t. P (kern t))
    (case zapSubtree S fd p s of (None, t) \<Rightarrow> resync S fd' t | (Some cnt, t) \<Rightarrow> Ret h t)"
proof -
  obtain r t where z: "zapSubtree S fd p s = (r, t)" by fastforce
  have "P (kern t)" using zapSubtree_closed [OF assms z] .
  then show ?thesis using assms(1) z by (cases r) (simp_all add: resync_closed)
qed

lemma on_create_closed:
  "kclosed S P \<Longrightarrow> P (kern s) \<Longrightarrow> post (\<lambda>_ t. P (kern t)) (on_create S fd ev slot n s)"
  unfolding on_create_def Let_def
  by (intro slot_of_post name_of_post) (simp add: post_bindR watchSubtree_closed)

lemma on_delete_self_closed: "P (kern s) \<Longrightarrow> post (\<lambda>_ t. P (kern t)) (on_delete_self fd ev slot n s)"
  unfolding on_delete_self_def Let_def
  by (intro slot_of_post) (auto simp: post_bindR intro: post_mono [OF zapRootDirPath_kern])

lemma on_rename_closed:
  fixes s :: "'k dstate"
  assumes "kclosed S P" "P (kern s)"
  shows "post (\<lambda>_ t. P (kern t)) (on_rename S fd ev slot nxt n s)"
  unfolding on_rename_def post_bindR
proof (rule post_mono [OF findWatchChecked_kern])
  fix r and t :: "'k dstate"
  assume "kern t = kern s"
  then have "P (kern t)" using assms(2) by simp
  then show "post (\<lambda>_ t. P (kern t)) (case r of None \<Rightarrow> resync S fd t
      | Some j \<Rightarrow> slot_of slot t (\<lambda>i. name_of ev (\<lambda>a. name_of nxt (\<lambda>b.
          Ret (Late fd (n + int SIZEOF_EVENT + int (ev_len nxt)))
            (rewriteCachedPaths (path (wlCache t ! i)) a (path (wlCache t ! j)) b t)))))"
    using assms(1) by (auto simp: resync_closed split: option.split intro!: slot_of_post name_of_post)
qed

lemma on_moved_from_closed:
  assumes "kclosed S P" "P (kern s)"
  shows "post (\<lambda>_ t. P (kern t)) (on_moved_from S fd ev slot buf sz n ft s)"
proof -
  have "post (\<lambda>_ t. P (kern t)) (on_moved_out S fd ev slot n sz ft' s)" for ft'
    unfolding on_moved_out_def Let_def
    by (intro slot_of_post name_of_post zap_or_resync_closed) (simp_all add: assms)
  then show ?thesis unfolding on_moved_from_def
    by (simp add: on_rename_closed assms split: option.split)
qed

lemma on_move_self_closed:
  fixes s :: "'k dstate"
  assumes "kclosed S P" "P (kern s)"
  shows "post (\<lambda>_ t. P (kern t)) (on_move_self S fd slot n s)"
proof -
  have "post (\<lambda>_ s1. post (\<lambda>_ t. P (kern t)) (case zapSubtree S fd (path (wlCache s1 ! i)) s1 of
      (None, s2) \<Rightarrow> resync S fd s2 | (Some cnt, s2) \<Rightarrow> Ret (Late fd n) s2)) (zapRootDirPath p u)"
    if "P (kern u)" for i p and u :: "'k dstate"
    by (rule post_mono [OF zapRootDirPath_kern]) (use that assms(1) in \<open>simp add: zap_or_resync_closed\<close>)
  then show ?thesis unfolding on_move_self_def Let_def
    using assms(2) by (intro slot_of_post) (simp add: post_bindR)
qed

lemma dispatch_closed:
  assumes "kclosed S P" "P (kern s)"
  shows "post (\<lambda>_ t. P (kern t)) (dispatch S fd ev slot buf sz ft s)"
proof -
  have "post (\<lambda>_ t. P (kern t)) (on_overflow S fd s)"
    using assms by (simp add: on_overflow_def post_bindR reinitialize_closed Let_def)
  moreover have "post (\<lambda>_ t. P (kern t)) (on_unmount fd slot n s)" for n
    unfolding on_unmount_def using assms(2) by (intro slot_of_post) simp
  ultimately show ?thesis unfolding dispatch_def Let_def
    by (simp add: assms on_create_closed on_delete_self_closed on_moved_from_closed on_move_self_closed)
qed

lemma check_slots_closed: "kclosed S P \<Longrightarrow> P (kern s) \<Longrightarrow> post (\<lambda>_ t. P (kern t)) (check_slots S j n ws s)"
proof (induction ws arbitrary: j n s)
  case (Cons w ws)
  obtain r k where l: "sys_lstat S (path w) (kern s) = (r, k)" by fastforce
  have "P k" using kclosedD(1) [OF Cons.prems l] .
  then show ?case using Cons l by (cases r) auto
qed simp

lemma finish_closed:
  fixes s :: "'k dstate"
  assumes "kclosed S P" "P (kern s)"
  shows "post (\<lambda>_ t. P (kern t)) (finish S h s)"
proof -
  have c: "post (\<lambda>_ t. P (kern t)) (if checkCache s then checkCacheConsistency S s else Ret () s)"
    using check_slots_closed [OF assms, of 0 0 "wlCache s"] assms(2)
    by (auto simp: checkCacheConsistency_def post_bindR elim: post_mono)
  have d: "P (kern u) \<Longrightarrow> post (\<lambda>_ t. P (kern t)) (dumpCacheToLog u)" for u :: "'k dstate"
    by (simp add: dumpCacheToLog_def Let_def split: option.split)
  show ?thesis
  proof (cases h)
    case (Late fd n)
    have "post (\<lambda>_ t. P (kern t)) (bindR (if dumpCache u then dumpCacheToLog u else Ret () u)
        (\<lambda>_ t. Ret (fd, n) t))" if "P (kern u)" for u :: "'k dstate"
      using d [OF that] that unfolding post_bindR by simp
    then show ?thesis unfolding finish_def Late handled.case post_bindR by (intro post_mono [OF c])
  qed (simp add: finish_def assms)
qed

lemma processNextInotifyEvent_closed:
  fixes s :: "'k dstate"
  assumes "kclosed S P" "P (kern s)"
  shows "post (\<lambda>_ t. P (kern t)) (processNextInotifyEvent S fd buf sz ft s)"
proof -
  have locate: "post (\<lambda>_ t. P (kern t)) (locate S fd ev buf sz ft u)" if "P (kern u)" for ev and u :: "'k dstate"
  proof -
    have "post (\<lambda>_ t. P (kern t)) (bindR (findWatchChecked S (ev_wd ev) u) (\<lambda>slot s1. case slot of
        None \<Rightarrow> resync S fd s1 | Some i \<Rightarrow> dispatch S fd ev (Some i) buf sz ft s1))"
      unfolding post_bindR
      by (rule post_mono [OF findWatchChecked_kern])
         (use that assms(1) in \<open>simp add: resync_closed dispatch_closed split: option.split\<close>)
    then show ?thesis using that assms(1) by (simp add: locate_def dispatch_closed)
  qed
  have step: "post (\<lambda>_ t. P (kern t)) (bindR (locate S fd ev buf sz ft u) (finish S))" if "P (kern u)" for ev and u :: "'k dstate"
    unfolding post_bindR by (rule post_mono [OF locate [OF that]]) (rule finish_closed [OF assms(1)])
  have "post (\<lambda>_ t. kern t = kern s) (displayInotifyEvent ev s)" for ev
  proof (cases "readable ev")
    case True
    then show ?thesis using displayInotifyEvent_Ret [OF True, of s] by (auto simp: frame_kern)
  qed (simp add: displayInotifyEvent_def readable_def Let_def)
  then have "post (\<lambda>_ t. P (kern t)) (bindR (displayInotifyEvent ev s) (\<lambda>_ u.
      bindR (locate S fd ev buf sz ft u) (finish S)))" for ev
    unfolding post_bindR [of _ "displayInotifyEvent ev s"] by (rule post_mono) (use assms(2) in \<open>simp add: step\<close>)
  then show ?thesis by (simp add: processNextInotifyEvent_def split: option.split)
qed

section \<open>The loop ends\<close>

text \<open>
  \<open>quiet S mu\<close>: the events still to be delivered are finite, \<open>mu\<close> bounding their number. A read that
  delivers events takes some away; no call of the program adds to them.
\<close>

definition quiet :: "'k sys \<Rightarrow> ('k \<Rightarrow> nat) \<Rightarrow> bool" where
  "quiet S mu =
     ((\<forall>m. kclosed S (\<lambda>k. mu k \<le> m)) \<and>
      (\<forall>fd n k. case sys_read S fd n k of
          (Inl e, k') \<Rightarrow> mu k' \<le> mu k
        | (Inr b, k') \<Rightarrow> b \<noteq> [] \<longrightarrow> mu k' < mu k))"

lemma quiet_read:
  assumes "quiet S mu" "sys_read S fd n k = (r, k')"
  shows "case r of Inl e \<Rightarrow> mu k' \<le> mu k | Inr b \<Rightarrow> b \<noteq> [] \<longrightarrow> mu k' < mu k"
proof -
  have "case sys_read S fd n k of (Inl e, k') \<Rightarrow> mu k' \<le> mu k | (Inr b, k') \<Rightarrow> b \<noteq> [] \<longrightarrow> mu k' < mu k"
    by (rule assms(1) [unfolded quiet_def, THEN conjunct2, THEN spec, THEN spec, THEN spec])
  then show ?thesis by (cases r) (simp_all add: assms(2))
qed

lemma second_read_Ret:
  assumes "quiet S mu" "second_read S fd buf numRead evp s = Ret (buf1, n1) t"
  shows "n1 = numRead - int evp - 1 \<and> mu (kern t) \<le> mu (kern s) \<or>
    n1 \<le> int INOTIFY_READ_BUF_LEN \<and> mu (kern t) < mu (kern s)"
proof -
  obtain r k where rd: "sys_read S fd (INOTIFY_READ_BUF_LEN - nat (numRead - int evp)) (kern s) = (r, k)"
    by fastforce
  note q = quiet_read [OF assms(1) rd]
  show ?thesis
  proof (cases r)
    case (Inl e)
    then show ?thesis using assms(2) rd q
      by (auto simp: second_read_def errExit_def Let_def split: if_splits)
  next
    case (Inr b)
    then show ?thesis using assms(2) rd q
      by (auto simp: second_read_def Let_def split: if_splits)
  qed
qed

lemma second_read_decreases:
  assumes "quiet S mu" "second_read S fd buf numRead evp s = Ret (buf1, n1) t" "int evp < numRead"
  shows "mu (kern t) * Suc INOTIFY_READ_BUF_LEN + nat n1
    < mu (kern s) * Suc INOTIFY_READ_BUF_LEN + nat (numRead - int evp)"
  using second_read_Ret [OF assms(1,2)]
proof
  assume a: "n1 = numRead - int evp - 1 \<and> mu (kern t) \<le> mu (kern s)"
  then have "mu (kern t) * Suc INOTIFY_READ_BUF_LEN \<le> mu (kern s) * Suc INOTIFY_READ_BUF_LEN"
    by (intro mult_le_mono1) simp
  then show ?thesis using a assms(3) by (intro add_le_less_mono) auto
next
  assume a: "n1 \<le> int INOTIFY_READ_BUF_LEN \<and> mu (kern t) < mu (kern s)"
  then have "Suc (mu (kern t)) * Suc INOTIFY_READ_BUF_LEN \<le> mu (kern s) * Suc INOTIFY_READ_BUF_LEN"
    by (intro mult_le_mono1) simp
  moreover have "nat n1 \<le> INOTIFY_READ_BUF_LEN" using a by linarith
  ultimately show ?thesis using assms(3) by simp
qed

lemma event_loop_terminates:
  assumes "quiet S mu"
    "mu (kern s) * Suc INOTIFY_READ_BUF_LEN + nat (numRead - int evp) < n"
  shows "\<exists>r. event_loop n S fd buf numRead evp ft s = Some r"
  using assms(2)
proof (induction n arbitrary: fd buf numRead evp ft s)
  case (Suc n)
  show ?case
  proof (cases "int evp < numRead")
    case True
    let ?p = "processNextInotifyEvent S fd (drop evp buf) (numRead - int evp) ft s"
    have "post (\<lambda>_ t. mu (kern t) \<le> mu (kern s)) ?p"
      using assms(1) by (intro processNextInotifyEvent_closed) (simp_all add: quiet_def)
    then have mono: "?p = Ret a t \<Longrightarrow> mu (kern t) * Suc INOTIFY_READ_BUF_LEN \<le> mu (kern s) * Suc INOTIFY_READ_BUF_LEN"
      for a t by (intro mult_le_mono1) simp
    have more: "\<exists>r. event_loop n S fd' buf' m e ft' t = Some r"
      if "mu (kern t) * Suc INOTIFY_READ_BUF_LEN + nat (m - int e)
        < mu (kern s) * Suc INOTIFY_READ_BUF_LEN + nat (numRead - int evp)" for fd' buf' m e ft' t
      using that Suc.prems by (intro Suc.IH) linarith
    show ?thesis
    proof (cases ?p)
      case (Ret x s1)
      obtain fd' ln where x: "x = (fd', ln)" by (cases x)
      note m = mono [OF Ret]
      show ?thesis
      proof (cases "0 < to_int32 ln")
        case True
        then have "nat (numRead - int (evp + nat (to_int32 ln))) < nat (numRead - int evp)"
          using \<open>int evp < numRead\<close> by simp
        then show ?thesis using more m Ret x True \<open>int evp < numRead\<close> by (simp add: add_le_less_mono)
      next
        case False
        show ?thesis
        proof (cases "second_read S fd' buf numRead evp s1")
          case (Ret y s2)
          obtain buf1 n1 where y: "y = (buf1, n1)" by (cases y)
          have "mu (kern s2) * Suc INOTIFY_READ_BUF_LEN + nat (n1 - int 0)
              < mu (kern s1) * Suc INOTIFY_READ_BUF_LEN + nat (numRead - int evp)"
            using second_read_decreases [OF assms(1) Ret [unfolded y] \<open>int evp < numRead\<close>] by simp
          then have "\<exists>r. event_loop n S fd' buf1 n1 0 False s2 = Some r" using m by (intro more) linarith
          then show ?thesis using \<open>?p = Ret x s1\<close> x y Ret False \<open>int evp < numRead\<close> by simp
        qed (use \<open>?p = Ret x s1\<close> x False \<open>int evp < numRead\<close> in simp_all)
      qed
    qed (use True in simp_all)
  qed simp
qed simp

lemma second_read_same: "post (\<lambda>_ t. same s t) (second_read S fd buf numRead evp s)"
  unfolding second_read_def Let_def errExit_def by (simp split: prod.split sum.split)

lemma event_loop_keeps_ok:
  assumes "kernel_ok S" "dtree_ok s" "event_loop n S fd buf numRead evp ft s = Some r"
  shows "post (\<lambda>_ t. dtree_ok t) r"
  using assms(2,3)
proof (induction n arbitrary: fd buf numRead evp ft s)
  case (Suc n)
  show ?case
  proof (cases "int evp < numRead")
    case True
    note ev = processNextInotifyEvent_keeps_ok [OF assms(1) Suc.prems(1),
        where fd = fd and buf = "drop evp buf" and sz = "numRead - int evp" and ft = ft]
    show ?thesis
    proof (cases "processNextInotifyEvent S fd (drop evp buf) (numRead - int evp) ft s")
      case (Ret x s1)
      then obtain fd' ln where x: "x = (fd', ln)" and ok: "dtree_ok s1" using ev by (cases x) simp
      show ?thesis
      proof (cases "0 < to_int32 ln")
        case True
        then show ?thesis using Suc.IH [OF ok] Suc.prems(2) Ret x \<open>int evp < numRead\<close> by simp
      next
        case False
        note sr = second_read_same [of s1 S fd' buf numRead evp]
        show ?thesis
        proof (cases "second_read S fd' buf numRead evp s1")
          case (Ret y s2)
          then have "dtree_ok s2" using sr ok same_ok by auto
          then show ?thesis
            using Suc.IH [of s2] Suc.prems(2) \<open>processNextInotifyEvent _ _ _ _ _ _ = Ret x s1\<close> x Ret False True
            by (cases y) simp
        qed (use Suc.prems(2) Ret x False True in auto)
      qed
    qed (use Suc.prems(2) True in auto)
  qed (use Suc.prems in auto)
qed simp

section \<open>A hanging event\<close>

lemma event_hanging:
  assumes "event_at buf = Some ev" "readable ev" "is_moved_from ev" "dtree_ok s" "0 \<le> ev_wd ev"
    "cache_map (wlCache s) (ev_wd ev) = Some p" "sz \<le> int (event_len ev)"
  shows "\<exists>t. processNextInotifyEvent S fd buf sz True s = Ret (fd, HANGING) t \<and> frame s t \<and> wlCache t = wlCache s"
proof -
  have ign: "\<not> has ev IN_IGNORED" using assms(3) by (simp add: kinds)
  obtain i u where h: "processNextInotifyEvent S fd buf sz True s =
      bindR (dispatch S fd ev (Some i) buf sz True u) (finish S)" and u: "frame s u" "wlCache u = wlCache s"
    by (rule handler_found [OF assms(1,2,4,5) ign assms(6), where S = S and fd = fd and sz = sz and ft = True])
  let ?t = "logMessage VB_NOISY (msg [''HANGING IN_MOVED_FROM'', nl]) u"
  have "dispatch S fd ev (Some i) buf sz True u = Ret (Early fd HANGING) ?t"
    using assms(3,7) by (simp add: dispatch_def kinds on_moved_from_def event_len_def Let_def)
  then show ?thesis using h u frame_trans [OF u(1) frame_logMessage] by (simp add: finish_def)
qed

lemma to_int32_HANGING: "to_int32 HANGING = - 1"
  by (simp add: HANGING_def to_int32_def)

lemma frame_dtree_ok: "frame s t \<Longrightarrow> wlCache t = wlCache s \<Longrightarrow> dtree_ok t = dtree_ok s"
  using frame_same same_ok by blast

text \<open>An event whose name ends inside its length field is found at the start of any buffer that holds its bytes.\<close>

lemma le32_take: "i + 4 \<le> n \<Longrightarrow> n \<le> length b \<Longrightarrow> le32 (take n b @ r) i = le32 b i"
  by (simp add: le32_def nth_append)

lemma cstr_take:
  assumes "cstr b = Some n" "length n < k"
  shows "cstr (take k b @ r) = Some n"
proof -
  have "NUL \<in> set b" using assms(1) by (simp add: cstr_def split: if_splits)
  then obtain ys zs where b: "b = ys @ NUL # zs" "NUL \<notin> set ys" using split_list_first by fast
  have w: "takeWhile (\<lambda>c. c \<noteq> NUL) (ys @ NUL # x) = ys" for x using b(2) by (subst takeWhile_append2) auto
  have "ys = n" using assms(1) w by (simp add: b(1) cstr_def)
  with assms(2) obtain m where "k = length ys + Suc m" by (metis less_iff_Suc_add add_Suc_right)
  then have "take k b = ys @ NUL # take m zs" by (simp add: b(1))
  then show ?thesis using w \<open>ys = n\<close> by (simp add: cstr_def)
qed

lemma event_at_local:
  assumes "event_at b = Some ev" "ev_name ev = Some n" "length n < ev_len ev" "event_len ev \<le> length b"
  shows "event_at (take (event_len ev) b @ r) = Some ev"
proof -
  let ?L = "event_len ev"
  have L: "16 \<le> ?L" "?L - 16 = ev_len ev" by (simp_all add: event_len_def SIZEOF_EVENT_def)
  have e: "ev = \<lparr>ev_wd = sint (le32 b 0), ev_mask = le32 b 4, ev_cookie = le32 b 8,
      ev_len = unat (le32 b 12), ev_name = cstr (drop SIZEOF_EVENT b)\<rparr>"
    using assms(1) by (simp add: event_at_def split: if_splits)
  have c: "cstr (drop 16 b) = Some n" using assms(2) by (subst (asm) e) (simp add: SIZEOF_EVENT_def)
  have "drop 16 (take ?L b @ r) = take (ev_len ev) (drop 16 b) @ r" using L assms(4) by (simp add: drop_take)
  then have "cstr (drop 16 (take ?L b @ r)) = cstr (drop 16 b)" using cstr_take [OF c assms(3)] c by simp
  then show ?thesis using L assms(4) e by (simp add: event_at_def SIZEOF_EVENT_def le32_take)
qed

text \<open>The last event of the buffer, at offset \<open>evp\<close>, is a directory that leaves a watched directory.\<close>

definition hanging :: "string \<Rightarrow> int \<Rightarrow> nat \<Rightarrow> inotify_event \<Rightarrow> string \<Rightarrow> string \<Rightarrow> 'k dstate \<Rightarrow> bool" where
  "hanging buf numRead evp ev n p s =
     (event_at (drop evp buf) = Some ev \<and> ev_name ev = Some n \<and> length n < ev_len ev \<and> is_moved_from ev \<and> 0 \<le> ev_wd ev \<and>
      cache_map (wlCache s) (ev_wd ev) = Some p \<and> length (full p n) < PATH_MAX \<and>
      numRead = int evp + int (event_len ev) \<and> numRead \<le> int (length buf) \<and> length buf \<le> INOTIFY_READ_BUF_LEN)"

lemma hanging_step:
  assumes "hanging buf numRead evp ev n p s" "dtree_ok s"
  obtains u where "frame s u" "wlCache u = wlCache s"
    "\<And>m. event_loop (Suc m) S fd buf numRead evp True s =
       (case second_read S fd buf numRead evp u of
          Ret (buf1, numRead1) s2 \<Rightarrow> event_loop m S fd buf1 numRead1 0 False s2
        | Exit st t \<Rightarrow> Some (Exit st t) | Abort t \<Rightarrow> Some (Abort t) | Undef \<Rightarrow> Some Undef)"
proof -
  have a: "event_at (drop evp buf) = Some ev" "ev_name ev = Some n" "is_moved_from ev" "0 \<le> ev_wd ev" "cache_map (wlCache s) (ev_wd ev) = Some p"
    "numRead - int evp \<le> int (event_len ev)" "int evp < numRead"
    using assms(1) by (auto simp: hanging_def event_len_def SIZEOF_EVENT_def)
  obtain u where "processNextInotifyEvent S fd (drop evp buf) (numRead - int evp) True s = Ret (fd, HANGING) u"
    "frame s u" "wlCache u = wlCache s"
    using event_hanging [OF a(1) readable_name [OF a(2)] a(3) assms(2) a(4-6)] by blast
  then show ?thesis using that [of u] a(7) by (simp add: to_int32_HANGING)
qed

lemma hanging_shuffled:
  assumes "hanging buf numRead evp ev n p s"
  shows "event_at (take (event_len ev) (drop evp buf) @ r) = Some ev"
  by (rule event_at_local [where n = n]) (use assms in \<open>auto simp: hanging_def\<close>)

lemma hanging_len:
  assumes "hanging buf numRead evp ev n p s"
  shows "nat (numRead - int evp) = event_len ev" "numRead - int evp = int (event_len ev)" "16 \<le> event_len ev"
    "event_len ev \<le> INOTIFY_READ_BUF_LEN" "to_int32 (int (event_len ev)) = int (event_len ev)" "length (drop evp buf) \<ge> event_len ev"
proof -
  show e: "event_len ev \<le> INOTIFY_READ_BUF_LEN" using assms by (simp add: hanging_def)
  then show "to_int32 (int (event_len ev)) = int (event_len ev)" by (intro to_int32_id) (simp_all add: long_limits dtree_consts)
qed (use assms in \<open>auto simp: hanging_def event_len_def SIZEOF_EVENT_def\<close>)

lemma to_int32_buf_len: "to_int32 (int INOTIFY_READ_BUF_LEN) = int INOTIFY_READ_BUF_LEN"
  by (intro to_int32_id) (simp_all add: long_limits dtree_consts)

lemma same_state:
  assumes "same s v" "dtree_ok s" "plain s"
  shows "dtree_ok v \<and> plain v \<and> wlCache v = wlCache s \<and> live_roots v = live_roots s"
  using same_ok [OF assms(1)] assms(2,3) plain_same [OF same_cases(2) [OF assms(1)]] same_cases(1) [OF assms(1)]
    same_setup_live [OF same_cases(2) [OF assms(1)]] by auto

lemma hanging_timeout:
  assumes h: "hanging buf numRead evp ev n p s" and s: "dtree_ok s" "plain s" "kernel_ok S"
    and rd: "sys_read S fd (INOTIFY_READ_BUF_LEN - event_len ev) (kern s) = (Inl EINTR, k0)"
    and rm: "rm_watches S fd (watches_below (full p n) (wlCache s)) k0 = (ok, k)"
  shows "\<exists>r. event_loop (Suc (Suc (Suc m))) S fd buf numRead evp True s = Some r \<and>
    (case r of
       Ret fd' t \<Rightarrow>
         if ok then fd' = fd \<and> cache_map (wlCache t) = prune (full p n) (cache_map (wlCache s)) \<and>
           live_roots t = live_roots s \<and> kern t = k
         else rebuilt S fd k s fd' t
     | Exit st t \<Rightarrow> \<not> ok \<and> \<not> kernel_up S \<and> st = EXIT_FAILURE
     | Abort t \<Rightarrow> False | Undef \<Rightarrow> False)"
proof -
  let ?L = "event_len ev"
  note L = hanging_len [OF h]
  obtain u where u: "frame s u" "wlCache u = wlCache s" and l: "\<And>m. event_loop (Suc m) S fd buf numRead evp True s =
       (case second_read S fd buf numRead evp u of
          Ret (buf1, numRead1) s2 \<Rightarrow> event_loop m S fd buf1 numRead1 0 False s2
        | Exit st t \<Rightarrow> Some (Exit st t) | Abort t \<Rightarrow> Some (Abort t) | Undef \<Rightarrow> Some Undef)"
    using hanging_step [OF h s(1)] by metis
  define buf1 where "buf1 = take ?L (drop evp buf) @ drop ?L buf"
  define v where "v = logMessage VB_NOISY (msg [nl, ''==========> SECONDARY Read '', dec (int (Suc (inotifyReadCnt u))),
      '': got '', dec (- 1), '' bytes'', nl]) (u\<lparr>kern := k0, inotifyReadCnt := Suc (inotifyReadCnt u)\<rparr>)"
  have "second_read S fd buf numRead evp u = Ret (buf1, int ?L - 1) v"
    using rd L frame_fields(4) [OF u(1)] by (simp add: second_read_def v_def buf1_def EINTR_def Let_def)
  then have l2: "event_loop (Suc (Suc (Suc m))) S fd buf numRead evp True s = event_loop (Suc (Suc m)) S fd buf1 (int ?L - 1) 0 False v"
    using l by (simp del: event_loop.simps)
  have sv: "same s v" using frame_same [OF u] by (simp add: v_def)
  have v: "dtree_ok v" "plain v" "wlCache v = wlCache s" "live_roots v = live_roots s" "kern v = k0"
    using same_state [OF sv s(1,2)] by (simp_all add: v_def)
  have e: "event_at buf1 = Some ev" "ev_name ev = Some n" "is_moved_from ev" "0 \<le> ev_wd ev" "cache_map (wlCache v) (ev_wd ev) = Some p"
    "length (full p n) < PATH_MAX"
    using hanging_shuffled [OF h] h v(3) by (simp_all add: buf1_def hanging_def)
  have un: "unmatched buf1 (int ?L - 1) False ev" by (simp add: unmatched_def)
  have "rm_watches S fd (watches_below (full p n) (wlCache v)) (kern v) = (ok, k)" using rm v by simp
  note mo = event_moved_out_lemma [OF e(1-3) v(1,2) e(4,5) un e(6) s(3) this]
  show ?thesis
  proof (cases "processNextInotifyEvent S fd buf1 (int ?L - 1) False v")
    case (Ret x t)
    obtain fd' len where x: "x = (fd', len)" by (cases x)
    have "len = int ?L \<or> len = int INOTIFY_READ_BUF_LEN" using mo Ret x by (auto split: if_splits)
    then have "to_int32 len = len" "int ?L \<le> len" "0 < len" using L(3-5) to_int32_buf_len by auto
    then have "event_loop (Suc (Suc m)) S fd buf1 (int ?L - 1) 0 False v = Some (Ret fd' t)"
      using Ret x L(3) by simp
    then show ?thesis using l2 mo Ret x v rebuilt_setup [OF same_cases(2) [OF sv], of S fd k fd' t]
      by (auto simp del: event_loop.simps split: if_splits)
  next
    case (Exit st t)
    then have "event_loop (Suc (Suc m)) S fd buf1 (int ?L - 1) 0 False v = Some (Exit st t)" using L(3) by simp
    then show ?thesis using l2 mo Exit by (simp del: event_loop.simps)
  qed (use mo in simp_all)
qed

text \<open>The second read delivers the other half of the rename, and maybe more events.\<close>

lemma hanging_completed:
  assumes h: "hanging buf numRead evp ev n p s" and s: "dtree_ok s" "plain s"
    and rd: "sys_read S fd (INOTIFY_READ_BUF_LEN - event_len ev) (kern s) = (Inr bytes, k)"
      "length bytes \<le> INOTIFY_READ_BUF_LEN - event_len ev"
    and nxt: "event_at bytes = Some nxt" "event_len nxt \<le> length bytes" "has nxt IN_MOVED_TO" "ev_cookie nxt = ev_cookie ev"
      "0 \<le> ev_wd nxt" "cache_map (wlCache s) (ev_wd nxt) = Some q" "ev_name nxt = Some n'" "length n' < ev_len nxt"
    and fit: "length (full q n') < PATH_MAX" "fits (full p n) (full q n') (cache_map (wlCache s))"
  shows "\<exists>buf' t. event_loop (Suc (Suc m)) S fd buf numRead evp True s =
      event_loop m S fd buf' (int (event_len ev + length bytes)) (event_len ev + event_len nxt) True t \<and>
    take (length bytes) (drop (event_len ev) buf') = bytes \<and>
    cache_map (wlCache t) = renamed (full p n) (full q n') (cache_map (wlCache s)) \<and> live_roots t = live_roots s \<and> kern t = k"
proof -
  let ?L = "event_len ev"
  note L = hanging_len [OF h]
  obtain u where u: "frame s u" "wlCache u = wlCache s" and l: "\<And>m. event_loop (Suc m) S fd buf numRead evp True s =
       (case second_read S fd buf numRead evp u of
          Ret (buf1, numRead1) s2 \<Rightarrow> event_loop m S fd buf1 numRead1 0 False s2
        | Exit st t \<Rightarrow> Some (Exit st t) | Abort t \<Rightarrow> Some (Abort t) | Undef \<Rightarrow> Some Undef)"
    using hanging_step [OF h s(1)] by metis
  define rest where "rest = drop (length bytes) (drop ?L buf)"
  define buf1 where "buf1 = take ?L (drop evp buf) @ bytes @ rest"
  define v where "v = logMessage VB_NOISY (msg [nl, ''==========> SECONDARY Read '', dec (int (Suc (inotifyReadCnt u))),
      '': got '', dec (int (length bytes)), '' bytes'', nl]) (u\<lparr>kern := k, inotifyReadCnt := Suc (inotifyReadCnt u)\<rparr>)"
  have b: "bytes \<noteq> []" using nxt(1) by (auto simp: event_at_def SIZEOF_EVENT_def)
  have d: "length (take ?L (drop evp buf)) = ?L" using L(6) by simp
  have "second_read S fd buf numRead evp u = Ret (buf1, int (?L + length bytes)) v"
    using rd L b d frame_fields(4) [OF u(1)] by (simp add: second_read_def v_def buf1_def rest_def Let_def add.commute)
  then have l2: "event_loop (Suc (Suc m)) S fd buf numRead evp True s = event_loop (Suc m) S fd buf1 (int (?L + length bytes)) 0 False v"
    using l by (simp del: event_loop.simps)
  have sv: "same s v" using frame_same [OF u] by (simp add: v_def)
  have v: "dtree_ok v" "plain v" "wlCache v = wlCache s" "live_roots v = live_roots s" "kern v = k"
    using same_state [OF sv s] by (simp_all add: v_def)
  have e: "event_at buf1 = Some ev" "ev_name ev = Some n" "is_moved_from ev" "0 \<le> ev_wd ev" "cache_map (wlCache v) (ev_wd ev) = Some p"
    "length (full p n) < PATH_MAX" "cache_map (wlCache v) (ev_wd nxt) = Some q" "fits (full p n) (full q n') (cache_map (wlCache v))"
    using hanging_shuffled [OF h] h v(3) nxt(6) fit(2) by (simp_all add: buf1_def hanging_def)
  have d1: "drop ?L buf1 = bytes @ rest" using d by (simp add: buf1_def)
  have "event_at (take (event_len nxt) bytes @ drop (event_len nxt) bytes @ rest) = Some nxt"
    by (rule event_at_local [OF nxt(1,7,8,2)])
  then have n: "event_at (drop ?L buf1) = Some nxt" unfolding d1 by (metis append_assoc append_take_drop_id)
  have sz: "int ?L < int (?L + length bytes)" using b by simp
  obtain t where t: "processNextInotifyEvent S fd buf1 (int (?L + length bytes)) False v = Ret (fd, int (?L + event_len nxt)) t"
    "cache_map (wlCache t) = renamed (full p n) (full q n') (cache_map (wlCache v))" "live_roots t = live_roots v" "kern t = kern v"
    using event_renamed_lemma [OF e(1-3) v(1,2) e(4,5) sz n nxt(3-5) e(7) nxt(7) e(6) fit(1) e(8)] by blast
  have "?L + event_len nxt \<le> INOTIFY_READ_BUF_LEN" using rd(2) nxt(2) L(4) by simp
  then have "to_int32 (int (?L + event_len nxt)) = int (?L + event_len nxt)"
    by (intro to_int32_id) (simp_all add: long_limits dtree_consts)
  then have "event_loop (Suc m) S fd buf1 (int (?L + length bytes)) 0 False v =
      event_loop m S fd buf1 (int (?L + length bytes)) (?L + event_len nxt) True t"
    using t(1) L(3) by (simp add: nat_add_distrib)
  moreover have "take (length bytes) (drop ?L buf1) = bytes" using d1 by simp
  ultimately show ?thesis using l2 t v by metis
qed

end
