(* ===== verification/Getopt.thy ===== *)
theory Getopt
  imports Prelude
begin

text \<open>
  getopt(3) as the programs use it: short options only, operands permuted to the end of \<open>argv\<close>.
  The scan yields what the successive calls return, in order, and the operands that follow
  \<open>optind\<close> once the calls are over. The option string is a function from an option letter to whether
  it takes an argument.
\<close>

datatype gopt = Opt char "string option" | Bad char bool

text \<open>\<open>Bad c m\<close> is the result \<open>'?'\<close>; \<open>m\<close> tells a missing argument from an unknown option.\<close>

fun optspec :: "string \<Rightarrow> char \<Rightarrow> bool option" where
  "optspec [] c = None"
| "optspec [o1] c = (if o1 = c \<and> c \<noteq> CHR '':'' then Some False else None)"
| "optspec (o1 # o2 # os) c =
     (if o1 = c \<and> c \<noteq> CHR '':'' then Some (o2 = CHR '':'') else optspec (o2 # os) c)"

function getopt :: "(char \<Rightarrow> bool option) \<Rightarrow> string \<Rightarrow> string list \<Rightarrow> gopt list \<times> string list" where
  "getopt sp [] [] = ([], [])"
| "getopt sp [] (a # as) =
     (if a = ''--'' then ([], as)
      else if length a > 1 \<and> hd a = CHR ''-'' then getopt sp (tl a) as
      else (let (es, ops) = getopt sp [] as in (es, a # ops)))"
| "getopt sp (c # cs) as =
     (case sp c of
        None \<Rightarrow> (let (es, ops) = getopt sp cs as in (Bad c False # es, ops))
      | Some False \<Rightarrow> (let (es, ops) = getopt sp cs as in (Opt c None # es, ops))
      | Some True \<Rightarrow>
          if cs \<noteq> [] then (let (es, ops) = getopt sp [] as in (Opt c (Some cs) # es, ops))
          else (case as of
                  [] \<Rightarrow> ([Bad c True], [])
                | a # as' \<Rightarrow> (let (es, ops) = getopt sp [] as' in (Opt c (Some a) # es, ops))))"
  by pat_completeness auto
termination
  by (relation "measure (\<lambda>(sp, cs, as). length cs + sum_list (map (\<lambda>a. Suc (length a)) as))") auto

definition getopt_args :: "string \<Rightarrow> string list \<Rightarrow> gopt list \<times> string list" where
  "getopt_args optstring args = getopt (optspec optstring) [] args"

text \<open>The diagnostic that getopt prints for \<open>'?'\<close>.\<close>

definition getopt_msg :: "string \<Rightarrow> char \<Rightarrow> bool \<Rightarrow> string" where
  "getopt_msg pname c missing =
     msg [pname, if missing then '': option requires an argument -- '' else '': invalid option -- '',
          [CHR 0x27, c, CHR 0x27], nl]"

end
