(* ===== verification/DTree_Main.thy ===== *)
theory DTree_Main
  imports DTree_Loop Getopt
begin

text \<open>
  The interactive commands, the options and the main loop of \<open>inotify_dtree.c\<close>, and the invariant of
  the whole program: every state in which the main loop waits in select(2) has a well-formed cache
  and root list.
\<close>

section \<open>Commands\<close>

definition MAX_LINE :: nat where "MAX_LINE = 100"

text \<open>\<^verbatim>\<open>sscanf(line, "%c %s\n", &cmd, arg)\<close> on a line that is not empty.\<close>

definition scan_command :: "string \<Rightarrow> char \<times> string option" where
  "scan_command line =
     (let rest = takeWhile (\<lambda>c. \<not> isspace c) (dropWhile isspace (tl line))
      in (hd line, if rest = [] then None else Some rest))"

definition need_arg :: "string option \<Rightarrow> (string \<Rightarrow> ('k dstate, 'a) res) \<Rightarrow> ('k dstate, 'a) res" where
  "need_arg arg f = (case arg of None \<Rightarrow> Undef | Some a \<Rightarrow> f a)"

text \<open>\<open>cnt\<close> as printed by the messages: \<open>-1\<close> when \<open>zapSubtree\<close> failed.\<close>

definition zap_count :: "nat option \<Rightarrow> int" where
  "zap_count r = (case r of None \<Rightarrow> - 1 | Some n \<Rightarrow> int n)"

definition cmd_add :: "'k sys \<Rightarrow> int \<Rightarrow> string \<Rightarrow> 'k dstate \<Rightarrow> ('k dstate, int) res" where
  "cmd_add S inotifyFd arg s =
     (let (r, s1) = zapSubtree S inotifyFd arg s;
          s2 = (if zap_count r = 0 then logMessage VB_BASIC (msg [''Adding new subtree: '', arg, nl]) s1
                else logMessage VB_BASIC (msg [''Zapped: '', arg, '', '', dec (zap_count r), '' entries'', nl]) s1)
      in bindR (watchSubtree S inotifyFd arg s2) (\<lambda>_ s3. Ret inotifyFd s3))"

fun verify_slots :: "'k sys \<Rightarrow> bool \<Rightarrow> nat \<Rightarrow> nat \<Rightarrow> nat \<Rightarrow> watch list \<Rightarrow> 'k dstate \<Rightarrow> ('k dstate, nat \<times> nat) res" where
  "verify_slots S report j cnt failures [] s = Ret (cnt, failures) s"
| "verify_slots S report j cnt failures (w # ws) s =
     (if 0 \<le> wd w then
        (case sys_lstat S (path w) (kern s) of
           (Inl errno, k) \<Rightarrow>
             verify_slots S report (Suc j) cnt (Suc failures) ws
               (let s1 = s\<lparr>kern := k\<rparr>
                in if report then logMessage VB_BASIC (msg [''stat: [slot = '', dec (int j), ''; wd = '', dec (wd w),
                     ''] '', path w, '': '', sys_strerror S errno, nl]) s1 else s1)
         | (Inr sb, k) \<Rightarrow>
             let s1 = s\<lparr>kern := k\<rparr>
             in if \<not> S_ISDIR (st_mode sb)
                then Exit EXIT_FAILURE
                       (if report then logMessage 0 (msg [path w, '' is not a directory'', nl]) s1 else s1)
                else verify_slots S report (Suc j) (Suc cnt) failures ws
                       (if report then logMessage VB_NOISY (msg [''OK: [slot = '', dec (int j), ''; wd = '',
                          dec (wd w), ''] '', path w, nl]) s1 else s1))
      else verify_slots S report (Suc j) cnt failures ws s)"

definition cmd_check :: "'k sys \<Rightarrow> int \<Rightarrow> bool \<Rightarrow> 'k dstate \<Rightarrow> ('k dstate, int) res" where
  "cmd_check S inotifyFd report s =
     bindR (verify_slots S report 0 0 0 (wlCache s) s) (\<lambda>(cnt, failures) s1.
       Ret inotifyFd
         (logMessage 0 (msg [''Failures: '', dec (int failures), nl])
           (logMessage 0 (msg [''Successfully verified '', dec (int cnt), '' entries'', nl]) s1)))"

fun list_slots :: "nat \<Rightarrow> nat \<Rightarrow> watch list \<Rightarrow> 'k dstate \<Rightarrow> nat \<times> 'k dstate" where
  "list_slots j cnt [] s = (cnt, s)"
| "list_slots j cnt (w # ws) s =
     (if 0 \<le> wd w
      then list_slots (Suc j) (Suc cnt) ws
             (logMessage 0 (msg [dec (int j), '': '', dec (wd w), '' '', path w, nl]) s)
      else list_slots (Suc j) cnt ws s)"

definition cmd_list :: "int \<Rightarrow> 'k dstate \<Rightarrow> ('k dstate, int) res" where
  "cmd_list inotifyFd s =
     (let (cnt, s1) = list_slots 0 0 (wlCache s) s
      in Ret inotifyFd (logMessage VB_BASIC (msg [''Total entries: '', dec (int cnt), nl]) s1))"

definition on_off :: "bool \<Rightarrow> string" where
  "on_off b = msg [if b then ''on'' else ''off'', nl]"

definition cmd_verbose :: "int \<Rightarrow> string option \<Rightarrow> 'k dstate \<Rightarrow> ('k dstate, int) res" where
  "cmd_verbose inotifyFd arg s =
     (case arg of
        Some a \<Rightarrow> Ret inotifyFd (s\<lparr>verboseMask := atoi a\<rparr>)
      | None \<Rightarrow>
          let s1 = s\<lparr>verboseMask := (if verboseMask s = 0 then 1 else 0)\<rparr>
          in Ret inotifyFd (to_stdout (on_off (verboseMask s1 \<noteq> 0)) s1))"

definition cmd_write :: "'k sys \<Rightarrow> int \<Rightarrow> string \<Rightarrow> 'k dstate \<Rightarrow> ('k dstate, int) res" where
  "cmd_write S inotifyFd arg s =
     (case sys_write_file S arg (map (\<lambda>w. msg [path w, nl]) (filter (\<lambda>w. 0 \<le> wd w) (wlCache s))) (kern s) of
        (Some errno, k) \<Rightarrow> Undef
      | (None, k) \<Rightarrow> Ret inotifyFd (s\<lparr>kern := k\<rparr>))"

definition cmd_zap :: "'k sys \<Rightarrow> int \<Rightarrow> string \<Rightarrow> 'k dstate \<Rightarrow> ('k dstate, int) res" where
  "cmd_zap S inotifyFd arg s =
     (let (r, s1) = zapSubtree S inotifyFd arg s
      in Ret inotifyFd (logMessage VB_BASIC (msg [''Zapped: '', arg, '', '', dec (zap_count r), '' entries'', nl]) s1))"

definition help_lines :: "string list" where
  "help_lines =
     [''Commands:'', ''0        Rebuild cache'',
      ''a path   Add/refresh pathname watches and cache'', ''c        Verify cached pathnames'',
      ''d        Toggle cache dumping'', ''l        List cached pathnames'', ''q        Quit'',
      ''v [n]    Toggle/set verbose level for messages to stderr'', ''             0 = no messages'',
      ''             1 = basic messages'', ''             2 = verbose messages'',
      ''             3 = basic and verbose messages'', ''w file   Write directory list to file'',
      ''x        Toggle cache checking'', ''z path   Zap pathname and watches from cache'']"

definition run_command :: "'k sys \<Rightarrow> int \<Rightarrow> char \<Rightarrow> string option \<Rightarrow> 'k dstate \<Rightarrow> ('k dstate, int) res" where
  "run_command S inotifyFd cmd arg s =
     (if cmd = CHR ''a'' then need_arg arg (\<lambda>a. cmd_add S inotifyFd a s)
      else if cmd = CHR ''c'' \<or> cmd = CHR ''C'' then cmd_check S inotifyFd (cmd = CHR ''c'') s
      else if cmd = CHR ''l'' then cmd_list inotifyFd s
      else if cmd = CHR ''q'' then Exit EXIT_SUCCESS s
      else if cmd = CHR ''v'' then cmd_verbose inotifyFd arg s
      else if cmd = CHR ''d'' then
        Ret inotifyFd (to_stdout (on_off (\<not> dumpCache s)) (s\<lparr>dumpCache := \<not> dumpCache s\<rparr>))
      else if cmd = CHR ''x'' then
        Ret inotifyFd (to_stdout (on_off (\<not> checkCache s)) (s\<lparr>checkCache := \<not> checkCache s\<rparr>))
      else if cmd = CHR ''w'' then need_arg arg (\<lambda>a. cmd_write S inotifyFd a s)
      else if cmd = CHR ''z'' then need_arg arg (\<lambda>a. cmd_zap S inotifyFd a s)
      else if cmd = CHR ''0'' then reinitialize S (- 1) (s\<lparr>kern := sys_close S inotifyFd (kern s)\<rparr>)
      else Ret inotifyFd
             (fold (\<lambda>l. to_stdout (msg [l, nl])) help_lines
               (to_stdout (msg [''Unrecognized command: '', [cmd], nl]) s)))"

definition executeCommand :: "'k sys \<Rightarrow> int \<Rightarrow> 'k dstate \<Rightarrow> ('k dstate, int) res" where
  "executeCommand S inotifyFd s =
     (case sys_read S 0 MAX_LINE (kern s) of
        (Inl errno, k) \<Rightarrow> Exit EXIT_FAILURE (to_stdout (msg [''bye!'', nl]) (s\<lparr>kern := k\<rparr>))
      | (Inr bytes, k) \<Rightarrow>
          let s1 = s\<lparr>kern := k\<rparr>
          in if bytes = [] then Exit EXIT_FAILURE (to_stdout (msg [''bye!'', nl]) s1)
             else
               let line = takeWhile (\<lambda>c. c \<noteq> NUL) (butlast bytes)
               in if line = [] then Ret inotifyFd s1
                  else let (cmd, arg) = scan_command line in run_command S inotifyFd cmd arg s1)"

section \<open>Options\<close>

definition usage_lines :: "string list" where
  "usage_lines =
     [''    -v lvl   Display logging information'', ''    -l file  Send logging information to a file'',
      ''    -x       Check cache consistency after each operation'',
      ''    -d       Dump cache to log after every operation'',
      ''    -b size  Set buffer size for read() from inotify FD'',
      msg [''    -a file  Abort when cache inconsistency detected, and create '', sq, ''stop'', sq, '' file'']]"

definition usageError :: "string \<Rightarrow> 'k dstate \<Rightarrow> ('k dstate, 'a) res" where
  "usageError pname s =
     Exit EXIT_FAILURE (fold (\<lambda>l. to_stderr (msg [l, nl])) usage_lines
       (to_stderr (msg [''Usage: '', pname, '' [options] directory-path'', nl, nl]) s))"

definition apply_option :: "'k sys \<Rightarrow> string \<Rightarrow> gopt \<Rightarrow> 'k dstate \<Rightarrow> ('k dstate, unit) res" where
  "apply_option S pname opt s =
     (case opt of
        Bad c m \<Rightarrow> usageError pname (to_stderr (getopt_msg pname c m) s)
      | Opt c arg \<Rightarrow>
          if c = CHR ''a'' then Ret () (s\<lparr>abortOnCacheProblem := True, stopFile := arg\<rparr>)
          else if c = CHR ''x'' then Ret () (s\<lparr>checkCache := True\<rparr>)
          else if c = CHR ''d'' then Ret () (s\<lparr>dumpCache := True\<rparr>)
          else if c = CHR ''v'' then need_arg arg (\<lambda>a. Ret () (s\<lparr>verboseMask := atoi a\<rparr>))
          else if c = CHR ''b'' then need_arg arg (\<lambda>a. Ret () (s\<lparr>readBufferSize := atoi a\<rparr>))
          else if c = CHR ''l'' then need_arg arg (\<lambda>a.
            case sys_fopen_log S a (kern s) of
              (Some errno, k) \<Rightarrow> errExit S ''fopen'' errno (s\<lparr>kern := k, logfp := None\<rparr>)
            | (None, k) \<Rightarrow> Ret () (s\<lparr>kern := k, logfp := Some []\<rparr>))
          else usageError pname s)"

fun apply_options :: "'k sys \<Rightarrow> string \<Rightarrow> gopt list \<Rightarrow> 'k dstate \<Rightarrow> ('k dstate, unit) res" where
  "apply_options S pname [] s = Ret () s"
| "apply_options S pname (opt # opts) s =
     bindR (apply_option S pname opt s) (\<lambda>_ s1. apply_options S pname opts s1)"

text \<open>Static data is zero before \<open>main\<close> runs.\<close>

definition initial :: "'k \<Rightarrow> 'k dstate" where
  "initial k = \<lparr>verboseMask = 0, checkCache = False, dumpCache = False, readBufferSize = 0, stopFile = None,
     abortOnCacheProblem = False, logfp = None, inotifyReadCnt = 0, wlCache = [], rootDirPaths = [],
     numRootDirs = 0, ignoreRootDirs = 0, dirCnt = 0, ifd = 0, reinitCnt = 0, overflowCnt = 0, errOut = [],
     stdOut = [], kern = k\<rparr>"

section \<open>The main program\<close>

definition prompt :: "string \<Rightarrow> 'k dstate \<Rightarrow> 'k dstate" where
  "prompt pname s = to_stdout (msg [pname, ''> '']) s"

definition main_start :: "'k sys \<Rightarrow> string \<Rightarrow> string list \<Rightarrow> 'k \<Rightarrow> ('k dstate, int) res" where
  "main_start S pname args k =
     (let (opts, operands) = getopt_args ''a:dxl:v:b:'' args
      in bindR (apply_options S pname opts (initial k)) (\<lambda>_ s.
         if operands = [] then usageError pname s
         else bindR (copyRootDirPaths S operands s) (\<lambda>_ s1.
              bindR (reinitialize S (- 1) s1) (\<lambda>inotifyFd s2. Ret inotifyFd (prompt pname s2)))))"

text \<open>One iteration of the loop; \<open>None\<close> when the fuel of \<open>processInotifyEvents\<close> runs out.\<close>

definition main_iter :: "nat \<Rightarrow> 'k sys \<Rightarrow> string \<Rightarrow> int \<Rightarrow> 'k dstate \<Rightarrow> ('k dstate, int) res option" where
  "main_iter fuel S pname inotifyFd s =
     (case sys_select S inotifyFd (kern s) of
        (Inl errno, k) \<Rightarrow> Some (errExit S ''select'' errno (s\<lparr>kern := k\<rparr>))
      | (Inr rfds, k) \<Rightarrow>
          (case (if 0 \<in> set rfds
                 then bindR (executeCommand S inotifyFd (s\<lparr>kern := k\<rparr>)) (\<lambda>fd t. Ret fd (prompt pname t))
                 else Ret inotifyFd (s\<lparr>kern := k\<rparr>)) of
             Ret fd s1 \<Rightarrow> if fd \<in> set rfds then processInotifyEvents fuel S fd s1 else Some (Ret fd s1)
           | Exit st t \<Rightarrow> Some (Exit st t) | Abort t \<Rightarrow> Some (Abort t) | Undef \<Rightarrow> Some Undef))"

inductive reach :: "'k sys \<Rightarrow> string \<Rightarrow> string list \<Rightarrow> 'k \<Rightarrow> int \<Rightarrow> 'k dstate \<Rightarrow> bool"
  for S :: "'k sys" and pname :: string and args :: "string list" and k :: 'k where
  start: "main_start S pname args k = Ret fd s \<Longrightarrow> reach S pname args k fd s"
| iter: "reach S pname args k fd s \<Longrightarrow> main_iter fuel S pname fd s = Some (Ret fd' t) \<Longrightarrow>
         reach S pname args k fd' t"

section \<open>The invariant of the program\<close>

lemma ok_fields [simp]:
  "dtree_ok (s\<lparr>kern := k\<rparr>) = dtree_ok s" "dtree_ok (s\<lparr>dumpCache := b\<rparr>) = dtree_ok s"
  "dtree_ok (s\<lparr>checkCache := b\<rparr>) = dtree_ok s" "dtree_ok (s\<lparr>verboseMask := n\<rparr>) = dtree_ok s"
  "dtree_ok (s\<lparr>inotifyReadCnt := m\<rparr>) = dtree_ok s" "dtree_ok (to_stdout t s) = dtree_ok s"
  by (simp_all add: dtree_ok_def watching_def roots_ok_def live_roots_def to_stdout_def)

lemma same_okD: "same s t \<Longrightarrow> dtree_ok s \<Longrightarrow> dtree_ok t"
  by (simp add: same_ok)

lemma verify_slots_same: "post (\<lambda>_ t. same s t) (verify_slots S rep j c f ws s)"
proof -
  have "same s u \<Longrightarrow> post (\<lambda>_ t. same s t) (verify_slots S rep j c f ws u)" for u
    by (induction ws arbitrary: j c f u) (auto simp: Let_def split: sum.splits prod.splits)
  then show ?thesis by simp
qed

lemma list_slots_same: "same s (snd (list_slots j c ws s))"
proof -
  have "same s u \<Longrightarrow> same s (snd (list_slots j c ws u))" for u
    by (induction ws arbitrary: j c u) auto
  then show ?thesis by simp
qed

lemma cmd_add_ok:
  assumes "kernel_ok S" "dtree_ok s"
  shows "post (\<lambda>_ t. dtree_ok t) (cmd_add S fd a s)"
proof -
  obtain r t where z: "zapSubtree S fd a s = (r, t)" by fastforce
  then have "dtree_ok t" using zapSubtree_ok assms(2) by blast
  then show ?thesis using z assms(1) by (simp add: cmd_add_def post_bindR watchSubtree_ok)
qed

lemma fold_stdout_ok: "dtree_ok s \<Longrightarrow> dtree_ok (fold (\<lambda>l. to_stdout (f l)) ls s)"
  by (induction ls arbitrary: s) simp_all

lemma run_command_ok:
  assumes "kernel_ok S" "dtree_ok s"
  shows "post (\<lambda>_ t. dtree_ok t) (run_command S fd cmd arg s)"
proof -
  have check: "post (\<lambda>_ t. dtree_ok t) (cmd_check S fd rep s)" for rep
    unfolding cmd_check_def post_bindR
    by (rule post_mono [OF verify_slots_same]) (use same_okD [OF _ assms(2)] in \<open>simp split: prod.split\<close>)
  have list: "post (\<lambda>_ t. dtree_ok t) (cmd_list fd s)"
    using same_okD [OF list_slots_same assms(2), of 0 0 "wlCache s"]
    by (auto simp: cmd_list_def split: prod.split)
  have zap: "post (\<lambda>_ t. dtree_ok t) (cmd_zap S fd a s)" for a
    using zapSubtree_ok [OF assms(2)] by (simp add: cmd_zap_def split: prod.split)
  have rebuild: "post (\<lambda>_ t. dtree_ok t) (reinitialize S (- 1) (s\<lparr>kern := k\<rparr>))" for k
    using assms ok_watching [of "s\<lparr>kern := k\<rparr>"] by (intro reinitialize_ok) simp_all
  have arg: "post (\<lambda>_ t. dtree_ok t) (need_arg arg f)" if "\<And>a. post (\<lambda>_ t. dtree_ok t) (f a)" for f
    using that by (simp add: need_arg_def split: option.split)
  have wr: "post (\<lambda>_ t. dtree_ok t) (cmd_write S fd a s)" for a
    using assms(2) by (simp add: cmd_write_def split: prod.split option.split)
  have vb: "post (\<lambda>_ t. dtree_ok t) (cmd_verbose fd arg s)"
    using assms(2) by (simp add: cmd_verbose_def Let_def split: option.split)
  show ?thesis unfolding run_command_def
    by (intro post_if arg check list zap rebuild wr vb cmd_add_ok assms)
       (simp_all only: post.simps ok_fields fold_stdout_ok assms)
qed

lemma executeCommand_ok:
  "kernel_ok S \<Longrightarrow> dtree_ok s \<Longrightarrow> post (\<lambda>_ t. dtree_ok t) (executeCommand S fd s)"
  unfolding executeCommand_def Let_def
  by (simp add: run_command_ok split: prod.split sum.split)

lemma processInotifyEvents_ok:
  assumes "kernel_ok S" "dtree_ok s" "processInotifyEvents fuel S fd s = Some r"
  shows "post (\<lambda>_ t. dtree_ok t) r"
proof -
  obtain x k where rd: "sys_read S fd (if 0 < readBufferSize s then nat (readBufferSize s) else INOTIFY_READ_BUF_LEN)
      (kern s) = (x, k)" by fastforce
  show ?thesis
  proof (cases x)
    case (Inl e)
    then show ?thesis using assms(3) rd by (auto simp: processInotifyEvents_def errExit_def Let_def)
  next
    case (Inr b)
    show ?thesis
    proof (cases "b = [] \<or> length b > INOTIFY_READ_BUF_LEN")
      case True
      then show ?thesis using assms(3) rd Inr by (auto simp: processInotifyEvents_def Let_def split: if_splits)
    next
      case False
      let ?t = "logMessage VB_NOISY (msg [nl, ''==========> Read '', dec (int (Suc (inotifyReadCnt s))),
          '': got '', dec (int (length b)), '' bytes'', nl]) (s\<lparr>kern := k, inotifyReadCnt := Suc (inotifyReadCnt s)\<rparr>)"
      have "event_loop fuel S fd b (int (length b)) 0 True ?t = Some r"
        using assms(3) rd Inr False by (simp add: processInotifyEvents_def Let_def)
      then show ?thesis using assms(1,2) by (intro event_loop_keeps_ok [of S ?t]) simp_all
    qed
  qed
qed

lemma main_iter_ok:
  assumes "kernel_ok S" "dtree_ok s" "main_iter fuel S pname fd s = Some r"
  shows "post (\<lambda>_ t. dtree_ok t) r"
proof -
  obtain x k where sel: "sys_select S fd (kern s) = (x, k)" by fastforce
  show ?thesis
  proof (cases x)
    case (Inl e)
    then show ?thesis using assms(3) sel by (auto simp: main_iter_def errExit_def)
  next
    case (Inr rfds)
    define c where "c = (if 0 \<in> set rfds
       then bindR (executeCommand S fd (s\<lparr>kern := k\<rparr>)) (\<lambda>fd t. Ret fd (prompt pname t))
       else Ret fd (s\<lparr>kern := k\<rparr>))"
    have ok: "post (\<lambda>_ t. dtree_ok t) c" unfolding c_def
      using executeCommand_ok [OF assms(1), of "s\<lparr>kern := k\<rparr>" fd] assms(2) by (simp add: post_bindR prompt_def)
    have m: "Some r = (case c of
        Ret fd s1 \<Rightarrow> if fd \<in> set rfds then processInotifyEvents fuel S fd s1 else Some (Ret fd s1)
      | Exit st t \<Rightarrow> Some (Exit st t) | Abort t \<Rightarrow> Some (Abort t) | Undef \<Rightarrow> Some Undef)"
      unfolding assms(3) [symmetric] main_iter_def sel Inr prod.case sum.case c_def ..
    show ?thesis
    proof (cases c)
      case (Ret fd' t)
      then have t: "dtree_ok t" using ok by simp
      then show ?thesis using m Ret processInotifyEvents_ok [OF assms(1) t, of fuel fd' r]
        by (auto split: if_splits)
    qed (use m in auto)
  qed
qed

lemma main_start_ok:
  assumes "kernel_ok S" "main_start S pname args k = Ret fd s"
  shows "dtree_ok s" "live_roots s = snd (getopt_args ''a:dxl:v:b:'' args)"
proof -
  obtain opts ops where g: "getopt_args ''a:dxl:v:b:'' args = (opts, ops)" by fastforce
  obtain u s0 sts s1 s2 where "apply_options S pname opts (initial k) = Ret u s0" and ne: "ops \<noteq> []"
    and c: "copyRootDirPaths S ops s0 = Ret sts s1" and r: "reinitialize S (- 1) s1 = Ret fd s2"
    and s: "s = prompt pname s2"
    using assms(2) g by (auto simp: main_start_def bindR_Ret_iff usageError_def split: if_splits)
  have w: "watching s1" using copyRootDirPaths_Ret(1,2) [OF c] ne by (simp add: watching_def)
  have "dtree_ok s2" using postD [OF reinitialize_ok [OF assms(1) w] r] .
  then show "dtree_ok s" using s by (simp add: prompt_def)
  have "same_setup s1 s2" using assms(1) r by (rule reinitialize_Ret)
  then have "live_roots s2 = ops" using copyRootDirPaths_Ret(2) [OF c] same_setup_live by auto
  then show "live_roots s = snd (getopt_args ''a:dxl:v:b:'' args)"
    using s g by (simp add: prompt_def live_roots_def to_stdout_def)
qed

end
