(* ===== verification/DTree_Properties.thy ===== *)
theory DTree_Properties
  imports DTree_Main
begin

text \<open>
  The properties of \<open>inotify_dtree.c\<close>, each with an instance on a small concrete kernel where it has
  hypotheses.
\<close>

section \<open>A concrete kernel\<close>

text \<open>
  Every pathname is a directory without subdirectories, watch descriptors are handed out in order,
  and the read that waits for the second half of a rename times out.
\<close>

definition a_dir :: fstat where "a_dir = \<lparr>st_mode = 0x41ED, st_ino = 2, st_dev = 1\<rparr>"

definition demo :: "nat sys" where
  "demo = \<lparr>sys_lstat = (\<lambda>p k. (Inr \<lparr>st_mode = 0x41ED, st_ino = length p, st_dev = 1\<rparr>, k)),
     sys_add_watch = (\<lambda>fd p fl k. (Inr (int k), Suc k)), sys_rm_watch = (\<lambda>fd d k. (None, k)),
     sys_inotify_init = (\<lambda>k. (Inr 5, k)), sys_close = (\<lambda>fd k. k),
     sys_nftw = (\<lambda>p k. (if length p < PATH_MAX then [(p, a_dir)] else [], None, k)),
     sys_read = (\<lambda>fd n k. (Inl EINTR, k)), sys_creat = (\<lambda>p k. k), sys_write_file = (\<lambda>p ls k. (None, k)),
     sys_fopen_log = (\<lambda>p k. (None, k)), sys_select = (\<lambda>fd k. (Inr [], k)),
     sys_strerror = (\<lambda>e. ''error''), sys_ptrs = '''', sys_fresh = \<lparr>wd = - 1, path = ''''\<rparr>\<rparr>"

text \<open>A watched root \<^verbatim>\<open>r\<close> with two subdirectories.\<close>

definition demo_state :: "nat dstate" where
  "demo_state = (initial 9)\<lparr>wlCache := [\<lparr>wd = 1, path = ''r''\<rparr>, \<lparr>wd = 2, path = ''r/a''\<rparr>,
     \<lparr>wd = - 1, path = ''''\<rparr>, \<lparr>wd = 3, path = ''r/a/b''\<rparr>], rootDirPaths := [Some ''r''], numRootDirs := 1\<rparr>"

lemma demo_kernel: "kernel_ok demo" "kernel_up demo"
  by (auto simp: kernel_ok_def kernel_up_def demo_def split: if_splits)

lemma demo_state_ok: "dtree_ok demo_state" "plain demo_state"
  by (simp_all add: dtree_ok_def cache_ok_def watching_def roots_ok_def live_roots_def plain_def demo_state_def
      initial_def live_def PATH_MAX_def)

lemma demo_state_map: "cache_map (wlCache demo_state) = [1 \<mapsto> ''r'', 2 \<mapsto> ''r/a'', 3 \<mapsto> ''r/a/b'']"
  by (rule ext) (simp add: demo_state_def initial_def cache_map_def live_def)

lemma demo_rm: "fst (sys_rm_watch demo fd d k) = None"
  by (simp add: demo_def)

lemma demo_main_start: "\<exists>fd s. main_start demo ''p'' [''r''] 7 = Ret fd s"
proof -
  have g: "getopt_args ''a:dxl:v:b:'' [''r''] = ([], [''r''])" by (simp add: getopt_args_def)
  obtain sts u where c: "copyRootDirPaths demo [''r''] (initial 7) = Ret sts u"
    by (simp add: copyRootDirPaths_def demo_def S_ISDIR_def Let_def)
  obtain fd t where "reinitialize demo (- 1) u = Ret fd t" using reinitialize_total [OF demo_kernel(2)] by blast
  then show ?thesis by (simp add: main_start_def g c)
qed

text \<open>The buffers of the concrete runs below: the header of an event in host order, its name and padding, as inotify(7) describes them.\<close>

definition enc32 :: "32 word \<Rightarrow> string" where
  "enc32 w = (let n = unat w in
     [char_of (n mod 256), char_of (n div 256 mod 256), char_of (n div 65536 mod 256), char_of (n div 16777216)])"

definition enc_event :: "int \<Rightarrow> 32 word \<Rightarrow> 32 word \<Rightarrow> string \<Rightarrow> nat \<Rightarrow> string" where
  "enc_event d m c n pad =
     enc32 (word_of_int d) @ enc32 m @ enc32 c @ enc32 (word_of_nat (length n + pad)) @ n @ replicate pad NUL"

lemma length_enc32 [simp]: "length (enc32 w) = 4"
  by (simp add: enc32_def Let_def)

lemma code_char_of: "code (char_of n :: char) = n mod 256"
  by (simp add: of_char_of)

lemma bytes_of_nat:
  assumes "(n :: nat) < 4294967296"
  shows "n mod 256 + 256 * (n div 256 mod 256) + 65536 * (n div 65536 mod 256)
      + 16777216 * (n div 16777216 mod 256) = n"
proof -
  have e: "n div 65536 = n div 256 div 256" "n div 16777216 = n div 256 div 256 div 256"
    by (simp_all add: div_mult2_eq [symmetric])
  define a b c where "a = n div 256" and "b = a div 256" and "c = b div 256"
  have "n = 256 * a + n mod 256" "a = 256 * b + a mod 256" "b = 256 * c + b mod 256"
    by (simp_all add: a_def b_def c_def)
  moreover have "c < 256"
    using assms by (simp add: a_def b_def c_def div_mult2_eq [symmetric] less_mult_imp_div_less)
  then have "c mod 256 = c" by simp
  ultimately show ?thesis unfolding e a_def [symmetric] b_def [symmetric] c_def [symmetric] by linarith
qed

lemma le32_enc32: "le32 (enc32 w @ b) 0 = w"
proof -
  define n where "n = unat w"
  have n: "n < 4294967296" using unsigned_less [of w] by (simp add: n_def)
  then have "n div 16777216 mod 256 = n div 16777216" by (simp add: less_mult_imp_div_less)
  with bytes_of_nat [OF n] have "code ((enc32 w @ b) ! 0) + 256 * code ((enc32 w @ b) ! (0 + 1))
      + 65536 * code ((enc32 w @ b) ! (0 + 2)) + 16777216 * code ((enc32 w @ b) ! (0 + 3)) = n"
    by (simp add: enc32_def Let_def n_def [symmetric] code_char_of)
  then show ?thesis unfolding le32_def by (simp only: n_def) simp
qed

lemma le32_append: "length a = k \<Longrightarrow> le32 (a @ b) (k + i) = le32 b i"
  by (auto simp: le32_def nth_append)

lemma cstr_name: "NUL \<notin> set n \<Longrightarrow> 0 < pad \<Longrightarrow> cstr (n @ replicate pad NUL @ b) = Some n"
proof (cases pad)
  case (Suc k)
  assume "NUL \<notin> set n"
  then have "takeWhile (\<lambda>c. c \<noteq> NUL) (n @ NUL # replicate k NUL @ b) = n"
    by (subst takeWhile_append2) auto
  with Suc show ?thesis by (simp add: cstr_def)
qed simp

lemma event_at_enc:
  assumes "- (2 ^ 31) \<le> d" "d < 2 ^ 31" "length n + pad < 2 ^ 32"
  shows "event_at (enc_event d m c n pad @ b) =
    Some \<lparr>ev_wd = d, ev_mask = m, ev_cookie = c, ev_len = length n + pad,
          ev_name = cstr (n @ replicate pad NUL @ b)\<rparr>"
proof -
  let ?b = "enc_event d m c n pad @ b"
  have "le32 ?b 0 = word_of_int d" by (simp add: enc_event_def le32_enc32)
  moreover have "le32 ?b 4 = m"
    using le32_append [of "enc32 (word_of_int d)" 4 _ 0] by (simp add: enc_event_def le32_enc32)
  moreover have "le32 ?b 8 = c"
    using le32_append [of "enc32 (word_of_int d) @ enc32 m" 8 _ 0] by (simp add: enc_event_def le32_enc32)
  moreover have "le32 ?b 12 = word_of_nat (length n + pad)"
    using le32_append [of "enc32 (word_of_int d) @ enc32 m @ enc32 c" 12 _ 0]
    by (simp add: enc_event_def le32_enc32)
  moreover have "sint (word_of_int d :: 32 word) = d"
    using assms(1,2) by (simp add: sint_sbintrunc' signed_take_bit_int_eq_self)
  moreover have "unat (word_of_nat (length n + pad) :: 32 word) = length n + pad"
    using assms(3) by (simp add: unat_of_nat take_bit_nat_eq_self del: of_nat_add)
  moreover have "drop 16 ?b = n @ replicate pad NUL @ b" by (simp add: enc_event_def)
  moreover have "16 \<le> length ?b" by (simp add: enc_event_def)
  ultimately show ?thesis unfolding event_at_def SIZEOF_EVENT_def by simp
qed

definition demo_from :: string where
  "demo_from = enc_event 1 (IN_MOVED_FROM OR IN_ISDIR) 77 ''a'' 15"

definition demo_to :: string where
  "demo_to = enc_event 1 (IN_MOVED_TO OR IN_ISDIR) 77 ''z'' 15"

definition from_ev :: inotify_event where
  "from_ev = \<lparr>ev_wd = 1, ev_mask = IN_MOVED_FROM OR IN_ISDIR, ev_cookie = 77, ev_len = 16, ev_name = Some ''a''\<rparr>"

definition to_ev :: inotify_event where
  "to_ev = \<lparr>ev_wd = 1, ev_mask = IN_MOVED_TO OR IN_ISDIR, ev_cookie = 77, ev_len = 16, ev_name = Some ''z''\<rparr>"

lemma demo_from_at: "event_at (demo_from @ b) = Some from_ev"
  using event_at_enc [of 1 "''a''" 15 _ _ b] cstr_name [of "''a''" 15 b] by (simp add: demo_from_def from_ev_def NUL_def)

lemma demo_to_at: "event_at (demo_to @ b) = Some to_ev"
  using event_at_enc [of 1 "''z''" 15 _ _ b] cstr_name [of "''z''" 15 b] by (simp add: demo_to_def to_ev_def NUL_def)

lemma demo_event_len: "event_len from_ev = 32" "event_len to_ev = 32" "length demo_from = 32" "length demo_to = 32"
  by (simp_all add: event_len_def from_ev_def to_ev_def SIZEOF_EVENT_def demo_from_def demo_to_def enc_event_def)

lemma demo_kinds: "is_moved_from from_ev" "has to_ev IN_MOVED_TO"  "is_created to_ev"
  by (simp_all add: kinds has_def from_ev_def to_ev_def in_flags)

section \<open>The program\<close>

text \<open>
  C1. Whatever the kernel answers and whatever commands and events arrive, each time the main loop
  waits in select(2) the cache is well formed (descriptors of used slots distinct and non-negative,
  unused slots marked, pathnames within \<open>PATH_MAX\<close>), the counters of root directories agree with
  the list, and there is still a root directory to watch.
\<close>

theorem program_invariant:
  assumes "kernel_ok S" "reach S pname args k fd s"
  shows "cache_ok (wlCache s) \<and> roots_ok s \<and> live_roots s \<noteq> []"
proof -
  from assms(2) have "dtree_ok s"
  proof induction
    case (start fd s)
    then show ?case using main_start_ok(1) [OF assms(1)] by blast
  next
    case (iter fd s fuel fd' t)
    then show ?case using main_iter_ok [OF assms(1) iter.IH iter.hyps(2)] by simp
  qed
  then show ?thesis by (simp add: dtree_ok_def watching_def)
qed

theorem program_invariant_witness:
  "\<exists>fd s. reach demo ''p'' [''r''] 7 fd s \<and> cache_ok (wlCache s) \<and> roots_ok s \<and> live_roots s \<noteq> []"
proof -
  obtain fd s where "main_start demo ''p'' [''r''] 7 = Ret fd s" using demo_main_start by blast
  then have r: "reach demo ''p'' [''r''] 7 fd s" by (rule reach.start)
  show ?thesis using program_invariant [OF demo_kernel(1) r] r by blast
qed

text \<open>
  C4. Processing a read ends: when the events still to come are finite in number, enough fuel, at
  most one more than the events to come times the buffer length plus the bytes read, gives a result.
  This holds for any bytes in the buffer, malformed events included.
\<close>

theorem processInotifyEvents_returns:
  assumes "quiet S mu" "Suc (mu (kern s)) * Suc INOTIFY_READ_BUF_LEN < fuel"
  shows "\<exists>r. processInotifyEvents fuel S fd s = Some r"
proof -
  obtain x k where rd: "sys_read S fd (if 0 < readBufferSize s then nat (readBufferSize s) else INOTIFY_READ_BUF_LEN)
      (kern s) = (x, k)" by fastforce
  show ?thesis
  proof (cases "\<exists>b. x = Inr b \<and> b \<noteq> [] \<and> length b \<le> INOTIFY_READ_BUF_LEN")
    case False
    then show ?thesis using rd by (cases x) (auto simp: processInotifyEvents_def Let_def)
  next
    case True
    then obtain b where b: "x = Inr b" "b \<noteq> []" "length b \<le> INOTIFY_READ_BUF_LEN" by blast
    let ?t = "logMessage VB_NOISY (msg [nl, ''==========> Read '', dec (int (Suc (inotifyReadCnt s))),
        '': got '', dec (int (length b)), '' bytes'', nl]) (s\<lparr>kern := k, inotifyReadCnt := Suc (inotifyReadCnt s)\<rparr>)"
    have "mu k \<le> mu (kern s)" using quiet_read [OF assms(1) rd] b by simp
    then have "mu k * Suc INOTIFY_READ_BUF_LEN \<le> mu (kern s) * Suc INOTIFY_READ_BUF_LEN" by (rule mult_le_mono1)
    then have "mu (kern ?t) * Suc INOTIFY_READ_BUF_LEN + nat (int (length b) - int 0) < fuel"
      using assms(2) b(3) by simp
    from event_loop_terminates [OF assms(1) this] show ?thesis
      using rd b by (simp add: processInotifyEvents_def Let_def)
  qed
qed

text \<open>A kernel that delivers one more event.\<close>

definition demo_last :: "nat sys" where
  "demo_last = demo\<lparr>sys_add_watch := (\<lambda>fd p fl k. (Inr 1, k)),
     sys_read := (\<lambda>fd n k. if k = 0 then (Inl EINTR, 0) else (Inr demo_from, k - 1))\<rparr>"

theorem processInotifyEvents_returns_witness:
  "\<exists>r. processInotifyEvents 60000 demo_last 5 (demo_state\<lparr>kern := 1\<rparr>) = Some r"
proof -
  have "kclosed demo_last (\<lambda>k. k \<le> m)" for m
    by (simp add: kclosed_def demo_last_def demo_def)
  then have "quiet demo_last (\<lambda>k. k)"
    by (auto simp: quiet_def demo_last_def)
  from processInotifyEvents_returns [OF this, of "demo_state\<lparr>kern := 1\<rparr>" 60000 5]
  show ?thesis by (simp add: dtree_consts)
qed

section \<open>Events\<close>

text \<open>
  C2. A rename inside the watched trees: a buffer with an \<open>IN_MOVED_FROM\<close> for a directory directly
  followed by the \<open>IN_MOVED_TO\<close> with its cookie consumes both events, and renames the directory and
  everything below it in the cache, and nothing else.
\<close>

theorem event_renamed:
  assumes "event_at buf = Some ev" "ev_name ev = Some n" "is_moved_from ev" "dtree_ok s" "plain s" "0 \<le> ev_wd ev"
    "cache_map (wlCache s) (ev_wd ev) = Some p"
    and "int (event_len ev) < sz" "event_at (drop (event_len ev) buf) = Some nxt" "has nxt IN_MOVED_TO"
      "ev_cookie nxt = ev_cookie ev" "0 \<le> ev_wd nxt" "cache_map (wlCache s) (ev_wd nxt) = Some q"
      "ev_name nxt = Some n'"
    and "length (full p n) < PATH_MAX" "length (full q n') < PATH_MAX"
      "fits (full p n) (full q n') (cache_map (wlCache s))"
  shows "\<exists>t. processNextInotifyEvent S fd buf sz ft s = Ret (fd, int (event_len ev + event_len nxt)) t \<and>
    cache_map (wlCache t) = (\<lambda>d. map_option (rename_path (full p n) (full q n')) (cache_map (wlCache s) d)) \<and>
    live_roots t = live_roots s \<and> kern t = kern s"
  using event_renamed_lemma [OF assms] by (simp add: renamed_def)

theorem event_renamed_witness:
  "\<exists>t. processNextInotifyEvent demo 5 (demo_from @ demo_to) 64 True demo_state = Ret (5, 64) t \<and>
     cache_map (wlCache t) = [1 \<mapsto> ''r'', 2 \<mapsto> ''r/z'', 3 \<mapsto> ''r/z/b'']"
proof -
  have m: "(\<lambda>d. map_option (rename_path ''r/a'' ''r/z'') (cache_map (wlCache demo_state) d))
      = [1 \<mapsto> ''r'', 2 \<mapsto> ''r/z'', 3 \<mapsto> ''r/z/b'']"
    unfolding demo_state_map by (rule ext) (simp add: rename_path_def in_subtree_def)
  have f: "fits ''r/a'' ''r/z'' (cache_map (wlCache demo_state))"
    unfolding demo_state_map by (simp add: fits_def rename_path_def in_subtree_def PATH_MAX_def)
  have d: "event_at (drop 32 (demo_from @ demo_to)) = Some to_ev"
    using demo_to_at [of "[]"] by (simp add: demo_event_len)
  show ?thesis
    using event_renamed [OF demo_from_at _ demo_kinds(1) demo_state_ok, of "''a''" "''r''" 64 demo_to to_ev "''r''" "''z''" demo 5 True]
      m f d demo_kinds(2) demo_event_len demo_state_map
    by (auto simp: from_ev_def to_ev_def PATH_MAX_def)
qed

text \<open>
  C3. A move out of the watched trees: an \<open>IN_MOVED_FROM\<close> that is not followed by its \<open>IN_MOVED_TO\<close>
  calls inotify_rm_watch(2) for the directory and everything below it, in the order of the cache. When all
  calls succeed these entries leave the cache, and nothing else, and the event is consumed. When one fails the
  cache is rebuilt from the root directories and the rest of the buffer is discarded; a rebuild that the kernel
  has no resources for ends the program with a failure status. (Without the options \<open>-d\<close> and \<open>-x\<close>, which add a dump and a check of the cache, and for
  pathnames that fit their buffer.)
\<close>

theorem event_moved_out:
  assumes "event_at buf = Some ev" "ev_name ev = Some n" "is_moved_from ev" "dtree_ok s" "plain s" "0 \<le> ev_wd ev"
    "cache_map (wlCache s) (ev_wd ev) = Some p" "unmatched buf sz ft ev" "length (full p n) < PATH_MAX" "kernel_ok S"
    "rm_watches S fd (watches_below (full p n) (wlCache s)) (kern s) = (ok, k)"
  shows "case processNextInotifyEvent S fd buf sz ft s of
      Ret (fd', m) t \<Rightarrow>
        if ok then fd' = fd \<and> m = int (event_len ev) \<and> cache_map (wlCache t) = prune (full p n) (cache_map (wlCache s)) \<and>
          live_roots t = live_roots s \<and> kern t = k
        else m = int INOTIFY_READ_BUF_LEN \<and> rebuilt S fd k s fd' t
    | Exit st t \<Rightarrow> \<not> ok \<and> \<not> kernel_up S \<and> st = EXIT_FAILURE
    | Abort t \<Rightarrow> False | Undef \<Rightarrow> False"
  using assms by (rule event_moved_out_lemma)

text \<open>A kernel whose inotify_rm_watch(2) fails.\<close>

definition demo_norm :: "nat sys" where
  "demo_norm = demo\<lparr>sys_rm_watch := (\<lambda>fd d k. (Some 22, k))\<rparr>"

lemma demo_norm_kernel: "kernel_ok demo_norm" "kernel_up demo_norm"
  by (auto simp: kernel_ok_def kernel_up_def demo_norm_def demo_def split: if_splits)

lemma demo_below: "watches_below ''r/a'' (wlCache demo_state) = [2, 3]" "kern demo_state = 9" "live_roots demo_state = [''r'']"
  by (simp_all add: watches_below_def demo_state_def initial_def live_roots_def in_subtree_def)

lemma demo_prune: "prune ''r/a'' (cache_map (wlCache demo_state)) = [1 \<mapsto> ''r'']"
  unfolding demo_state_map by (rule ext) (simp add: prune_def in_subtree_def)

theorem event_moved_out_witness:
  "(\<exists>t. processNextInotifyEvent demo 5 demo_from 32 False demo_state = Ret (5, 32) t \<and> cache_map (wlCache t) = [1 \<mapsto> ''r'']) \<and>
   (\<exists>t. processNextInotifyEvent demo_norm 5 demo_from 32 False demo_state = Ret (5, 27200) t \<and> cache_map (wlCache t) = [9 \<mapsto> ''r''])"
proof -
  have a: "rm_watches demo 5 [2, 3] 9 = (True, 9)" "rm_watches demo_norm 5 [2, 3] 9 = (False, 9)"
    by (simp_all add: demo_def demo_norm_def)
  have r: "rebuilt demo_norm 5 9 demo_state fd' t \<longleftrightarrow> fd' = 5 \<and> kern t = 10 \<and> cache_map (wlCache t) = [9 \<mapsto> ''r''] \<and> live_roots t = [''r'']" for fd' t
    by (auto simp: rebuilt_def demo_below demo_norm_def demo_def subtree_adds_def a_dir_def S_ISDIR_def PATH_MAX_def)
  note ev = event_moved_out [OF demo_from_at [of "[]"] _ demo_kinds(1) demo_state_ok, of "''a''" "''r''" 32 False]
  have "case processNextInotifyEvent demo 5 demo_from 32 False demo_state of
      Ret (fd', m) t \<Rightarrow> fd' = 5 \<and> m = 32 \<and> cache_map (wlCache t) = [1 \<mapsto> ''r''] | _ \<Rightarrow> False"
    using ev [of demo 5 True 9] a(1) demo_kernel(1) demo_below demo_prune demo_state_map demo_event_len
    by (auto simp: from_ev_def unmatched_def PATH_MAX_def split: res.splits)
  moreover have "case processNextInotifyEvent demo_norm 5 demo_from 32 False demo_state of
      Ret (fd', m) t \<Rightarrow> fd' = 5 \<and> m = 27200 \<and> cache_map (wlCache t) = [9 \<mapsto> ''r''] | _ \<Rightarrow> False"
    using ev [of demo_norm 5 False 9] a(2) demo_norm_kernel demo_below demo_state_map demo_event_len r
    by (auto simp: from_ev_def unmatched_def dtree_consts split: res.splits)
  ultimately show ?thesis by (auto split: res.splits)
qed

text \<open>
  C13. An \<open>IN_MOVED_FROM\<close> for a directory that is the last event of the buffer, at any offset, and whose second
  read is interrupted by the timer: the event is moved to the front of the buffer and handled as a move out of the trees,
  with both outcomes of the removal of the watches, and the loop ends. The adjustment \<open>numRead += nr\<close> with
  \<open>nr = -1\<close>, made because the source tests \<open>errno != -1\<close> in place of \<open>nr != -1\<close>, has no other effect. (Conditions as for the event that does not hang.)
\<close>

theorem hanging_event_times_out:
  assumes "hanging buf numRead evp ev n p s" "dtree_ok s" "plain s" "kernel_ok S"
    "sys_read S fd (INOTIFY_READ_BUF_LEN - event_len ev) (kern s) = (Inl EINTR, k0)"
    "rm_watches S fd (watches_below (full p n) (wlCache s)) k0 = (ok, k)"
  shows "\<exists>r. event_loop (Suc (Suc (Suc m))) S fd buf numRead evp True s = Some r \<and>
    (case r of
       Ret fd' t \<Rightarrow>
         if ok then fd' = fd \<and> cache_map (wlCache t) = prune (full p n) (cache_map (wlCache s)) \<and>
           live_roots t = live_roots s \<and> kern t = k
         else rebuilt S fd k s fd' t
     | Exit st t \<Rightarrow> \<not> ok \<and> \<not> kernel_up S \<and> st = EXIT_FAILURE
     | Abort t \<Rightarrow> False | Undef \<Rightarrow> False)"
  using assms by (rule hanging_timeout)

text \<open>A buffer with an event before the one that hangs.\<close>

definition demo_buf :: string where
  "demo_buf = enc_event 1 IN_ISDIR 0 '''' 0 @ demo_from"

lemma demo_hanging: "hanging demo_buf 48 16 from_ev ''a'' ''r'' demo_state"
proof -
  have "drop 16 demo_buf = demo_from" "length demo_buf = 48" by (simp_all add: demo_buf_def demo_event_len enc_event_def)
  then show ?thesis using demo_from_at [of "[]"] demo_kinds(1) demo_event_len demo_state_map
    by (simp add: hanging_def dtree_consts) (simp add: from_ev_def)
qed

theorem hanging_event_times_out_witness:
  "\<exists>t. event_loop 3 demo 5 demo_buf 48 16 True demo_state = Some (Ret 5 t) \<and> cache_map (wlCache t) = [1 \<mapsto> ''r'']"
proof -
  have rd: "sys_read demo 5 (INOTIFY_READ_BUF_LEN - event_len from_ev) (kern demo_state) = (Inl EINTR, 9)"
    by (simp add: demo_below) (simp add: demo_def)
  have rm: "rm_watches demo 5 (watches_below (full ''r'' ''a'') (wlCache demo_state)) 9 = (True, 9)"
    by (simp add: demo_below) (simp add: demo_def)
  show ?thesis
    using hanging_event_times_out [OF demo_hanging demo_state_ok demo_kernel(1) rd rm, of 0] demo_prune
    by (elim exE conjE) (auto simp: numeral_3_eq_3 simp del: event_loop.simps split: res.splits)
qed

text \<open>
  C14. The same event when the second read delivers the matching \<open>IN_MOVED_TO\<close> first: both are handled as a rename, which
  changes the directory and everything below it in the cache and nothing else, and the loop goes on behind the two events, with
  the rest of the bytes of the second read in place.
\<close>

theorem hanging_event_completed:
  assumes "hanging buf numRead evp ev n p s" "dtree_ok s" "plain s"
    and "sys_read S fd (INOTIFY_READ_BUF_LEN - event_len ev) (kern s) = (Inr bytes, k)"
      "length bytes \<le> INOTIFY_READ_BUF_LEN - event_len ev"
    and "event_at bytes = Some nxt" "event_len nxt \<le> length bytes" "has nxt IN_MOVED_TO" "ev_cookie nxt = ev_cookie ev"
      "0 \<le> ev_wd nxt" "cache_map (wlCache s) (ev_wd nxt) = Some q" "ev_name nxt = Some n'" "length n' < ev_len nxt"
    and "length (full q n') < PATH_MAX" "fits (full p n) (full q n') (cache_map (wlCache s))"
  shows "\<exists>buf' t. event_loop (Suc (Suc m)) S fd buf numRead evp True s =
      event_loop m S fd buf' (int (event_len ev + length bytes)) (event_len ev + event_len nxt) True t \<and>
    take (length bytes) (drop (event_len ev) buf') = bytes \<and>
    cache_map (wlCache t) = (\<lambda>d. map_option (rename_path (full p n) (full q n')) (cache_map (wlCache s) d)) \<and>
    live_roots t = live_roots s \<and> kern t = k"
  using hanging_completed [OF assms] by (simp only: renamed_def)

definition demo_second :: "nat sys" where
  "demo_second = demo\<lparr>sys_read := (\<lambda>fd n k. (Inr demo_to, k))\<rparr>"

lemma demo_rename:
  "(\<lambda>d. map_option (rename_path ''r/a'' ''r/z'') (cache_map (wlCache demo_state) d)) = [1 \<mapsto> ''r'', 2 \<mapsto> ''r/z'', 3 \<mapsto> ''r/z/b'']"
  "fits ''r/a'' ''r/z'' (cache_map (wlCache demo_state))"
proof -
  show "(\<lambda>d. map_option (rename_path ''r/a'' ''r/z'') (cache_map (wlCache demo_state) d)) = [1 \<mapsto> ''r'', 2 \<mapsto> ''r/z'', 3 \<mapsto> ''r/z/b'']"
    unfolding demo_state_map by (rule ext) (simp add: rename_path_def in_subtree_def)
  show "fits ''r/a'' ''r/z'' (cache_map (wlCache demo_state))"
    unfolding demo_state_map by (simp add: fits_def rename_path_def in_subtree_def PATH_MAX_def)
qed

theorem hanging_event_completed_witness:
  "\<exists>t. event_loop 3 demo_second 5 demo_buf 48 16 True demo_state = Some (Ret 5 t) \<and>
     cache_map (wlCache t) = [1 \<mapsto> ''r'', 2 \<mapsto> ''r/z'', 3 \<mapsto> ''r/z/b'']"
proof -
  have rd: "sys_read demo_second 5 (INOTIFY_READ_BUF_LEN - event_len from_ev) (kern demo_state) = (Inr demo_to, 9)"
    "length demo_to \<le> INOTIFY_READ_BUF_LEN - event_len from_ev"
    by (simp_all add: demo_second_def demo_below demo_event_len dtree_consts)
  have t: "event_at demo_to = Some to_ev" "event_len to_ev \<le> length demo_to" "ev_cookie to_ev = ev_cookie from_ev" "0 \<le> ev_wd to_ev"
    "cache_map (wlCache demo_state) (ev_wd to_ev) = Some ''r''" "ev_name to_ev = Some ''z''" "length ''z'' < ev_len to_ev"
    using demo_to_at [of "[]"] demo_event_len demo_state_map by (simp_all add: to_ev_def from_ev_def)
  obtain buf' u where "event_loop (Suc (Suc 1)) demo_second 5 demo_buf 48 16 True demo_state =
      event_loop 1 demo_second 5 buf' (int (event_len from_ev + length demo_to)) (event_len from_ev + event_len to_ev) True u"
    "cache_map (wlCache u) = [1 \<mapsto> ''r'', 2 \<mapsto> ''r/z'', 3 \<mapsto> ''r/z/b'']"
    using hanging_event_completed [OF demo_hanging demo_state_ok rd t(1,2) demo_kinds(2) t(3-7), of 1] demo_rename
    by (auto simp: PATH_MAX_def)
  then show ?thesis by (auto simp: demo_event_len numeral_3_eq_3 simp del: event_loop.simps(2)) (simp add: exI)
qed

text \<open>
  C11. A directory created in, or moved into, a watched directory: unless its pathname is cached
  already, the whole subtree found by the walk is added, each directory under the descriptor that
  the kernel returned for it; a descriptor already cached keeps its pathname.
\<close>

theorem event_created:
  assumes "event_at buf = Some ev" "ev_name ev = Some n" "is_created ev" "dtree_ok s" "plain s" "0 \<le> ev_wd ev"
    "cache_map (wlCache s) (ev_wd ev) = Some p" "length (full p n) < PATH_MAX" "kernel_ok S" "kernel_up S"
    "subtree_adds S fd (\<lambda>q. watch_flags q s) (full p n) (kern s) = (ds, k)"
  shows "\<exists>t. processNextInotifyEvent S fd buf sz ft s = Ret (fd, int (event_len ev)) t \<and>
    cache_map (wlCache t) = (if full p n \<in> ran (cache_map (wlCache s)) then cache_map (wlCache s)
      else map_of ds ++ cache_map (wlCache s)) \<and> live_roots t = live_roots s"
  using assms by (rule event_created_lemma)

theorem event_created_witness:
  "\<exists>t. processNextInotifyEvent demo 5 demo_to 32 True demo_state = Ret (5, 32) t \<and>
     cache_map (wlCache t) = [1 \<mapsto> ''r'', 2 \<mapsto> ''r/a'', 3 \<mapsto> ''r/a/b'', 9 \<mapsto> ''r/z'']"
proof -
  have a: "subtree_adds demo 5 (\<lambda>q. watch_flags q demo_state) ''r/z'' (kern demo_state) = ([(9, ''r/z'')], 10)"
    by (simp add: subtree_adds_def demo_def demo_state_def initial_def a_dir_def S_ISDIR_def PATH_MAX_def)
  have m: "map_of [(9, ''r/z'')] ++ cache_map (wlCache demo_state)
      = [1 \<mapsto> ''r'', 2 \<mapsto> ''r/a'', 3 \<mapsto> ''r/a/b'', 9 \<mapsto> ''r/z'']"
    unfolding demo_state_map by (rule ext) (simp add: map_add_def)
  have r: "''r/z'' \<notin> ran (cache_map (wlCache demo_state))" unfolding demo_state_map by simp
  show ?thesis
    using event_created [OF demo_to_at [of "[]"] _ demo_kinds(3) demo_state_ok _ _ _ demo_kernel,
        of "''z''" "''r''" 5 "[(9, ''r/z'')]" 10 32 True] a m r demo_state_map demo_event_len
    by (auto simp: to_ev_def PATH_MAX_def)
qed

text \<open>
  The deletion of a watched directory that is not a root removes exactly the entry of its
  descriptor.
\<close>

theorem event_deleted:
  assumes "event_at buf = Some ev" "readable ev" "is_deleted ev" "dtree_ok s" "plain s" "0 \<le> ev_wd ev"
    "cache_map (wlCache s) (ev_wd ev) = Some p" "p \<notin> set (live_roots s)"
  shows "\<exists>t. processNextInotifyEvent S fd buf sz ft s = Ret (fd, int (event_len ev)) t \<and>
    cache_map (wlCache t) = (cache_map (wlCache s))(ev_wd ev := None) \<and> live_roots t = live_roots s \<and> kern t = kern s"
  using assms by (rule event_deleted_lemma)

theorem event_deleted_witness:
  "\<exists>t. processNextInotifyEvent demo 5 (enc_event 3 IN_DELETE_SELF 0 '''' 0) 16 True demo_state = Ret (5, 16) t \<and>
     cache_map (wlCache t) = [1 \<mapsto> ''r'', 2 \<mapsto> ''r/a'']"
proof -
  let ?ev = "\<lparr>ev_wd = 3, ev_mask = IN_DELETE_SELF, ev_cookie = 0, ev_len = 0, ev_name = None\<rparr>"
  have e: "event_at (enc_event 3 IN_DELETE_SELF 0 '''' 0) = Some ?ev"
    using event_at_enc [of 3 "''''" 0 IN_DELETE_SELF 0 "[]"] by (simp add: cstr_def)
  have k: "is_deleted ?ev" by (simp add: kinds has_def in_flags)
  have m: "(cache_map (wlCache demo_state))(3 := None) = [1 \<mapsto> ''r'', 2 \<mapsto> ''r/a'']"
    unfolding demo_state_map by (rule ext) simp
  have "live_roots demo_state = [''r'']" by (simp add: live_roots_def demo_state_def)
  then show ?thesis
    using event_deleted [OF e _ k demo_state_ok, of "''r/a/b''" demo 5 16 True] m
    by (auto simp: demo_state_map readable_def event_len_def SIZEOF_EVENT_def)
qed

text \<open>
  C12. An event for a descriptor that is not in the cache. Without option \<open>-a\<close> the old inotify instance is closed, and the
  new cache is exactly what the walks of the remaining root directories register, whatever the old
  cache held; the rest of the read buffer is discarded. A rebuild that fails, which needs a kernel without resources, ends the
  program with a failure status. With \<open>-a\<close> the stop file is created and the program aborts with the cache as it was; if in addition there is
  no log file, the dump of the cache goes through a null pointer.
\<close>

theorem event_lost:
  assumes "event_at buf = Some ev" "readable ev" "\<not> has ev IN_IGNORED" "0 \<le> ev_wd ev"
    "cache_map (wlCache s) (ev_wd ev) = None" "kernel_ok S"
  shows "case processNextInotifyEvent S fd buf sz ft s of
      Ret (fd', n) t \<Rightarrow> \<not> abortOnCacheProblem s \<and> n = int INOTIFY_READ_BUF_LEN \<and> rebuilt S fd (kern s) s fd' t
    | Exit st t \<Rightarrow> \<not> abortOnCacheProblem s \<and> \<not> kernel_up S \<and> st = EXIT_FAILURE
    | Abort t \<Rightarrow> abortOnCacheProblem s \<and> logfp s \<noteq> None \<and> wlCache t = wlCache s \<and>
        kern t = (case stopFile s of None \<Rightarrow> kern s | Some f \<Rightarrow> sys_creat S f (kern s))
    | Undef \<Rightarrow> abortOnCacheProblem s \<and> logfp s = None"
  using assms by (rule event_lost_lemma)

theorem event_lost_witness:
  "(\<exists>t. processNextInotifyEvent demo 5 (enc_event 8 IN_CREATE 0 '''' 0) 16 True demo_state = Ret (5, 27200) t \<and>
      cache_map (wlCache t) = [9 \<mapsto> ''r'']) \<and>
   (\<exists>t. processNextInotifyEvent demo 5 (enc_event 8 IN_CREATE 0 '''' 0) 16 True
      (demo_state\<lparr>abortOnCacheProblem := True, logfp := Some []\<rparr>) = Abort t \<and> wlCache t = wlCache demo_state)"
proof -
  let ?ev = "\<lparr>ev_wd = 8, ev_mask = IN_CREATE, ev_cookie = 0, ev_len = 0, ev_name = None\<rparr>"
  let ?s = "demo_state\<lparr>abortOnCacheProblem := True, logfp := Some []\<rparr>"
  have e: "event_at (enc_event 8 IN_CREATE 0 '''' 0) = Some ?ev"
    using event_at_enc [of 8 "''''" 0 IN_CREATE 0 "[]"] by (simp add: cstr_def)
  have i: "\<not> has ?ev IN_IGNORED" "\<not> abortOnCacheProblem demo_state"
    by (simp_all add: has_def in_flags demo_state_def initial_def)
  have r: "rebuilt demo 5 9 demo_state fd' t \<longleftrightarrow> fd' = 5 \<and> kern t = 10 \<and> cache_map (wlCache t) = [9 \<mapsto> ''r''] \<and> live_roots t = [''r'']" for fd' t
    by (auto simp: rebuilt_def demo_below demo_def subtree_adds_def a_dir_def S_ISDIR_def PATH_MAX_def)
  have "case processNextInotifyEvent demo 5 (enc_event 8 IN_CREATE 0 '''' 0) 16 True demo_state of
      Ret (fd', n) t \<Rightarrow> fd' = 5 \<and> n = 27200 \<and> cache_map (wlCache t) = [9 \<mapsto> ''r''] | _ \<Rightarrow> False"
    using event_lost [OF e _ i(1) _ _ demo_kernel(1), of demo_state 5 16 True] i(2) demo_kernel(2) demo_below demo_state_map r
    by (auto simp: readable_def dtree_consts split: res.splits)
  moreover have "case processNextInotifyEvent demo 5 (enc_event 8 IN_CREATE 0 '''' 0) 16 True ?s of
      Abort t \<Rightarrow> wlCache t = wlCache demo_state | _ \<Rightarrow> False"
    using event_lost [OF e _ i(1) _ _ demo_kernel(1), of ?s 5 16 True] demo_state_map
    by (auto simp: readable_def split: res.splits)
  ultimately show ?thesis by (auto split: res.splits)
qed

section \<open>The cache\<close>

text \<open>
  C15. The array with its free slots implements a map from descriptors to pathnames: after adding a
  new descriptor the map has the new entry and no other change, and the array stays well formed,
  also when it had to grow.
\<close>

theorem addWatchToCache_refines:
  assumes "cache_ok (wlCache s)" "0 \<le> d" "findWatch d s = None" "length p < PATH_MAX"
  shows "cache_ok (wlCache (snd (addWatchToCache S d p s))) \<and>
    cache_map (wlCache (snd (addWatchToCache S d p s))) = (cache_map (wlCache s))(d \<mapsto> p) \<and>
    (\<exists>i. findWatch d (snd (addWatchToCache S d p s)) = Some i \<and>
         cache_map (wlCache (markCacheSlotEmpty i (snd (addWatchToCache S d p s)))) = cache_map (wlCache s))"
proof -
  have new: "cache_map (wlCache s) d = None" using assms(2,3) cache.fnd_None [OF assms(1,2)] by simp
  note ok = cache.ok_add [OF assms(1,2) new assms(4), of S]
  note l = cache.lookup_add [OF assms(1,2) new assms(4), of S]
  have "findWatch d (snd (addWatchToCache S d p s)) \<noteq> None"
    using cache.fnd_None [OF ok assms(2)] l by simp
  then obtain i where "findWatch d (snd (addWatchToCache S d p s)) = Some i" by blast
  with cache.clear_after_add [OF assms] ok l show ?thesis by blast
qed

theorem addWatchToCache_refines_witness:
  "cache_map (wlCache (snd (addWatchToCache demo 4 ''r/c'' demo_state))) =
     [1 \<mapsto> ''r'', 2 \<mapsto> ''r/a'', 3 \<mapsto> ''r/a/b'', 4 \<mapsto> ''r/c'']"
proof -
  have "cache_ok (wlCache demo_state)" using demo_state_ok(1) by (simp add: dtree_ok_def)
  moreover have "findWatch 4 demo_state = None" by (simp add: findWatch_None demo_state_map)
  ultimately show ?thesis
    using addWatchToCache_refines [of demo_state 4 "''r/c''" demo] by (simp add: demo_state_map PATH_MAX_def)
qed

text \<open>
  \<open>zapSubtree\<close> that succeeds removes the entries of the subtree, neither more nor less, and
  returns their number; one that fails part way has removed entries only.
\<close>

theorem zapSubtree_exact:
  assumes "cache_ok (wlCache s)" "zapSubtree S fd p s = (r, t)"
  shows "cache_ok (wlCache t) \<and> cache_map (wlCache t) \<subseteq>\<^sub>m cache_map (wlCache s) \<and>
    (r = Some n \<longrightarrow> cache_map (wlCache t) = prune p (cache_map (wlCache s)) \<and>
       n = card {d \<in> dom (cache_map (wlCache s)). in_subtree p (the (cache_map (wlCache s) d))})"
  using dtree.ok_zap [OF assms] dtree.le_zap [OF assms] dtree.lookup_zap [of s S fd p n t]
    dtree.count_zap [of s S fd p n t] assms by blast

theorem zapSubtree_exact_witness:
  "\<exists>t. zapSubtree demo 5 ''r/a'' demo_state = (Some 2, t) \<and> cache_map (wlCache t) = [1 \<mapsto> ''r'']"
proof -
  obtain n t where z: "zapSubtree demo 5 ''r/a'' demo_state = (Some n, t)"
    by (rule zapSubtree_total [OF demo_rm])
  have "{d \<in> dom (cache_map (wlCache demo_state)). in_subtree ''r/a'' (the (cache_map (wlCache demo_state) d))} = {2, 3}"
    unfolding demo_state_map by (auto simp: in_subtree_def split: if_splits)
  moreover have "prune ''r/a'' (cache_map (wlCache demo_state)) = [1 \<mapsto> ''r'']"
    unfolding demo_state_map by (rule ext) (simp add: prune_def in_subtree_def)
  moreover have "cache_ok (wlCache demo_state)" using demo_state_ok(1) by (simp add: dtree_ok_def)
  ultimately show ?thesis using zapSubtree_exact [OF _ z, of n] z by simp
qed

section \<open>The root directories\<close>

text \<open>
  When \<open>copyRootDirPaths\<close> returns, the list holds the arguments in order, all of them monitored,
  and no two arguments name the same filesystem object.
\<close>

theorem copyRootDirPaths_distinct:
  assumes "copyRootDirPaths S argv s = Ret sts t"
  shows "roots_ok t \<and> live_roots t = argv \<and> map fst sts = argv \<and>
    sorted_wrt (\<lambda>a b. \<not> same_object (snd a) (snd b)) sts"
  using copyRootDirPaths_Ret [OF assms] by blast

theorem copyRootDirPaths_distinct_witness:
  "\<exists>sts t. copyRootDirPaths demo [''r'', ''rr''] (initial 7) = Ret sts t \<and> live_roots t = [''r'', ''rr'']"
proof -
  obtain sts t where c: "copyRootDirPaths demo [''r'', ''rr''] (initial 7) = Ret sts t"
    by (simp add: copyRootDirPaths_def demo_def S_ISDIR_def same_object_def Let_def)
  show ?thesis using copyRootDirPaths_distinct [OF c] c by blast
qed

text \<open>
  Giving up a root directory: the program ends, successfully, exactly when it was the last one;
  otherwise that directory alone leaves the list and the counters stay right.
\<close>

theorem zapRootDirPath_exits_iff_last:
  assumes "roots_ok s" "p \<in> set (live_roots s)"
  shows "if live_roots s = [p] then \<exists>t. zapRootDirPath p s = Exit EXIT_SUCCESS t
    else \<exists>t. zapRootDirPath p s = Ret () t \<and> roots_ok t \<and> live_roots t = remove1 p (live_roots s)"
  using assms
proof (cases rule: zapRootDirPath_cases [OF assms])
  case (1 t)
  then show ?thesis by simp
next
  case (2 t)
  then show ?thesis by auto
qed

theorem zapRootDirPath_exits_iff_last_witness:
  "(\<exists>t. zapRootDirPath ''r'' demo_state = Exit EXIT_SUCCESS t) \<and>
   (\<exists>t. zapRootDirPath ''r'' (demo_state\<lparr>rootDirPaths := [Some ''q'', Some ''r''], numRootDirs := 2\<rparr>) = Ret () t \<and>
        live_roots t = [''q''])"
  using zapRootDirPath_exits_iff_last [of demo_state "''r''"]
    zapRootDirPath_exits_iff_last [of "demo_state\<lparr>rootDirPaths := [Some ''q'', Some ''r''], numRootDirs := 2\<rparr>" "''r''"]
  by (auto simp: roots_ok_def live_roots_def demo_state_def initial_def)

end
