(* ===== verification/GetNum.thy ===== *)
theory GetNum
  imports Prelude
begin

text \<open>
  The numeric command-line argument routines of \<open>tlpi-dist/lib/get_num.c\<close>. A call that prints a
  diagnostic on stderr and exits is \<open>Inl\<close> of the text printed; a call that returns is \<open>Inr\<close> of the
  value. A null \<open>arg\<close> or \<open>name\<close> pointer is \<open>None\<close>.
\<close>

definition GN_NONNEG :: int where "GN_NONNEG = 1"
definition GN_GT_0 :: int where "GN_GT_0 = 2"
definition GN_ANY_BASE :: int where "GN_ANY_BASE = 64"
definition GN_BASE_8 :: int where "GN_BASE_8 = 128"
definition GN_BASE_16 :: int where "GN_BASE_16 = 256"

lemmas gn_flags = GN_NONNEG_def GN_GT_0_def GN_ANY_BASE_def GN_BASE_8_def GN_BASE_16_def

definition gnFail :: "string \<Rightarrow> string \<Rightarrow> string option \<Rightarrow> string option \<Rightarrow> string" where
  "gnFail fname m arg name =
     fname @ '' error''
     @ (case name of None \<Rightarrow> '''' | Some nm \<Rightarrow> '' (in '' @ nm @ '')'')
     @ '': '' @ m @ nl
     @ (case arg of
          None \<Rightarrow> ''''
        | Some a \<Rightarrow> (if a \<noteq> [] then ''        offending text: '' @ a @ nl else ''''))"

definition getNum :: "string \<Rightarrow> string option \<Rightarrow> int \<Rightarrow> string option \<Rightarrow> string + int" where
  "getNum fname arg flags name =
     (case arg of
        None \<Rightarrow> Inl (gnFail fname ''null or empty string'' arg name)
      | Some a \<Rightarrow>
          if a = [] then Inl (gnFail fname ''null or empty string'' arg name)
          else
            let base = (if flags AND GN_ANY_BASE \<noteq> 0 then 0
                        else if flags AND GN_BASE_8 \<noteq> 0 then 8
                        else if flags AND GN_BASE_16 \<noteq> 0 then 16 else 10);
                (r, endptr, erange) = strtol a base
            in if erange then Inl (gnFail fname ''strtol() failed'' arg name)
               else if endptr \<noteq> [] then Inl (gnFail fname ''nonnumeric characters'' arg name)
               else if flags AND GN_NONNEG \<noteq> 0 \<and> r < 0
                 then Inl (gnFail fname ''negative value not allowed'' arg name)
               else if flags AND GN_GT_0 \<noteq> 0 \<and> r \<le> 0
                 then Inl (gnFail fname ''value must be > 0'' arg name)
               else Inr r)"

definition getLong :: "string option \<Rightarrow> int \<Rightarrow> string option \<Rightarrow> string + int" where
  "getLong arg flags name = getNum ''getLong'' arg flags name"

definition getInt :: "string option \<Rightarrow> int \<Rightarrow> string option \<Rightarrow> string + int" where
  "getInt arg flags name =
     (case getNum ''getInt'' arg flags name of
        Inl e \<Rightarrow> Inl e
      | Inr r \<Rightarrow>
          if r > INT_MAX \<or> r < INT_MIN
            then Inl (gnFail ''getInt'' ''integer out of range'' arg name)
          else Inr (to_int32 r))"

definition decimal_flags :: "int \<Rightarrow> bool" where
  "decimal_flags flags =
     (flags AND GN_ANY_BASE = 0 \<and> flags AND GN_BASE_8 = 0 \<and> flags AND GN_BASE_16 = 0)"

definition sign_ok :: "int \<Rightarrow> int \<Rightarrow> bool" where
  "sign_ok flags v =
     ((flags AND GN_NONNEG \<noteq> 0 \<longrightarrow> 0 \<le> v) \<and> (flags AND GN_GT_0 \<noteq> 0 \<longrightarrow> 0 < v))"

lemma dec_nonempty [simp]: "dec i \<noteq> []"
  by (simp add: dec_def)

lemma getNum_dec:
  assumes "LONG_MIN \<le> i" "i \<le> LONG_MAX" "decimal_flags flags" "sign_ok flags i"
  shows "getNum fname (Some (dec i)) flags name = Inr i"
  using assms strtol_dec [of i "[]"]
  by (auto simp: getNum_def decimal_flags_def sign_ok_def Let_def)

lemma getNum_long_range:
  assumes "getNum fname arg flags name = Inr v"
  shows "LONG_MIN \<le> v \<and> v \<le> LONG_MAX"
  using assms
  by (auto simp: getNum_def strtol_def Let_def long_limits split: option.splits if_splits prod.splits)

lemma getNum_sign: "getNum fname arg flags name = Inr v \<Longrightarrow> sign_ok flags v"
  by (auto simp: getNum_def sign_ok_def Let_def split: option.splits if_splits prod.splits)

section \<open>Properties\<close>

text \<open>
  C16. \<open>getInt\<close> reads back every \<open>int\<close> printed in decimal that meets its sign flags; a \<open>long\<close> outside
  the range of \<open>int\<close> is refused, with the diagnostic that names the offending text.
\<close>

theorem getInt_dec:
  assumes "LONG_MIN \<le> i" "i \<le> LONG_MAX" "decimal_flags flags" "sign_ok flags i"
  shows "getInt (Some (dec i)) flags name =
    (if INT_MIN \<le> i \<and> i \<le> INT_MAX then Inr i
     else Inl (gnFail ''getInt'' ''integer out of range'' (Some (dec i)) name))"
  using getNum_dec [OF assms, of "''getInt''" name] by (simp add: getInt_def)

theorem getInt_dec_witness:
  "getInt (Some (dec (- 7))) 0 None = Inr (- 7) \<and>
   getInt (Some (dec 2147483648)) GN_NONNEG None =
     Inl (gnFail ''getInt'' ''integer out of range'' (Some (dec 2147483648)) None)"
  using getInt_dec [of "- 7" 0 None] getInt_dec [of 2147483648 GN_NONNEG None]
  by (simp add: long_limits decimal_flags_def sign_ok_def gn_flags)

text \<open>
  Whatever the argument and the flags, a value that \<open>getInt\<close> returns fits an \<open>int\<close> and obeys
  \<open>GN_NONNEG\<close> and \<open>GN_GT_0\<close>.
\<close>

theorem getInt_bounds:
  assumes "getInt arg flags name = Inr v"
  shows "INT_MIN \<le> v \<and> v \<le> INT_MAX \<and> sign_ok flags v"
  using assms getNum_sign [of "''getInt''" arg flags name]
  by (auto simp: getInt_def split: sum.splits if_splits)

theorem getInt_bounds_witness:
  "getInt (Some ''0x1f'') GN_ANY_BASE None = Inr 31 \<and> INT_MIN \<le> 31 \<and> (31 :: int) \<le> INT_MAX \<and> sign_ok GN_ANY_BASE 31"
proof -
  have "getInt (Some ''0x1f'') GN_ANY_BASE None = Inr 31" by code_simp
  then show ?thesis using getInt_bounds by blast
qed

end
