(* ===== verification/ReadIO.thy ===== *)
theory ReadIO
  imports Prelude
begin

text \<open>
  The input and output routines \<open>readLine\<close>, \<open>readLineBuf\<close>, \<open>readn\<close> and \<open>writen\<close> of
  \<open>tlpi-dist/sockets\<close>. A descriptor open for reading is the bytes that follow up to end of file, with
  the answers that read(2) will give: interrupted, failed, or at most so many bytes. A descriptor open
  for writing is the bytes accepted so far with the answers of write(2). When the answers run out the
  call has not returned, which is \<open>None\<close>.
\<close>

datatype answer = Intr | Fail int | Upto nat

record source =
  pending :: string
  answers :: "answer list"

definition IO_EINTR :: int where "IO_EINTR = 4"
definition EINVAL :: int where "EINVAL = 22"

text \<open>\<open>Upto k\<close>: read(2) hands over at most \<open>k + 1\<close> bytes, none only at end of file.\<close>

definition read_call :: "nat \<Rightarrow> source \<Rightarrow> ((int + string) \<times> source) option" where
  "read_call n s =
     (case answers s of
        [] \<Rightarrow> None
      | Intr # as \<Rightarrow> Some (Inl IO_EINTR, s\<lparr>answers := as\<rparr>)
      | Fail e # as \<Rightarrow> Some (Inl e, s\<lparr>answers := as\<rparr>)
      | Upto k # as \<Rightarrow>
          let m = min n (Suc k)
          in Some (Inr (take m (pending s)), \<lparr>pending = drop m (pending s), answers = as\<rparr>))"

lemma read_call_decreases:
  "read_call n s = Some (r, t) \<Longrightarrow> length (answers t) < length (answers s)"
  by (auto simp: read_call_def Let_def split: list.splits answer.splits)

section \<open>readLine\<close>

abbreviation newline :: char where "newline \<equiv> CHR 0x0A"

text \<open>
  The result is the error number, or the bytes placed in the buffer; \<open>None\<close> for a return of 0 at end
  of file, which leaves the buffer untouched.
\<close>

function readLine_loop :: "nat \<Rightarrow> string \<Rightarrow> source \<Rightarrow> ((int + string option) \<times> source) option" where
  "readLine_loop n buf s =
     (case read_call 1 s of
        None \<Rightarrow> None
      | Some (Inl errno, t) \<Rightarrow> if errno = IO_EINTR then readLine_loop n buf t else Some (Inl errno, t)
      | Some (Inr bytes, t) \<Rightarrow>
          if bytes = [] then Some (Inr (if buf = [] then None else Some buf), t)
          else
            let ch = hd bytes;
                buf1 = (if length buf < n - 1 then buf @ [ch] else buf)
            in if ch = newline then Some (Inr (Some buf1), t) else readLine_loop n buf1 t)"
  by pat_completeness auto
termination
  by (relation "measure (\<lambda>(n, buf, s). length (answers s))") (auto dest: read_call_decreases)

declare readLine_loop.simps [simp del]

definition readLine :: "nat \<Rightarrow> source \<Rightarrow> ((int + string option) \<times> source) option" where
  "readLine n s = (if n = 0 then Some (Inl EINVAL, s) else readLine_loop n [] s)"

section \<open>readLineBuf\<close>











section \<open>readn and writen\<close>

function readn_loop :: "nat \<Rightarrow> string \<Rightarrow> source \<Rightarrow> ((int + string) \<times> source) option" where
  "readn_loop n buf s =
     (if \<not> length buf < n then Some (Inr buf, s)
      else case read_call (n - length buf) s of
             None \<Rightarrow> None
           | Some (Inl errno, t) \<Rightarrow> if errno = IO_EINTR then readn_loop n buf t else Some (Inl errno, t)
           | Some (Inr bytes, t) \<Rightarrow>
               if bytes = [] then Some (Inr buf, t) else readn_loop n (buf @ bytes) t)"
  by pat_completeness auto
termination
  by (relation "measure (\<lambda>(n, buf, s). length (answers s))") (auto dest: read_call_decreases)

declare readn_loop.simps [simp del]

definition readn :: "nat \<Rightarrow> source \<Rightarrow> ((int + string) \<times> source) option" where
  "readn n s = readn_loop n [] s"

record sink =
  accepted :: string
  replies :: "answer list"

text \<open>\<open>Upto k\<close>: write(2) takes at most \<open>k\<close> bytes.\<close>

definition write_call :: "string \<Rightarrow> sink \<Rightarrow> ((int + nat) \<times> sink) option" where
  "write_call b s =
     (case replies s of
        [] \<Rightarrow> None
      | Intr # as \<Rightarrow> Some (Inl IO_EINTR, s\<lparr>replies := as\<rparr>)
      | Fail e # as \<Rightarrow> Some (Inl e, s\<lparr>replies := as\<rparr>)
      | Upto k # as \<Rightarrow> Some (Inr (min k (length b)), \<lparr>accepted = accepted s @ take k b, replies = as\<rparr>))"

lemma write_call_decreases:
  "write_call b s = Some (r, t) \<Longrightarrow> length (replies t) < length (replies s)"
  by (auto simp: write_call_def Let_def split: list.splits answer.splits)

text \<open>The result is the number of bytes written, or \<open>None\<close> for the return value \<open>-1\<close>.\<close>

function writen_loop :: "string \<Rightarrow> nat \<Rightarrow> sink \<Rightarrow> (nat option \<times> sink) option" where
  "writen_loop b tot s =
     (if \<not> tot < length b then Some (Some tot, s)
      else case write_call (drop tot b) s of
             None \<Rightarrow> None
           | Some (Inl errno, t) \<Rightarrow> if errno = IO_EINTR then writen_loop b tot t else Some (None, t)
           | Some (Inr k, t) \<Rightarrow> if k = 0 then Some (None, t) else writen_loop b (tot + k) t)"
  by pat_completeness auto
termination
  by (relation "measure (\<lambda>(b, tot, s). length (replies s))") (auto dest: write_call_decreases)

declare writen_loop.simps [simp del]

definition writen :: "string \<Rightarrow> sink \<Rightarrow> (nat option \<times> sink) option" where
  "writen b s = writen_loop b 0 s"

section \<open>What they return\<close>

fun first_line :: "string \<Rightarrow> string" where
  "first_line [] = []"
| "first_line (c # cs) = c # (if c = newline then [] else first_line cs)"

definition no_failure :: "answer list \<Rightarrow> bool" where
  "no_failure as = list_all (\<lambda>a. \<forall>e. a \<noteq> Fail e) as"

definition calls :: "answer list \<Rightarrow> nat" where
  "calls as = length (filter (\<lambda>a. a \<noteq> Intr) as)"

lemma calls_simps [simp]: "calls [] = 0" "calls (Intr # as) = calls as" "calls (Upto k # as) = Suc (calls as)"
  by (simp_all add: calls_def)

lemma no_failure_simps [simp]:
  "no_failure (Intr # as) = no_failure as" "no_failure (Upto k # as) = no_failure as" "\<not> no_failure (Fail e # as)"
  by (auto simp: no_failure_def)

lemma read_call_simps [simp]:
  "read_call n \<lparr>pending = p, answers = Intr # as\<rparr> = Some (Inl IO_EINTR, \<lparr>pending = p, answers = as\<rparr>)"
  "read_call n \<lparr>pending = p, answers = Upto k # as\<rparr> =
     Some (Inr (take (min n (Suc k)) p), \<lparr>pending = drop (min n (Suc k)) p, answers = as\<rparr>)"
  "read_call n \<lparr>pending = p, answers = Fail e # as\<rparr> = Some (Inl e, \<lparr>pending = p, answers = as\<rparr>)"
  by (simp_all add: read_call_def Let_def)

lemma readLine_loop_steps:
  "readLine_loop n buf \<lparr>pending = p, answers = Intr # as\<rparr> = readLine_loop n buf \<lparr>pending = p, answers = as\<rparr>"
  "readLine_loop n buf \<lparr>pending = [], answers = Upto k # as\<rparr> =
     Some (Inr (if buf = [] then None else Some buf), \<lparr>pending = [], answers = as\<rparr>)"
  "readLine_loop n buf \<lparr>pending = c # cs, answers = Upto k # as\<rparr> =
     (let buf1 = (if length buf < n - 1 then buf @ [c] else buf)
      in if c = newline then Some (Inr (Some buf1), \<lparr>pending = cs, answers = as\<rparr>)
         else readLine_loop n buf1 \<lparr>pending = cs, answers = as\<rparr>)"
  by (subst readLine_loop.simps, simp add: Let_def)+

text \<open>What is returned when the line \<open>l\<close> follows the bytes \<open>buf\<close>; \<open>eof\<close> when no newline ends it.\<close>

definition line_result :: "nat \<Rightarrow> string \<Rightarrow> string \<Rightarrow> bool \<Rightarrow> string option" where
  "line_result n buf l eof =
     (let b = buf @ take (n - 1 - length buf) l in if eof \<and> b = [] then None else Some b)"

lemma line_result_step:
  assumes "length buf \<le> n - 1"
  shows "line_result n (if length buf < n - 1 then buf @ [c] else buf) l eof = line_result n buf (c # l) eof"
proof (cases "length buf < n - 1")
  case True
  then have "n - 1 - length buf = Suc (n - 1 - length (buf @ [c]))" by simp
  with True show ?thesis unfolding line_result_def by (simp only: take_Suc_Cons if_True append.simps append_assoc)
next
  case False
  with assms have "n - 1 - length buf = 0" by simp
  with False show ?thesis unfolding line_result_def by simp
qed

lemma readLine_loop_spec:
  assumes "no_failure as" "length (first_line p) < calls as" "length buf \<le> n - 1"
  shows "\<exists>as'. readLine_loop n buf \<lparr>pending = p, answers = as\<rparr> =
    Some (Inr (line_result n buf (first_line p) (newline \<notin> set p)),
          \<lparr>pending = drop (length (first_line p)) p, answers = as'\<rparr>)"
  using assms
proof (induction as arbitrary: p buf)
  case (Cons a as)
  show ?case
  proof (cases a)
    case Intr
    then show ?thesis using Cons.IH [of p buf] Cons.prems unfolding Intr readLine_loop_steps by simp
  next
    case (Upto k)
    show ?thesis
    proof (cases p)
      case Nil
      then show ?thesis unfolding Upto Nil readLine_loop_steps by (simp add: line_result_def)
    next
      case p: (Cons c cs)
      let ?b = "if length buf < n - 1 then buf @ [c] else buf"
      note step = line_result_step [OF Cons.prems(3), of c]
      show ?thesis
      proof (cases "c = newline")
        case True
        have "Some ?b = line_result n buf [c] False"
          using step [of "[]" False] by (simp add: line_result_def)
        then show ?thesis using True unfolding Upto p readLine_loop_steps by (simp add: Let_def)
      next
        case False
        have "\<exists>as'. readLine_loop n ?b \<lparr>pending = cs, answers = as\<rparr> =
          Some (Inr (line_result n ?b (first_line cs) (newline \<notin> set cs)),
                \<lparr>pending = drop (length (first_line cs)) cs, answers = as'\<rparr>)"
          using Cons.prems Upto p False by (intro Cons.IH) auto
        then show ?thesis using False unfolding Upto p readLine_loop_steps step by (simp add: Let_def)
      qed
    qed
  qed (use Cons.prems in auto)
qed simp

text \<open>
  C17. \<open>readLine\<close> with a buffer of \<open>n\<close> bytes, \<open>n > 0\<close>, returns the next line cut to \<open>n - 1\<close> bytes and
  consumes the line with its newline, however read(2) is interrupted; at end of file with nothing to
  return it returns 0. It returns once read(2) has answered more often than the line has bytes.
\<close>

theorem readLine_returns_line:
  assumes "0 < n" "no_failure as" "length (first_line p) < calls as"
  shows "\<exists>as'. readLine n \<lparr>pending = p, answers = as\<rparr> =
    Some (Inr (if newline \<notin> set p \<and> take (n - 1) p = [] then None else Some (take (n - 1) (first_line p))),
          \<lparr>pending = drop (length (first_line p)) p, answers = as'\<rparr>)"
proof -
  have "take (n - 1) (first_line p) = [] \<longleftrightarrow> take (n - 1) p = []" by (cases p) auto
  then have "line_result n [] (first_line p) (newline \<notin> set p) =
      (if newline \<notin> set p \<and> take (n - 1) p = [] then None else Some (take (n - 1) (first_line p)))"
    by (simp add: line_result_def Let_def)
  then show ?thesis using readLine_loop_spec [OF assms(2,3), of "[]" n] assms(1) unfolding readLine_def by simp
qed

theorem readLine_returns_line_witness:
  "\<exists>as'. readLine 4 \<lparr>pending = ''hello'' @ nl @ ''x'', answers = [Upto 0, Intr, Upto 5, Intr] @ replicate 6 (Upto 0)\<rparr> =
    Some (Inr (Some ''hel''), \<lparr>pending = ''x'', answers = as'\<rparr>)"
  using readLine_returns_line [of 4 "[Upto 0, Intr, Upto 5, Intr] @ replicate 6 (Upto 0)" "''hello'' @ nl @ ''x''"]
  by (simp add: nl_def no_failure_def calls_def eval_nat_numeral)

section \<open>readLineBuf is readLine on the unread input\<close>













section \<open>readn and writen transfer every byte\<close>

lemma readn_loop_spec:
  assumes "no_failure as" "n - length buf < calls as" "length buf \<le> n"
  shows "\<exists>as'. readn_loop n buf \<lparr>pending = p, answers = as\<rparr> =
    Some (Inr (buf @ take (n - length buf) p), \<lparr>pending = drop (n - length buf) p, answers = as'\<rparr>)"
  using assms
proof (induction as arbitrary: buf p)
  case Nil
  then show ?case by (simp add: readn_loop.simps)
next
  case (Cons a as)
  show ?case
  proof (cases "length buf < n")
    case False
    then show ?thesis using Cons.prems(3) by (simp add: readn_loop.simps)
  next
    case lt: True
    show ?thesis
    proof (cases a)
      case Intr
      have "readn_loop n buf \<lparr>pending = p, answers = a # as\<rparr> = readn_loop n buf \<lparr>pending = p, answers = as\<rparr>"
        using lt Intr by (subst readn_loop.simps) simp
      then show ?thesis using Cons.IH [of buf p] Cons.prems Intr by simp
    next
      case (Upto k)
      define m where "m = min (n - length buf) (Suc k)"
      have m: "0 < m" "m \<le> n - length buf" using lt by (simp_all add: m_def)
      have lp: "readn_loop n buf \<lparr>pending = p, answers = a # as\<rparr> =
          (if p = [] then Some (Inr buf, \<lparr>pending = p, answers = as\<rparr>)
           else readn_loop n (buf @ take m p) \<lparr>pending = drop m p, answers = as\<rparr>)"
        using lt Upto m(1) by (subst readn_loop.simps) (simp add: m_def [symmetric])
      show ?thesis
      proof (cases "p = []")
        case False
        define b where "b = buf @ take m p"
        have len: "length b = length buf + min m (length p)" by (simp add: b_def)
        have "1 \<le> min m (length p)" using m False by (simp add: Suc_le_eq)
        moreover have "n - length buf < Suc (calls as)" using Cons.prems(2) Upto by simp
        ultimately have "n - length b < calls as" "length b \<le> n" using len lt m(2) by linarith+
        then have "\<exists>as'. readn_loop n b \<lparr>pending = drop m p, answers = as\<rparr> =
            Some (Inr (b @ take (n - length b) (drop m p)), \<lparr>pending = drop (n - length b) (drop m p), answers = as'\<rparr>)"
          using Cons.prems(1) Upto by (intro Cons.IH) simp_all
        moreover have "b @ take (n - length b) (drop m p) = buf @ take (n - length buf) p"
          "drop (n - length b) (drop m p) = drop (n - length buf) p"
          using m by (auto simp: b_def min_def take_drop [symmetric] simp flip: take_add) 
        ultimately show ?thesis using lp False by (simp add: b_def)
      qed (use lp in simp)
    qed (use Cons.prems in auto)
  qed
qed

text \<open>
  \<open>readn\<close> returns the next \<open>n\<close> bytes, or all that is left before end of file, whatever the sizes
  of the partial reads and the interruptions between them, and leaves the rest unread.
\<close>

theorem readn_returns_all:
  assumes "no_failure as" "n < calls as"
  shows "\<exists>as'. readn n \<lparr>pending = p, answers = as\<rparr> = Some (Inr (take n p), \<lparr>pending = drop n p, answers = as'\<rparr>)"
  using readn_loop_spec [OF assms(1), of n "[]" p] assms(2) by (simp add: readn_def)

theorem readn_returns_all_witness:
  "\<exists>as'. readn 4 \<lparr>pending = ''abcdef'', answers = [Upto 1, Intr, Upto 0, Upto 7, Upto 0, Upto 0]\<rparr> =
     Some (Inr ''abcd'', \<lparr>pending = ''ef'', answers = as'\<rparr>)"
  using readn_returns_all [of "[Upto 1, Intr, Upto 0, Upto 7, Upto 0, Upto 0]" 4 "''abcdef''"]
  by (simp add: no_failure_def)

lemma write_call_simps [simp]:
  "write_call b \<lparr>accepted = q, replies = []\<rparr> = None"
  "write_call b \<lparr>accepted = q, replies = Intr # as\<rparr> = Some (Inl IO_EINTR, \<lparr>accepted = q, replies = as\<rparr>)"
  "write_call b \<lparr>accepted = q, replies = Fail e # as\<rparr> = Some (Inl e, \<lparr>accepted = q, replies = as\<rparr>)"
  "write_call b \<lparr>accepted = q, replies = Upto k # as\<rparr> =
     Some (Inr (min k (length b)), \<lparr>accepted = q @ take k b, replies = as\<rparr>)"
  by (simp_all add: write_call_def)

lemma writen_loop_steps:
  assumes "tot < length b"
  shows "writen_loop b tot \<lparr>accepted = q, replies = []\<rparr> = None"
    "writen_loop b tot \<lparr>accepted = q, replies = Intr # as\<rparr> = writen_loop b tot \<lparr>accepted = q, replies = as\<rparr>"
    "writen_loop b tot \<lparr>accepted = q, replies = Fail e # as\<rparr> =
       (if e = IO_EINTR then writen_loop b tot \<lparr>accepted = q, replies = as\<rparr> else Some (None, \<lparr>accepted = q, replies = as\<rparr>))"
    "writen_loop b tot \<lparr>accepted = q, replies = Upto k # as\<rparr> =
       (if k = 0 then Some (None, \<lparr>accepted = q, replies = as\<rparr>)
        else writen_loop b (tot + min k (length b - tot)) \<lparr>accepted = q @ take k (drop tot b), replies = as\<rparr>)"
  using assms
    writen_loop.simps [of b tot "\<lparr>accepted = q, replies = []\<rparr>"]
    writen_loop.simps [of b tot "\<lparr>accepted = q, replies = Intr # as\<rparr>"]
    writen_loop.simps [of b tot "\<lparr>accepted = q, replies = Fail e # as\<rparr>"]
    writen_loop.simps [of b tot "\<lparr>accepted = q, replies = Upto k # as\<rparr>"]
  by (auto simp: min_def)

lemma writen_loop_done: "\<not> tot < length b \<Longrightarrow> writen_loop b tot s = Some (Some tot, s)"
  by (simp add: writen_loop.simps)

lemma writen_loop_prefix:
  assumes "writen_loop b tot \<lparr>accepted = q @ take tot b, replies = as\<rparr> = Some (r, t)" "tot \<le> length b"
  shows "\<exists>j \<le> length b. accepted t = q @ take j b \<and> (r \<noteq> None \<longrightarrow> r = Some (length b) \<and> j = length b)"
  using assms
proof (induction as arbitrary: tot)
  case Nil
  then show ?case by (auto simp: writen_loop.simps split: if_splits)
next
  case (Cons a as)
  show ?case
  proof (cases "tot < length b")
    case False
    then show ?thesis using Cons.prems by (auto simp: writen_loop_done)
  next
    case True
    note st = writen_loop_steps [OF True]
    show ?thesis
    proof (cases a)
      case Intr
      then show ?thesis using Cons by (simp add: st)
    next
      case (Fail e)
      then show ?thesis using Cons True
        by (auto simp: st split: if_splits) (metis less_imp_le)
    next
      case (Upto k)
      have "take tot b @ take k (drop tot b) = take (tot + min k (length b - tot)) b"
        by (simp add: take_add min_def)
      then show ?thesis using Cons.IH [of "tot + min k (length b - tot)"] Cons.prems Upto True
        by (cases "k = 0") (auto simp: st split: if_splits intro: less_imp_le)
    qed
  qed
qed

lemma writen_loop_total:
  assumes "no_failure as" "Upto 0 \<notin> set as" "length b - tot < calls as" "tot \<le> length b"
  shows "\<exists>t. writen_loop b tot \<lparr>accepted = q, replies = as\<rparr> = Some (Some (length b), t)"
  using assms
proof (induction as arbitrary: tot q)
  case (Cons a as)
  show ?case
  proof (cases "tot < length b")
    case True
    note st = writen_loop_steps [OF True]
    show ?thesis
    proof (cases a)
      case (Upto k)
      then have "0 < k" using Cons.prems(2) by (cases k) auto
      then have "length b - (tot + min k (length b - tot)) < calls as" "tot + min k (length b - tot) \<le> length b"
        using Cons.prems(3) Upto True by (auto simp: min_def)
      then show ?thesis using Cons Upto \<open>0 < k\<close> by (simp add: st)
    qed (use Cons st in auto)
  qed (use Cons.prems in \<open>simp add: writen_loop_done\<close>)
qed simp

text \<open>
  Whatever write(2) answers, the bytes that \<open>writen\<close> has handed over when it returns are a prefix
  of the buffer, and it reports success only for all of it; when no write fails or accepts nothing, it
  succeeds.
\<close>

theorem writen_writes_prefix:
  "(writen b \<lparr>accepted = q, replies = as\<rparr> = Some (r, t) \<longrightarrow>
      (\<exists>j \<le> length b. accepted t = q @ take j b \<and> (r \<noteq> None \<longrightarrow> r = Some (length b) \<and> j = length b))) \<and>
   (no_failure as \<and> Upto 0 \<notin> set as \<and> length b < calls as \<longrightarrow>
      (\<exists>t. writen b \<lparr>accepted = q, replies = as\<rparr> = Some (Some (length b), t)))"
  using writen_loop_prefix [of b 0 q as r t] writen_loop_total [of as b 0 q] by (auto simp: writen_def)

theorem writen_writes_prefix_witness:
  "\<exists>t. writen ''abcd'' \<lparr>accepted = '''', replies = [Upto 1, Intr, Upto 2, Upto 9, Upto 9, Upto 9]\<rparr> = Some (Some 4, t) \<and>
     accepted t = ''abcd''"
proof -
  let ?as = "[Upto 1, Intr, Upto 2, Upto 9, Upto 9, Upto 9]"
  have "no_failure ?as \<and> Upto 0 \<notin> set ?as \<and> length ''abcd'' < calls ?as" by (simp add: no_failure_def)
  then obtain t where t: "writen ''abcd'' \<lparr>accepted = [], replies = ?as\<rparr> = Some (Some (length ''abcd''), t)"
    using writen_writes_prefix [THEN conjunct2] by blast
  then have "accepted t = ''abcd''"
    using writen_writes_prefix [of "''abcd''" "[]" ?as "Some (length ''abcd'')" t] by auto
  then show ?thesis using t by (simp add: eval_nat_numeral)
qed

end
