(* ===== verification/Ugid.thy ===== *)
theory Ugid
  imports Prelude
begin

text \<open>
  The user and group lookups of \<open>tlpi-dist/users_groups/ugid_functions.c\<close>. The password and group
  files are the parameter \<open>userdb\<close>; identifiers are 32-bit words.
\<close>

record userdb =
  getpwuid :: "32 word \<Rightarrow> string option"
  getpwnam :: "string \<Rightarrow> 32 word option"
  getgrgid :: "32 word \<Rightarrow> string option"
  getgrnam :: "string \<Rightarrow> 32 word option"

definition userNameFromId :: "userdb \<Rightarrow> 32 word \<Rightarrow> string option" where
  "userNameFromId db uid = (case getpwuid db uid of None \<Rightarrow> None | Some nm \<Rightarrow> Some nm)"

definition userIdFromName :: "userdb \<Rightarrow> string option \<Rightarrow> 32 word" where
  "userIdFromName db name =
     (case name of
        None \<Rightarrow> - 1
      | Some nm \<Rightarrow>
          if nm = [] then - 1
          else
            let (u, endptr, erange) = strtol nm 10
            in if endptr = [] then word_of_int u
               else (case getpwnam db nm of None \<Rightarrow> - 1 | Some uid \<Rightarrow> uid))"

definition groupNameFromId :: "userdb \<Rightarrow> 32 word \<Rightarrow> string option" where
  "groupNameFromId db gid = (case getgrgid db gid of None \<Rightarrow> None | Some nm \<Rightarrow> Some nm)"

definition groupIdFromName :: "userdb \<Rightarrow> string option \<Rightarrow> 32 word" where
  "groupIdFromName db name =
     (case name of
        None \<Rightarrow> - 1
      | Some nm \<Rightarrow>
          if nm = [] then - 1
          else
            let (g, endptr, erange) = strtol nm 10
            in if endptr = [] then word_of_int g
               else (case getgrnam db nm of None \<Rightarrow> - 1 | Some gid \<Rightarrow> gid))"

lemma dec_not_Nil: "dec i \<noteq> []"
  by (simp add: dec_def)

lemma userIdFromName_dec:
  assumes "LONG_MIN \<le> i" "i \<le> LONG_MAX"
  shows "userIdFromName db (Some (dec i)) = word_of_int i" "groupIdFromName db (Some (dec i)) = word_of_int i"
  using assms strtol_dec [of i "[]"] by (auto simp: userIdFromName_def groupIdFromName_def dec_not_Nil)

text \<open>
  A decimal number is its own identifier without a lookup, reduced modulo \<open>2 ^ 32\<close>: every number
  congruent to 0, such as 4294967296, names the superuser, and \<open>-1\<close> and 4294967295 are taken for errors.
\<close>

theorem userIdFromName_numeric:
  assumes "LONG_MIN \<le> i" "i \<le> LONG_MAX"
  shows "uint (userIdFromName db (Some (dec i))) = i mod 2 ^ 32 \<and>
    uint (groupIdFromName db (Some (dec i))) = i mod 2 ^ 32"
  using userIdFromName_dec [OF assms] by (simp add: uint_word_of_int)

theorem userIdFromName_numeric_witness:
  "uint (userIdFromName \<lparr>getpwuid = (\<lambda>_. None), getpwnam = (\<lambda>_. None), getgrgid = (\<lambda>_. None),
     getgrnam = (\<lambda>_. None)\<rparr> (Some (dec 4294967296))) = 0"
  using userIdFromName_numeric [of 4294967296] by (simp add: long_limits)

end
