(* ===== verification/ErrorFunctions.thy ===== *)
theory ErrorFunctions
  imports Prelude
begin

text \<open>
  The error functions of \<open>tlpi-dist/lib/error_functions.c\<close> and the process state they act on: the
  standard streams, with the part of the standard output that is still in the stdio buffer, errno,
  and the environment variable \<open>EF_DUMPCORE\<close>. A formatted message is the string it expands to.
  \<open>world\<close> is what lies outside the process.
\<close>

record 'w proc =
  out_buf :: string
  out :: string
  err :: string
  errno :: int
  ef_dumpcore :: "string option"
  world :: 'w

definition flush :: "'w proc \<Rightarrow> 'w proc" where
  "flush s = s\<lparr>out := out s @ out_buf s, out_buf := ''''\<rparr>"

definition fputs_err :: "string \<Rightarrow> 'w proc \<Rightarrow> 'w proc" where
  "fputs_err t s = s\<lparr>err := err s @ t\<rparr>"

definition printf_out :: "string \<Rightarrow> 'w proc \<Rightarrow> 'w proc" where
  "printf_out t s = s\<lparr>out_buf := out_buf s @ t\<rparr>"

text \<open>exit(3) flushes the standard output; _exit(2) and abort(3) leave the buffer unwritten.\<close>

definition exit3 :: "int \<Rightarrow> 'w proc \<Rightarrow> ('w proc, 'a) res" where
  "exit3 c s = Exit c (flush s)"

definition terminate :: "bool \<Rightarrow> 'w proc \<Rightarrow> ('w proc, 'a) res" where
  "terminate useExit3 s =
     (case ef_dumpcore s of
        Some v \<Rightarrow> if v \<noteq> [] then Abort s else if useExit3 then exit3 EXIT_FAILURE s else Exit EXIT_FAILURE s
      | None \<Rightarrow> if useExit3 then exit3 EXIT_FAILURE s else Exit EXIT_FAILURE s)"

definition ename :: "string list" where
  "ename =
     ['''', ''EPERM'', ''ENOENT'', ''ESRCH'', ''EINTR'', ''EIO'', ''ENXIO'', ''E2BIG'', ''ENOEXEC'',
      ''EBADF'', ''ECHILD'', ''EAGAIN/EWOULDBLOCK'', ''ENOMEM'', ''EACCES'', ''EFAULT'',
      ''ENOTBLK'', ''EBUSY'', ''EEXIST'', ''EXDEV'', ''ENODEV'', ''ENOTDIR'', ''EISDIR'',
      ''EINVAL'', ''ENFILE'', ''EMFILE'', ''ENOTTY'', ''ETXTBSY'', ''EFBIG'', ''ENOSPC'',
      ''ESPIPE'', ''EROFS'', ''EMLINK'', ''EPIPE'', ''EDOM'', ''ERANGE'', ''EDEADLK/EDEADLOCK'',
      ''ENAMETOOLONG'', ''ENOLCK'', ''ENOSYS'', ''ENOTEMPTY'', ''ELOOP'', '''', ''ENOMSG'',
      ''EIDRM'', ''ECHRNG'', ''EL2NSYNC'', ''EL3HLT'', ''EL3RST'', ''ELNRNG'', ''EUNATCH'',
      ''ENOCSI'', ''EL2HLT'', ''EBADE'', ''EBADR'', ''EXFULL'', ''ENOANO'', ''EBADRQC'',
      ''EBADSLT'', '''', ''EBFONT'', ''ENOSTR'', ''ENODATA'', ''ETIME'', ''ENOSR'', ''ENONET'',
      ''ENOPKG'', ''EREMOTE'', ''ENOLINK'', ''EADV'', ''ESRMNT'', ''ECOMM'', ''EPROTO'',
      ''EMULTIHOP'', ''EDOTDOT'', ''EBADMSG'', ''EOVERFLOW'', ''ENOTUNIQ'', ''EBADFD'',
      ''EREMCHG'', ''ELIBACC'', ''ELIBBAD'', ''ELIBSCN'', ''ELIBMAX'', ''ELIBEXEC'', ''EILSEQ'',
      ''ERESTART'', ''ESTRPIPE'', ''EUSERS'', ''ENOTSOCK'', ''EDESTADDRREQ'', ''EMSGSIZE'',
      ''EPROTOTYPE'', ''ENOPROTOOPT'', ''EPROTONOSUPPORT'', ''ESOCKTNOSUPPORT'',
      ''EOPNOTSUPP/ENOTSUP'', ''EPFNOSUPPORT'', ''EAFNOSUPPORT'', ''EADDRINUSE'',
      ''EADDRNOTAVAIL'', ''ENETDOWN'', ''ENETUNREACH'', ''ENETRESET'', ''ECONNABORTED'',
      ''ECONNRESET'', ''ENOBUFS'', ''EISCONN'', ''ENOTCONN'', ''ESHUTDOWN'', ''ETOOMANYREFS'',
      ''ETIMEDOUT'', ''ECONNREFUSED'', ''EHOSTDOWN'', ''EHOSTUNREACH'', ''EALREADY'',
      ''EINPROGRESS'', ''ESTALE'', ''EUCLEAN'', ''ENOTNAM'', ''ENAVAIL'', ''EISNAM'',
      ''EREMOTEIO'', ''EDQUOT'', ''ENOMEDIUM'', ''EMEDIUMTYPE'', ''ECANCELED'', ''ENOKEY'',
      ''EKEYEXPIRED'', ''EKEYREVOKED'', ''EKEYREJECTED'', ''EOWNERDEAD'', ''ENOTRECOVERABLE'',
      ''ERFKILL'', ''EHWPOISON'']"

definition MAX_ENAME :: int where "MAX_ENAME = 133"

definition BUF_SIZE :: nat where "BUF_SIZE = 500"

text \<open>\<open>strerror\<close> is the text of the C library for an error number.\<close>

definition errText :: "(int \<Rightarrow> string) \<Rightarrow> bool \<Rightarrow> int \<Rightarrow> string" where
  "errText strerror useErr e =
     (if useErr
      then snprintf BUF_SIZE (msg ['' ['', if 0 < e \<and> e \<le> MAX_ENAME then ename ! nat e else ''?UNKNOWN?'', '' '',
             strerror e, '']''])
      else snprintf BUF_SIZE '':'')"

definition outputError :: "(int \<Rightarrow> string) \<Rightarrow> bool \<Rightarrow> int \<Rightarrow> bool \<Rightarrow> string \<Rightarrow> 'w proc \<Rightarrow> 'w proc" where
  "outputError strerror useErr e flushStdout m s =
     (let userMsg = snprintf BUF_SIZE m;
          buf = snprintf BUF_SIZE (msg [''ERROR'', errText strerror useErr e, '' '', userMsg, nl])
      in fputs_err buf (if flushStdout then flush s else s))"

definition errMsg :: "(int \<Rightarrow> string) \<Rightarrow> string \<Rightarrow> 'w proc \<Rightarrow> 'w proc" where
  "errMsg strerror m s = (outputError strerror True (errno s) True m s)\<lparr>errno := errno s\<rparr>"

definition errExit :: "(int \<Rightarrow> string) \<Rightarrow> string \<Rightarrow> 'w proc \<Rightarrow> ('w proc, 'a) res" where
  "errExit strerror m s = terminate True (outputError strerror True (errno s) True m s)"

definition err_exit :: "(int \<Rightarrow> string) \<Rightarrow> string \<Rightarrow> 'w proc \<Rightarrow> ('w proc, 'a) res" where
  "err_exit strerror m s = terminate False (outputError strerror True (errno s) False m s)"

definition errExitEN :: "(int \<Rightarrow> string) \<Rightarrow> int \<Rightarrow> string \<Rightarrow> 'w proc \<Rightarrow> ('w proc, 'a) res" where
  "errExitEN strerror errnum m s = terminate True (outputError strerror True errnum True m s)"

definition fatal :: "(int \<Rightarrow> string) \<Rightarrow> string \<Rightarrow> 'w proc \<Rightarrow> ('w proc, 'a) res" where
  "fatal strerror m s = terminate True (outputError strerror False 0 True m s)"

definition usageErr :: "string \<Rightarrow> 'w proc \<Rightarrow> ('w proc, 'a) res" where
  "usageErr m s = exit3 EXIT_FAILURE (fputs_err m (fputs_err ''Usage: '' (flush s)))"

definition cmdLineErr :: "string \<Rightarrow> 'w proc \<Rightarrow> ('w proc, 'a) res" where
  "cmdLineErr m s = exit3 EXIT_FAILURE (fputs_err m (fputs_err ''Command-line usage error: '' (flush s)))"

section \<open>Properties\<close>

lemma length_ename: "length ename = 134"
  by (simp add: ename_def)

lemma err_outputError:
  "err (outputError strerror useErr e fl m s) = err s @
     snprintf BUF_SIZE (msg [''ERROR'', errText strerror useErr e, '' '', snprintf BUF_SIZE m, nl])"
  by (simp add: outputError_def fputs_err_def flush_def Let_def)

text \<open>
  A diagnostic adds at most 499 bytes to the standard error output. If the whole message fits it
  is written in full, with the name of the error looked up inside the table; a longer one is cut, and
  then loses its newline.
\<close>

theorem outputError_bounded:
  "\<exists>t. err (outputError strerror useErr e fl m s) = err s @ t \<and> length t < BUF_SIZE \<and>
     (length (errText strerror useErr e) + length m + 7 < BUF_SIZE \<longrightarrow>
        t = ''ERROR'' @ errText strerror useErr e @ '' '' @ m @ nl)"
proof -
  let ?t = "snprintf BUF_SIZE (msg [''ERROR'', errText strerror useErr e, '' '', snprintf BUF_SIZE m, nl])"
  have "length ?t < BUF_SIZE" by (simp add: snprintf_def BUF_SIZE_def)
  moreover have "?t = ''ERROR'' @ errText strerror useErr e @ '' '' @ m @ nl"
    if "length (errText strerror useErr e) + length m + 7 < BUF_SIZE"
    using that by (simp add: snprintf_def msg_def nl_def BUF_SIZE_def)
  ultimately show ?thesis using err_outputError by blast
qed

theorem outputError_bounded_witness:
  "err (outputError (\<lambda>e. ''No such file'') True 2 True ''open'' \<lparr>out_buf = '''', out = '''', err = '''', errno = 2,
     ef_dumpcore = None, world = ()\<rparr>) = ''ERROR [ENOENT No such file] open'' @ nl"
proof -
  let ?s = "\<lparr>out_buf = '''', out = '''', err = '''', errno = 2, ef_dumpcore = None, world = ()\<rparr>"
  have e: "errText (\<lambda>e. ''No such file'') True 2 = '' [ENOENT No such file]''"
    by (simp add: errText_def MAX_ENAME_def ename_def snprintf_def msg_def BUF_SIZE_def)
  show ?thesis
    using outputError_bounded [of "\<lambda>e. ''No such file''" True 2 True "''open''" ?s] e
    by (auto simp: BUF_SIZE_def)
qed

text \<open>
  \<open>errExit\<close> and \<open>err_exit\<close> print the same diagnostic and end with the same status, but only
  \<open>errExit\<close> writes out what is still in the stdio buffer; with \<open>EF_DUMPCORE\<close> set to a non-empty string
  both abort.
\<close>

theorem errExit_flushes_err_exit_does_not:
  assumes "ef_dumpcore s = None \<or> ef_dumpcore s = Some ''''"
  shows "\<exists>t u. errExit strerror m s = Exit EXIT_FAILURE t \<and> err_exit strerror m s = Exit EXIT_FAILURE u \<and>
    err t = err u \<and> out t = out s @ out_buf s \<and> out u = out s"
  using assms
  by (auto simp: errExit_def err_exit_def terminate_def exit3_def outputError_def fputs_err_def flush_def Let_def)

theorem errExit_flushes_err_exit_does_not_witness:
  "\<exists>t u. errExit (\<lambda>e. ''x'') ''fork'' \<lparr>out_buf = ''abc'', out = '''', err = '''', errno = 11,
       ef_dumpcore = Some '''', world = ()\<rparr> = Exit EXIT_FAILURE t \<and> out t = ''abc''"
  using errExit_flushes_err_exit_does_not [of "\<lparr>out_buf = ''abc'', out = '''', err = '''', errno = 11,
       ef_dumpcore = Some '''', world = ()\<rparr>" "\<lambda>e. ''x''" "''fork''"] by auto

end
