(* ===== verification/AclUpdate.thy ===== *)
theory AclUpdate
  imports Ugid ErrorFunctions Getopt
begin

text \<open>
  The program \<open>tlpi-dist/acl/acl_update.c\<close>: parsing of ACL entry specifications and their application
  to the ACLs of files. The ACL library is the parameter \<open>acl_lib\<close>, a record of its functions over
  abstract ACLs, entries and permission sets; a failed call is \<open>Inl\<close> of errno.
\<close>

section \<open>Parsing\<close>

datatype acl_tag = ACL_USER_OBJ | ACL_USER | ACL_GROUP_OBJ | ACL_GROUP | ACL_MASK | ACL_OTHER

definition ACL_READ :: int where "ACL_READ = 4"
definition ACL_WRITE :: int where "ACL_WRITE = 2"
definition ACL_EXECUTE :: int where "ACL_EXECUTE = 1"

lemmas acl_perm_defs = ACL_READ_def ACL_WRITE_def ACL_EXECUTE_def

definition MAX_ENTRIES :: nat where "MAX_ENTRIES = 10000"

text \<open>\<open>perms\<close> is \<open>None\<close> where the source leaves the field unset.\<close>

record AccessControlEntry =
  tag :: acl_tag
  qual :: "32 word"
  perms :: "int option"

fun parse_perms :: "string \<Rightarrow> int \<Rightarrow> string + int" where
  "parse_perms [] acc = Inr acc"
| "parse_perms (c # cs) acc =
     (if c = CHR ''r'' then parse_perms cs (acc OR ACL_READ)
      else if c = CHR ''w'' then parse_perms cs (acc OR ACL_WRITE)
      else if c = CHR ''x'' then parse_perms cs (acc OR ACL_EXECUTE)
      else if c \<noteq> CHR ''-'' then Inl (msg [''Bad character in permissions string: '', [c], nl])
      else parse_perms cs acc)"

definition parse_tag :: "string \<Rightarrow> bool \<Rightarrow> acl_tag option" where
  "parse_tag t hasQual =
     (if t = ''u'' \<or> t = ''user'' then Some (if hasQual then ACL_USER else ACL_USER_OBJ)
      else if t = ''g'' \<or> t = ''group'' then Some (if hasQual then ACL_GROUP else ACL_GROUP_OBJ)
      else if t = ''o'' \<or> t = ''other'' then Some ACL_OTHER
      else if t = ''m'' \<or> t = ''mask'' then Some ACL_MASK
      else None)"

text \<open>
  \<open>Inl\<close> is the text printed before the function returns FALSE. \<open>rest1\<close> is what follows the first
  colon, \<open>rest2\<close> what follows the second.
\<close>

definition parseEntrySpec :: "userdb \<Rightarrow> bool \<Rightarrow> string \<Rightarrow> string + AccessControlEntry" where
  "parseEntrySpec db permsReqd entryStr =
     (case strchr entryStr (CHR '':'') of
        None \<Rightarrow> Inl (msg [''Missing initial colon in ACL entry: '', entryStr, nl])
      | Some colon1 \<Rightarrow>
          let tagStr = take colon1 entryStr;
              rest1 = drop (Suc colon1) entryStr;
              hasQual = (rest1 \<noteq> [] \<and> hd rest1 \<noteq> CHR '':'');
              colon2 = strchr rest1 (CHR '':'');
              rest2 = (case colon2 of None \<Rightarrow> [] | Some j \<Rightarrow> drop (Suc j) rest1);
              hasPerms = (colon2 \<noteq> None \<and> rest2 \<noteq> [])
          in if hasPerms \<and> \<not> permsReqd then Inl (msg [''Cannot specify permissions here'', nl])
             else if \<not> hasPerms \<and> permsReqd then Inl (msg [''Must specify permissions'', nl])
             else case parse_tag tagStr hasQual of
               None \<Rightarrow> Inl (msg [''Bad tag: '', tagStr, nl])
             | Some tg \<Rightarrow>
                 let qualStr = (case colon2 of None \<Rightarrow> rest1 | Some j \<Rightarrow> take j rest1);
                     q = (if tg = ACL_USER then userIdFromName db (Some qualStr)
                          else if tg = ACL_GROUP then groupIdFromName db (Some qualStr) else 0)
                 in if tg = ACL_USER \<and> q = - 1 then Inl (msg [''Bad user ID: '', qualStr, nl])
                    else if tg = ACL_GROUP \<and> q = - 1 then Inl (msg [''Bad group ID: '', qualStr, nl])
                    else if hasPerms
                      then (case parse_perms rest2 0 of
                              Inl m \<Rightarrow> Inl m
                            | Inr p \<Rightarrow> Inr \<lparr>tag = tg, qual = q, perms = Some p\<rparr>)
                    else Inr \<lparr>tag = tg, qual = q, perms = None\<rparr>)"

function parse_entries :: "userdb \<Rightarrow> bool \<Rightarrow> nat \<Rightarrow> string \<Rightarrow> string + AccessControlEntry list" where
  "parse_entries db permsReqd n nextEntry =
     (if n \<ge> MAX_ENTRIES then Inl (msg [''Too many entries in ACL'', nl])
      else case strchr nextEntry (CHR '','') of
             None \<Rightarrow>
               (case parseEntrySpec db permsReqd nextEntry of Inl m \<Rightarrow> Inl m | Inr ace \<Rightarrow> Inr [ace])
           | Some comma \<Rightarrow>
               (case parseEntrySpec db permsReqd (take comma nextEntry) of
                  Inl m \<Rightarrow> Inl m
                | Inr ace \<Rightarrow>
                    (case parse_entries db permsReqd (Suc n) (drop (Suc comma) nextEntry) of
                       Inl m \<Rightarrow> Inl m | Inr aces \<Rightarrow> Inr (ace # aces))))"
  by pat_completeness auto
termination
  by (relation "measure (\<lambda>(db, pr, n, s). length s)") (auto dest: strchr_less)

declare parse_entries.simps [simp del]

definition parseACL :: "userdb \<Rightarrow> bool \<Rightarrow> string \<Rightarrow> string + AccessControlEntry list" where
  "parseACL db permsReqd aclStr = parse_entries db permsReqd 0 aclStr"

section \<open>The library\<close>

record ('a, 'e, 'p, 'w) acl_lib =
  lib_entries :: "'a \<Rightarrow> 'e list \<times> int option"
  lib_get_tag :: "'a \<Rightarrow> 'e \<Rightarrow> int + acl_tag"
  lib_get_qual :: "'a \<Rightarrow> 'e \<Rightarrow> int + 32 word"
  lib_delete :: "'a \<Rightarrow> 'e \<Rightarrow> int + 'a"
  lib_create :: "'a \<Rightarrow> int + 'a \<times> 'e"
  lib_set_tag :: "'a \<Rightarrow> 'e \<Rightarrow> acl_tag \<Rightarrow> int + 'a"
  lib_set_qual :: "'a \<Rightarrow> 'e \<Rightarrow> 32 word \<Rightarrow> int + 'a"
  lib_get_permset :: "'a \<Rightarrow> 'e \<Rightarrow> int + 'p"
  lib_clear_perms :: "'p \<Rightarrow> int + 'p"
  lib_add_perm :: "'p \<Rightarrow> int \<Rightarrow> int + 'p"
  lib_set_permset :: "'a \<Rightarrow> 'e \<Rightarrow> 'p \<Rightarrow> int + 'a"
  lib_calc_mask :: "'a \<Rightarrow> int + 'a"
  lib_valid :: "'a \<Rightarrow> int option"
  lib_get_file :: "string \<Rightarrow> bool \<Rightarrow> 'w \<Rightarrow> (int + 'a) \<times> 'w"
  lib_set_file :: "string \<Rightarrow> bool \<Rightarrow> 'a \<Rightarrow> 'w \<Rightarrow> int option \<times> 'w"
  lib_delete_def :: "string \<Rightarrow> 'w \<Rightarrow> int option \<times> 'w"
  lib_strerror :: "int \<Rightarrow> string"

text \<open>
  \<open>lib_entries\<close> lists the entries that successive calls of acl_get_entry(3) deliver and the error
  that ends them, if any. The flag of the file functions selects the default ACL. acl_free(3) of an
  object just obtained does not fail.
\<close>

definition lib_try :: "('a, 'e, 'p, 'w) acl_lib \<Rightarrow> string \<Rightarrow> int + 'x \<Rightarrow> 'w proc \<Rightarrow> ('w proc, 'x) res" where
  "lib_try L m r s = (case r of Inl e \<Rightarrow> errExit (lib_strerror L) m (s\<lparr>errno := e\<rparr>) | Inr x \<Rightarrow> Ret x s)"

fun find_in :: "('a, 'e, 'p, 'w) acl_lib \<Rightarrow> 'a \<Rightarrow> acl_tag \<Rightarrow> 32 word \<Rightarrow> 'e list \<Rightarrow> int option \<Rightarrow> 'w proc \<Rightarrow>
    ('w proc, 'e option) res" where
  "find_in L acl tg q [] fail s =
     (case fail of None \<Rightarrow> Ret None s | Some e \<Rightarrow> errExit (lib_strerror L) ''acl_get_entry'' (s\<lparr>errno := e\<rparr>))"
| "find_in L acl tg q (e # es) fail s =
     bindR (lib_try L ''acl_get_tag_type'' (lib_get_tag L acl e) s) (\<lambda>entryTag s1.
       if tg = entryTag then
         if tg = ACL_USER \<or> tg = ACL_GROUP then
           bindR (lib_try L ''acl_get_qualifier'' (lib_get_qual L acl e) s1) (\<lambda>idp s2.
             if q = idp then Ret (Some e) s2 else find_in L acl tg q es fail s2)
         else Ret (Some e) s1
       else find_in L acl tg q es fail s1)"

definition findEntry :: "('a, 'e, 'p, 'w) acl_lib \<Rightarrow> 'a \<Rightarrow> acl_tag \<Rightarrow> 32 word \<Rightarrow> 'w proc \<Rightarrow>
    ('w proc, 'e option) res" where
  "findEntry L acl tg q s = (let (es, fail) = lib_entries L acl in find_in L acl tg q es fail s)"

definition add_if :: "('a, 'e, 'p, 'w) acl_lib \<Rightarrow> int \<Rightarrow> int \<Rightarrow> 'p \<Rightarrow> 'w proc \<Rightarrow> ('w proc, 'p) res" where
  "add_if L ps perm permset s =
     (if ps AND perm \<noteq> 0 then lib_try L ''acl_add_perm'' (lib_add_perm L permset perm) s else Ret permset s)"

definition setPerms :: "('a, 'e, 'p, 'w) acl_lib \<Rightarrow> 'a \<Rightarrow> 'e \<Rightarrow> int \<Rightarrow> 'w proc \<Rightarrow> ('w proc, 'a) res" where
  "setPerms L acl entry ps s =
     bindR (lib_try L ''acl_get_permset'' (lib_get_permset L acl entry) s) (\<lambda>p0 s0.
     bindR (lib_try L ''acl_clear_perms'' (lib_clear_perms L p0) s0) (\<lambda>p1 s1.
     bindR (add_if L ps ACL_READ p1 s1) (\<lambda>p2 s2.
     bindR (add_if L ps ACL_WRITE p2 s2) (\<lambda>p3 s3.
     bindR (add_if L ps ACL_EXECUTE p3 s3) (\<lambda>p4 s4.
     lib_try L ''acl_set_permset'' (lib_set_permset L acl entry p4) s4)))))"

section \<open>The main program\<close>

record config =
  recalcMask :: bool
  useDefaultACL :: bool
  modifyACL :: bool
  removeACL :: bool
  removeDefaultACL :: bool
  checkValidity :: bool
  aclSpec :: "string option"
  optCnt :: nat

definition initial_config :: config where
  "initial_config = \<lparr>recalcMask = True, useDefaultACL = False, modifyACL = False, removeACL = False,
     removeDefaultACL = False, checkValidity = False, aclSpec = None, optCnt = 0\<rparr>"

definition usage_body :: "string list" where
  "usage_body =
     [msg [''-m  Modify/create ACL entries'', nl], msg [''-x  Remove ACL entries'', nl],
      msg [''-k  Remove default ACL'', nl, nl], msg [''-V  Check validity of '', [CHR 0x27], ''acl'', [CHR 0x27], nl, nl],
      msg [[CHR 0x27], ''acl'', [CHR 0x27], '' consists of one or more comma-separated entries of the form:'', nl],
      msg [nl, ''            tag:[qualifier][:[perms]]'', nl, nl],
      msg [''      '', [CHR 0x27], ''perms'', [CHR 0x27], '' are specified only for -m'', nl, nl],
      msg [''-d  Apply operation to default ACL'', nl], msg [''-n  Don'', [CHR 0x27], ''t recalculate mask entry'', nl],
      msg [''      NOTE: if you specify this option and have specified'', nl],
      msg [''      the -m option, then you may encounter errors if the'', nl],
      msg [''      file does not already have a mask entry.'', nl]]"

definition acl_usageError :: "string \<Rightarrow> string option \<Rightarrow> bool \<Rightarrow> 'w proc \<Rightarrow> ('w proc, 'x) res" where
  "acl_usageError progName m shortUsage s =
     (let s1 = (case m of None \<Rightarrow> s | Some t \<Rightarrow> fputs_err (msg [t, nl]) s)
      in if shortUsage
         then exit3 EXIT_FAILURE (fputs_err (msg [''Type '', [CHR 0x27], progName, '' --help'', [CHR 0x27],
                '' for usage information'', nl]) s1)
         else exit3 EXIT_FAILURE
                (fold (\<lambda>t. fputs_err (msg [''      '', t])) usage_body
                  (fputs_err (msg [''   or: '', progName, '' -V acl'', nl, nl])
                    (fputs_err (msg [''   or: '', progName, '' -k file...'', nl, nl])
                      (fputs_err (msg [''   or: '', progName, '' -x acl [-d] [-n] file...'', nl])
                        (fputs_err (msg [''Usage: '', progName, '' -m acl [-d] [-n] file...'', nl]) s1))))))"

fun parse_options :: "string \<Rightarrow> gopt list \<Rightarrow> config \<Rightarrow> 'w proc \<Rightarrow> ('w proc, config) res" where
  "parse_options progName [] c s = Ret c s"
| "parse_options progName (Bad o1 m # os) c s =
     acl_usageError progName (Some (msg [''Bad option'', nl])) True (fputs_err (getopt_msg progName o1 m) s)"
| "parse_options progName (Opt o1 arg # os) c s =
     (if o1 = CHR ''m'' then
        parse_options progName os (c\<lparr>modifyACL := True, aclSpec := arg, optCnt := Suc (optCnt c)\<rparr>) s
      else if o1 = CHR ''x'' then
        parse_options progName os (c\<lparr>removeACL := True, aclSpec := arg, optCnt := Suc (optCnt c)\<rparr>) s
      else if o1 = CHR ''k'' then
        parse_options progName os (c\<lparr>removeDefaultACL := True, optCnt := Suc (optCnt c)\<rparr>) s
      else if o1 = CHR ''V'' then
        parse_options progName os (c\<lparr>checkValidity := True, aclSpec := arg, optCnt := Suc (optCnt c)\<rparr>) s
      else if o1 = CHR ''d'' then parse_options progName os (c\<lparr>useDefaultACL := True\<rparr>) s
      else if o1 = CHR ''n'' then parse_options progName os (c\<lparr>recalcMask := False\<rparr>) s
      else acl_usageError progName (Some (msg [''Bad option'', nl])) True s)"

text \<open>The loop body over \<open>aclist\<close>: the change of the ACL in memory, then the update of the file.\<close>

definition change_entry :: "('a, 'e, 'p, 'w) acl_lib \<Rightarrow> bool \<Rightarrow> 'a \<Rightarrow> AccessControlEntry \<Rightarrow> 'w proc \<Rightarrow>
    ('w proc, 'a) res" where
  "change_entry L remove acl ace s =
     bindR (findEntry L acl (tag ace) (qual ace) s) (\<lambda>entry s1.
       if remove then
         (case entry of
            None \<Rightarrow> Ret acl s1
          | Some e \<Rightarrow> lib_try L ''acl_delete_entry'' (lib_delete L acl e) s1)
       else
         bindR (case entry of
                  Some e \<Rightarrow> Ret (acl, e) s1
                | None \<Rightarrow>
                    bindR (lib_try L ''acl_create_entry'' (lib_create L acl) s1) (\<lambda>(acl1, e) s2.
                    bindR (lib_try L ''acl_set_tag_type'' (lib_set_tag L acl1 e (tag ace)) s2) (\<lambda>acl2 s3.
                    if tag ace = ACL_USER \<or> tag ace = ACL_GROUP
                    then bindR (lib_try L ''acl_set_qualifier'' (lib_set_qual L acl2 e (qual ace)) s3)
                           (\<lambda>acl3 s4. Ret (acl3, e) s4)
                    else Ret (acl2, e) s3)))
               (\<lambda>(acl1, e) s2. case perms ace of None \<Rightarrow> Undef | Some p \<Rightarrow> setPerms L acl1 e p s2))"

definition apply_entry :: "('a, 'e, 'p, 'w) acl_lib \<Rightarrow> config \<Rightarrow> string \<Rightarrow> 'a \<Rightarrow> AccessControlEntry \<Rightarrow> 'w proc \<Rightarrow>
    ('w proc, 'a) res" where
  "apply_entry L c file acl ace s =
     bindR (change_entry L (removeACL c) acl ace s) (\<lambda>acl1 s1.
     bindR (if recalcMask c then lib_try L ''acl_calc_mask'' (lib_calc_mask L acl1) s1 else Ret acl1 s1) (\<lambda>acl2 s2.
       case lib_valid L acl2 of
         Some e \<Rightarrow> errExit (lib_strerror L) ''acl_valid'' (s2\<lparr>errno := e\<rparr>)
       | None \<Rightarrow>
           (case lib_set_file L file (useDefaultACL c) acl2 (world s2) of
              (Some e, w) \<Rightarrow> errExit (lib_strerror L) ''acl_set_file'' (s2\<lparr>world := w, errno := e\<rparr>)
            | (None, w) \<Rightarrow> Ret acl2 (s2\<lparr>world := w\<rparr>))))"

fun apply_entries :: "('a, 'e, 'p, 'w) acl_lib \<Rightarrow> config \<Rightarrow> string \<Rightarrow> 'a \<Rightarrow> AccessControlEntry list \<Rightarrow> 'w proc \<Rightarrow>
    ('w proc, 'a) res" where
  "apply_entries L c file acl [] s = Ret acl s"
| "apply_entries L c file acl (ace # aces) s =
     bindR (apply_entry L c file acl ace s) (\<lambda>acl1 s1. apply_entries L c file acl1 aces s1)"

fun process_files :: "('a, 'e, 'p, 'w) acl_lib \<Rightarrow> config \<Rightarrow> AccessControlEntry list \<Rightarrow> string list \<Rightarrow> 'w proc \<Rightarrow>
    ('w proc, unit) res" where
  "process_files L c aces [] s = Ret () s"
| "process_files L c aces (file # files) s =
     bindR (if removeDefaultACL c then
              (case lib_delete_def L file (world s) of
                 (Some e, w) \<Rightarrow>
                   errExit (lib_strerror L) (msg [''acl_delete_def_file: '', file]) (s\<lparr>world := w, errno := e\<rparr>)
               | (None, w) \<Rightarrow> Ret () (s\<lparr>world := w\<rparr>))
            else if modifyACL c \<or> removeACL c then
              (case lib_get_file L file (useDefaultACL c) (world s) of
                 (Inl e, w) \<Rightarrow> errExit (lib_strerror L) ''acl_get_file'' (s\<lparr>world := w, errno := e\<rparr>)
               | (Inr acl, w) \<Rightarrow>
                   bindR (apply_entries L c file acl aces (s\<lparr>world := w\<rparr>)) (\<lambda>_ s1. Ret () s1))
            else fatal (lib_strerror L) ''Bad logic!'' s)
       (\<lambda>_ s1. process_files L c aces files s1)"

definition acl_update_main :: "('a, 'e, 'p, 'w) acl_lib \<Rightarrow> userdb \<Rightarrow> string \<Rightarrow> string list \<Rightarrow> 'w proc \<Rightarrow>
    ('w proc, unit) res" where
  "acl_update_main L db progName args s =
     (if args = [] \<or> hd args = ''--help'' then acl_usageError progName None False s
      else
        let (opts, files) = getopt_args ''m:x:kdnV:'' args
        in bindR (parse_options progName opts initial_config s) (\<lambda>c s1.
           if optCnt c \<noteq> 1
           then acl_usageError progName (Some (msg [''Specify exactly one of -m, -x, -k, or -V'', nl])) True s1
           else if checkValidity c \<and> useDefaultACL c
           then acl_usageError progName (Some (msg [''Can'', [CHR 0x27], ''t specify -d with -V'', nl])) True s1
           else if checkValidity c then
             (case parseACL db True (the (aclSpec c)) of
                Inl m \<Rightarrow> fatal (lib_strerror L) ''Bad ACL entry specification'' (fputs_err m s1)
              | Inr aces \<Rightarrow> exit3 EXIT_SUCCESS (printf_out (msg [''ACL is valid'', nl]) s1))
           else if modifyACL c \<or> removeACL c then
             (case parseACL db (modifyACL c) (the (aclSpec c)) of
                Inl m \<Rightarrow> acl_usageError progName (Some (msg [''Bad ACL specification'', nl])) True (fputs_err m s1)
              | Inr aces \<Rightarrow> bindR (process_files L c aces files s1) (\<lambda>_ s2. exit3 EXIT_SUCCESS s2))
           else bindR (process_files L c [] files s1) (\<lambda>_ s2. exit3 EXIT_SUCCESS s2)))"

section \<open>Printing and parsing specifications\<close>

definition show_perms :: "int \<Rightarrow> string" where
  "show_perms p = [if p AND ACL_READ \<noteq> 0 then CHR ''r'' else CHR ''-'',
     if p AND ACL_WRITE \<noteq> 0 then CHR ''w'' else CHR ''-'', if p AND ACL_EXECUTE \<noteq> 0 then CHR ''x'' else CHR ''-'']"

definition show_tag :: "acl_tag \<Rightarrow> string" where
  "show_tag t = (case t of ACL_USER_OBJ \<Rightarrow> ''u'' | ACL_USER \<Rightarrow> ''user'' | ACL_GROUP_OBJ \<Rightarrow> ''g''
     | ACL_GROUP \<Rightarrow> ''group'' | ACL_MASK \<Rightarrow> ''m'' | ACL_OTHER \<Rightarrow> ''o'')"

definition has_qual :: "acl_tag \<Rightarrow> bool" where
  "has_qual t = (t = ACL_USER \<or> t = ACL_GROUP)"

definition show_ace :: "AccessControlEntry \<Rightarrow> string" where
  "show_ace a = show_tag (tag a) @ '':'' @ (if has_qual (tag a) then dec (uint (qual a)) else '''') @ '':''
     @ show_perms (the (perms a))"

definition ace_ok :: "AccessControlEntry \<Rightarrow> bool" where
  "ace_ok a = (perms a \<in> Some ` {0..7} \<and> (if has_qual (tag a) then qual a \<noteq> - 1 else qual a = 0))"

lemma parse_show_perms:
  assumes "p \<in> {0..7}"
  shows "parse_perms (show_perms p) 0 = Inr p"
proof -
  have "p \<in> {0, 1, 2, 3, 4, 5, 6, 7}" using assms by auto
  then show ?thesis by (auto simp: show_perms_def acl_perm_defs)
qed

lemma parseEntrySpec_fields:
  assumes "CHR '':'' \<notin> set t" "CHR '':'' \<notin> set q" "p \<noteq> []" "parse_perms p 0 = Inr v"
    and "parse_tag t (q \<noteq> []) = Some tg"
  shows "parseEntrySpec db True (t @ CHR '':'' # q @ CHR '':'' # p) =
      (let n = (if tg = ACL_USER then userIdFromName db (Some q)
                else if tg = ACL_GROUP then groupIdFromName db (Some q) else 0)
       in if tg = ACL_USER \<and> n = - 1 then Inl (msg [''Bad user ID: '', q, nl])
          else if tg = ACL_GROUP \<and> n = - 1 then Inl (msg [''Bad group ID: '', q, nl])
          else Inr \<lparr>tag = tg, qual = n, perms = Some v\<rparr>)"
proof -
  have "hd (q @ CHR '':'' # p) \<noteq> CHR '':'' \<longleftrightarrow> q \<noteq> []" using assms(2) by (cases q) auto
  then show ?thesis using assms(3-5)
    unfolding parseEntrySpec_def strchr_append [OF assms(1)] option.case
    by (simp add: strchr_append [OF assms(2)] Let_def)
qed

lemma parse_show_ace:
  assumes "ace_ok a"
  shows "parseEntrySpec db True (show_ace a) = Inr a"
proof -
  obtain p where p: "perms a = Some p" "p \<in> {0..7}" using assms by (auto simp: ace_ok_def)
  let ?t = "show_tag (tag a)" and ?q = "if has_qual (tag a) then dec (uint (qual a)) else ''''" and ?p = "show_perms p"
  have s: "show_ace a = ?t @ CHR '':'' # ?q @ CHR '':'' # ?p" by (simp add: show_ace_def p)
  have nt: "CHR '':'' \<notin> set ?t" by (simp add: show_tag_def split: acl_tag.split)
  have nq: "CHR '':'' \<notin> set ?q" by (simp add: dec_no_mark)
  have "0 \<le> uint (qual a)" "uint (qual a) < 2 ^ 32" using uint_lt2p [of "qual a"] by simp_all
  then have "LONG_MIN \<le> uint (qual a)" "uint (qual a) \<le> LONG_MAX" by (auto simp: long_limits intro: order_trans [of _ 0])
  then have q: "userIdFromName db (Some (dec (uint (qual a)))) = qual a"
      "groupIdFromName db (Some (dec (uint (qual a)))) = qual a"
    using userIdFromName_dec [of "uint (qual a)" db] by simp_all
  have tg: "parse_tag ?t (?q \<noteq> []) = Some (tag a)"
    by (simp add: parse_tag_def show_tag_def has_qual_def dec_not_Nil split: acl_tag.split)
  have pn: "?p \<noteq> []" by (simp add: show_perms_def)
  have "parseEntrySpec db True (show_ace a) =
      (let n = (if tag a = ACL_USER then userIdFromName db (Some ?q)
                else if tag a = ACL_GROUP then groupIdFromName db (Some ?q) else 0)
       in if tag a = ACL_USER \<and> n = - 1 then Inl (msg [''Bad user ID: '', ?q, nl])
          else if tag a = ACL_GROUP \<and> n = - 1 then Inl (msg [''Bad group ID: '', ?q, nl])
          else Inr \<lparr>tag = tag a, qual = n, perms = Some p\<rparr>)"
    unfolding s by (rule parseEntrySpec_fields [OF nt nq pn parse_show_perms [OF p(2)] tg])
  also have "\<dots> = Inr \<lparr>tag = tag a, qual = qual a, perms = Some p\<rparr>"
    using assms q by (auto simp: ace_ok_def has_qual_def Let_def)
  finally show ?thesis using p(1) by simp
qed

lemma show_ace_no_comma: "ace_ok a \<Longrightarrow> CHR '','' \<notin> set (show_ace a)"
  by (auto simp: show_ace_def show_tag_def show_perms_def dec_no_mark split: acl_tag.splits if_splits)

lemma parse_entries_commas:
  assumes "aces \<noteq> []" "\<forall>a \<in> set aces. ace_ok a" "n + length aces \<le> MAX_ENTRIES"
  shows "parse_entries db True n (commas (map show_ace aces)) = Inr aces"
  using assms
proof (induction aces arbitrary: n)
  case (Cons a aces)
  have a: "ace_ok a" "\<not> MAX_ENTRIES \<le> n" using Cons.prems by auto
  show ?case
  proof (cases aces)
    case Nil
    then show ?thesis using a strchr_None [OF show_ace_no_comma [OF a(1)]]
      by (simp add: parse_entries.simps [of db True n] parse_show_ace)
  next
    case (Cons b bs)
    have "parse_entries db True (Suc n) (commas (map show_ace aces)) = Inr aces"
      using Cons Cons.prems by (intro Cons.IH) auto
    moreover have "commas (map show_ace (a # aces)) = show_ace a @ CHR '','' # commas (map show_ace aces)"
      using Cons by simp
    ultimately show ?thesis using a strchr_append [OF show_ace_no_comma [OF a(1)], of "commas (map show_ace aces)"]
      by (simp add: parse_entries.simps [of db True n] parse_show_ace)
  qed
qed simp

text \<open>
  C19. Every list of at most 10000 well-formed entries comes back from its textual form, with numeric
  qualifiers, unchanged and in order.
\<close>

theorem parseACL_show:
  assumes "aces \<noteq> []" "\<forall>a \<in> set aces. ace_ok a" "length aces \<le> MAX_ENTRIES"
  shows "parseACL db True (commas (map show_ace aces)) = Inr aces"
  using parse_entries_commas [of aces 0 db] assms by (simp add: parseACL_def)

definition no_users :: userdb where
  "no_users = \<lparr>getpwuid = (\<lambda>_. None), getpwnam = (\<lambda>_. None), getgrgid = (\<lambda>_. None), getgrnam = (\<lambda>_. None)\<rparr>"

theorem parseACL_show_witness:
  "parseACL no_users True ''user:1000:rw-,m::r-x'' =
     Inr [\<lparr>tag = ACL_USER, qual = 1000, perms = Some 6\<rparr>, \<lparr>tag = ACL_MASK, qual = 0, perms = Some 5\<rparr>]"
proof -
  let ?as = "[\<lparr>tag = ACL_USER, qual = 1000, perms = Some 6\<rparr>, \<lparr>tag = ACL_MASK, qual = 0, perms = Some 5\<rparr>]"
  have "commas (map show_ace ?as) = ''user:1000:rw-,m::r-x''" by code_simp
  moreover have "\<forall>a \<in> set ?as. ace_ok a" by (auto simp: ace_ok_def has_qual_def)
  ultimately show ?thesis using parseACL_show [of ?as no_users] by (simp add: MAX_ENTRIES_def)
qed

end
