(* ===== verification/SysVSem.thy ===== *)
theory SysVSem
  imports ReadIO
begin

text \<open>
  System V semaphore sets as the programs of \<open>tlpi-dist/svsem\<close> use them, and the two protocols built on
  them: the binary semaphores of \<open>binary_sems.c\<close> and the event flags of \<open>event_flags.c\<close>. A set is the list
  of its values with the undo adjustments of the calling process. The answer given to a call says whether
  a signal handler interrupts it, whether it fails for a reason outside the set, or whether it proceeds
  (\<open>Upto _\<close>); a call that proceeds may still have to wait, which is \<open>Waits\<close>.
\<close>

section \<open>Semaphore sets\<close>

datatype 'a call = Waits | Failed int | Done 'a

definition EAGAIN :: int where "EAGAIN = 11"
definition EFBIG :: int where "EFBIG = 27"
definition ERANGE :: int where "ERANGE = 34"

definition IPC_NOWAIT :: int where "IPC_NOWAIT = 2048"
definition SEM_UNDO :: int where "SEM_UNDO = 4096"
definition SEMVMX :: nat where "SEMVMX = 32767"

record sembuf =
  sem_num :: "16 word"
  sem_op :: int
  sem_flg :: int

record semset =
  semval :: "nat list"
  semadj :: "int list"

text \<open>One operation of semop(2): add, wait for zero, or subtract when the value is large enough.\<close>

definition sem_adjust :: "nat \<Rightarrow> nat \<Rightarrow> sembuf \<Rightarrow> semset \<Rightarrow> semset" where
  "sem_adjust n v b S =
     S\<lparr>semval := (semval S)[n := v],
       semadj := (if sem_flg b AND SEM_UNDO \<noteq> 0 then (semadj S)[n := semadj S ! n - sem_op b] else semadj S)\<rparr>"

definition sem_wait :: "sembuf \<Rightarrow> semset call" where
  "sem_wait b = (if sem_flg b AND IPC_NOWAIT \<noteq> 0 then Failed EAGAIN else Waits)"

definition sem_try :: "sembuf \<Rightarrow> semset \<Rightarrow> semset call" where
  "sem_try b S =
     (let n = unat (sem_num b); v = semval S ! n
      in if length (semval S) \<le> n then Failed EFBIG
         else if 0 < sem_op b then
           (if SEMVMX < v + nat (sem_op b) then Failed ERANGE else Done (sem_adjust n (v + nat (sem_op b)) b S))
         else if sem_op b = 0 then (if v = 0 then Done S else sem_wait b)
         else if nat (- sem_op b) \<le> v then Done (sem_adjust n (v - nat (- sem_op b)) b S)
         else sem_wait b)"

fun sem_tries :: "sembuf list \<Rightarrow> semset \<Rightarrow> semset call" where
  "sem_tries [] S = Done S"
| "sem_tries (b # bs) S = (case sem_try b S of Done S1 \<Rightarrow> sem_tries bs S1 | r \<Rightarrow> r)"

text \<open>The operations of one call are performed in order and all together, or not at all.\<close>

definition semop :: "sembuf list \<Rightarrow> answer \<Rightarrow> semset \<Rightarrow> unit call \<times> semset" where
  "semop bs a S =
     (case a of
        Intr \<Rightarrow> (Failed IO_EINTR, S)
      | Fail e \<Rightarrow> (Failed e, S)
      | Upto _ \<Rightarrow>
          (case sem_tries bs S of
             Done S1 \<Rightarrow> (Done (), S1)
           | Failed e \<Rightarrow> (Failed e, S)
           | Waits \<Rightarrow> (Waits, S)))"

text \<open>semctl(2) with SETVAL, which also clears the adjustment of the semaphore, and with GETVAL.\<close>

definition semctl_SETVAL :: "nat \<Rightarrow> nat \<Rightarrow> answer \<Rightarrow> semset \<Rightarrow> unit call \<times> semset" where
  "semctl_SETVAL n v a S =
     (case a of
        Intr \<Rightarrow> (Failed IO_EINTR, S)
      | Fail e \<Rightarrow> (Failed e, S)
      | Upto _ \<Rightarrow>
          if length (semval S) \<le> n then (Failed EINVAL, S)
          else if SEMVMX < v then (Failed ERANGE, S)
          else (Done (), S\<lparr>semval := (semval S)[n := v], semadj := (semadj S)[n := 0]\<rparr>))"

definition semctl_GETVAL :: "nat \<Rightarrow> answer \<Rightarrow> semset \<Rightarrow> nat call" where
  "semctl_GETVAL n a S =
     (case a of
        Intr \<Rightarrow> Failed IO_EINTR
      | Fail e \<Rightarrow> Failed e
      | Upto _ \<Rightarrow> if length (semval S) \<le> n then Failed EINVAL else Done (semval S ! n))"

section \<open>Binary semaphores\<close>

record bs_control =
  bsUseSemUndo :: bool
  bsRetryOnEintr :: bool

definition bs_default :: bs_control where
  "bs_default = \<lparr>bsUseSemUndo = False, bsRetryOnEintr = True\<rparr>"

definition initSemAvailable :: "nat \<Rightarrow> answer \<Rightarrow> semset \<Rightarrow> unit call \<times> semset" where
  "initSemAvailable semNum a S = semctl_SETVAL semNum 1 a S"

definition initSemInUse :: "nat \<Rightarrow> answer \<Rightarrow> semset \<Rightarrow> unit call \<times> semset" where
  "initSemInUse semNum a S = semctl_SETVAL semNum 0 a S"

definition bs_sops :: "bs_control \<Rightarrow> nat \<Rightarrow> int \<Rightarrow> sembuf" where
  "bs_sops c semNum op =
     \<lparr>sem_num = word_of_nat semNum, sem_op = op, sem_flg = (if bsUseSemUndo c then SEM_UNDO else 0)\<rparr>"

text \<open>
  One trip of the loop of \<open>reserveSem\<close>, on the set as it is at that moment: the result \<open>Waits\<close> says
  that the function has not returned, because semop(2) waits or is to be called again.
\<close>

definition reserveSem :: "bs_control \<Rightarrow> nat \<Rightarrow> answer \<Rightarrow> semset \<Rightarrow> unit call \<times> semset" where
  "reserveSem c semNum a S =
     (case semop [bs_sops c semNum (- 1)] a S of
        (Failed e, S1) \<Rightarrow> if e \<noteq> IO_EINTR \<or> \<not> bsRetryOnEintr c then (Failed e, S1) else (Waits, S1)
      | r \<Rightarrow> r)"

definition releaseSem :: "bs_control \<Rightarrow> nat \<Rightarrow> answer \<Rightarrow> semset \<Rightarrow> unit call \<times> semset" where
  "releaseSem c semNum a S = semop [bs_sops c semNum 1] a S"

section \<open>Event flags\<close>

definition ef_sops :: "nat \<Rightarrow> sembuf" where
  "ef_sops semNum = \<lparr>sem_num = word_of_nat semNum, sem_op = 0, sem_flg = 0\<rparr>"

definition waitForEventFlag :: "nat \<Rightarrow> answer \<Rightarrow> semset \<Rightarrow> unit call \<times> semset" where
  "waitForEventFlag semNum a S =
     (case semop [ef_sops semNum] a S of
        (Failed e, S1) \<Rightarrow> if e \<noteq> IO_EINTR then (Failed e, S1) else (Waits, S1)
      | r \<Rightarrow> r)"

definition clearEventFlag :: "nat \<Rightarrow> answer \<Rightarrow> semset \<Rightarrow> unit call \<times> semset" where
  "clearEventFlag semNum a S = semctl_SETVAL semNum 1 a S"

definition setEventFlag :: "nat \<Rightarrow> answer \<Rightarrow> semset \<Rightarrow> unit call \<times> semset" where
  "setEventFlag semNum a S = semctl_SETVAL semNum 0 a S"

definition getFlagState :: "nat \<Rightarrow> answer \<Rightarrow> semset \<Rightarrow> bool call" where
  "getFlagState semNum a S =
     (case semctl_GETVAL semNum a S of
        Failed e \<Rightarrow> Failed e
      | Done v \<Rightarrow> Done (v = 0)
      | Waits \<Rightarrow> Waits)"

section \<open>The contract of a counting semaphore\<close>

text \<open>
  What the clients of \<open>binary_sems.c\<close> rely on: the number of units of each semaphore, how a reservation
  and a release change it, that a call without effect changes nothing, and when the calls succeed.
\<close>

locale unit_store =
  fixes units :: "'s \<Rightarrow> nat list"
    and reserve :: "nat \<Rightarrow> answer \<Rightarrow> 's \<Rightarrow> unit call \<times> 's"
    and release :: "nat \<Rightarrow> answer \<Rightarrow> 's \<Rightarrow> unit call \<times> 's"
  assumes reserve_done: "reserve n a S = (Done (), T) \<Longrightarrow> n < 2 ^ 16 \<Longrightarrow>
      n < length (units S) \<and> 0 < units S ! n \<and> units T = (units S)[n := units S ! n - 1]"
    and reserve_not_done: "reserve n a S = (r, T) \<Longrightarrow> r \<noteq> Done () \<Longrightarrow> T = S"
    and reserve_proceeds: "n < length (units S) \<Longrightarrow> n < 2 ^ 16 \<Longrightarrow> 0 < units S ! n \<Longrightarrow>
      \<exists>T. reserve n (Upto k) S = (Done (), T)"
    and release_done: "release n a S = (Done (), T) \<Longrightarrow> n < 2 ^ 16 \<Longrightarrow>
      n < length (units S) \<and> units T = (units S)[n := units S ! n + 1]"
    and release_not_done: "release n a S = (r, T) \<Longrightarrow> r \<noteq> Done () \<Longrightarrow> T = S"
    and release_proceeds: "n < length (units S) \<Longrightarrow> n < 2 ^ 16 \<Longrightarrow> units S ! n < SEMVMX \<Longrightarrow>
      \<exists>T. release n (Upto k) S = (Done (), T)"
begin

text \<open>The number of units in the set changes only by completed calls, by one.\<close>

lemma reserve_total:
  assumes "reserve n a S = (Done (), T)" "n < 2 ^ 16"
  shows "sum_list (units S) = Suc (sum_list (units T))"
  using reserve_done [OF assms] elem_le_sum_list [of n "units S"] by (auto simp: sum_list_update)

lemma release_total:
  assumes "release n a S = (Done (), T)" "n < 2 ^ 16"
  shows "sum_list (units T) = Suc (sum_list (units S))"
  using release_done [OF assms] by (simp add: sum_list_update)

text \<open>When every unit is taken no reservation succeeds.\<close>

lemma exclusive:
  assumes "sum_list (units S) = 0" "n < 2 ^ 16"
  shows "reserve n a S \<noteq> (Done (), T)"
proof
  assume "reserve n a S = (Done (), T)"
  from reserve_total [OF this assms(2)] show False using assms(1) by simp
qed

text \<open>A unit that is released can be reserved next.\<close>

lemma handed_over:
  assumes "release n a S = (Done (), T)" "n < 2 ^ 16"
  shows "\<exists>U. reserve n (Upto k) T = (Done (), U) \<and> units U = units S"
proof -
  note r = release_done [OF assms]
  obtain U where U: "reserve n (Upto k) T = (Done (), U)"
    using reserve_proceeds [of n T k] r assms(2) by auto
  then show ?thesis using reserve_done [OF U assms(2)] r by auto
qed

end

lemmas bs_defs = reserveSem_def releaseSem_def semop_def sem_try_def sem_adjust_def sem_wait_def bs_sops_def

lemma unat_sem_num: "n < 2 ^ 16 \<Longrightarrow> unat (word_of_nat n :: 16 word) = n"
  by (simp add: unat_of_nat take_bit_nat_eq_self)

interpretation bs: unit_store semval "reserveSem c" "releaseSem c"
proof (unfold_locales, goal_cases)
  case (1 n a S T)
  then show ?case
    by (auto simp: bs_defs unat_sem_num Let_def split: answer.splits if_splits call.splits)
next
  case (2 n a S r T)
  then show ?case by (auto simp: bs_defs Let_def split: answer.splits if_splits call.splits)
next
  case (3 n S k)
  then show ?case by (auto simp: bs_defs unat_sem_num Let_def)
next
  case (4 n a S T)
  then show ?case
    by (auto simp: bs_defs unat_sem_num Let_def split: answer.splits if_splits call.splits)
next
  case (5 n a S r T)
  then show ?case by (auto simp: bs_defs Let_def split: answer.splits if_splits call.splits)
next
  case (6 n S k)
  then show ?case by (auto simp: bs_defs unat_sem_num Let_def)
qed

end
