(* ===== verification/ShmXfr.thy ===== *)
theory ShmXfr
  imports SysVSem ErrorFunctions
begin

text \<open>
  The programs \<open>tlpi-dist/svshm/svshm_xfr_writer.c\<close> and \<open>svshm_xfr_reader.c\<close>, which pass the standard input
  of the one to the standard output of the other through a shared memory segment, taking turns by two
  binary semaphores. Each program is a program counter with its local variables; one step is one system
  call or one access to the segment, so that the processes interleave at those points. Every step is given
  the answer of the kernel to its call. The segment and the semaphore set belong to the kernel.
\<close>

section \<open>State\<close>

definition WRITE_SEM :: nat where "WRITE_SEM = 0"
definition READ_SEM :: nat where "READ_SEM = 1"
definition XFR_BUF_SIZE :: nat where "XFR_BUF_SIZE = 1024"

record shmseg =
  cnt :: int
  buf :: string

text \<open>How a process ends: exit with the text it reports, \<open>errExit\<close> with its message and errno, \<open>fatal\<close>.\<close>

datatype ending = Reports string | ErrExit string int | Fatal string

datatype wpc =
    W_semget | W_initWrite | W_initRead | W_shmget | W_shmat
  | W_reserve | W_read | W_release | W_test | W_next
  | W_last | W_rmsem | W_shmdt | W_rmshm | W_end ending

datatype rpc =
    R_semget | R_shmget | R_shmat
  | R_reserve | R_test | R_count | R_write | R_release
  | R_shmdt | R_final | R_end ending

record xfr =
  sems :: "semset option"
  seg :: "shmseg option"
  w_stdin :: string
  r_stdout :: string
  wpc :: wpc
  w_xfrs :: int
  w_bytes :: int
  rpc :: rpc
  r_xfrs :: int
  r_bytes :: int

text \<open>\<open>int\<close> counters wrap around as on the machines the programs run on.\<close>

definition add32 :: "int \<Rightarrow> int \<Rightarrow> int" where
  "add32 a b = to_int32 (a + b)"

definition ENOENT :: int where "ENOENT = 2"
definition EIDRM :: int where "EIDRM = 43"

text \<open>A call on the semaphore set: what the process does next when it returns, and when it fails.\<close>

definition on_set :: "(semset \<Rightarrow> unit call \<times> semset) \<Rightarrow> (xfr \<Rightarrow> xfr) \<Rightarrow> (int \<Rightarrow> xfr \<Rightarrow> xfr) \<Rightarrow> xfr \<Rightarrow> xfr" where
  "on_set f ok fail s =
     (case sems s of
        None \<Rightarrow> fail EIDRM s
      | Some S \<Rightarrow>
          (case f S of
             (Done _, S1) \<Rightarrow> ok (s\<lparr>sems := Some S1\<rparr>)
           | (Failed e, S1) \<Rightarrow> fail e (s\<lparr>sems := Some S1\<rparr>)
           | (Waits, S1) \<Rightarrow> s\<lparr>sems := Some S1\<rparr>))"

text \<open>A call that does not wait.\<close>

definition on_call :: "answer \<Rightarrow> (xfr \<Rightarrow> xfr) \<Rightarrow> (int \<Rightarrow> xfr \<Rightarrow> xfr) \<Rightarrow> xfr \<Rightarrow> xfr" where
  "on_call a ok fail s =
     (case a of Intr \<Rightarrow> fail IO_EINTR s | Fail e \<Rightarrow> fail e s | Upto _ \<Rightarrow> ok s)"

section \<open>The writer\<close>

definition w_go :: "wpc \<Rightarrow> xfr \<Rightarrow> xfr" where "w_go p s = s\<lparr>wpc := p\<rparr>"

definition w_die :: "string \<Rightarrow> int \<Rightarrow> xfr \<Rightarrow> xfr" where "w_die m e s = s\<lparr>wpc := W_end (ErrExit m e)\<rparr>"

definition set_cnt :: "int \<Rightarrow> xfr \<Rightarrow> xfr" where
  "set_cnt n s = s\<lparr>seg := map_option (\<lambda>m. m\<lparr>cnt := n\<rparr>) (seg s)\<rparr>"

text \<open>read(2) into the segment: at most \<open>BUF_SIZE\<close> bytes, none only at end of file.\<close>

definition w_read :: "answer \<Rightarrow> xfr \<Rightarrow> xfr" where
  "w_read a s =
     on_call a
       (\<lambda>s. let n = (case a of Upto k \<Rightarrow> min XFR_BUF_SIZE (Suc k) | _ \<Rightarrow> 0);
                bytes = take n (w_stdin s)
            in w_go W_release (s\<lparr>w_stdin := drop n (w_stdin s),
                 seg := map_option (\<lambda>m. \<lparr>cnt = int (length bytes), buf = bytes @ drop (length bytes) (buf m)\<rparr>) (seg s)\<rparr>))
       (\<lambda>e s. w_die ''read'' e (set_cnt (- 1) s)) s"

definition cnt_of :: "xfr \<Rightarrow> int" where
  "cnt_of s = (case seg s of None \<Rightarrow> 0 | Some m \<Rightarrow> cnt m)"

definition sent_text :: "xfr \<Rightarrow> string" where
  "sent_text s = msg [''Sent '', dec (w_bytes s), '' bytes ('', dec (w_xfrs s), '' xfrs)'', nl]"

definition new_seg :: shmseg where
  "new_seg = \<lparr>cnt = 0, buf = replicate XFR_BUF_SIZE (CHR 0x00)\<rparr>"

fun writer :: "answer \<Rightarrow> wpc \<Rightarrow> xfr \<Rightarrow> xfr" where
  "writer a W_semget s =
     on_call a
       (\<lambda>s. case sems s of
              None \<Rightarrow> w_go W_initWrite (s\<lparr>sems := Some \<lparr>semval = [0, 0], semadj = [0, 0]\<rparr>\<rparr>)
            | Some S \<Rightarrow> if length (semval S) < 2 then w_die ''semget'' EINVAL s else w_go W_initWrite s)
       (w_die ''semget'') s"
| "writer a W_initWrite s = on_set (initSemAvailable WRITE_SEM a) (w_go W_initRead) (w_die ''initSemAvailable'') s"
| "writer a W_initRead s = on_set (initSemInUse READ_SEM a) (w_go W_shmget) (w_die ''initSemInUse'') s"
| "writer a W_shmget s =
     on_call a
       (\<lambda>s. w_go W_shmat (case seg s of None \<Rightarrow> s\<lparr>seg := Some new_seg\<rparr> | Some _ \<Rightarrow> s))
       (w_die ''shmget'') s"
| "writer a W_shmat s = on_call a (\<lambda>s. w_go W_reserve (s\<lparr>w_xfrs := 0, w_bytes := 0\<rparr>)) (w_die ''shmat'') s"
| "writer a W_reserve s = on_set (reserveSem bs_default WRITE_SEM a) (w_go W_read) (w_die ''reserveSem'') s"
| "writer a W_read s = w_read a s"
| "writer a W_release s = on_set (releaseSem bs_default READ_SEM a) (w_go W_test) (w_die ''releaseSem'') s"
| "writer a W_test s = w_go (if cnt_of s = 0 then W_last else W_next) s"
| "writer a W_next s =
     w_go W_reserve (s\<lparr>w_xfrs := add32 (w_xfrs s) 1, w_bytes := add32 (w_bytes s) (cnt_of s)\<rparr>)"
| "writer a W_last s = on_set (reserveSem bs_default WRITE_SEM a) (w_go W_rmsem) (w_die ''reserveSem'') s"
| "writer a W_rmsem s = on_call a (\<lambda>s. w_go W_shmdt (s\<lparr>sems := None\<rparr>)) (w_die ''semctl'') s"
| "writer a W_shmdt s = on_call a (w_go W_rmshm) (w_die ''shmdt'') s"
| "writer a W_rmshm s =
     on_call a (\<lambda>s. w_go (W_end (Reports (sent_text s))) (s\<lparr>seg := None\<rparr>)) (w_die ''shmctl'') s"
| "writer a (W_end e) s = s"

definition wstep :: "answer \<Rightarrow> xfr \<Rightarrow> xfr" where
  "wstep a s = writer a (wpc s) s"

section \<open>The reader\<close>

definition r_go :: "rpc \<Rightarrow> xfr \<Rightarrow> xfr" where "r_go p s = s\<lparr>rpc := p\<rparr>"

definition r_die :: "string \<Rightarrow> int \<Rightarrow> xfr \<Rightarrow> xfr" where "r_die m e s = s\<lparr>rpc := R_end (ErrExit m e)\<rparr>"

definition received_text :: "xfr \<Rightarrow> string" where
  "received_text s = msg [''Received '', dec (r_bytes s), '' bytes ('', dec (r_xfrs s), '' xfrs)'', nl]"

text \<open>write(2) of the bytes of the segment: all of them, fewer, or none with an error.\<close>

definition r_write :: "answer \<Rightarrow> xfr \<Rightarrow> xfr" where
  "r_write a s =
     on_call a
       (\<lambda>s. let block = (case seg s of None \<Rightarrow> [] | Some m \<Rightarrow> take (nat (cnt m)) (buf m));
                n = (case a of Upto k \<Rightarrow> min (length block) (Suc k) | _ \<Rightarrow> 0)
            in (if int n \<noteq> cnt_of s then r_go (R_end (Fatal ''partial/failed write'')) else r_go R_release)
                 (s\<lparr>r_stdout := r_stdout s @ take n block\<rparr>))
       (\<lambda>e. r_go (R_end (Fatal ''partial/failed write''))) s"

fun reader :: "answer \<Rightarrow> rpc \<Rightarrow> xfr \<Rightarrow> xfr" where
  "reader a R_semget s =
     on_call a (\<lambda>s. if sems s = None then r_die ''semget'' ENOENT s else r_go R_shmget s) (r_die ''semget'') s"
| "reader a R_shmget s =
     on_call a (\<lambda>s. if seg s = None then r_die ''shmget'' ENOENT s else r_go R_shmat s) (r_die ''shmget'') s"
| "reader a R_shmat s = on_call a (\<lambda>s. r_go R_reserve (s\<lparr>r_xfrs := 0, r_bytes := 0\<rparr>)) (r_die ''shmat'') s"
| "reader a R_reserve s = on_set (reserveSem bs_default READ_SEM a) (r_go R_test) (r_die ''reserveSem'') s"
| "reader a R_test s = r_go (if cnt_of s = 0 then R_shmdt else R_count) s"
| "reader a R_count s = r_go R_write (s\<lparr>r_bytes := add32 (r_bytes s) (cnt_of s)\<rparr>)"
| "reader a R_write s = r_write a s"
| "reader a R_release s =
     on_set (releaseSem bs_default WRITE_SEM a) (\<lambda>s. r_go R_reserve (s\<lparr>r_xfrs := add32 (r_xfrs s) 1\<rparr>))
       (r_die ''releaseSem'') s"
| "reader a R_shmdt s = on_call a (r_go R_final) (r_die ''shmdt'') s"
| "reader a R_final s =
     on_set (releaseSem bs_default WRITE_SEM a) (\<lambda>s. r_go (R_end (Reports (received_text s))) s)
       (r_die ''releaseSem'') s"
| "reader a (R_end e) s = s"

definition rstep :: "answer \<Rightarrow> xfr \<Rightarrow> xfr" where
  "rstep a s = reader a (rpc s) s"

section \<open>Runs\<close>

text \<open>No process has run and no object with the hard-coded keys exists.\<close>

definition xfr_init :: "string \<Rightarrow> xfr" where
  "xfr_init src = \<lparr>sems = None, seg = None, w_stdin = src, r_stdout = '''', wpc = W_semget, w_xfrs = 0, w_bytes = 0,
     rpc = R_semget, r_xfrs = 0, r_bytes = 0\<rparr>"

inductive xfr_reach :: "string \<Rightarrow> xfr \<Rightarrow> bool" for src where
  start: "xfr_reach src (xfr_init src)"
| write_step: "xfr_reach src s \<Longrightarrow> xfr_reach src (wstep a s)"
| read_step: "xfr_reach src s \<Longrightarrow> xfr_reach src (rstep a s)"

text \<open>A step that a fault-free kernel lets a process take: the call proceeds, reads may be short but writes are
  complete, and the state changes.\<close>

inductive xfr_step :: "xfr \<Rightarrow> xfr \<Rightarrow> bool" where
  w_moves: "t = wstep (Upto k) s \<Longrightarrow> t \<noteq> s \<Longrightarrow> xfr_step s t"
| r_moves: "t = rstep (Upto k) s \<Longrightarrow> cnt_of s \<le> int k \<Longrightarrow> t \<noteq> s \<Longrightarrow> xfr_step s t"

inductive_cases xfr_stepE: "xfr_step s t"

end
