(* ===== verification/ShmXfr_Inv.thy ===== *)
theory ShmXfr_Inv
  imports ShmXfr "HOL-Library.Sublist"
begin

text \<open>
  The safety invariant of the shared memory transfer: one turn at a time, and the input is always what
  was delivered, what is in flight and what is unread, whatever fails and whichever way the two processes
  interleave.
\<close>

section \<open>The invariant\<close>

definition wv :: "xfr \<Rightarrow> nat" where
  "wv s = (case sems s of None \<Rightarrow> 0 | Some S \<Rightarrow> semval S ! WRITE_SEM)"

definition rv :: "xfr \<Rightarrow> nat" where
  "rv s = (case sems s of None \<Rightarrow> 0 | Some S \<Rightarrow> semval S ! READ_SEM)"

definition block :: "xfr \<Rightarrow> string" where
  "block s = (case seg s of None \<Rightarrow> [] | Some m \<Rightarrow> take (nat (cnt m)) (buf m))"

fun w_failed :: "wpc \<Rightarrow> bool" where
  "w_failed (W_end (Reports m)) = False"
| "w_failed (W_end e) = True"
| "w_failed p = False"

fun r_failed :: "rpc \<Rightarrow> bool" where
  "r_failed (R_end (Reports m)) = False"
| "r_failed (R_end e) = True"
| "r_failed p = False"

fun r_reported :: "rpc \<Rightarrow> bool" where
  "r_reported (R_end (Reports m)) = True"
| "r_reported p = False"

definition w_setup :: "wpc \<Rightarrow> bool" where
  "w_setup p = (p \<in> {W_semget, W_initWrite, W_initRead, W_shmget, W_shmat})"

definition w_holds :: "wpc \<Rightarrow> nat" where
  "w_holds p = (if p \<in> {W_read, W_release, W_rmsem, W_shmdt, W_rmshm} then 1 else 0)"

definition r_holds :: "rpc \<Rightarrow> nat" where
  "r_holds p = (if p \<in> {R_test, R_count, R_write, R_release, R_shmdt, R_final} then 1 else 0)"

definition r_idle :: "rpc \<Rightarrow> bool" where
  "r_idle p = (p \<in> {R_semget, R_shmget, R_shmat, R_reserve})"

definition r_eof :: "rpc \<Rightarrow> bool" where
  "r_eof p = (p \<in> {R_shmdt, R_final} \<or> r_reported p)"

text \<open>
  The invariant speaks about the units \<open>w\<close>, \<open>r\<close> of the two semaphores, the program counters \<open>wp\<close>, \<open>rp\<close>,
  the bytes \<open>blk\<close> and the count \<open>c\<close> of the segment, the unread input \<open>inp\<close> and the output \<open>outp\<close>.
  A block is in flight from the moment the writer has read it until the reader has written it.
\<close>

definition in_flight :: "nat \<Rightarrow> wpc \<Rightarrow> rpc \<Rightarrow> bool" where
  "in_flight r wp rp = (wp = W_release \<or> 0 < r \<or> rp \<in> {R_test, R_count, R_write})"

definition pend :: "nat \<Rightarrow> wpc \<Rightarrow> rpc \<Rightarrow> string \<Rightarrow> string" where
  "pend r wp rp blk = (if in_flight r wp rp then blk else [])"

text \<open>One unit in all: it is in one of the semaphores or with the process whose turn it is.\<close>

definition turn_ok :: "nat \<Rightarrow> nat \<Rightarrow> wpc \<Rightarrow> rpc \<Rightarrow> bool" where
  "turn_ok w r wp rp = (w + r + w_holds wp + r_holds rp \<le> 1)"

definition setup_ok :: "nat \<Rightarrow> nat \<Rightarrow> wpc \<Rightarrow> rpc \<Rightarrow> string \<Rightarrow> bool" where
  "setup_ok w r wp rp outp =
     ((w_setup wp \<longrightarrow> outp = [] \<and> r = 0 \<and>
         (rp \<in> {R_semget, R_shmget, R_shmat, R_reserve} \<or> r_failed rp)) \<and>
      (wp = W_semget \<or> wp = W_initWrite \<longrightarrow> w = 0))"

text \<open>The input is what was delivered, what is in flight, and what has not been read.\<close>

definition data_ok :: "string \<Rightarrow> nat \<Rightarrow> wpc \<Rightarrow> rpc \<Rightarrow> string \<Rightarrow> string \<Rightarrow> string \<Rightarrow> bool" where
  "data_ok src r wp rp blk inp outp =
     (if r_failed rp then prefix outp src
      else if w_failed wp then prefix (outp @ pend r wp rp blk) src
      else src = outp @ pend r wp rp blk @ inp)"

definition cnt_ok :: "string \<Rightarrow> nat \<Rightarrow> wpc \<Rightarrow> rpc \<Rightarrow> string \<Rightarrow> int \<Rightarrow> string \<Rightarrow> string \<Rightarrow> bool" where
  "cnt_ok src r wp rp blk c inp outp =
     ((in_flight r wp rp \<or> wp = W_test \<or> wp = W_next \<or> rp = R_release \<longrightarrow> c = int (length blk)) \<and>
      (in_flight r wp rp \<and> c = 0 \<and> \<not> r_failed rp \<longrightarrow> src = outp) \<and>
      (in_flight r wp rp \<and> (wp = W_next \<or> wp = W_reserve) \<longrightarrow> c \<noteq> 0) \<and>
      ((rp = R_count \<or> rp = R_write \<or> rp = R_release) \<longrightarrow> c \<noteq> 0))"

definition eof_ok :: "string \<Rightarrow> wpc \<Rightarrow> rpc \<Rightarrow> int \<Rightarrow> string \<Rightarrow> bool" where
  "eof_ok src wp rp c outp = (r_eof rp \<longrightarrow> src = outp \<and> \<not> w_setup wp \<and>
     wp \<notin> {W_reserve, W_read, W_release, W_next} \<and> (wp = W_test \<longrightarrow> c = 0))"

definition turns :: "string \<Rightarrow> nat \<Rightarrow> nat \<Rightarrow> wpc \<Rightarrow> rpc \<Rightarrow> string \<Rightarrow> int \<Rightarrow> string \<Rightarrow> string \<Rightarrow> bool" where
  "turns src w r wp rp blk c inp outp =
     (turn_ok w r wp rp \<and> setup_ok w r wp rp outp \<and> data_ok src r wp rp blk inp outp \<and>
      cnt_ok src r wp rp blk c inp outp \<and> eof_ok src wp rp c outp)"

definition objects_ok :: "xfr \<Rightarrow> bool" where
  "objects_ok s = ((\<forall>S. sems s = Some S \<longrightarrow> length (semval S) = 2) \<and> (wpc s = W_semget \<longrightarrow> sems s = None) \<and>
     (wpc s \<in> {W_shmat, W_reserve, W_read, W_release, W_test, W_next, W_last, W_rmsem, W_shmdt, W_rmshm} \<longrightarrow> seg s \<noteq> None))"

definition xfr_inv :: "string \<Rightarrow> xfr \<Rightarrow> bool" where
  "xfr_inv src s = (objects_ok s \<and>
     turns src (wv s) (rv s) (wpc s) (rpc s) (block s) (cnt_of s) (w_stdin s) (r_stdout s))"

lemmas pc_defs = w_setup_def w_holds_def r_holds_def r_eof_def

lemmas turns_defs = turns_def turn_ok_def setup_ok_def data_ok_def cnt_ok_def eof_ok_def pend_def in_flight_def pc_defs

lemma xfr_inv_init: "xfr_inv src (xfr_init src)"
  by (simp add: xfr_inv_def objects_ok_def turns_defs xfr_init_def wv_def rv_def block_def)

section \<open>Each step keeps the invariant\<close>


lemma turnsD:
  assumes "turns src w r wp rp blk c inp outp"
  shows "turn_ok w r wp rp" "setup_ok w r wp rp outp" "data_ok src r wp rp blk inp outp"
    "cnt_ok src r wp rp blk c inp outp" "eof_ok src wp rp c outp"
  using assms by (simp_all add: turns_def)

lemma turnsI:
  assumes "turn_ok w r wp rp" "setup_ok w r wp rp outp" "data_ok src r wp rp blk inp outp"
    "cnt_ok src r wp rp blk c inp outp" "eof_ok src wp rp c outp"
  shows "turns src w r wp rp blk c inp outp"
  using assms by (simp add: turns_def)

lemma data_ok_prefix: "data_ok src r wp rp blk inp outp \<Longrightarrow> prefix outp src"
  by (auto simp: data_ok_def prefix_def split: if_splits)

lemma data_ok_prefix_pend: "data_ok src r wp rp blk inp outp \<Longrightarrow> \<not> r_failed rp \<Longrightarrow> prefix (outp @ pend r wp rp blk) src"
  by (auto simp: data_ok_def prefix_def split: if_splits)

lemma data_w_die:
  assumes d: "data_ok src r wp rp blk inp outp"
  shows "data_ok src r (W_end (ErrExit m e)) rp blk inp outp"
proof (cases "r_failed rp")
  case True
  then show ?thesis using data_ok_prefix [OF d] by (simp add: data_ok_def)
next
  case False
  then show ?thesis using data_ok_prefix [OF d] data_ok_prefix_pend [OF d False]
    by (auto simp: data_ok_def pend_def in_flight_def split: if_splits)
qed

lemma turns_w_die:
  assumes "turns src w r wp rp blk c inp outp"
  shows "turns src w r (W_end (ErrExit m e)) rp blk c inp outp"
  apply (rule turnsI)
  subgoal using turnsD(1) [OF assms] by (simp add: turn_ok_def w_holds_def split: if_splits)
  subgoal by (simp add: setup_ok_def w_setup_def)
  subgoal using turnsD(3) [OF assms] by (rule data_w_die)
  subgoal using turnsD(4) [OF assms] unfolding cnt_ok_def in_flight_def by (simp only: wpc.distinct simp_thms) blast
  subgoal using turnsD(5) [OF assms] by (simp add: eof_ok_def w_setup_def)
  done

lemma rpc_full:
  obtains "rp = R_semget" | "rp = R_shmget" | "rp = R_shmat" | "rp = R_reserve" | "rp = R_test" | "rp = R_count"
    | "rp = R_write" | "rp = R_release" | "rp = R_shmdt" | "rp = R_final" | m where "rp = R_end (Reports m)"
    | m e where "rp = R_end (ErrExit m e)" | m where "rp = R_end (Fatal m)"
  by (cases rp; metis ending.exhaust)

lemma min_0: "0 < n \<Longrightarrow> min a n = 0 \<longleftrightarrow> a = (0 :: nat)"
  by (simp add: min_def)

lemma turns_w_reserve:
  "turns src w r W_reserve rp blk c inp outp \<Longrightarrow> 0 < w \<Longrightarrow> turns src (w - 1) r W_read rp blk c inp outp"
  by (cases rp rule: rpc_full) (simp_all add: turns_defs)

lemma turns_w_read:
  assumes "turns src w r W_read rp blk c inp outp" "n > 0"
  shows "turns src w r W_release rp (take n inp) (int (length (take n inp))) (drop n inp) outp"
  using assms by (cases rp rule: rpc_full; simp add: turns_defs min_0)

lemma turns_w_release:
  assumes "turns src w r W_release rp blk c inp outp"
  shows "turns src w (r + 1) W_test rp blk c inp outp"
  using assms by (cases rp rule: rpc_full; simp add: turns_defs min_0)

lemma turns_w_test:
  assumes "turns src w r W_test rp blk c inp outp"
  shows "turns src w r (if c = 0 then W_last else W_next) rp blk c inp outp"
  using assms by (cases rp rule: rpc_full; simp add: turns_defs min_0)

lemma turns_w_next:
  assumes "turns src w r W_next rp blk c inp outp"
  shows "turns src w r W_reserve rp blk c inp outp"
  using assms by (cases rp rule: rpc_full; simp add: turns_defs min_0)

lemma turns_w_semget:
  "turns src w r W_semget rp blk c inp outp \<Longrightarrow> turns src 0 0 W_initWrite rp blk c inp outp"
  by (cases rp rule: rpc_full; simp add: turns_defs)

lemma turns_w_initWrite:
  "turns src w r W_initWrite rp blk c inp outp \<Longrightarrow> turns src 1 r W_initRead rp blk c inp outp"
  by (cases rp rule: rpc_full; simp add: turns_defs)

lemma turns_w_initRead:
  "turns src w r W_initRead rp blk c inp outp \<Longrightarrow> turns src w 0 W_shmget rp blk c inp outp"
  by (cases rp rule: rpc_full; simp add: turns_defs)

lemma turns_w_shmget:
  "turns src w r W_shmget rp blk c inp outp \<Longrightarrow> turns src w r W_shmat rp blk' c' inp outp"
  by (cases rp rule: rpc_full; simp add: turns_defs)

lemma turns_w_shmat:
  "turns src w r W_shmat rp blk c inp outp \<Longrightarrow> turns src w r W_reserve rp blk c inp outp"
  by (cases rp rule: rpc_full; simp add: turns_defs)

lemma turns_w_last:
  "turns src w r W_last rp blk c inp outp \<Longrightarrow> 0 < w \<Longrightarrow> turns src (w - 1) r W_rmsem rp blk c inp outp"
  by (cases rp rule: rpc_full; auto simp: turns_defs)

lemma turns_w_rmsem:
  "turns src w r W_rmsem rp blk c inp outp \<Longrightarrow> turns src 0 0 W_shmdt rp blk c inp outp"
  by (cases rp rule: rpc_full; auto simp: turns_defs)

lemma turns_w_shmdt:
  "turns src w r W_shmdt rp blk c inp outp \<Longrightarrow> turns src w r W_rmshm rp blk c inp outp"
  by (cases rp rule: rpc_full; auto simp: turns_defs)

lemma turns_w_rmshm:
  "turns src w r W_rmshm rp blk c inp outp \<Longrightarrow> turns src w r (W_end (Reports m)) rp blk' c' inp outp"
  by (cases rp rule: rpc_full; auto simp: turns_defs)

lemma turns_w_read_fails:
  "turns src w r W_read rp blk c inp outp \<Longrightarrow> turns src w r (W_end (ErrExit m e)) rp blk' c' inp outp"
  by (cases rp rule: rpc_full; auto simp: turns_defs)


lemma turns_r_die:
  assumes "turns src w r wp rp blk c inp outp" "r_failed rp'" "\<not> r_failed rp"
  shows "turns src w r wp rp' blk c inp outp"
proof -
  have [simp]: "rp' \<noteq> R_test" "rp' \<noteq> R_count" "rp' \<noteq> R_write" "rp' \<noteq> R_release" "rp' \<noteq> R_shmdt"
    "rp' \<noteq> R_final" "\<not> r_reported rp'" using assms(2) by (cases rp' rule: rpc_full; simp)+
  show ?thesis
    apply (rule turnsI)
    subgoal using turnsD(1) [OF assms(1)] by (simp add: turn_ok_def r_holds_def split: if_splits)
    subgoal using turnsD(2) [OF assms(1)] assms(2) by (auto simp: setup_ok_def)
    subgoal using data_ok_prefix [OF turnsD(3) [OF assms(1)]] assms(2) by (simp add: data_ok_def)
    subgoal using turnsD(4) [OF assms(1)] assms(2) by (auto simp: cnt_ok_def in_flight_def)
    subgoal by (simp add: eof_ok_def r_eof_def)
    done
qed

lemma wpc_full:
  obtains "wp = W_semget" | "wp = W_initWrite" | "wp = W_initRead" | "wp = W_shmget" | "wp = W_shmat" | "wp = W_reserve"
    | "wp = W_read" | "wp = W_release" | "wp = W_test" | "wp = W_next" | "wp = W_last" | "wp = W_rmsem" | "wp = W_shmdt"
    | "wp = W_rmshm" | m where "wp = W_end (Reports m)" | m e where "wp = W_end (ErrExit m e)" | m where "wp = W_end (Fatal m)"
  by (cases wp; metis ending.exhaust)

lemma turns_r_idle:
  assumes "turns src w r wp rp blk c inp outp" "r_idle rp" "r_idle rp'"
  shows "turns src w r wp rp' blk c inp outp"
proof -
  have [simp]: "r_holds p = 0" "\<not> r_failed p" "\<not> r_eof p" "p \<noteq> R_count" "p \<noteq> R_write" "p \<noteq> R_release"
      "in_flight r wp p = (wp = W_release \<or> 0 < r)"
    if "r_idle p" for p using that by (auto simp: r_idle_def r_holds_def r_eof_def in_flight_def)
  then have "pend r wp rp' blk = pend r wp rp blk" using assms by (simp add: pend_def)
  moreover
  have "rp' \<in> {R_semget, R_shmget, R_shmat, R_reserve} \<or> r_failed rp'" using assms(3) by (simp add: r_idle_def)
  ultimately show ?thesis
    using assms by (simp add: turns_def turn_ok_def setup_ok_def data_ok_def cnt_ok_def eof_ok_def)
qed

lemma turns_r_reserve:
  assumes "turns src w r wp R_reserve blk c inp outp" "0 < r"
  shows "turns src w (r - 1) wp R_test blk c inp outp"
  using assms by (cases wp rule: wpc_full; simp add: turns_defs)

lemma turns_r_test:
  assumes "turns src w r wp R_test blk c inp outp"
  shows "turns src w r wp (if c = 0 then R_shmdt else R_count) blk c inp outp"
  using assms by (cases wp rule: wpc_full; auto simp: turns_defs)

lemma turns_r_count:
  assumes "turns src w r wp R_count blk c inp outp"
  shows "turns src w r wp R_write blk c inp outp"
  using assms by (cases wp rule: wpc_full; simp add: turns_defs)

lemma turns_r_write:
  assumes "turns src w r wp R_write blk c inp outp"
  shows "turns src w r wp R_release blk c inp (outp @ blk)"
  using assms by (cases wp rule: wpc_full; auto simp: turns_defs)

lemma turns_r_partial:
  assumes "turns src w r wp R_write blk c inp outp" "prefix b blk" "r_failed rp'"
  shows "turns src w r wp rp' blk c inp (outp @ b)"
proof -
  have "prefix (outp @ b) src"
    using turnsD(3) [OF assms(1)] assms(2) by (auto simp: data_ok_def pend_def in_flight_def prefix_def split: if_splits)
  moreover have [simp]: "rp' \<noteq> R_test" "rp' \<noteq> R_count" "rp' \<noteq> R_write" "rp' \<noteq> R_release" "rp' \<noteq> R_shmdt"
    "rp' \<noteq> R_final" "\<not> r_reported rp'" using assms(3) by (cases rp' rule: rpc_full; simp)+
  ultimately show ?thesis using assms(1,3) by (cases wp rule: wpc_full; simp add: turns_defs)
qed

lemma turns_r_release:
  assumes "turns src w r wp R_release blk c inp outp"
  shows "turns src (w + 1) r wp R_reserve blk c inp outp"
  using assms by (cases wp rule: wpc_full; simp add: turns_defs)

lemma turns_r_shmdt:
  assumes "turns src w r wp R_shmdt blk c inp outp"
  shows "turns src w r wp R_final blk c inp outp"
  using assms by (cases wp rule: wpc_full; simp add: turns_defs)

lemma turns_r_final:
  assumes "turns src w r wp R_final blk c inp outp"
  shows "turns src (w + 1) r wp (R_end (Reports m)) blk c inp outp"
  using assms by (cases wp rule: wpc_full; simp add: turns_defs)

text \<open>The ways in which a call on the semaphore set can leave the state.\<close>

lemma same_sems: "sems s = Some S \<Longrightarrow> s\<lparr>sems := Some S\<rparr> = (s :: xfr)"
  by (cases s) simp

lemma on_set_reserveI:
  assumes "n < 2"
    and "\<And>S T. sems s = Some S \<Longrightarrow> 0 < semval S ! n \<Longrightarrow> semval T = (semval S)[n := semval S ! n - 1] \<Longrightarrow>
      P (ok (s\<lparr>sems := Some T\<rparr>))"
    and "\<And>e. P (fail e s)" "P s"
  shows "P (on_set (reserveSem c n a) ok fail s)"
proof (cases "sems s")
  case None
  then show ?thesis using assms(3) by (simp add: on_set_def)
next
  case (Some S)
  obtain r T where r: "reserveSem c n a S = (r, T)" by force
  show ?thesis
  proof (cases "r = Done ()")
    case True
    then show ?thesis using bs.reserve_done [of c n a S T] assms(1,2) r Some by (simp add: on_set_def)
  next
    case False
    then show ?thesis using bs.reserve_not_done [OF r] r Some assms(3,4)
      by (auto simp: on_set_def same_sems split: call.split)
  qed
qed

lemma on_set_releaseI:
  assumes "n < 2"
    and "\<And>S T. sems s = Some S \<Longrightarrow> n < length (semval S) \<Longrightarrow> semval T = (semval S)[n := semval S ! n + 1] \<Longrightarrow>
      P (ok (s\<lparr>sems := Some T\<rparr>))"
    and "\<And>e. P (fail e s)" "P s"
  shows "P (on_set (releaseSem c n a) ok fail s)"
proof (cases "sems s")
  case None
  then show ?thesis using assms(3) by (simp add: on_set_def)
next
  case (Some S)
  obtain r T where r: "releaseSem c n a S = (r, T)" by force
  show ?thesis
  proof (cases "r = Done ()")
    case True
    then show ?thesis using bs.release_done [of c n a S T] assms(1,2) r Some by (simp add: on_set_def)
  next
    case False
    then show ?thesis using bs.release_not_done [OF r] r Some assms(3,4)
      by (auto simp: on_set_def same_sems split: call.split)
  qed
qed

lemma on_set_initI:
  assumes "f = semctl_SETVAL n v a"
    and "\<And>S T. sems s = Some S \<Longrightarrow> n < length (semval S) \<Longrightarrow> semval T = (semval S)[n := v] \<Longrightarrow>
      P (ok (s\<lparr>sems := Some T\<rparr>))"
    and "\<And>e. P (fail e s)"
  shows "P (on_set f ok fail s)"
  using assms by (auto simp: on_set_def semctl_SETVAL_def same_sems split: option.split answer.split)

lemma on_callI:
  assumes "\<And>k. a = Upto k \<Longrightarrow> P (ok s)" "\<And>e. P (fail e s)"
  shows "P (on_call a ok fail s)"
  using assms by (auto simp: on_call_def split: answer.split)

lemmas view_defs = wv_def rv_def block_def cnt_of_def w_go_def w_die_def r_go_def r_die_def objects_ok_def

lemma view_sems:
  assumes "sems s = Some S" "length (semval S) = 2" "semval T = (semval S)[n := v]" "n < 2"
  shows "wv (s\<lparr>sems := Some T\<rparr>) = (if n = WRITE_SEM then v else wv s)"
    "rv (s\<lparr>sems := Some T\<rparr>) = (if n = READ_SEM then v else rv s)"
  using assms by (auto simp: wv_def rv_def WRITE_SEM_def READ_SEM_def less_2_cases_iff)

lemma xfr_invD:
  assumes "xfr_inv src s"
  shows "turns src (wv s) (rv s) (wpc s) (rpc s) (block s) (cnt_of s) (w_stdin s) (r_stdout s)" "objects_ok s"
    "sems s = Some S \<Longrightarrow> length (semval S) = 2"
  using assms by (simp_all add: xfr_inv_def objects_ok_def)

lemma w_die_inv:
  assumes "xfr_inv src s"
  shows "xfr_inv src (w_die m e s)"
  using turns_w_die [OF xfr_invD(1) [OF assms]] xfr_invD(2) [OF assms]
  by (simp add: xfr_inv_def view_defs)

lemma r_die_inv:
  assumes "xfr_inv src s" "\<not> r_failed (rpc s)"
  shows "xfr_inv src (r_die m e s)"
  using turns_r_die [OF xfr_invD(1) [OF assms(1)] _ assms(2), of "R_end (ErrExit m e)"] xfr_invD(2) [OF assms(1)]
  by (simp add: xfr_inv_def view_defs)

lemma sems_ne [simp]: "READ_SEM \<noteq> WRITE_SEM" "WRITE_SEM \<noteq> READ_SEM" "WRITE_SEM < 2" "READ_SEM < 2"
  by (simp_all add: WRITE_SEM_def READ_SEM_def)

lemma objects_sems:
  "objects_ok s \<Longrightarrow> sems s = Some S \<Longrightarrow> length (semval T) = length (semval S) \<Longrightarrow> objects_ok (s\<lparr>sems := Some T\<rparr>)"
  by (simp add: objects_ok_def)

lemma inv_reserve:
  assumes inv: "xfr_inv src s" and n: "n = WRITE_SEM \<or> n = READ_SEM"
    and ok: "\<And>T. objects_ok (s\<lparr>sems := Some T\<rparr>) \<Longrightarrow> 0 < (if n = WRITE_SEM then wv s else rv s) \<Longrightarrow>
      wv (s\<lparr>sems := Some T\<rparr>) = (if n = WRITE_SEM then wv s - 1 else wv s) \<Longrightarrow>
      rv (s\<lparr>sems := Some T\<rparr>) = (if n = READ_SEM then rv s - 1 else rv s) \<Longrightarrow> xfr_inv src (ok (s\<lparr>sems := Some T\<rparr>))"
    and fail: "\<And>e. xfr_inv src (fail e s)"
  shows "xfr_inv src (on_set (reserveSem c n a) ok fail s)"
proof (rule on_set_reserveI)
  show "n < 2" using n by auto
  fix S T :: semset
  assume S: "sems s = Some S" "0 < semval S ! n" "semval T = (semval S)[n := semval S ! n - 1]"
  note l = xfr_invD(3) [OF inv S(1)]
  show "xfr_inv src (ok (s\<lparr>sems := Some T\<rparr>))"
    using view_sems [OF S(1) l S(3)] S l n objects_sems [OF xfr_invD(2) [OF inv] S(1), of T]
    by (intro ok) (auto simp: wv_def rv_def)
qed (use fail inv in auto)

lemma inv_release:
  assumes inv: "xfr_inv src s" and n: "n = WRITE_SEM \<or> n = READ_SEM"
    and ok: "\<And>T. objects_ok (s\<lparr>sems := Some T\<rparr>) \<Longrightarrow>
      wv (s\<lparr>sems := Some T\<rparr>) = (if n = WRITE_SEM then wv s + 1 else wv s) \<Longrightarrow>
      rv (s\<lparr>sems := Some T\<rparr>) = (if n = READ_SEM then rv s + 1 else rv s) \<Longrightarrow> xfr_inv src (ok (s\<lparr>sems := Some T\<rparr>))"
    and fail: "\<And>e. xfr_inv src (fail e s)"
  shows "xfr_inv src (on_set (releaseSem c n a) ok fail s)"
proof (rule on_set_releaseI)
  show "n < 2" using n by auto
  fix S T :: semset
  assume S: "sems s = Some S" "semval T = (semval S)[n := semval S ! n + 1]"
  note l = xfr_invD(3) [OF inv S(1)]
  show "xfr_inv src (ok (s\<lparr>sems := Some T\<rparr>))"
    using view_sems [OF S(1) l S(2)] S l n objects_sems [OF xfr_invD(2) [OF inv] S(1), of T]
    by (intro ok) (auto simp: wv_def rv_def)
qed (use fail inv in auto)

lemma init_SETVAL: "initSemAvailable n a = semctl_SETVAL n 1 a" "initSemInUse n a = semctl_SETVAL n 0 a"
  by (simp_all add: fun_eq_iff initSemAvailable_def initSemInUse_def)

lemma inv_init:
  assumes inv: "xfr_inv src s" and n: "n = WRITE_SEM \<or> n = READ_SEM" and f: "f = semctl_SETVAL n v a"
    and ok: "\<And>T. objects_ok (s\<lparr>sems := Some T\<rparr>) \<Longrightarrow> wv (s\<lparr>sems := Some T\<rparr>) = (if n = WRITE_SEM then v else wv s) \<Longrightarrow>
      rv (s\<lparr>sems := Some T\<rparr>) = (if n = READ_SEM then v else rv s) \<Longrightarrow> xfr_inv src (ok (s\<lparr>sems := Some T\<rparr>))"
    and fail: "\<And>e. xfr_inv src (fail e s)"
  shows "xfr_inv src (on_set f ok fail s)"
proof (rule on_set_initI [OF f])
  fix S T :: semset
  assume S: "sems s = Some S" "semval T = (semval S)[n := v]"
  note l = xfr_invD(3) [OF inv S(1)]
  show "xfr_inv src (ok (s\<lparr>sems := Some T\<rparr>))"
    using view_sems [OF S(1) l S(2)] S l n objects_sems [OF xfr_invD(2) [OF inv] S(1), of T]
    by (intro ok) auto
qed (rule fail)

text \<open>A transition that the invariant allows, from the views of the states before and after.\<close>

lemma step_inv:
  assumes "xfr_inv src s" "turns src (wv s) (rv s) (wpc s) (rpc s) (block s) (cnt_of s) (w_stdin s) (r_stdout s) \<Longrightarrow>
      turns src (wv t) (rv t) (wpc t) (rpc t) (block t) (cnt_of t) (w_stdin t) (r_stdout t)"
    and "objects_ok s \<Longrightarrow> objects_ok t"
  shows "xfr_inv src t"
  using assms by (simp add: xfr_inv_def)

lemma views_go [simp]:
  "wv (w_go p s) = wv s" "rv (w_go p s) = rv s" "block (w_go p s) = block s" "cnt_of (w_go p s) = cnt_of s"
  "wpc (w_go p s) = p" "rpc (w_go p s) = rpc s" "w_stdin (w_go p s) = w_stdin s" "r_stdout (w_go p s) = r_stdout s"
  "wv (r_go q s) = wv s" "rv (r_go q s) = rv s" "block (r_go q s) = block s" "cnt_of (r_go q s) = cnt_of s"
  "wpc (r_go q s) = wpc s" "rpc (r_go q s) = q" "w_stdin (r_go q s) = w_stdin s" "r_stdout (r_go q s) = r_stdout s"
  "sems (w_go p s) = sems s" "seg (w_go p s) = seg s" "sems (r_go q s) = sems s" "seg (r_go q s) = seg s"
  by (simp_all add: view_defs)

lemma views_sems [simp]: "block (s\<lparr>sems := x\<rparr>) = block s" "cnt_of (s\<lparr>sems := x\<rparr>) = cnt_of s"
  by (simp_all add: view_defs)

lemma views_counts [simp]:
  "wv (s\<lparr>w_xfrs := x\<rparr>) = wv s" "rv (s\<lparr>w_xfrs := x\<rparr>) = rv s" "block (s\<lparr>w_xfrs := x\<rparr>) = block s" "cnt_of (s\<lparr>w_xfrs := x\<rparr>) = cnt_of s"
  "wv (s\<lparr>w_bytes := x\<rparr>) = wv s" "rv (s\<lparr>w_bytes := x\<rparr>) = rv s" "block (s\<lparr>w_bytes := x\<rparr>) = block s" "cnt_of (s\<lparr>w_bytes := x\<rparr>) = cnt_of s"
  "wv (s\<lparr>r_xfrs := x\<rparr>) = wv s" "rv (s\<lparr>r_xfrs := x\<rparr>) = rv s" "block (s\<lparr>r_xfrs := x\<rparr>) = block s" "cnt_of (s\<lparr>r_xfrs := x\<rparr>) = cnt_of s"
  "wv (s\<lparr>r_bytes := x\<rparr>) = wv s" "rv (s\<lparr>r_bytes := x\<rparr>) = rv s" "block (s\<lparr>r_bytes := x\<rparr>) = block s" "cnt_of (s\<lparr>r_bytes := x\<rparr>) = cnt_of s"
  "wv (s\<lparr>r_stdout := y\<rparr>) = wv s" "rv (s\<lparr>r_stdout := y\<rparr>) = rv s" "block (s\<lparr>r_stdout := y\<rparr>) = block s" "cnt_of (s\<lparr>r_stdout := y\<rparr>) = cnt_of s"
  "wv (s\<lparr>seg := z\<rparr>) = wv s" "rv (s\<lparr>seg := z\<rparr>) = rv s"
  by (simp_all add: view_defs)

lemma wstep_inv_turn:
  assumes "xfr_inv src s"
  shows "wpc s = W_reserve \<Longrightarrow> xfr_inv src (wstep a s)" "wpc s = W_release \<Longrightarrow> xfr_inv src (wstep a s)"
    "wpc s = W_last \<Longrightarrow> xfr_inv src (wstep a s)" "wpc s = W_initWrite \<Longrightarrow> xfr_inv src (wstep a s)"
    "wpc s = W_initRead \<Longrightarrow> xfr_inv src (wstep a s)"
proof -
  note d = w_die_inv [OF assms] and st = step_inv [OF assms]
  show "xfr_inv src (wstep a s)" if p: "wpc s = W_reserve" unfolding wstep_def p writer.simps
    by (rule inv_reserve [OF assms], simp_all add: d) (rule st, use p in \<open>auto intro: turns_w_reserve [simplified] simp: objects_ok_def\<close>)
  show "xfr_inv src (wstep a s)" if p: "wpc s = W_release" unfolding wstep_def p writer.simps
    by (rule inv_release [OF assms], simp_all add: d) (rule st, use p in \<open>auto intro: turns_w_release [simplified] simp: objects_ok_def\<close>)
  show "xfr_inv src (wstep a s)" if p: "wpc s = W_last" unfolding wstep_def p writer.simps
    by (rule inv_reserve [OF assms], simp_all add: d) (rule st, use p in \<open>auto intro: turns_w_last [simplified] simp: objects_ok_def\<close>)
  show "xfr_inv src (wstep a s)" if p: "wpc s = W_initWrite" unfolding wstep_def p writer.simps
    by (rule inv_init [OF assms _ init_SETVAL(1)], simp_all add: d)
      (rule st, use p in \<open>auto intro: turns_w_initWrite [simplified] simp: objects_ok_def\<close>)
  show "xfr_inv src (wstep a s)" if p: "wpc s = W_initRead" unfolding wstep_def p writer.simps
    by (rule inv_init [OF assms _ init_SETVAL(2)], simp_all add: d)
      (rule st, use p in \<open>auto intro: turns_w_initRead simp: objects_ok_def\<close>)
qed


lemma w_call:
  assumes "xfr_inv src s" "\<And>k. a = Upto k \<Longrightarrow> xfr_inv src (ok s)"
  shows "xfr_inv src (on_call a ok (w_die m) s)"
  using assms by (auto simp: on_call_def w_die_inv split: answer.split)

lemma r_call:
  assumes "xfr_inv src s" "\<not> r_failed (rpc s)" "\<And>k. a = Upto k \<Longrightarrow> xfr_inv src (ok s)"
  shows "xfr_inv src (on_call a ok (r_die m) s)"
  using assms by (auto simp: on_call_def r_die_inv split: answer.split)

lemma take_min_length: "take (min (length xs) n) xs = take n xs"
  by (simp add: min_def)

lemma wstep_inv:
  assumes "xfr_inv src s"
  shows "xfr_inv src (wstep a s)"
proof (cases "wpc s")
  case p: W_semget
  have none: "sems s = None" using xfr_invD(2) [OF assms] p by (simp add: objects_ok_def)
  let ?t = "w_go W_initWrite (s\<lparr>sems := Some \<lparr>semval = [0, 0], semadj = [0, 0]\<rparr>\<rparr>)"
  have "turns src (wv ?t) (rv ?t) W_initWrite (rpc s) (block s) (cnt_of s) (w_stdin s) (r_stdout s)"
    using turns_w_semget [OF xfr_invD(1) [OF assms, unfolded p]] by (simp add: wv_def rv_def WRITE_SEM_def READ_SEM_def)
  then have "xfr_inv src ?t" using xfr_invD(2) [OF assms] p by (simp add: xfr_inv_def objects_ok_def)
  then show ?thesis unfolding wstep_def p writer.simps
    by (intro w_call assms) (simp add: none)
next
  case p: W_shmget
  show ?thesis unfolding wstep_def p writer.simps
    by (intro w_call assms step_inv [OF assms])
      (use p in \<open>auto intro: turns_w_shmget simp: objects_ok_def split: option.split\<close>)
next
  case p: W_shmat
  show ?thesis unfolding wstep_def p writer.simps
    by (intro w_call assms step_inv [OF assms])
      (use p in \<open>auto intro: turns_w_shmat simp: objects_ok_def\<close>)
next
  case p: W_read
  obtain m where m: "seg s = Some m" using xfr_invD(2) [OF assms] p by (auto simp: objects_ok_def)
  note t = xfr_invD(1) [OF assms, unfolded p]
  show ?thesis unfolding wstep_def p writer.simps w_read_def
  proof (rule on_callI [where P = "xfr_inv src"])
    fix e show "xfr_inv src (w_die ''read'' e (set_cnt (- 1) s))"
      using turns_w_read_fails [OF t] m xfr_invD(2) [OF assms] by (simp add: xfr_inv_def view_defs set_cnt_def)
  next
    fix k assume "a = Upto k"
    then show "xfr_inv src (let n = (case a of Upto k \<Rightarrow> min XFR_BUF_SIZE (Suc k) | _ \<Rightarrow> 0); bytes = take n (w_stdin s)
         in w_go W_release (s\<lparr>w_stdin := drop n (w_stdin s), seg := map_option (\<lambda>m. \<lparr>cnt = int (length bytes),
              buf = bytes @ drop (length bytes) (buf m)\<rparr>) (seg s)\<rparr>))"
      using turns_w_read [OF t, of "min XFR_BUF_SIZE (Suc k)"] m xfr_invD(2) [OF assms]
      by (simp add: xfr_inv_def view_defs XFR_BUF_SIZE_def take_min_length)
  qed
next
  case p: W_test
  then show ?thesis unfolding wstep_def p writer.simps
    by (intro step_inv [OF assms]) (use p in \<open>auto dest!: turns_w_test simp: objects_ok_def\<close>)
next
  case p: W_next
  then show ?thesis unfolding wstep_def p writer.simps
    by (intro step_inv [OF assms]) (use p in \<open>auto intro: turns_w_next simp: objects_ok_def\<close>)
next
  case p: W_rmsem
  show ?thesis unfolding wstep_def p writer.simps
    by (intro w_call assms step_inv [OF assms])
      (use p in \<open>auto intro: turns_w_rmsem simp: objects_ok_def wv_def rv_def\<close>)
next
  case p: W_shmdt
  show ?thesis unfolding wstep_def p writer.simps
    by (intro w_call assms step_inv [OF assms]) (use p in \<open>auto intro: turns_w_shmdt simp: objects_ok_def\<close>)
next
  case p: W_rmshm
  show ?thesis unfolding wstep_def p writer.simps
    by (intro w_call assms step_inv [OF assms])
      (use p in \<open>auto intro: turns_w_rmshm simp: objects_ok_def\<close>)
next
  case (W_end e)
  then show ?thesis using assms by (simp add: wstep_def)
qed (rule wstep_inv_turn [OF assms], assumption)+


lemma r_idle_simps [simp]: "r_idle R_semget" "r_idle R_shmget" "r_idle R_shmat" "r_idle R_reserve"
  by (simp_all add: r_idle_def)

lemma rstep_inv:
  assumes "xfr_inv src s"
  shows "xfr_inv src (rstep a s)"
proof -
  note d = r_die_inv [OF assms]
  have obj [simp]: "objects_ok s" using assms by (rule xfr_invD(2))
  note t = xfr_invD(1) [OF assms]
  show ?thesis
  proof (cases "rpc s")
    case p: R_semget
    have "xfr_inv src (r_go R_shmget s)"
      using turns_r_idle [OF t, of R_shmget] obj p by (simp add: xfr_inv_def objects_ok_def)
    then show ?thesis unfolding rstep_def p reader.simps by (intro r_call [OF assms]) (simp_all add: p d)
  next
    case p: R_shmget
    have "xfr_inv src (r_go R_shmat s)"
      using turns_r_idle [OF t, of R_shmat] obj p by (simp add: xfr_inv_def objects_ok_def)
    then show ?thesis unfolding rstep_def p reader.simps by (intro r_call [OF assms]) (simp_all add: p d)
  next
    case p: R_shmat
    show ?thesis unfolding rstep_def p reader.simps
      by (intro r_call [OF assms])
        (use p turns_r_idle [OF t, of R_reserve] obj in \<open>simp_all add: xfr_inv_def objects_ok_def\<close>)
  next
    case p: R_reserve
    show ?thesis unfolding rstep_def p reader.simps
      by (rule inv_reserve [OF assms], simp_all add: d p)
        (use p turns_r_reserve [OF t [unfolded p]] in \<open>simp add: xfr_inv_def objects_ok_def\<close>)
  next
    case p: R_test
    show ?thesis unfolding rstep_def p reader.simps
      using turns_r_test [OF t [unfolded p]] obj by (simp add: xfr_inv_def objects_ok_def)
  next
    case p: R_count
    show ?thesis unfolding rstep_def p reader.simps
      using turns_r_count [OF t [unfolded p]] obj by (simp add: xfr_inv_def objects_ok_def)
  next
    case p: R_release
    show ?thesis unfolding rstep_def p reader.simps
      by (rule inv_release [OF assms], simp_all add: d p)
        (use p turns_r_release [OF t [unfolded p]] in \<open>simp add: xfr_inv_def objects_ok_def\<close>)
  next
    case p: R_shmdt
    show ?thesis unfolding rstep_def p reader.simps
      by (intro r_call [OF assms])
        (use p turns_r_shmdt [OF t [unfolded p]] obj in \<open>simp_all add: xfr_inv_def objects_ok_def\<close>)
  next
    case p: R_final
    show ?thesis unfolding rstep_def p reader.simps
      by (rule inv_release [OF assms], simp_all add: d p)
        (use p turns_r_final [OF t [unfolded p]] in \<open>simp add: xfr_inv_def objects_ok_def\<close>)
  next
    case (R_end e)
    then show ?thesis using assms by (simp add: rstep_def)
  next
    case p: R_write
    note tw = t [unfolded p]
    have c: "cnt_of s = int (length (block s))" using turnsD(4) [OF tw] by (simp add: cnt_ok_def in_flight_def)
    have f: "r_failed (R_end (Fatal ''partial/failed write''))" by simp
    have pre: "prefix (take n (block s)) (block s)" for n by (rule take_is_prefix)
    have "xfr_inv src (r_go R_release (s\<lparr>r_stdout := r_stdout s @ block s\<rparr>))"
      using turns_r_write [OF tw] obj by (simp add: xfr_inv_def objects_ok_def)
    moreover have "xfr_inv src (r_go (R_end (Fatal ''partial/failed write'')) (s\<lparr>r_stdout := r_stdout s @ take n (block s)\<rparr>))" for n
      using turns_r_partial [OF tw pre f] obj by (simp add: xfr_inv_def objects_ok_def)
    moreover have "xfr_inv src (r_go (R_end (Fatal ''partial/failed write'')) s)"
      using turns_r_partial [OF tw pre [of 0] f] obj by (simp add: xfr_inv_def objects_ok_def)
    ultimately show ?thesis using c
      unfolding rstep_def p reader.simps r_write_def block_def [symmetric]
      by (auto simp: on_call_def Let_def split: answer.split)
  qed
qed


lemma xfr_reach_inv: "xfr_reach src s \<Longrightarrow> xfr_inv src s"
  by (induction rule: xfr_reach.induct) (auto intro: xfr_inv_init wstep_inv rstep_inv)

end
