(* ===== verification/ShmXfr_Live.thy ===== *)
theory ShmXfr_Live
  imports ShmXfr_Inv
begin

text \<open>
  Termination of the shared memory transfer: when no call fails, each step lowers a measure, and a state
  in which neither process can move is one in which both have finished. With it the properties of the
  two programs.
\<close>


text \<open>The calls on the semaphores when nothing interrupts them.\<close>

lemma reserve_Upto:
  assumes "n < length (semval S)" "n < 2 ^ 16"
  shows "reserveSem bs_default n (Upto k) S =
    (if 0 < semval S ! n then (Done (), S\<lparr>semval := (semval S)[n := semval S ! n - 1]\<rparr>) else (Waits, S))"
  using assms by (simp add: bs_defs bs_default_def unat_sem_num Let_def)

lemma release_Upto:
  assumes "n < length (semval S)" "n < 2 ^ 16" "semval S ! n < SEMVMX"
  shows "releaseSem bs_default n (Upto k) S = (Done (), S\<lparr>semval := (semval S)[n := semval S ! n + 1]\<rparr>)"
  using assms by (simp add: bs_defs bs_default_def unat_sem_num Let_def)

fun closing :: "wpc \<Rightarrow> bool" where
  "closing W_shmdt = True"
| "closing W_rmshm = True"
| "closing (W_end (Reports m)) = True"
| "closing p = False"

definition live :: "nat \<Rightarrow> nat \<Rightarrow> wpc \<Rightarrow> rpc \<Rightarrow> int \<Rightarrow> bool" where
  "live w r wp rp c = (\<not> w_failed wp \<and> \<not> r_failed rp \<and> \<not> w_setup wp \<and>
     (\<not> closing wp \<longrightarrow> w + r + w_holds wp + r_holds rp = 1) \<and>
     (closing wp \<or> wp = W_rmsem \<longrightarrow> r_reported rp) \<and>
     ((wp = W_last \<or> wp = W_test) \<and> c = 0 \<and> 0 < w \<longrightarrow> r_reported rp) \<and> (wp = W_last \<longrightarrow> c = 0) \<and> (r_reported rp \<longrightarrow> r = 0))"

definition xfr_live :: "string \<Rightarrow> xfr \<Rightarrow> bool" where
  "xfr_live src s = (xfr_inv src s \<and> live (wv s) (rv s) (wpc s) (rpc s) (cnt_of s) \<and> (\<not> closing (wpc s) \<longrightarrow> sems s \<noteq> None))"

lemmas live_defs = live_def pc_defs

fun wrank :: "int \<Rightarrow> wpc \<Rightarrow> nat" where
  "wrank c W_release = (if c = 0 then 20 else 34)"
| "wrank c W_test = (if c = 0 then 11 else 24)"
| "wrank c W_next = 23"
| "wrank c W_reserve = 22"
| "wrank c W_read = 21"
| "wrank c W_last = 10"
| "wrank c W_rmsem = 4"
| "wrank c W_shmdt = 3"
| "wrank c W_rmshm = 2"
| "wrank c p = 0"

fun rrank :: "rpc \<Rightarrow> nat" where
  "rrank R_semget = 12"
| "rrank R_shmget = 11"
| "rrank R_shmat = 10"
| "rrank R_reserve = 0"
| "rrank R_test = 7"
| "rrank R_count = 6"
| "rrank R_write = 5"
| "rrank R_release = 4"
| "rrank R_shmdt = 3"
| "rrank R_final = 2"
| "rrank (R_end e) = 0"

definition mu :: "xfr \<Rightarrow> nat" where
  "mu s = 20 * length (w_stdin s) + wrank (cnt_of s) (wpc s) + rrank (rpc s) + 8 * rv s"

lemma live_w:
  assumes "live w r wp rp c"
  shows "wp = W_reserve \<Longrightarrow> 0 < w \<Longrightarrow> live (w - 1) r W_read rp c"
    "wp = W_read \<Longrightarrow> live w r W_release rp c'"
    "wp = W_release \<Longrightarrow> \<not> r_reported rp \<Longrightarrow> live w (r + 1) W_test rp c"
    "wp = W_test \<Longrightarrow> live w r (if c = 0 then W_last else W_next) rp c"
    "wp = W_next \<Longrightarrow> live w r W_reserve rp c"
    "wp = W_last \<Longrightarrow> 0 < w \<Longrightarrow> live (w - 1) r W_rmsem rp c"
    "wp = W_rmsem \<Longrightarrow> live 0 0 W_shmdt rp c"
    "wp = W_shmdt \<Longrightarrow> live w r W_rmshm rp c"
    "wp = W_rmshm \<Longrightarrow> live w r (W_end (Reports m)) rp c'"
  using assms by (auto simp: live_defs split: if_splits)

lemma live_r:
  assumes "live w r wp rp c"
  shows "rp = R_semget \<Longrightarrow> live w r wp R_shmget c"
    "rp = R_shmget \<Longrightarrow> live w r wp R_shmat c"
    "rp = R_shmat \<Longrightarrow> live w r wp R_reserve c"
    "rp = R_reserve \<Longrightarrow> 0 < r \<Longrightarrow> live w (r - 1) wp R_test c"
    "rp = R_test \<Longrightarrow> live w r wp (if c = 0 then R_shmdt else R_count) c"
    "rp = R_count \<Longrightarrow> live w r wp R_write c"
    "rp = R_write \<Longrightarrow> live w r wp R_release c"
    "rp = R_release \<Longrightarrow> c \<noteq> 0 \<Longrightarrow> live (w + 1) r wp R_reserve c"
    "rp = R_shmdt \<Longrightarrow> live w r wp R_final c"
    "rp = R_final \<Longrightarrow> \<not> closing wp \<Longrightarrow> live (w + 1) r wp (R_end (Reports m)) c"
  using assms by (auto simp: live_defs split: if_splits)


lemma sems_small [simp]: "WRITE_SEM < 65536" "READ_SEM < 65536"
  by (simp_all add: WRITE_SEM_def READ_SEM_def)

lemma live_set:
  assumes "xfr_live src s" "\<not> closing (wpc s)"
  obtains S where "sems s = Some S" "length (semval S) = 2" "semval S ! WRITE_SEM = wv s" "semval S ! READ_SEM = rv s"
    "wv s \<le> 1" "rv s \<le> 1"
proof -
  obtain S where S: "sems s = Some S" using assms by (auto simp: xfr_live_def)
  moreover have "length (semval S) = 2" using assms S by (auto simp: xfr_live_def intro: xfr_invD(3))
  moreover have "wv s \<le> 1" "rv s \<le> 1" using assms by (auto simp: xfr_live_def live_def)
  ultimately show thesis by (intro that) (auto simp: wv_def rv_def)
qed

text \<open>The state after a completed call on the semaphore set.\<close>

definition with_units :: "nat \<Rightarrow> nat \<Rightarrow> xfr \<Rightarrow> xfr" where
  "with_units n v s = s\<lparr>sems := map_option (\<lambda>S. S\<lparr>semval := (semval S)[n := v]\<rparr>) (sems s)\<rparr>"

lemma set_reserve:
  assumes "xfr_live src s" "\<not> closing (wpc s)"
  shows "on_set (reserveSem bs_default WRITE_SEM (Upto k)) ok fail s =
      (if 0 < wv s then ok (with_units WRITE_SEM (wv s - 1) s) else s)"
    "on_set (reserveSem bs_default READ_SEM (Upto k)) ok fail s =
      (if 0 < rv s then ok (with_units READ_SEM (rv s - 1) s) else s)"
proof -
  obtain S where S: "sems s = Some S" "length (semval S) = 2" "semval S ! WRITE_SEM = wv s" "semval S ! READ_SEM = rv s"
    using live_set [OF assms] by metis
  then show "on_set (reserveSem bs_default WRITE_SEM (Upto k)) ok fail s =
      (if 0 < wv s then ok (with_units WRITE_SEM (wv s - 1) s) else s)"
    "on_set (reserveSem bs_default READ_SEM (Upto k)) ok fail s =
      (if 0 < rv s then ok (with_units READ_SEM (rv s - 1) s) else s)"
    using reserve_Upto [of WRITE_SEM S k] reserve_Upto [of READ_SEM S k]
    by (simp_all add: on_set_def with_units_def same_sems)
qed

lemma set_release:
  assumes "xfr_live src s" "\<not> closing (wpc s)"
  shows "on_set (releaseSem bs_default WRITE_SEM (Upto k)) ok fail s = ok (with_units WRITE_SEM (wv s + 1) s)"
    "on_set (releaseSem bs_default READ_SEM (Upto k)) ok fail s = ok (with_units READ_SEM (rv s + 1) s)"
proof -
  obtain S where S: "sems s = Some S" "length (semval S) = 2" "semval S ! WRITE_SEM = wv s" "semval S ! READ_SEM = rv s"
    "wv s \<le> 1" "rv s \<le> 1"
    using live_set [OF assms] by metis
  then show "on_set (releaseSem bs_default WRITE_SEM (Upto k)) ok fail s = ok (with_units WRITE_SEM (wv s + 1) s)"
    "on_set (releaseSem bs_default READ_SEM (Upto k)) ok fail s = ok (with_units READ_SEM (rv s + 1) s)"
    using release_Upto [of WRITE_SEM S k] release_Upto [of READ_SEM S k]
    by (simp_all add: on_set_def with_units_def SEMVMX_def)
qed

lemma with_units_views [simp]:
  "wpc (with_units n v s) = wpc s" "rpc (with_units n v s) = rpc s" "block (with_units n v s) = block s"
  "cnt_of (with_units n v s) = cnt_of s" "w_stdin (with_units n v s) = w_stdin s" "r_stdout (with_units n v s) = r_stdout s"
  "seg (with_units n v s) = seg s" "(\<exists>S. sems (with_units n v s) = Some S) \<longleftrightarrow> (\<exists>S. sems s = Some S)"
  by (simp_all add: with_units_def block_def cnt_of_def)

lemma units_with_units:
  assumes "xfr_live src s" "\<not> closing (wpc s)" "n = WRITE_SEM \<or> n = READ_SEM"
  shows "wv (with_units n v s) = (if n = WRITE_SEM then v else wv s)" "rv (with_units n v s) = (if n = READ_SEM then v else rv s)"
proof -
  obtain S where S: "sems s = Some S" "length (semval S) = 2" using live_set [OF assms(1,2)] by metis
  then show "wv (with_units n v s) = (if n = WRITE_SEM then v else wv s)"
    "rv (with_units n v s) = (if n = READ_SEM then v else rv s)"
    using assms(3) by (auto simp: with_units_def wv_def rv_def WRITE_SEM_def READ_SEM_def)
qed

lemma read_decreases: "xs \<noteq> [] \<Longrightarrow> 13 + 20 * (length xs - Suc m) < 20 * length xs"
  by (cases xs) auto

lemma wstep_live:
  assumes live: "xfr_live src s" and moves: "wstep (Upto k) s \<noteq> s"
  shows "xfr_live src (wstep (Upto k) s) \<and> mu (wstep (Upto k) s) < mu s"
proof -
  have inv: "xfr_inv src (wstep (Upto k) s)" using live wstep_inv by (simp add: xfr_live_def)
  have l: "live (wv s) (rv s) (wpc s) (rpc s) (cnt_of s)" using live by (simp add: xfr_live_def)
  note lw = live_w [OF l]
  have sg: "seg s \<noteq> None" if "wpc s \<in> {W_reserve, W_read, W_release, W_test, W_next, W_last, W_rmsem, W_shmdt, W_rmshm}"
    using live that by (auto simp: xfr_live_def xfr_inv_def objects_ok_def)
  have ne: "\<not> closing (wpc s) \<Longrightarrow> sems s \<noteq> None" using live by (simp add: xfr_live_def)
  let ?t = "wstep (Upto k) s"
  have "live (wv ?t) (rv ?t) (wpc ?t) (rpc ?t) (cnt_of ?t) \<and> (\<not> closing (wpc ?t) \<longrightarrow> sems ?t \<noteq> None) \<and> mu ?t < mu s"
  proof (cases "wpc s" rule: wpc_full)
    case p: 6
    then show ?thesis using moves lw(1) ne
      by (simp add: wstep_def set_reserve [OF live] units_with_units [OF live] mu_def split: if_splits)
  next
    case p: 8
    then have "\<not> r_reported (rpc s)"
      using turnsD(5) [OF xfr_invD(1)] live by (auto simp: eof_ok_def r_eof_def xfr_live_def)
    then show ?thesis using p lw(3) ne by (simp add: wstep_def set_release [OF live] units_with_units [OF live] mu_def)
  next
    case p: 11
    then show ?thesis using moves lw(6) ne
      by (simp add: wstep_def set_reserve [OF live] units_with_units [OF live] mu_def split: if_splits)
  next
    case p: 7
    then show ?thesis using sg ne lw(2)
      by (auto simp: wstep_def w_read_def on_call_def Let_def mu_def cnt_of_def wv_def rv_def w_go_def XFR_BUF_SIZE_def read_decreases)
  next
    case p: 9
    then show ?thesis using lw(4) ne by (simp add: wstep_def mu_def)
  next
    case p: 10
    then show ?thesis using lw(5) ne by (simp add: wstep_def mu_def)
  next
    case p: 12
    then show ?thesis using lw(7) by (simp add: wstep_def on_call_def mu_def wv_def rv_def)
  next
    case p: 13
    then show ?thesis using lw(8) by (simp add: wstep_def on_call_def mu_def)
  next
    case p: 14
    then show ?thesis using lw(9) by (simp add: wstep_def on_call_def mu_def)
  qed (use l moves in \<open>simp_all add: wstep_def live_def w_setup_def\<close>)
  then show ?thesis using inv by (simp add: xfr_live_def)
qed


lemma rstep_live:
  assumes live: "xfr_live src s" and moves: "rstep (Upto k) s \<noteq> s" and room: "cnt_of s \<le> int k"
  shows "xfr_live src (rstep (Upto k) s) \<and> mu (rstep (Upto k) s) < mu s"
proof -
  have inv0: "xfr_inv src s" using live by (simp add: xfr_live_def)
  have inv: "xfr_inv src (rstep (Upto k) s)" using inv0 by (rule rstep_inv)
  have l: "live (wv s) (rv s) (wpc s) (rpc s) (cnt_of s)" using live by (simp add: xfr_live_def)
  note lr = live_r [OF l] and c = turnsD(4) [OF xfr_invD(1) [OF inv0]]
  have ne: "\<not> closing (wpc s) \<Longrightarrow> sems s \<noteq> None" using live by (simp add: xfr_live_def)
  have cl: "\<not> closing (wpc s)" if "\<not> r_reported (rpc s)" using l that by (auto simp: live_def)
  have sg: "seg s \<noteq> None" if "\<not> r_reported (rpc s)"
    using cl [OF that] xfr_invD(2) [OF inv0] l that
    by (cases "wpc s" rule: wpc_full) (auto simp: objects_ok_def live_def w_setup_def)
  let ?t = "rstep (Upto k) s"
  have "live (wv ?t) (rv ?t) (wpc ?t) (rpc ?t) (cnt_of ?t) \<and> (\<not> closing (wpc ?t) \<longrightarrow> sems ?t \<noteq> None) \<and> mu ?t < mu s"
  proof (cases "rpc s" rule: rpc_full)
    case p: 1
    then show ?thesis using lr(1) ne cl by (auto simp: rstep_def on_call_def mu_def)
  next
    case p: 2
    then show ?thesis using lr(2) ne cl sg by (auto simp: rstep_def on_call_def mu_def)
  next
    case p: 3
    then show ?thesis using lr(3) ne cl by (auto simp: rstep_def on_call_def mu_def)
  next
    case p: 4
    then show ?thesis using moves lr(4) ne cl
      by (simp add: rstep_def set_reserve [OF live] units_with_units [OF live] mu_def split: if_splits)
  next
    case p: 5
    then show ?thesis using lr(5) ne cl by (simp add: rstep_def mu_def)
  next
    case p: 6
    then show ?thesis using lr(6) ne cl by (simp add: rstep_def mu_def)
  next
    case p: 7
    then have "cnt_of s = int (length (block s))" using c by (simp add: cnt_ok_def in_flight_def)
    then show ?thesis using p lr(7) ne cl room
      by (simp add: rstep_def r_write_def on_call_def mu_def Let_def block_def [symmetric])
  next
    case p: 8
    then have "cnt_of s \<noteq> 0" using c unfolding cnt_ok_def by blast
    then show ?thesis using p lr(8) ne cl
      by (simp add: rstep_def set_release [OF live] units_with_units [OF live] mu_def)
  next
    case p: 9
    then show ?thesis using lr(9) ne cl by (simp add: rstep_def on_call_def mu_def)
  next
    case p: 10
    then show ?thesis using lr(10) ne cl by (simp add: rstep_def set_release [OF live] units_with_units [OF live] mu_def)
  qed (use l moves in \<open>simp_all add: rstep_def live_def\<close>)
  then show ?thesis using inv by (simp add: xfr_live_def)
qed


lemma xfr_step_live:
  assumes "xfr_live src s" "xfr_step s t"
  shows "xfr_live src t \<and> mu t < mu s"
  using assms(2)
proof (cases rule: xfr_step.cases)
  case (w_moves k)
  then show ?thesis using wstep_live [OF assms(1), of k] by simp
next
  case (r_moves k)
  then show ?thesis using rstep_live [OF assms(1), of k] by simp
qed

text \<open>Where neither process can move, both have finished.\<close>

lemma w_pc_moves:
  assumes "xfr_live src s" "\<And>e. wpc s \<noteq> W_end e" "wpc s = W_reserve \<or> wpc s = W_last \<Longrightarrow> 0 < wv s"
  shows "wpc (wstep (Upto 0) s) \<noteq> wpc s"
proof -
  have "\<not> w_setup (wpc s)" using assms(1) by (simp add: xfr_live_def live_def)
  then show ?thesis using assms(2,3)
    by (cases "wpc s" rule: wpc_full)
      (auto simp: wstep_def on_call_def set_reserve [OF assms(1)] set_release [OF assms(1)] w_read_def Let_def w_setup_def)
qed

lemma r_pc_moves:
  assumes "xfr_live src s" "\<And>e. rpc s \<noteq> R_end e" "rpc s = R_reserve \<Longrightarrow> 0 < rv s"
  shows "rpc (rstep (Upto k) s) \<noteq> rpc s"
proof -
  have cl: "\<not> closing (wpc s)" using assms(1,2) by (cases "rpc s" rule: rpc_full) (auto simp: xfr_live_def live_def)
  show ?thesis using assms(2,3) cl
    by (cases "rpc s" rule: rpc_full)
      (auto simp: rstep_def on_call_def set_reserve [OF assms(1)] set_release [OF assms(1)] r_write_def Let_def r_die_def)
qed

lemma ended:
  "r_failed (R_end e) = (\<nexists>m. e = Reports m)" "r_reported (R_end e) = (\<exists>m. e = Reports m)"
  "w_failed (W_end e) = (\<nexists>m. e = Reports m)" "closing (W_end e) = (\<exists>m. e = Reports m)"
  by (cases e; simp)+

lemma r_reportedD: "r_reported p \<Longrightarrow> \<exists>m. p = R_end (Reports m)"
  by (cases p rule: rpc_full) auto

lemma stuck_finished:
  assumes live: "xfr_live src s" and stuck: "\<And>t. \<not> xfr_step s t"
  shows "(\<exists>m. wpc s = W_end (Reports m)) \<and> (\<exists>m. rpc s = R_end (Reports m)) \<and> r_stdout s = src"
proof -
  have l: "live (wv s) (rv s) (wpc s) (rpc s) (cnt_of s)" using live by (simp add: xfr_live_def)
  have inv: "xfr_inv src s" using live by (simp add: xfr_live_def)
  have w: "(\<exists>e. wpc s = W_end e) \<or> (wpc s = W_reserve \<or> wpc s = W_last) \<and> wv s = 0"
    using w_pc_moves [OF live] stuck xfr_step.w_moves [OF refl, of 0 s] by force
  have "cnt_of s \<le> int (nat (cnt_of s))" by simp
  from xfr_step.r_moves [OF refl this] stuck have "rstep (Upto (nat (cnt_of s))) s = s" by blast
  then have r: "(\<exists>e. rpc s = R_end e) \<or> rpc s = R_reserve \<and> rv s = 0"
    using r_pc_moves [OF live, of "nat (cnt_of s)"] by force
  have eof: "eof_ok src (wpc s) (rpc s) (cnt_of s) (r_stdout s)" using turnsD(5) [OF xfr_invD(1) [OF inv]] .
  have fin: "r_reported (rpc s)" if "closing (wpc s) \<or> (\<exists>e. rpc s = R_end e)"
    using that l by (auto simp: live_def ended)
  have "closing (wpc s)"
  proof (rule ccontr)
    assume n: "\<not> closing (wpc s)"
    then have w0: "wpc s = W_reserve \<or> wpc s = W_last" "wv s = 0"
      using w l by (auto simp: live_def ended)
    then have "rv s + r_holds (rpc s) = 1" using l n by (auto simp: live_def w_holds_def)
    moreover have "rv s = 0" using r fin l by (auto simp: live_def)
    moreover have "r_holds (rpc s) = 0" using r by (auto simp: r_holds_def)
    ultimately show False by simp
  qed
  then have "r_reported (rpc s)" "\<exists>m. wpc s = W_end (Reports m)" using fin w by (auto simp: ended)
  then show ?thesis using eof r_reportedD by (auto simp: eof_ok_def r_eof_def)
qed

lemma xfr_final_exists:
  assumes "xfr_live src s"
  shows "\<exists>t. xfr_step\<^sup>*\<^sup>* s t \<and> (\<nexists>u. xfr_step t u)"
  using assms
proof (induction "mu s" arbitrary: s rule: less_induct)
  case less
  show ?case
  proof (cases "\<exists>u. xfr_step s u")
    case True
    then obtain u where u: "xfr_step s u" by blast
    then show ?thesis using less(1) [of u] xfr_step_live [OF less(2) u] by (meson converse_rtranclp_into_rtranclp)
  qed auto
qed

section \<open>Properties\<close>

text \<open>The state in which the writer has created the objects and the reader has not started.\<close>

definition xfr_ready :: "string \<Rightarrow> xfr" where
  "xfr_ready src = (let w = wstep (Upto 0) in w (w (w (w (w (xfr_init src))))))"

lemma xfr_ready_eq:
  "xfr_ready src = \<lparr>sems = Some \<lparr>semval = [1, 0], semadj = [0, 0]\<rparr>, seg = Some new_seg, w_stdin = src, r_stdout = '''',
     wpc = W_reserve, w_xfrs = 0, w_bytes = 0, rpc = R_semget, r_xfrs = 0, r_bytes = 0\<rparr>"
  by (simp add: xfr_ready_def xfr_init_def wstep_def Let_def on_call_def on_set_def init_SETVAL semctl_SETVAL_def
      w_go_def WRITE_SEM_def READ_SEM_def SEMVMX_def)

lemma xfr_reach_ready: "xfr_reach src (xfr_ready src)"
  by (simp add: xfr_ready_def Let_def xfr_reach.intros)

lemma xfr_ready_live: "xfr_live src (xfr_ready src)"
  using xfr_reach_inv [OF xfr_reach_ready, of src]
  by (simp add: xfr_live_def xfr_ready_eq live_def w_setup_def wv_def rv_def WRITE_SEM_def READ_SEM_def w_holds_def r_holds_def)

lemma xfr_steps_live: "xfr_step\<^sup>*\<^sup>* s t \<Longrightarrow> xfr_live src s \<Longrightarrow> xfr_live src t"
  by (induction rule: rtranclp_induct) (auto dest: xfr_step_live)

lemma xfr_steps_reach: "xfr_step\<^sup>*\<^sup>* s t \<Longrightarrow> xfr_reach src s \<Longrightarrow> xfr_reach src t"
proof (induction rule: rtranclp_induct)
  case (step y z)
  from step.hyps(2) step.IH [OF step.prems] show ?case
    by (cases rule: xfr_step.cases) (simp_all add: xfr_reach.intros)
qed

lemma xfr_no_infinite:
  assumes "xfr_live src (f 0)" "\<And>i. xfr_step (f i) (f (Suc i))"
  shows False
proof -
  have l: "xfr_live src (f i)" for i by (induction i) (use assms xfr_step_live in blast)+
  have "mu (f i) + i \<le> mu (f 0)" for i
  proof (induction i)
    case (Suc i)
    then show ?case using xfr_step_live [OF l assms(2), of i] by simp
  qed simp
  from this [of "Suc (mu (f 0))"] show False by simp
qed

text \<open>The steps of the writer that touch the segment: creating it, storing a block, and removing it.\<close>

lemma on_set_seg:
  assumes "\<And>s. seg (ok s) = seg s" "\<And>e s. seg (fail e s) = seg s"
  shows "seg (on_set f ok fail s) = seg s"
  using assms by (auto simp: on_set_def split: option.split prod.split call.split)

lemma writer_keeps_seg:
  assumes "wpc s \<notin> {W_shmget, W_read, W_rmshm}"
  shows "seg (wstep a s) = seg s"
  using assms
  by (cases "wpc s") (auto simp: wstep_def on_call_def w_go_def w_die_def intro!: on_set_seg split: answer.split option.split)

text \<open>
  C5. Whatever calls fail or are interrupted and however the two processes interleave: the reader's
  output is a prefix of the writer's input; from the moment the reader has its turn until it gives the turn back no step
  of the writer changes the segment; and a reader that ends normally has output the whole input. The writer may
  still read the count of its own block in that time, which the reader does not change.
\<close>

theorem xfr_safe:
  assumes "xfr_reach src s"
  shows "prefix (r_stdout s) src \<and>
    (\<forall>a. rpc s \<in> {R_test, R_count, R_write, R_release, R_shmdt} \<longrightarrow> seg (wstep a s) = seg s) \<and>
    (\<forall>m. rpc s = R_end (Reports m) \<longrightarrow> r_stdout s = src)"
proof -
  note t = turnsD [OF xfr_invD(1) [OF xfr_reach_inv [OF assms]]]
  have "seg (wstep a s) = seg s" if "rpc s \<in> {R_test, R_count, R_write, R_release, R_shmdt}" for a
  proof (rule writer_keeps_seg)
    have "r_holds (rpc s) = 1" using that by (auto simp: r_holds_def)
    then have "w_holds (wpc s) = 0" using t(1) by (simp add: turn_ok_def)
    moreover have "\<not> w_setup (wpc s)" using t(2) that by (auto simp: setup_ok_def)
    ultimately show "wpc s \<notin> {W_shmget, W_read, W_rmshm}" by (auto simp: w_holds_def w_setup_def)
  qed
  then show ?thesis using data_ok_prefix [OF t(3)] t(5) by (auto simp: eof_ok_def r_eof_def)
qed

text \<open>
  C6. Once the writer has created the objects, and when no call fails, every run of the two processes
  ends, short reads included, and it ends with both having reported success and the output equal to the
  input: there is no deadlock and no livelock.
\<close>

theorem xfr_completes:
  "(\<nexists>f. f 0 = xfr_ready src \<and> (\<forall>i. xfr_step (f i) (f (Suc i)))) \<and>
   (\<forall>s. xfr_step\<^sup>*\<^sup>* (xfr_ready src) s \<and> (\<nexists>t. xfr_step s t) \<longrightarrow>
      (\<exists>m. wpc s = W_end (Reports m)) \<and> (\<exists>m. rpc s = R_end (Reports m)) \<and> r_stdout s = src)"
proof (intro conjI allI impI)
  show "\<nexists>f. f 0 = xfr_ready src \<and> (\<forall>i. xfr_step (f i) (f (Suc i)))"
    using xfr_no_infinite [of src] xfr_ready_live [of src] by metis
qed (use stuck_finished [OF xfr_steps_live [OF _ xfr_ready_live]] in blast)+


theorem xfr_completes_witness:
  "\<exists>s. xfr_step\<^sup>*\<^sup>* (xfr_ready ''ab'') s \<and> (\<exists>m. rpc s = R_end (Reports m)) \<and> r_stdout s = ''ab''"
  using xfr_completes [of "''ab''"] xfr_final_exists [OF xfr_ready_live [of "''ab''"]] by blast

theorem xfr_safe_witness:
  "\<exists>s m. xfr_reach ''abc'' s \<and> rpc s = R_end (Reports m) \<and> prefix (r_stdout s) ''abc'' \<and> r_stdout s = ''abc''"
proof -
  obtain s where s: "xfr_step\<^sup>*\<^sup>* (xfr_ready ''abc'') s" "\<nexists>t. xfr_step s t"
    using xfr_final_exists [OF xfr_ready_live] by blast
  obtain m where m: "rpc s = R_end (Reports m)" using stuck_finished [OF xfr_steps_live [OF s(1) xfr_ready_live]] s(2) by blast
  have r: "xfr_reach ''abc'' s" using xfr_steps_reach [OF s(1) xfr_reach_ready] .
  show ?thesis using xfr_safe [OF r] m r by blast
qed

end
