(* ===== verification/SemInit.thy ===== *)
theory SemInit
  imports SysVSem GetNum
begin

text \<open>
  The programs \<open>tlpi-dist/svsem/svsem_good_init.c\<close> and \<open>svsem_bad_init.c\<close>: any number of processes that
  share one semaphore under a fixed key, one of them creating and initialising it. Each process is a
  program counter; one step is one system call. The kernel keeps the set and whether an operation has
  been performed on it (a nonzero \<open>sem_otime\<close>). A newly created set has an arbitrary value \<open>junk\<close>, since
  semget(2) leaves the values unspecified.
\<close>

definition EEXIST :: int where "EEXIST = 17"
definition MAX_TRIES :: nat where "MAX_TRIES = 10"

datatype ipc =
    I_create | I_setval | I_dummy
  | I_getid | I_poll nat
  | I_op | I_done | I_died string

record iproc =
  ipc :: ipc
  arg :: string
  pid :: int
  iout :: string

record isys =
  kset :: "(semset \<times> bool) option"
  procs :: "iproc list"

definition say :: "string \<Rightarrow> iproc \<Rightarrow> iproc" where
  "say t p = p\<lparr>iout := iout p @ t\<rparr>"

definition goto :: "ipc \<Rightarrow> iproc \<Rightarrow> iproc" where
  "goto q p = p\<lparr>ipc := q\<rparr>"

text \<open>semop(2) on the set of the kernel; a completed operation sets \<open>sem_otime\<close>.\<close>

definition k_semop :: "sembuf \<Rightarrow> answer \<Rightarrow> semset \<times> bool \<Rightarrow> unit call \<times> (semset \<times> bool)" where
  "k_semop b a k = (case semop [b] a (fst k) of
     (Done _, S) \<Rightarrow> (Done (), (S, True)) | (r, S) \<Rightarrow> (r, (S, snd k)))"

section \<open>svsem_good_init\<close>

text \<open>
  A step of one process, from the set in the kernel and the answer to its call; \<open>None\<close> in the result
  is that no set exists. A call that waits leaves the process where it is.
\<close>

definition finish_op :: "(int + unit call) \<Rightarrow> iproc \<Rightarrow> iproc" where
  "finish_op r p = (case r of
     Inl e \<Rightarrow> goto (I_died ''semop'') p
   | Inr (Done _) \<Rightarrow> goto I_done p
   | Inr (Failed e) \<Rightarrow> goto (I_died ''semop'') p
   | Inr Waits \<Rightarrow> p)"

definition do_op :: "int \<Rightarrow> answer \<Rightarrow> (semset \<times> bool) option \<Rightarrow> iproc \<Rightarrow> iproc \<times> (semset \<times> bool) option" where
  "do_op v a k p = (case k of
     None \<Rightarrow> (finish_op (Inl EINVAL) p, None)
   | Some K \<Rightarrow>
       let (r, K1) = k_semop \<lparr>sem_num = 0, sem_op = to_int16 v, sem_flg = 0\<rparr> a K
       in (finish_op (Inr r) p, Some K1))"

fun good_init :: "nat \<Rightarrow> answer \<Rightarrow> ipc \<Rightarrow> (semset \<times> bool) option \<Rightarrow> iproc \<Rightarrow> iproc \<times> (semset \<times> bool) option" where
  "good_init junk a I_create k p =
     (case a of
        Intr \<Rightarrow> (goto (I_died ''semget 1'') p, k)
      | Fail e \<Rightarrow> (goto (if e \<noteq> EEXIST then I_died ''semget 1'' else I_getid) p, k)
      | Upto _ \<Rightarrow>
          (case k of
             None \<Rightarrow> (goto I_setval (say (msg [dec (pid p), '': created semaphore'', nl]) p),
                      Some (\<lparr>semval = [junk], semadj = [0]\<rparr>, False))
           | Some K \<Rightarrow> (goto I_getid p, k)))"
| "good_init junk a I_setval k p =
     (case k of
        None \<Rightarrow> (goto (I_died ''semctl 1'') p, None)
      | Some (S, ot) \<Rightarrow>
          (case semctl_SETVAL 0 0 a S of
             (Done _, S1) \<Rightarrow> (goto I_dummy (say (msg [dec (pid p), '': initialized semaphore'', nl]) p), Some (S1, ot))
           | (_, S1) \<Rightarrow> (goto (I_died ''semctl 1'') p, Some (S1, ot))))"
| "good_init junk a I_dummy k p =
     (case k of
        None \<Rightarrow> (goto (I_died ''semop'') p, None)
      | Some K \<Rightarrow>
          (case k_semop \<lparr>sem_num = 0, sem_op = 0, sem_flg = 0\<rparr> a K of
             (Done _, K1) \<Rightarrow> (goto I_op (say (msg [dec (pid p), '': completed dummy semop()'', nl]) p), Some K1)
           | (Failed e, K1) \<Rightarrow> (goto (I_died ''semop'') p, Some K1)
           | (Waits, K1) \<Rightarrow> (p, Some K1)))"
| "good_init junk a I_getid k p =
     (case a of
        Upto _ \<Rightarrow> if k = None then (goto (I_died ''semget 2'') p, k)
                  else (goto (I_poll 0) (say (msg [dec (pid p), '': got semaphore key'', nl]) p), k)
      | _ \<Rightarrow> (goto (I_died ''semget 2'') p, k))"
| "good_init junk a (I_poll j) k p =
     (if j < MAX_TRIES then
        let p1 = say (msg [''Try '', dec (int j), nl]) p
        in case a of
             Upto _ \<Rightarrow>
               (case k of
                  None \<Rightarrow> (goto (I_died ''semctl 2'') p1, k)
                | Some (S, ot) \<Rightarrow> (goto (if ot then I_op else I_poll (Suc j)) p1, k))
           | _ \<Rightarrow> (goto (I_died ''semctl 2'') p1, k)
      else (goto (I_died ''Existing semaphore not initialized'') p, k))"
| "good_init junk a I_op k p =
     (case getInt (Some (arg p)) 0 (Some ''sem-op'') of
        Inl m \<Rightarrow> (goto (I_died m) p, k)
      | Inr v \<Rightarrow> do_op v a k p)"
| "good_init junk a I_done k p = (p, k)"
| "good_init junk a (I_died m) k p = (p, k)"

definition gstep :: "nat \<Rightarrow> nat \<Rightarrow> answer \<Rightarrow> isys \<Rightarrow> isys" where
  "gstep junk i a s =
     (if i < length (procs s)
      then let (p, k) = good_init junk a (ipc (procs s ! i)) (kset s) (procs s ! i)
           in s\<lparr>kset := k, procs := (procs s)[i := p]\<rparr>
      else s)"

section \<open>svsem_bad_init\<close>

fun bad_init :: "nat \<Rightarrow> answer \<Rightarrow> ipc \<Rightarrow> (semset \<times> bool) option \<Rightarrow> iproc \<Rightarrow> iproc \<times> (semset \<times> bool) option" where
  "bad_init junk a I_create k p =
     (case a of
        Intr \<Rightarrow> (goto (I_died ''semget 1'') p, k)
      | Fail e \<Rightarrow> (goto (if e \<noteq> EEXIST then I_died ''semget 1'' else I_getid) p, k)
      | Upto _ \<Rightarrow>
          (case k of
             None \<Rightarrow> (goto I_setval p, Some (\<lparr>semval = [junk], semadj = [0]\<rparr>, False))
           | Some K \<Rightarrow> (goto I_getid p, k)))"
| "bad_init junk a I_setval k p =
     (case k of
        None \<Rightarrow> (goto (I_died ''semctl'') p, None)
      | Some (S, ot) \<Rightarrow>
          (case semctl_SETVAL 0 0 a S of
             (Done _, S1) \<Rightarrow> (goto I_op p, Some (S1, ot))
           | (_, S1) \<Rightarrow> (goto (I_died ''semctl'') p, Some (S1, ot))))"
| "bad_init junk a I_getid k p =
     (case a of
        Upto _ \<Rightarrow> (goto (if k = None then I_died ''semget 2'' else I_op) p, k)
      | _ \<Rightarrow> (goto (I_died ''semget 2'') p, k))"
| "bad_init junk a I_op k p = do_op 1 a k p"
| "bad_init junk a q k p = (p, k)"

definition bstep :: "nat \<Rightarrow> nat \<Rightarrow> answer \<Rightarrow> isys \<Rightarrow> isys" where
  "bstep junk i a s =
     (if i < length (procs s)
      then let (p, k) = bad_init junk a (ipc (procs s ! i)) (kset s) (procs s ! i)
           in s\<lparr>kset := k, procs := (procs s)[i := p]\<rparr>
      else s)"

section \<open>Runs\<close>

definition fresh_proc :: "string \<times> int \<Rightarrow> iproc" where
  "fresh_proc q = \<lparr>ipc = I_create, arg = fst q, pid = snd q, iout = ''''\<rparr>"

definition isys_init :: "(string \<times> int) list \<Rightarrow> isys" where
  "isys_init qs = \<lparr>kset = None, procs = map fresh_proc qs\<rparr>"

inductive good_reach :: "nat \<Rightarrow> (string \<times> int) list \<Rightarrow> isys \<Rightarrow> bool" for junk qs where
  start: "good_reach junk qs (isys_init qs)"
| step: "good_reach junk qs s \<Longrightarrow> good_reach junk qs (gstep junk i a s)"

inductive bad_reach :: "nat \<Rightarrow> (string \<times> int) list \<Rightarrow> isys \<Rightarrow> bool" for junk qs where
  start: "bad_reach junk qs (isys_init qs)"
| step: "bad_reach junk qs s \<Longrightarrow> bad_reach junk qs (bstep junk i a s)"

text \<open>What the operation of a finished process added to the semaphore.\<close>

definition added :: "iproc \<Rightarrow> int" where
  "added p = (if ipc p = I_done then (case getInt (Some (arg p)) 0 (Some ''sem-op'') of Inl m \<Rightarrow> 0 | Inr v \<Rightarrow> to_int16 v) else 0)"

definition creating :: "iproc \<Rightarrow> nat" where
  "creating p = (if ipc p = I_setval \<or> ipc p = I_dummy then 1 else 0)"

definition working :: "iproc \<Rightarrow> bool" where
  "working p = (ipc p = I_op \<or> ipc p = I_done)"

definition total :: "isys \<Rightarrow> int" where
  "total s = sum_list (map added (procs s))"

definition creators :: "isys \<Rightarrow> nat" where
  "creators s = sum_list (map creating (procs s))"

definition unused :: "isys \<Rightarrow> bool" where
  "unused s = (\<forall>p \<in> set (procs s). \<not> working p)"

definition zeroed :: "isys \<Rightarrow> bool" where
  "zeroed s = (\<exists>p \<in> set (procs s). ipc p = I_dummy)"

text \<open>
  At most one process is initialising the set, nobody works on it before \<open>sem_otime\<close> is set, and from
  then on its value is what the finished processes added.
\<close>

definition init_ok :: "isys \<Rightarrow> bool" where
  "init_ok s =
     (case kset s of
        None \<Rightarrow> creators s = 0 \<and> unused s
      | Some (S, ot) \<Rightarrow> length (semval S) = 1 \<and>
          (if ot then creators s = 0 \<and> int (semval S ! 0) = total s
           else creators s \<le> 1 \<and> unused s \<and> (zeroed s \<longrightarrow> semval S ! 0 = 0)))"

section \<open>The invariant\<close>


lemma sum_list_map_update:
  fixes f :: "'a \<Rightarrow> 'b :: comm_monoid_add"
  shows "i < length xs \<Longrightarrow> sum_list (map f (xs[i := y])) + f (xs ! i) = sum_list (map f xs) + f y"
proof (induction xs arbitrary: i)
  case (Cons x xs)
  then show ?case by (cases i) (simp_all add: ac_simps)
qed simp

definition put :: "nat \<Rightarrow> iproc \<Rightarrow> (semset \<times> bool) option \<Rightarrow> isys \<Rightarrow> isys" where
  "put i p k s = s\<lparr>kset := k, procs := (procs s)[i := p]\<rparr>"

lemma put_sums:
  assumes "i < length (procs s)"
  shows "total (put i p k s) + added (procs s ! i) = total s + added p"
    "creators (put i p k s) + creating (procs s ! i) = creators s + creating p"
  using sum_list_map_update [OF assms] by (simp_all add: put_def total_def creators_def)

lemma put_unused: "unused s \<Longrightarrow> \<not> working p \<Longrightarrow> unused (put i p k s)"
  using set_update_subset_insert [of "procs s" i p] by (auto simp: unused_def put_def)

lemma put_zeroed: "zeroed (put i p k s) \<Longrightarrow> ipc p = I_dummy \<or> zeroed s"
  using set_update_subset_insert [of "procs s" i p] by (auto simp: zeroed_def put_def)

lemma put_kset [simp]: "kset (put i p k s) = k"
  by (simp add: put_def)

lemma creating_le: "i < length (procs s) \<Longrightarrow> creating (procs s ! i) \<le> creators s"
  unfolding creators_def by (rule member_le_sum_list) simp_all

lemma zeroed_creators: "zeroed s \<Longrightarrow> 0 < creators s"
  using creating_le by (force simp: zeroed_def in_set_conv_nth creating_def)

text \<open>A step that does not touch the set and ends outside the phases that the invariant speaks about.\<close>

lemma put_quiet:
  assumes "init_ok s" "i < length (procs s)" "added (procs s ! i) = 0" "added p = 0" "creating p = 0"
    "\<not> working p \<or> (\<exists>S. kset s = Some (S, True))" "k = kset s"
  shows "init_ok (put i p k s)"
proof -
  have c: "creators (put i p (kset s) s) \<le> creators s" and t: "total (put i p (kset s) s) = total s"
    using put_sums [OF assms(2), of p "kset s"] assms(3-5) by auto
  have z: "zeroed (put i p (kset s) s) \<Longrightarrow> zeroed s" using assms(5) by (auto dest!: put_zeroed simp: creating_def)
  show ?thesis unfolding assms(7) using assms(1,6) c t z put_unused
    by (auto simp: init_ok_def split: option.splits prod.splits)
qed

lemma ipc_goto [simp]: "ipc (goto q p) = q" "arg (goto q p) = arg p" "ipc (say x p) = ipc p" "arg (say x p) = arg p"
  by (simp_all add: goto_def say_def)

lemma added_goto [simp]: "q \<noteq> I_done \<Longrightarrow> added (goto q p) = 0"
  and creating_goto [simp]: "creating (goto q p) = (if q = I_setval \<or> q = I_dummy then 1 else 0)"
  and working_goto [simp]: "working (goto q p) = (q = I_op \<or> q = I_done)"
  by (simp_all add: added_def creating_def working_def)

lemma gstep_put: "i < length (procs s) \<Longrightarrow>
  gstep junk i a s = (let (p, k) = good_init junk a (ipc (procs s ! i)) (kset s) (procs s ! i) in put i p k s)"
  by (simp add: gstep_def put_def)

lemma sum_list_zero: "\<forall>x \<in> set xs. f x = (0 :: int) \<Longrightarrow> sum_list (map f xs) = 0"
  by (induction xs) auto

lemma unused_total: "unused s \<Longrightarrow> total s = 0"
  unfolding unused_def total_def by (intro sum_list_zero) (auto simp: added_def working_def)

lemma put_created:
  assumes "init_ok s" "i < length (procs s)" "kset s = None"
  shows "init_ok (put i (goto I_setval p) (Some (\<lparr>semval = [junk], semadj = [0]\<rparr>, False)) s)"
proof -
  let ?t = "put i (goto I_setval p) (Some (\<lparr>semval = [junk], semadj = [0]\<rparr>, False)) s"
  have c: "creators s = 0" "unused s" using assms(1,3) by (simp_all add: init_ok_def)
  then have "\<not> zeroed ?t" using put_zeroed zeroed_creators by fastforce
  moreover have "creators ?t \<le> 1"
    using put_sums(2) [OF assms(2), of "goto I_setval p" "Some (\<lparr>semval = [junk], semadj = [0]\<rparr>, False)"] c by simp
  ultimately show ?thesis using c put_unused by (simp add: init_ok_def)
qed

lemma creating_set:
  assumes "init_ok s" "i < length (procs s)" "kset s = Some (S, ot)" "creating (procs s ! i) = 1"
  shows "\<not> ot" "creators s = 1" "unused s"
  using creating_le [OF assms(2)] assms by (auto simp: init_ok_def split: if_splits)

lemma put_setval:
  assumes "init_ok s" "i < length (procs s)" "kset s = Some (S, ot)" "ipc (procs s ! i) = I_setval"
    and "semval T = (semval S)[0 := 0]"
  shows "init_ok (put i (goto I_dummy p) (Some (T, ot)) s)"
proof -
  have c: "creating (procs s ! i) = 1" using assms(4) by (simp add: creating_def)
  note cs = creating_set [OF assms(1-3) c]
  have "length (semval S) = 1" using assms(1,3) by (simp add: init_ok_def)
  then show ?thesis using put_sums(2) [OF assms(2), of "goto I_dummy p" "Some (T, ot)"] c cs put_unused assms(5)
    by (simp add: init_ok_def)
qed

lemma put_dummy:
  assumes "init_ok s" "i < length (procs s)" "kset s = Some (S, ot)" "ipc (procs s ! i) = I_dummy"
    and "semval T = semval S"
  shows "init_ok (put i (goto I_op p) (Some (T, True)) s)"
proof -
  have c: "creating (procs s ! i) = 1" "added (procs s ! i) = 0" using assms(4) by (simp_all add: creating_def added_def)
  note cs = creating_set [OF assms(1-3) c(1)]
  have "zeroed s" using assms(2,4) by (auto simp: zeroed_def)
  then have "semval S ! 0 = 0" "length (semval S) = 1" using assms(1,3) cs by (simp_all add: init_ok_def)
  then show ?thesis
    using put_sums [OF assms(2), of "goto I_op p" "Some (T, True)"] c cs assms(5) unused_total [OF cs(3)]
    by (simp add: init_ok_def)
qed

lemma put_op:
  assumes "init_ok s" "i < length (procs s)" "kset s = Some (S, True)" "ipc (procs s ! i) = I_op"
    and "length (semval T) = 1" "int (semval T ! 0) = int (semval S ! 0) + added (goto I_done (procs s ! i))"
  shows "init_ok (put i (goto I_done (procs s ! i)) (Some (T, True)) s)"
  using put_sums [OF assms(2), of "goto I_done (procs s ! i)" "Some (T, True)"] assms
  by (simp add: init_ok_def creating_def added_def)


lemma k_semop_cases:
  assumes "k_semop \<lparr>sem_num = 0, sem_op = v, sem_flg = 0\<rparr> a (S, ot) = (r, K)" "length (semval S) = 1"
  obtains (completed) T where "r = Done ()" "K = (T, True)" "length (semval T) = 1" "int (semval T ! 0) = int (semval S ! 0) + v"
    | (none) "r \<noteq> Done ()" "K = (S, ot)"
proof (cases "r = Done ()")
  case True
  obtain T where T: "semop [\<lparr>sem_num = 0, sem_op = v, sem_flg = 0\<rparr>] a S = (Done (), T)" "K = (T, True)"
    using assms(1) True by (auto simp: k_semop_def split: prod.splits call.splits)
  then have "length (semval T) = 1 \<and> int (semval T ! 0) = int (semval S ! 0) + v" using assms(2)
    by (auto simp: semop_def sem_try_def sem_adjust_def sem_wait_def Let_def split: answer.splits if_splits call.splits)
  then show ?thesis using True T completed by blast
next
  case False
  then have "K = (S, ot)" using assms(1)
    by (auto simp: k_semop_def semop_def split: prod.splits call.splits answer.splits)
  then show ?thesis using False none by blast
qed


lemma put_same: "i < length (procs s) \<Longrightarrow> put i (procs s ! i) (kset s) s = s"
  by (simp add: put_def)

lemma working_initialised:
  assumes "init_ok s" "i < length (procs s)" "working (procs s ! i)" "kset s = Some (S, ot)"
  shows "ot"
  using assms by (auto simp: init_ok_def unused_def split: if_splits)

lemma gstep_ok_create:
  assumes "init_ok s" "i < length (procs s)" "ipc (procs s ! i) \<in> {I_create, I_setval, I_dummy}"
  shows "init_ok (gstep junk i a s)"
proof -
  let ?p = "procs s ! i"
  have a0: "added ?p = 0" using assms(3) by (auto simp: added_def)
  note quiet = put_quiet [OF assms(1,2) a0]
  consider (c) "ipc ?p = I_create" | (v) "ipc ?p = I_setval" | (d) "ipc ?p = I_dummy" using assms(3) by auto
  then show ?thesis
  proof cases
    case c
    then show ?thesis using assms(2)
      by (auto simp: gstep_put split: answer.split option.split intro!: put_created [OF assms(1,2)] intro: quiet)
  next
    case v
    show ?thesis
    proof (cases "kset s")
      case None
      then show ?thesis using assms(2) v quiet by (simp add: gstep_put)
    next
      case (Some K)
      obtain S ot where K: "kset s = Some (S, ot)" using Some by (cases K) auto
      then show ?thesis using assms(2) v quiet put_setval [OF assms(1,2) K v]
        by (auto simp: gstep_put semctl_SETVAL_def SEMVMX_def split: answer.split)
    qed
  next
    case d
    show ?thesis
    proof (cases "kset s")
      case None
      then show ?thesis using assms(2) d quiet by (simp add: gstep_put)
    next
      case (Some K)
      obtain S ot where K: "kset s = Some (S, ot)" using Some by (cases K) auto
      obtain r K1 where r: "k_semop \<lparr>sem_num = 0, sem_op = 0, sem_flg = 0\<rparr> a (S, ot) = (r, K1)" by (metis surj_pair)
      have l: "length (semval S) = 1" using assms(1) K by (simp add: init_ok_def)
      from r l show ?thesis
      proof (cases rule: k_semop_cases)
        case (completed T)
        then have "semval T = semval S" using l by (auto simp: length_Suc_conv)
        then show ?thesis using assms(2) d K r completed put_dummy [OF assms(1,2) K d] by (simp add: gstep_put)
      next
        case none
        then show ?thesis using assms(1,2) d K r quiet put_same [OF assms(2)]
          by (cases r) (simp_all add: gstep_put)
      qed
    qed
  qed
qed

lemma gstep_ok:
  assumes "init_ok s"
  shows "init_ok (gstep junk i a s)"
proof (cases "i < length (procs s)")
  case i: True
  let ?p = "procs s ! i"
  show ?thesis
  proof (cases "ipc ?p")
    case g: I_getid
    then have "added ?p = 0" by (simp add: added_def)
    then show ?thesis using i g
      by (auto simp: gstep_put split: answer.split intro!: put_quiet [OF assms i])
  next
    case g: (I_poll j)
    then have "added ?p = 0" by (simp add: added_def)
    then show ?thesis using i g
      by (auto simp: gstep_put Let_def split: answer.split option.split intro!: put_quiet [OF assms i])
  next
    case g: I_op
    then have a0: "added ?p = 0" by (simp add: added_def)
    note quiet = put_quiet [OF assms i a0]
    show ?thesis
    proof (cases "getInt (Some (arg ?p)) 0 (Some ''sem-op'')")
      case (Inl m)
      then show ?thesis using i g quiet by (simp add: gstep_put)
    next
      case v: (Inr v)
      show ?thesis
      proof (cases "kset s")
        case None
        then show ?thesis using i g v quiet by (simp add: gstep_put do_op_def finish_op_def)
      next
        case (Some K)
        obtain S where K: "kset s = Some (S, True)"
          using Some working_initialised [OF assms i] g by (cases K) (auto simp: working_def)
        obtain r K1 where r: "k_semop \<lparr>sem_num = 0, sem_op = to_int16 v, sem_flg = 0\<rparr> a (S, True) = (r, K1)" by (metis surj_pair)
        have l: "length (semval S) = 1" using assms K by (simp add: init_ok_def)
        from r l show ?thesis
        proof (cases rule: k_semop_cases)
          case (completed T)
          then show ?thesis using i g v K r put_op [OF assms i K g, of T]
            by (simp add: gstep_put do_op_def finish_op_def added_def)
        next
          case none
          then show ?thesis using assms i g v K r quiet put_same [OF i]
            by (cases r) (simp_all add: gstep_put do_op_def finish_op_def)
        qed
      qed
    qed
  qed (use assms i put_same [OF i] gstep_ok_create [OF assms i] in \<open>simp_all add: gstep_put\<close>)
qed (use assms in \<open>simp add: gstep_def\<close>)

lemma init_ok_start: "init_ok (isys_init qs)"
  by (auto simp: init_ok_def isys_init_def fresh_proc_def creators_def unused_def creating_def working_def)

lemma good_reach_ok: "good_reach junk qs s \<Longrightarrow> init_ok s"
  by (induction rule: good_reach.induct) (auto intro: init_ok_start gstep_ok)

section \<open>Properties\<close>

fun good_run :: "nat \<Rightarrow> (nat \<times> answer) list \<Rightarrow> isys \<Rightarrow> isys" where
  "good_run junk [] s = s"
| "good_run junk ((i, a) # as) s = good_run junk as (gstep junk i a s)"

lemma good_run_reach: "good_reach junk qs s \<Longrightarrow> good_reach junk qs (good_run junk as s)"
  by (induction junk as s rule: good_run.induct) (simp_all add: good_reach.intros)

text \<open>
  C7. With svsem_good_init, whatever the initial contents of the set, however many processes there are
  and however their calls interleave and fail: a process performs its operation only on an initialised
  semaphore, and from then on the value of the semaphore is the sum of the completed operations; none is
  lost.
\<close>

theorem good_init_safe:
  assumes "good_reach junk qs s" "i < length (procs s)" "ipc (procs s ! i) = I_op \<or> ipc (procs s ! i) = I_done"
  shows "\<exists>S. kset s = Some (S, True) \<and> int (semval S ! 0) = total s"
proof -
  have "working (procs s ! i)" using assms(3) by (simp add: working_def)
  moreover have "init_ok s" using assms(1) by (rule good_reach_ok)
  ultimately show ?thesis using assms(2)
    by (auto simp: init_ok_def unused_def split: option.splits prod.splits if_splits)
qed

theorem good_init_safe_witness:
  "\<exists>S. kset (good_run 99 (map (\<lambda>i. (i, Upto 0)) [0, 1, 1, 1, 0, 1, 0, 0, 1, 1]) (isys_init [(''3'', 7), (''-1'', 8)])) =
     Some (S, True) \<and> int (semval S ! 0) = 2"
proof -
  let ?s = "good_run 99 (map (\<lambda>i. (i, Upto 0)) [0, 1, 1, 1, 0, 1, 0, 0, 1, 1]) (isys_init [(''3'', 7), (''-1'', 8)])"
  have "good_reach 99 [(''3'', 7), (''-1'', 8)] ?s" by (intro good_run_reach good_reach.start)
  moreover have args: "getInt (Some ''3'') 0 (Some ''sem-op'') = Inr 3" "getInt (Some ''-1'') 0 (Some ''sem-op'') = Inr (- 1)"
    by code_simp+
  have p: "length (procs ?s) = 2 \<and> ipc (procs ?s ! 1) = I_done \<and> total ?s = 2"
    by (simp add: isys_init_def fresh_proc_def gstep_def do_op_def finish_op_def k_semop_def semop_def sem_try_def
        sem_adjust_def semctl_SETVAL_def goto_def say_def to_int16_def SEMVMX_def MAX_TRIES_def Let_def args total_def
        added_def)
  ultimately show ?thesis using good_init_safe [of 99 _ ?s 1] p by simp
qed

text \<open>
  C20. With svsem_bad_init the operation of a process can be lost: two processes that both add 1 can both
  finish with the semaphore at 1.
\<close>

theorem bad_init_loses_operation:
  "\<exists>s S. bad_reach 0 [(a, p), (b, q)] s \<and> map ipc (procs s) = [I_done, I_done] \<and>
     kset s = Some (S, True) \<and> semval S ! 0 = 1"
proof -
  let ?g = "\<lambda>i. bstep 0 i (Upto 0)"
  let ?s = "?g 0 (?g 0 (?g 1 (?g 1 (?g 1 (?g 0 (isys_init [(a, p), (b, q)]))))))"
  have "bad_reach 0 [(a, p), (b, q)] ?s" by (intro bad_reach.intros)
  moreover have "map ipc (procs ?s) = [I_done, I_done] \<and> (\<exists>S. kset ?s = Some (S, True) \<and> semval S ! 0 = 1)"
    by (simp add: isys_init_def fresh_proc_def bstep_def do_op_def finish_op_def k_semop_def semop_def sem_try_def
        sem_adjust_def semctl_SETVAL_def goto_def to_int16_def SEMVMX_def Let_def)
  ultimately show ?thesis by (intro exI [of _ ?s]) simp
qed

end
