(* ===== verification/SemOp.thy ===== *)
theory SemOp
  imports SysVSem ErrorFunctions GetNum
begin

text \<open>
  The program \<open>tlpi-dist/svsem/svsem_op.c\<close>: parsing of groups of semaphore operations and their execution.
  The kernel is the parameter \<open>semos\<close>: the clock, and semop(2) on a set identifier.
\<close>

section \<open>Parsing\<close>

definition MAX_SEMOPS :: nat where "MAX_SEMOPS = 1000"

text \<open>The two ways in which \<open>parseOps\<close> ends the program.\<close>

datatype parse_end = CmdLine string | Fatal string

fun sem_flags :: "string \<Rightarrow> int \<Rightarrow> int \<times> string" where
  "sem_flags [] acc = (acc, [])"
| "sem_flags (c # cs) acc =
     (if c = CHR ''n'' then sem_flags cs (acc OR IPC_NOWAIT)
      else if c = CHR ''u'' then sem_flags cs (acc OR SEM_UNDO)
      else (acc, c # cs))"

definition quoted :: "string \<Rightarrow> string" where
  "quoted t = [CHR 0x22] @ t @ [CHR 0x22]"

definition parse_op :: "string \<Rightarrow> string \<Rightarrow> parse_end + sembuf" where
  "parse_op arg remaining =
     (if remaining = [] then Inl (Fatal (msg [''Trailing comma or empty argument: '', quoted arg]))
      else if \<not> isdigit (hd remaining) then Inl (CmdLine (msg [''Expected initial digit: '', quoted arg, nl]))
      else
        let (num, sign, e1) = strtol remaining 10
        in if sign = [] \<or> hd sign \<notin> {CHR ''+'', CHR ''-'', CHR ''=''}
           then Inl (CmdLine (msg [''Expected '', [CHR 0x27], ''+'', [CHR 0x27], '', '', [CHR 0x27], ''-'', [CHR 0x27], '', or '',
                  [CHR 0x27], ''='', [CHR 0x27], '' in '', quoted arg, nl]))
           else if tl sign = [] \<or> \<not> isdigit (hd (tl sign))
           then Inl (CmdLine (msg [''Expected digit after '', [CHR 0x27, hd sign, CHR 0x27], '' in '', quoted arg, nl]))
           else
             let (v, flags, e2) = strtol (tl sign) 10;
                 op = (if hd sign = CHR ''-'' then to_int16 (- to_int16 v) else to_int16 v);
                 (flg, rest) = sem_flags flags 0
             in if hd sign = CHR ''='' \<and> op \<noteq> 0
                then Inl (CmdLine (msg [''Expected '', quoted ''=0'', '' in '', quoted arg, nl]))
                else if rest \<noteq> [] \<and> hd rest \<noteq> CHR '',''
                then Inl (CmdLine (msg [''Bad trailing character ('', [hd rest], '') in '', quoted arg, nl]))
                else Inr \<lparr>sem_num = word_of_int num, sem_op = op, sem_flg = flg\<rparr>)"

function parse_ops :: "string \<Rightarrow> nat \<Rightarrow> string \<Rightarrow> parse_end + sembuf list" where
  "parse_ops arg numOps remaining =
     (if numOps \<ge> MAX_SEMOPS
      then Inl (CmdLine (msg [''Too many operations (maximum='', dec (int MAX_SEMOPS), ''): '', quoted arg, nl]))
      else case parse_op arg remaining of
             Inl e \<Rightarrow> Inl e
           | Inr sop \<Rightarrow>
               (case strchr remaining (CHR '','') of
                  None \<Rightarrow> Inr [sop]
                | Some comma \<Rightarrow>
                    (case parse_ops arg (Suc numOps) (drop (Suc comma) remaining) of
                       Inl e \<Rightarrow> Inl e | Inr sops \<Rightarrow> Inr (sop # sops))))"
  by pat_completeness auto
termination
  by (relation "measure (\<lambda>(arg, n, r). length r)") (auto dest: strchr_less)

declare parse_ops.simps [simp del]

definition parseOps :: "string \<Rightarrow> parse_end + sembuf list" where
  "parseOps arg = parse_ops arg 0 arg"

section \<open>The main program\<close>

record 'w semos =
  os_now :: "'w \<Rightarrow> string"
  os_semop :: "int \<Rightarrow> sembuf list \<Rightarrow> 'w \<Rightarrow> int option \<times> 'w"
  os_pid :: int
  os_strerror :: "int \<Rightarrow> string"

definition pad5 :: "string \<Rightarrow> string" where
  "pad5 t = replicate (5 - length t) (CHR '' '') @ t"

definition op_usageError :: "string \<Rightarrow> 'w proc \<Rightarrow> ('w proc, 'a) res" where
  "op_usageError progName s =
     exit3 EXIT_FAILURE (fold fputs_err
       [msg [''Usage: '', progName, '' semid op[,op...] ...'', nl, nl],
        msg [[CHR 0x27], ''op'', [CHR 0x27], '' is either: <sem#>{+|-}<value>[n][u]'', nl],
        msg [''            or: <sem#>=0[n]'', nl],
        msg [''       '', quoted ''n'', '' means include IPC_NOWAIT in '', [CHR 0x27], ''op'', [CHR 0x27], nl],
        msg [''       '', quoted ''u'', '' means include SEM_UNDO in '', [CHR 0x27], ''op'', [CHR 0x27], nl, nl],
        msg [''The operations in each argument are performed in a single semop() call'', nl, nl],
        msg [''e.g.: '', progName, '' 12345 0+1,1-2un'', nl],
        msg [''      '', progName, '' 12345 0=0n 1+1,2-1u 1=0'', nl]] s)"

fun do_args :: "'w semos \<Rightarrow> string \<Rightarrow> string list \<Rightarrow> 'w proc \<Rightarrow> ('w proc, unit) res" where
  "do_args K semid [] s = Ret () s"
| "do_args K semid (a # as) s =
     (case parseOps a of
        Inl (CmdLine m) \<Rightarrow> cmdLineErr m s
      | Inl (Fatal m) \<Rightarrow> fatal (os_strerror K) m s
      | Inr sops \<Rightarrow>
          let s1 = printf_out (msg [pad5 (dec (os_pid K)), '', '', os_now K (world s), '': about to semop()  ['', a, '']'', nl]) s
          in case getInt (Some semid) 0 (Some ''semid'') of
               Inl m \<Rightarrow> exit3 EXIT_FAILURE (fputs_err m s1)
             | Inr i \<Rightarrow>
                 (case os_semop K i sops (world s1) of
                    (Some e, w) \<Rightarrow>
                      errExit (os_strerror K) (msg [''semop (PID='', dec (os_pid K), '')'']) (s1\<lparr>world := w, errno := e\<rparr>)
                  | (None, w) \<Rightarrow>
                      do_args K semid as
                        (printf_out (msg [pad5 (dec (os_pid K)), '', '', os_now K w, '': semop() completed ['', a, '']'', nl])
                          (s1\<lparr>world := w\<rparr>))))"

definition svsem_op_main :: "'w semos \<Rightarrow> string \<Rightarrow> string list \<Rightarrow> 'w proc \<Rightarrow> ('w proc, unit) res" where
  "svsem_op_main K progName args s =
     (if args = [] \<or> hd args = ''--help'' then op_usageError progName s
      else bindR (do_args K (hd args) (tl args) s) (\<lambda>_ s1. exit3 EXIT_SUCCESS s1))"

section \<open>Printing and parsing operations\<close>

definition show_flags :: "int \<Rightarrow> string" where
  "show_flags f = (if f AND IPC_NOWAIT \<noteq> 0 then ''n'' else '''') @ (if f AND SEM_UNDO \<noteq> 0 then ''u'' else '''')"

definition show_op :: "sembuf \<Rightarrow> string" where
  "show_op b = dec (uint (sem_num b)) @ (if 0 < sem_op b then ''+'' else if sem_op b = 0 then ''='' else ''-'')
     @ dec \<bar>sem_op b\<bar> @ show_flags (sem_flg b)"

definition op_ok :: "sembuf \<Rightarrow> bool" where
  "op_ok b = (- 32767 \<le> sem_op b \<and> sem_op b \<le> 32767 \<and> sem_flg b \<in> {0, IPC_NOWAIT, SEM_UNDO, IPC_NOWAIT + SEM_UNDO})"

lemma isdigit_dec:
  assumes "0 \<le> i"
  shows "dec i \<noteq> []" "isdigit (hd (dec i))"
proof -
  obtain d cs where "d < 10" "digits10 (nat i) = digit_char d # cs" using hd_digits10 by blast
  then show "dec i \<noteq> []" "isdigit (hd (dec i))" using assms by (simp_all add: dec_def isdigit_def)
qed

lemma sem_flags_show:
  assumes "f \<in> {0, IPC_NOWAIT, SEM_UNDO, IPC_NOWAIT + SEM_UNDO}" "rest = [] \<or> hd rest = CHR '',''"
  shows "sem_flags (show_flags f @ rest) 0 = (f, rest)"
  using assms by (cases rest) (auto simp: show_flags_def IPC_NOWAIT_def SEM_UNDO_def)

definition sign_op :: "char \<Rightarrow> int \<Rightarrow> int" where
  "sign_op c v = (if c = CHR ''-'' then to_int16 (- to_int16 v) else to_int16 v)"

text \<open>What \<open>parse_op\<close> makes of a text that starts with a number, a sign and a number.\<close>

lemma parse_op_numbers:
  assumes "0 \<le> n" "n \<le> LONG_MAX" "0 \<le> v" "v \<le> LONG_MAX" "c \<in> {CHR ''+'', CHR ''-'', CHR ''=''}" "no_digit f"
    and "sem_flags f 0 = (flg, rest)" "rest = [] \<or> hd rest = CHR '',''"
  shows "parse_op arg (dec n @ c # dec v @ f) =
    (if c = CHR ''='' \<and> sign_op c v \<noteq> 0 then Inl (CmdLine (msg [''Expected '', quoted ''=0'', '' in '', quoted arg, nl]))
     else Inr \<lparr>sem_num = word_of_int n, sem_op = sign_op c v, sem_flg = flg\<rparr>)"
proof -
  have "no_digit (c # dec v @ f)" using assms(5) by (auto simp: no_digit_def is_base_digit_def digit_of_def)
  then have n1: "strtol (dec n @ c # dec v @ f) 10 = (n, c # dec v @ f, False)"
    using assms(1,2) by (intro strtol_dec) (auto simp: long_limits)
  have n2: "strtol (dec v @ f) 10 = (v, f, False)" using assms(3,4,6) by (intro strtol_dec) (auto simp: long_limits)
  have d: "dec n @ c # dec v @ f \<noteq> []" "isdigit (hd (dec n @ c # dec v @ f))" "dec v @ f \<noteq> []" "isdigit (hd (dec v @ f))"
    using isdigit_dec [OF assms(1)] isdigit_dec [OF assms(3)] by simp_all
  show ?thesis unfolding parse_op_def n1 sign_op_def Let_def prod.case list.sel n2 assms(7)
    using d assms(5,8) by auto
qed

lemma parse_show_op:
  assumes "op_ok b" "rest = [] \<or> hd rest = CHR '',''"
  shows "parse_op arg (show_op b @ rest) = Inr b"
proof -
  let ?c = "if 0 < sem_op b then CHR ''+'' else if sem_op b = 0 then CHR ''='' else CHR ''-''"
  have b: "0 \<le> uint (sem_num b)" "uint (sem_num b) \<le> LONG_MAX" using uint_lt2p [of "sem_num b"] by (simp_all add: long_limits)
  have v: "0 \<le> \<bar>sem_op b\<bar>" "\<bar>sem_op b\<bar> \<le> LONG_MAX" using assms(1) by (auto simp: op_ok_def long_limits)
  have nf: "no_digit (show_flags (sem_flg b) @ rest)"
    using assms by (cases rest) (auto simp: no_digit_def show_flags_def is_base_digit_def digit_of_def)
  have fl: "sem_flags (show_flags (sem_flg b) @ rest) 0 = (sem_flg b, rest)"
    using assms by (intro sem_flags_show) (auto simp: op_ok_def)
  have op: "sign_op ?c \<bar>sem_op b\<bar> = sem_op b" using assms(1) by (auto simp: op_ok_def sign_op_def)
  have "show_op b @ rest = dec (uint (sem_num b)) @ ?c # dec \<bar>sem_op b\<bar> @ show_flags (sem_flg b) @ rest"
    by (simp add: show_op_def)
  then show ?thesis using parse_op_numbers [OF b v _ nf fl assms(2), of ?c arg] op by (auto split: if_splits)
qed

lemma show_op_no_comma: "CHR '','' \<notin> set (show_op b)"
  by (auto simp: show_op_def show_flags_def dec_no_mark)

lemma parse_ops_commas:
  assumes "bs \<noteq> []" "\<forall>b \<in> set bs. op_ok b" "n + length bs \<le> MAX_SEMOPS"
  shows "parse_ops arg n (commas (map show_op bs)) = Inr bs"
  using assms
proof (induction bs arbitrary: n)
  case (Cons b bs)
  have b: "op_ok b" "\<not> MAX_SEMOPS \<le> n" using Cons.prems by auto
  show ?case
  proof (cases bs)
    case Nil
    then show ?thesis using b parse_show_op [OF b(1), of "[]" arg] strchr_None [OF show_op_no_comma [of b]]
      by (simp add: parse_ops.simps [of arg n])
  next
    case (Cons c cs)
    let ?r = "commas (map show_op bs)"
    have s: "commas (map show_op (b # bs)) = show_op b @ CHR '','' # ?r" using Cons by simp
    have "parse_ops arg (Suc n) ?r = Inr bs" using Cons Cons.prems by (intro Cons.IH) auto
    then show ?thesis unfolding s
      using b parse_show_op [OF b(1), of "CHR '','' # ?r" arg] strchr_append [OF show_op_no_comma, of b ?r]
      by (simp add: parse_ops.simps [of arg n])
  qed
qed simp

text \<open>
  C21. Every list of at most 1000 operations, each with a 16-bit semaphore number, an operation of
  magnitude at most 32767 and any combination of the two flags, comes back from its textual form
  unchanged and in order.
\<close>

theorem parseOps_show:
  assumes "bs \<noteq> []" "\<forall>b \<in> set bs. op_ok b" "length bs \<le> MAX_SEMOPS"
  shows "parseOps (commas (map show_op bs)) = Inr bs"
  using parse_ops_commas [of bs 0] assms by (simp add: parseOps_def)

theorem parseOps_show_witness:
  "parseOps ''0+1,1-2nu,2=0n'' = Inr [\<lparr>sem_num = 0, sem_op = 1, sem_flg = 0\<rparr>,
     \<lparr>sem_num = 1, sem_op = - 2, sem_flg = IPC_NOWAIT + SEM_UNDO\<rparr>, \<lparr>sem_num = 2, sem_op = 0, sem_flg = IPC_NOWAIT\<rparr>]"
proof -
  let ?bs = "[\<lparr>sem_num = 0, sem_op = 1, sem_flg = 0\<rparr>, \<lparr>sem_num = 1, sem_op = - 2, sem_flg = IPC_NOWAIT + SEM_UNDO\<rparr>,
    \<lparr>sem_num = 2, sem_op = 0, sem_flg = IPC_NOWAIT\<rparr>]"
  have "commas (map show_op ?bs) = ''0+1,1-2nu,2=0n''" by code_simp
  moreover have "\<forall>b \<in> set ?bs. op_ok b" by (simp add: op_ok_def)
  ultimately show ?thesis using parseOps_show [of ?bs] by (simp add: MAX_SEMOPS_def)
qed

text \<open>
  The check for \<open>=0\<close> is made after the number has been cut to 16 bits: an operation \<open>=65536\<close> is
  accepted as a wait for zero, and \<open>+65537\<close> as an increment by one.
\<close>

theorem parseOps_truncates:
  assumes "0 \<le> v" "v \<le> LONG_MAX" "0 \<le> n" "n \<le> LONG_MAX"
  shows "parseOps (dec n @ ''+'' @ dec v) = Inr [\<lparr>sem_num = word_of_int n, sem_op = to_int16 v, sem_flg = 0\<rparr>] \<and>
    (to_int16 v = 0 \<longrightarrow> parseOps (dec n @ ''='' @ dec v) = Inr [\<lparr>sem_num = word_of_int n, sem_op = 0, sem_flg = 0\<rparr>])"
proof -
  have nc: "strchr (dec n @ c # dec v) (CHR '','') = None" if "c \<noteq> CHR '',''" for c
    using that dec_no_mark(2) [OF assms(1)] dec_no_mark(2) [OF assms(3)] by (intro strchr_None) auto
  have "parse_op arg (dec n @ c # dec v) = Inr \<lparr>sem_num = word_of_int n, sem_op = to_int16 v, sem_flg = 0\<rparr>"
    if "c = CHR ''+'' \<or> c = CHR ''='' \<and> to_int16 v = 0" for c arg
    using parse_op_numbers [OF assms(3,4,1,2), of c "[]" 0 "[]" arg] that by (auto simp: sign_op_def)
  then show ?thesis using nc by (auto simp: parseOps_def parse_ops.simps [of _ 0] MAX_SEMOPS_def)
qed

theorem parseOps_truncates_witness:
  "parseOps ''0=65536'' = Inr [\<lparr>sem_num = 0, sem_op = 0, sem_flg = 0\<rparr>] \<and>
   parseOps ''0+65537'' = Inr [\<lparr>sem_num = 0, sem_op = 1, sem_flg = 0\<rparr>]"
proof -
  have "digit_char 0 = CHR ''0''" "digit_char 3 = CHR ''3''" "digit_char 5 = CHR ''5''" "digit_char 6 = CHR ''6''"
    "digit_char 7 = CHR ''7''" by code_simp+
  then have d: "dec 0 = ''0''" "dec 65536 = ''65536''" "dec 65537 = ''65537''"
    by (simp_all add: dec_def digits10.simps)
  have "to_int16 65536 = 0" "to_int16 65537 = 1" by (simp_all add: to_int16_def)
  then show ?thesis using parseOps_truncates [of 65536 0] parseOps_truncates [of 65537 0] by (simp add: d long_limits)
qed

end
