(* ===== verification/MsgFile.thy ===== *)
theory MsgFile
  imports ReadIO ErrorFunctions
begin

text \<open>
  The file server and client of \<open>tlpi-dist/svmsg\<close> (\<open>svmsg_file_server.c\<close>, \<open>svmsg_file_client.c\<close>), which talk
  through System V message queues. For the server a call of msgsnd(2) is answered like a write; the result
  of \<open>serveRequest\<close> is the messages that reach the client's queue. The client runs against the parameter
  \<open>msgos\<close>, its queue operations; \<open>None\<close> is a msgrcv(2) that has not returned.
\<close>

section \<open>Messages\<close>

definition RESP_MSG_SIZE :: nat where "RESP_MSG_SIZE = 8192"
definition PATH_MAX :: nat where "PATH_MAX = 4096"
definition RESP_MT_FAILURE :: int where "RESP_MT_FAILURE = 1"
definition RESP_MT_DATA :: int where "RESP_MT_DATA = 2"
definition RESP_MT_END :: int where "RESP_MT_END = 3"

lemmas resp_types = RESP_MT_FAILURE_def RESP_MT_DATA_def RESP_MT_END_def

record requestMsg =
  clientId :: int
  pathname :: string

record responseMsg =
  mtype :: int
  mdata :: string

section \<open>The server\<close>

text \<open>A message reaches the queue unless msgsnd(2) fails or is interrupted.\<close>

fun sent :: "answer \<Rightarrow> bool" where
  "sent (Upto k) = True"
| "sent a = False"

fun serve_loop :: "answer list \<Rightarrow> source \<Rightarrow> (responseMsg list \<times> answer list) option" where
  "serve_loop sends f =
     (case read_call RESP_MSG_SIZE f of
        None \<Rightarrow> None
      | Some (Inl e, f1) \<Rightarrow> Some ([], sends)
      | Some (Inr b, f1) \<Rightarrow>
          if b = [] then Some ([], sends)
          else (case sends of
                  [] \<Rightarrow> None
                | a # as \<Rightarrow>
                    if sent a
                    then map_option (\<lambda>(ms, rest). (\<lparr>mtype = RESP_MT_DATA, mdata = b\<rparr> # ms, rest)) (serve_loop as f1)
                    else Some ([], as)))"

declare serve_loop.simps [simp del]

text \<open>The exit status and the messages in the queue; the last message of a call may be lost.\<close>

definition send_last :: "responseMsg \<Rightarrow> answer list \<Rightarrow> responseMsg list option" where
  "send_last r sends = (case sends of [] \<Rightarrow> None | a # as \<Rightarrow> Some (if sent a then [r] else []))"

definition serveRequest :: "(string \<Rightarrow> source option) \<Rightarrow> answer list \<Rightarrow> requestMsg \<Rightarrow> (int \<times> responseMsg list) option" where
  "serveRequest open2 sends req =
     (case open2 (pathname req) of
        None \<Rightarrow>
          map_option (\<lambda>ms. (EXIT_FAILURE, ms))
            (send_last \<lparr>mtype = RESP_MT_FAILURE,
               mdata = snprintf RESP_MSG_SIZE (''Couldn'' @ [CHR 0x27] @ ''t open'') @ [CHR 0x00]\<rparr> sends)
      | Some f \<Rightarrow>
          (case serve_loop sends f of
             None \<Rightarrow> None
           | Some (ms, rest) \<Rightarrow>
               map_option (\<lambda>l. (EXIT_SUCCESS, ms @ l)) (send_last \<lparr>mtype = RESP_MT_END, mdata = []\<rparr> rest)))"

text \<open>
  The loop of the parent over what its calls answer: a request, with the error of fork(2) if there is one, or
  an error of msgrcv(2), which is an interrupt for EINTR. The result is the requests handed to children, in
  order, and how the loop ended, if it did: the message and the error number.
\<close>

datatype arrival = Request requestMsg "int option" | Rcv_error int

fun server_loop :: "arrival list \<Rightarrow> requestMsg list \<times> (string \<times> int) option" where
  "server_loop [] = ([], None)"
| "server_loop (Rcv_error e # as) = (if e = IO_EINTR then server_loop as else ([], Some (''msgrcv'', e)))"
| "server_loop (Request r forked # as) =
     (case forked of
        None \<Rightarrow> (let (rs, e) = server_loop as in (r # rs, e))
      | Some e \<Rightarrow> ([], Some (''fork'', e)))"

text \<open>
  The signal handler on the results of waitpid(2): how many children it reaps, and errno, which waitpid sets
  when it returns -1 and the handler restores.
\<close>

fun grimReaper :: "int list \<Rightarrow> int \<Rightarrow> nat \<times> int" where
  "grimReaper [] savedErrno = (0, savedErrno)"
| "grimReaper (pid # pids) savedErrno =
     (if pid > 0 then (case grimReaper pids savedErrno of (n, e) \<Rightarrow> (Suc n, e)) else (0, savedErrno))"

text \<open>
  The results of the other calls of \<open>main\<close>: the server's queue, the installation of the handler, and the
  removal of the queue. The outcome is the requests handed to children and the end of the parent, if any.
\<close>

record server_calls =
  sc_msgget :: "int + int"
  sc_sigaction :: "int option"
  sc_arrivals :: "arrival list"
  sc_rmid :: "int option"

definition server_main :: "(int \<Rightarrow> string) \<Rightarrow> server_calls \<Rightarrow> 'w proc \<Rightarrow> requestMsg list \<times> ('w proc, unit) res option" where
  "server_main serr c s =
     (case sc_msgget c of
        Inl e \<Rightarrow> ([], Some (errExit serr ''msgget'' (s\<lparr>errno := e\<rparr>)))
      | Inr serverId \<Rightarrow>
          (case sc_sigaction c of
             Some e \<Rightarrow> ([], Some (errExit serr ''sigaction'' (s\<lparr>errno := e\<rparr>)))
           | None \<Rightarrow>
               (case server_loop (sc_arrivals c) of
                  (rs, None) \<Rightarrow> (rs, None)
                | (rs, Some (m, e)) \<Rightarrow>
                    let t = errMsg serr m (s\<lparr>errno := e\<rparr>)
                    in (rs, Some (case sc_rmid c of
                                    Some e1 \<Rightarrow> errExit serr ''msgctl'' (t\<lparr>errno := e1\<rparr>)
                                  | None \<Rightarrow> exit3 EXIT_SUCCESS t)))))"

section \<open>The client\<close>

record 'w msgos =
  mo_server :: "'w \<Rightarrow> int + int"
  mo_private :: "'w \<Rightarrow> (int + int) \<times> 'w"
  mo_atexit :: "'w \<Rightarrow> bool"
  mo_snd :: "int \<Rightarrow> requestMsg \<Rightarrow> 'w \<Rightarrow> int option \<times> 'w"
  mo_rcv :: "int \<Rightarrow> 'w \<Rightarrow> ((int + responseMsg) \<times> 'w) option"
  mo_rm :: "int \<Rightarrow> 'w \<Rightarrow> int option \<times> 'w"
  mo_strerror :: "int \<Rightarrow> string"

text \<open>The exit handler removes the queue; its own failure ends the process with \<open>errExit\<close>.\<close>

definition removeQueue :: "'w msgos \<Rightarrow> int \<Rightarrow> ('w proc, 'a) res \<Rightarrow> ('w proc, 'a) res" where
  "removeQueue K cid r =
     (case r of
        Exit c s \<Rightarrow>
          (case mo_rm K cid (world s) of
             (None, w) \<Rightarrow> Exit c (s\<lparr>world := w\<rparr>)
           | (Some e, w) \<Rightarrow> errExit (mo_strerror K) ''msgctl'' (s\<lparr>world := w, errno := e\<rparr>))
      | _ \<Rightarrow> r)"

definition rcv :: "'w msgos \<Rightarrow> int \<Rightarrow> 'w proc \<Rightarrow> ('w proc, responseMsg) res option" where
  "rcv K cid s =
     map_option (\<lambda>(r, w). case r of
         Inl e \<Rightarrow> errExit (mo_strerror K) ''msgrcv'' (s\<lparr>world := w, errno := e\<rparr>)
       | Inr m \<Rightarrow> Ret m (s\<lparr>world := w\<rparr>)) (mo_rcv K cid (world s))"

partial_function (option) rcv_loop ::
    "'w msgos \<Rightarrow> int \<Rightarrow> responseMsg \<Rightarrow> int \<Rightarrow> int \<Rightarrow> 'w proc \<Rightarrow> ('w proc, int \<times> int) res option" where
  "rcv_loop K cid resp totBytes numMsgs s =
     (if mtype resp = RESP_MT_DATA
      then Option.bind (rcv K cid s) (\<lambda>r. case r of
             Ret m s1 \<Rightarrow> rcv_loop K cid m (totBytes + int (length (mdata m))) (numMsgs + 1) s1
           | Exit c s1 \<Rightarrow> Some (Exit c s1)
           | Abort s1 \<Rightarrow> Some (Abort s1)
           | Undef \<Rightarrow> Some Undef)
      else Some (Ret (totBytes, numMsgs) s))"

text \<open>The part of the client from the request on, with the exit handler in place.\<close>

definition transfer :: "'w msgos \<Rightarrow> int \<Rightarrow> int \<Rightarrow> string \<Rightarrow> 'w proc \<Rightarrow> ('w proc, unit) res option" where
  "transfer K serverId cid path s =
     (case mo_snd K serverId \<lparr>clientId = cid, pathname = strncpy (PATH_MAX - 1) path\<rparr> (world s) of
        (Some e, w) \<Rightarrow> Some (errExit (mo_strerror K) ''msgsnd'' (s\<lparr>world := w, errno := e\<rparr>))
      | (None, w) \<Rightarrow>
          Option.bind (rcv K cid (s\<lparr>world := w\<rparr>)) (\<lambda>r. case r of
            Ret m s1 \<Rightarrow>
              if mtype m = RESP_MT_FAILURE
              then Some (exit3 EXIT_FAILURE (printf_out (msg [takeWhile (\<lambda>c. c \<noteq> CHR 0x00) (mdata m), nl]) s1))
              else map_option (\<lambda>q. bindR q (\<lambda>(totBytes, numMsgs) s2.
                     exit3 EXIT_SUCCESS (printf_out (msg [''Received '', dec totBytes, '' bytes ('', dec numMsgs,
                       '' messages)'', nl]) s2)))
                     (rcv_loop K cid m (int (length (mdata m))) 1 s1)
          | Exit c s1 \<Rightarrow> Some (Exit c s1)
          | Abort s1 \<Rightarrow> Some (Abort s1)
          | Undef \<Rightarrow> Some Undef))"

definition client_main :: "'w msgos \<Rightarrow> string \<Rightarrow> string list \<Rightarrow> 'w proc \<Rightarrow> ('w proc, unit) res option" where
  "client_main K progName args s =
     (if length args \<noteq> 1 \<or> hd args = ''--help'' then Some (usageErr (msg [progName, '' pathname'', nl]) s)
      else if length (hd args) > PATH_MAX - 1
      then Some (cmdLineErr (msg [''pathname too long (max: '', dec (int PATH_MAX - 1), '' bytes)'', nl]) s)
      else case mo_server K (world s) of
             Inl e \<Rightarrow> Some (errExit (mo_strerror K) ''msgget - server message queue'' (s\<lparr>errno := e\<rparr>))
           | Inr serverId \<Rightarrow>
               (case mo_private K (world s) of
                  (Inl e, w) \<Rightarrow>
                    Some (errExit (mo_strerror K) ''msgget - client message queue'' (s\<lparr>world := w, errno := e\<rparr>))
                | (Inr cid, w) \<Rightarrow>
                    if \<not> mo_atexit K w then Some (errExit (mo_strerror K) ''atexit'' (s\<lparr>world := w\<rparr>))
                    else map_option (removeQueue K cid) (transfer K serverId cid (hd args) (s\<lparr>world := w\<rparr>))))"

section \<open>The requests of a server\<close>

text \<open>A run in which no call fails hands every request to a child and goes on, whatever the interrupts.\<close>

lemma server_loop_serves_all:
  "set as \<subseteq> range (\<lambda>r. Request r None) \<union> {Rcv_error IO_EINTR} \<Longrightarrow>
     server_loop as = (concat (map (\<lambda>a. case a of Request r f \<Rightarrow> [r] | Rcv_error e \<Rightarrow> []) as), None)"
  by (induction as) auto

text \<open>The first failure ends it: later requests are not served.\<close>

lemma server_loop_stops:
  assumes "set as \<subseteq> range (\<lambda>r. Request r None) \<union> {Rcv_error IO_EINTR}" "e \<noteq> IO_EINTR"
  shows "server_loop (as @ Rcv_error e # bs) = (fst (server_loop as), Some (''msgrcv'', e)) \<and>
    server_loop (as @ Request r (Some n) # bs) = (fst (server_loop as), Some (''fork'', n))"
  using assms by (induction as) (auto simp: split_def Let_def)

lemma grimReaper_restores: "snd (grimReaper pids e) = e"
  by (induction pids) (auto split: prod.splits)

section \<open>The transfer of a file\<close>

definition steady :: "answer list \<Rightarrow> bool" where
  "steady as = (\<forall>a \<in> set as. sent a)"

definition data_msgs :: "responseMsg list \<Rightarrow> bool" where
  "data_msgs ms = (\<forall>m \<in> set ms. mtype m = RESP_MT_DATA \<and> mdata m \<noteq> [] \<and> length (mdata m) \<le> RESP_MSG_SIZE)"

lemma steady_Cons: "steady (a # as) \<longleftrightarrow> (\<exists>k. a = Upto k) \<and> steady as"
  by (cases a) (auto simp: steady_def)

lemma serve_loop_all:
  assumes "steady sends" "steady (answers f)" "length (pending f) < length sends" "length (pending f) < length (answers f)"
  shows "\<exists>ms rest. serve_loop sends f = Some (ms, rest) \<and> data_msgs ms \<and> concat (map mdata ms) = pending f \<and>
    steady rest \<and> rest \<noteq> []"
  using assms
proof (induction "length (pending f)" arbitrary: f sends rule: less_induct)
  case less
  obtain k as where as: "answers f = Upto k # as" "steady as"
    using less.prems by (cases "answers f") (auto simp: steady_Cons)
  let ?m = "min RESP_MSG_SIZE (Suc k)"
  let ?f = "\<lparr>pending = drop ?m (pending f), answers = as\<rparr>"
  have rd: "read_call RESP_MSG_SIZE f = Some (Inr (take ?m (pending f)), ?f)"
    by (simp add: read_call_def as Let_def)
  have m0: "0 < ?m" "?m \<le> RESP_MSG_SIZE" by (simp_all add: RESP_MSG_SIZE_def)
  show ?case
  proof (cases "pending f = []")
    case True
    then show ?thesis using rd less.prems by (auto simp: serve_loop.simps [of sends f] data_msgs_def)
  next
    case False
    obtain j ss where ss: "sends = Upto j # ss" "steady ss" using less.prems by (cases sends) (auto simp: steady_Cons)
    have lt: "length (pending ?f) < length (pending f)" using False m0 by (cases "pending f") auto
    moreover have "length (pending ?f) < length ss" "length (pending ?f) < length (answers ?f)"
      using lt less.prems(3,4) by (simp_all add: ss as)
    ultimately obtain ms rest where r: "serve_loop ss ?f = Some (ms, rest)" "data_msgs ms"
      "concat (map mdata ms) = pending ?f" "steady rest" "rest \<noteq> []"
      using less.hyps [of ?f ss] ss(2) as(2) by auto
    have "take ?m (pending f) \<noteq> []" using False m0 by auto
    then have "serve_loop sends f = Some (\<lparr>mtype = RESP_MT_DATA, mdata = take ?m (pending f)\<rparr> # ms, rest)"
      using rd r(1) ss(1) by (subst serve_loop.simps) simp
    moreover have "data_msgs (\<lparr>mtype = RESP_MT_DATA, mdata = take ?m (pending f)\<rparr> # ms)"
      using r(2) False m0 by (auto simp: data_msgs_def)
    ultimately show ?thesis using r by fastforce
  qed
qed

fun replies :: "'w msgos \<Rightarrow> int \<Rightarrow> 'w \<Rightarrow> responseMsg list \<Rightarrow> 'w \<Rightarrow> bool" where
  "replies K cid w [] v = (v = w)"
| "replies K cid w (m # ms) v = (\<exists>u. mo_rcv K cid w = Some (Inr m, u) \<and> replies K cid u ms v)"

lemma rcv_reply: "mo_rcv K cid (world s) = Some (Inr m, u) \<Longrightarrow> rcv K cid s = Some (Ret m (s\<lparr>world := u\<rparr>))"
  by (simp add: rcv_def)

lemma rcv_loop_replies:
  assumes "replies K cid (world s) (ms @ [e]) v" "data_msgs ms" "mtype e = RESP_MT_END" "mtype resp = RESP_MT_DATA"
  shows "rcv_loop K cid resp t n s = Some (Ret (t + int (length (concat (map mdata (ms @ [e])))), n + int (length ms) + 1) (s\<lparr>world := v\<rparr>))"
  using assms
proof (induction ms arbitrary: resp t n s)
  case Nil
  then show ?case by (simp add: rcv_loop.simps [of K cid resp] rcv_reply rcv_loop.simps [of K cid e] resp_types)
next
  case (Cons m ms)
  then obtain u where u: "mo_rcv K cid (world s) = Some (Inr m, u)" "replies K cid u (ms @ [e]) v" by auto
  have "data_msgs ms" "mtype m = RESP_MT_DATA" using Cons.prems(2) by (auto simp: data_msgs_def)
  then have "rcv_loop K cid m (t + int (length (mdata m))) (n + 1) (s\<lparr>world := u\<rparr>) =
      Some (Ret (t + int (length (mdata m)) + int (length (concat (map mdata (ms @ [e])))), n + 1 + int (length ms) + 1) (s\<lparr>world := v\<rparr>))"
    using Cons.IH [of "s\<lparr>world := u\<rparr>" m] u(2) Cons.prems(3) by simp
  then show ?case using Cons.prems(4) by (simp add: rcv_loop.simps [of K cid resp] rcv_reply [OF u(1)] ac_simps)
qed


text \<open>The client has found the server's queue, made its own, and sent its request.\<close>

definition requested :: "'w msgos \<Rightarrow> string \<Rightarrow> int \<Rightarrow> 'w \<Rightarrow> 'w \<Rightarrow> bool" where
  "requested K path cid w v = (\<exists>sid u. mo_server K w = Inr sid \<and> mo_private K w = (Inr cid, u) \<and> mo_atexit K u \<and>
     mo_snd K sid \<lparr>clientId = cid, pathname = path\<rparr> u = (None, v))"

lemma client_main_requested:
  assumes "requested K path cid (world s) v" "path \<noteq> ''--help''" "length path < PATH_MAX"
  shows "client_main K prog [path] s = map_option (removeQueue K cid)
    (Option.bind (rcv K cid (s\<lparr>world := v\<rparr>)) (\<lambda>r. case r of
       Ret m s1 \<Rightarrow>
         if mtype m = RESP_MT_FAILURE
         then Some (exit3 EXIT_FAILURE (printf_out (msg [takeWhile (\<lambda>c. c \<noteq> CHR 0x00) (mdata m), nl]) s1))
         else map_option (\<lambda>q. bindR q (\<lambda>(totBytes, numMsgs) s2.
                exit3 EXIT_SUCCESS (printf_out (msg [''Received '', dec totBytes, '' bytes ('', dec numMsgs, '' messages)'', nl]) s2)))
                (rcv_loop K cid m (int (length (mdata m))) 1 s1)
     | Exit c s1 \<Rightarrow> Some (Exit c s1)
     | Abort s1 \<Rightarrow> Some (Abort s1)
     | Undef \<Rightarrow> Some Undef))"
  using assms by (auto simp: client_main_def transfer_def requested_def strncpy_def)

definition report :: "nat \<Rightarrow> nat \<Rightarrow> string" where
  "report bytes msgs = msg [''Received '', dec (int bytes), '' bytes ('', dec (int msgs), '' messages)'', nl]"

lemma client_main_replies:
  assumes "requested K path cid (world s) v" "path \<noteq> ''--help''" "length path < PATH_MAX"
    and ms: "data_msgs ms" "replies K cid v (ms @ [\<lparr>mtype = RESP_MT_END, mdata = []\<rparr>]) w" and rm: "mo_rm K cid w = (None, u)"
  shows "client_main K prog [path] s = Some (Exit EXIT_SUCCESS
    ((flush (printf_out (report (length (concat (map mdata ms))) (Suc (length ms))) s))\<lparr>world := u\<rparr>))"
proof (cases ms)
  case Nil
  then have r: "mo_rcv K cid v = Some (Inr \<lparr>mtype = RESP_MT_END, mdata = []\<rparr>, w)" using ms(2) by simp
  show ?thesis unfolding client_main_requested [OF assms(1-3)]
    using rcv_reply [of K cid "s\<lparr>world := v\<rparr>"] r rm Nil
    by (simp add: rcv_loop.simps [of K cid] resp_types exit3_def removeQueue_def flush_def printf_out_def report_def)
next
  case (Cons m ms')
  then obtain x where r: "mo_rcv K cid v = Some (Inr m, x)" "replies K cid x (ms' @ [\<lparr>mtype = RESP_MT_END, mdata = []\<rparr>]) w"
    using ms(2) by auto
  have m: "mtype m = RESP_MT_DATA" "data_msgs ms'" using ms(1) Cons by (auto simp: data_msgs_def)
  show ?thesis unfolding client_main_requested [OF assms(1-3)]
    using rcv_reply [of K cid "s\<lparr>world := v\<rparr>"] r(1) rm m
      rcv_loop_replies [of K cid "s\<lparr>world := x\<rparr>" ms' _ w m "int (length (mdata m))" 1, OF _ m(2) _ m(1)] r(2) Cons
    by (simp add: resp_types exit3_def removeQueue_def flush_def printf_out_def report_def ac_simps)
qed

text \<open>
  C22. A child that reads the file without errors, in pieces of any size, ends with success; a client to
  which its messages arrive in order reports the exact length of the file and the number of messages,
  removes its queue and succeeds.
\<close>

theorem file_transfer:
  assumes "requested K path cid (world s) v" "path \<noteq> ''--help''" "length path < PATH_MAX"
    and contents: "open2 path = Some f" "steady (answers f)" "length (pending f) < length (answers f)"
    and sends: "steady sends" "length (pending f) < length sends"
  shows "\<exists>ms. serveRequest open2 sends \<lparr>clientId = cid, pathname = path\<rparr> = Some (EXIT_SUCCESS, ms) \<and>
    (\<forall>w u. replies K cid v ms w \<and> mo_rm K cid w = (None, u) \<longrightarrow>
       client_main K prog [path] s = Some (Exit EXIT_SUCCESS
         ((flush (printf_out (report (length (pending f)) (length ms)) s))\<lparr>world := u\<rparr>)))"
proof -
  obtain ms rest where r: "serve_loop sends f = Some (ms, rest)" "data_msgs ms" "concat (map mdata ms) = pending f"
      "steady rest" "rest \<noteq> []"
    using serve_loop_all [OF sends(1) contents(2) sends(2) contents(3)] by blast
  obtain k rs where rest: "rest = Upto k # rs" using r(4,5) by (cases rest) (auto simp: steady_Cons)
  have "serveRequest open2 sends \<lparr>clientId = cid, pathname = path\<rparr> =
      Some (EXIT_SUCCESS, ms @ [\<lparr>mtype = RESP_MT_END, mdata = []\<rparr>])"
    using contents(1) r(1) by (simp add: serveRequest_def send_last_def rest)
  then show ?thesis using client_main_replies [OF assms(1-3) r(2)] r(3) by auto
qed


text \<open>
  A world in which the client's queue is a list of messages: sending the request puts the messages of
  the child into it, receiving takes the first.
\<close>

definition demo_file :: source where
  "demo_file = \<lparr>pending = ''hello'', answers = replicate 6 (Upto 1)\<rparr>"

definition demo_open :: "string \<Rightarrow> source option" where
  "demo_open p = (if p = ''f'' then Some demo_file else None)"

definition demo_msgos :: "responseMsg list msgos" where
  "demo_msgos = \<lparr>mo_server = (\<lambda>w. Inr 1), mo_private = (\<lambda>w. (Inr 2, w)), mo_atexit = (\<lambda>w. True),
     mo_snd = (\<lambda>q r w. (None, case serveRequest demo_open (replicate 6 (Upto 0)) r of None \<Rightarrow> w | Some (c, ms) \<Rightarrow> ms)),
     mo_rcv = (\<lambda>q w. case w of [] \<Rightarrow> None | m # ms \<Rightarrow> Some (Inr m, ms)), mo_rm = (\<lambda>q w. (None, [])), mo_strerror = (\<lambda>e. '''')\<rparr>"

lemma demo_replies: "replies demo_msgos q ms ms []"
  by (induction ms) (auto simp: demo_msgos_def)

definition demo_proc :: "responseMsg list proc" where
  "demo_proc = \<lparr>out_buf = '''', out = '''', err = '''', errno = 0, ef_dumpcore = None, world = []\<rparr>"

theorem file_transfer_witness:
  "\<exists>t. client_main demo_msgos ''c'' [''f''] demo_proc = Some (Exit EXIT_SUCCESS t) \<and> out t = report (length ''hello'') 4"
proof -
  obtain ms where ms: "serveRequest demo_open (replicate 6 (Upto 0)) \<lparr>clientId = 2, pathname = ''f''\<rparr> = Some (0, ms)" "length ms = 4"
    by (simp add: serveRequest_def demo_open_def demo_file_def serve_loop.simps read_call_def send_last_def numeral_eq_Suc
        RESP_MSG_SIZE_def Let_def)
  then have "requested demo_msgos ''f'' 2 (world demo_proc) ms" by (simp add: requested_def demo_msgos_def demo_proc_def)
  then show ?thesis
    using file_transfer [of demo_msgos "''f''" 2 demo_proc ms demo_open demo_file "replicate 6 (Upto 0)" "''c''"] ms demo_replies
    by (auto simp: demo_open_def demo_file_def steady_def PATH_MAX_def demo_msgos_def flush_def printf_out_def demo_proc_def)
qed

end
