(* ===== verification/Sockets.thy ===== *)
theory Sockets
  imports ErrorFunctions
begin

text \<open>
  The socket libraries \<open>tlpi-dist/sockets/inet_sockets.c\<close> and \<open>unix_sockets.c\<close>. The kernel and the resolver
  are the parameter \<open>netos\<close>; a failed call is \<open>Inl\<close> of its errno, which goes to the errno of the process.
  A function that returns \<open>-1\<close> is \<open>None\<close>. Every call of unixBuildAddress passes an address to fill in.
\<close>

section \<open>Calls\<close>

record addrinfo =
  ai_family :: int
  ai_socktype :: int
  ai_protocol :: int
  ai_addr :: string
  ai_addrlen :: int

record hints =
  h_family :: int
  h_socktype :: int
  h_flags :: int

definition AF_UNSPEC :: int where "AF_UNSPEC = 0"
definition AF_UNIX :: int where "AF_UNIX = 1"
definition SOCK_STREAM :: int where "SOCK_STREAM = 1"
definition AI_PASSIVE :: int where "AI_PASSIVE = 1"
definition AI_NUMERICSERV :: int where "AI_NUMERICSERV = 1024"
definition ENOSYS :: int where "ENOSYS = 38"
definition SOCK_EINVAL :: int where "SOCK_EINVAL = 22"
definition ENAMETOOLONG :: int where "ENAMETOOLONG = 36"

record 'w netos =
  os_getaddrinfo :: "string option \<Rightarrow> string \<Rightarrow> hints \<Rightarrow> 'w \<Rightarrow> int + addrinfo list"
  os_getnameinfo :: "string \<Rightarrow> bool \<Rightarrow> 'w \<Rightarrow> (string \<times> string) option"
  os_socket :: "int \<Rightarrow> int \<Rightarrow> int \<Rightarrow> 'w \<Rightarrow> (int + int) \<times> 'w"
  os_reuseaddr :: "int \<Rightarrow> 'w \<Rightarrow> int option \<times> 'w"
  os_connect :: "int \<Rightarrow> string \<Rightarrow> 'w \<Rightarrow> int option \<times> 'w"
  os_bind :: "int \<Rightarrow> string \<Rightarrow> 'w \<Rightarrow> int option \<times> 'w"
  os_listen :: "int \<Rightarrow> int \<Rightarrow> 'w \<Rightarrow> int option \<times> 'w"
  os_close :: "int \<Rightarrow> 'w \<Rightarrow> int option \<times> 'w"
  net_strerror :: "int \<Rightarrow> string"

definition call_fd :: "('w \<Rightarrow> (int + int) \<times> 'w) \<Rightarrow> 'w proc \<Rightarrow> int option \<times> 'w proc" where
  "call_fd f s = (case f (world s) of
     (Inl e, w) \<Rightarrow> (None, s\<lparr>world := w, errno := e\<rparr>) | (Inr fd, w) \<Rightarrow> (Some fd, s\<lparr>world := w\<rparr>))"

definition call_ok :: "('w \<Rightarrow> int option \<times> 'w) \<Rightarrow> 'w proc \<Rightarrow> bool \<times> 'w proc" where
  "call_ok f s = (case f (world s) of
     (Some e, w) \<Rightarrow> (False, s\<lparr>world := w, errno := e\<rparr>) | (None, w) \<Rightarrow> (True, s\<lparr>world := w\<rparr>))"

section \<open>Internet domain sockets\<close>

fun connect_any :: "'w netos \<Rightarrow> addrinfo list \<Rightarrow> 'w proc \<Rightarrow> int option \<times> 'w proc" where
  "connect_any K [] s = (None, s)"
| "connect_any K (rp # rps) s =
     (case call_fd (os_socket K (ai_family rp) (ai_socktype rp) (ai_protocol rp)) s of
        (None, s1) \<Rightarrow> connect_any K rps s1
      | (Some sfd, s1) \<Rightarrow>
          (case call_ok (os_connect K sfd (ai_addr rp)) s1 of
             (True, s2) \<Rightarrow> (Some sfd, s2)
           | (False, s2) \<Rightarrow> connect_any K rps (snd (call_ok (os_close K sfd) s2))))"

definition inetConnect :: "'w netos \<Rightarrow> string option \<Rightarrow> string \<Rightarrow> int \<Rightarrow> 'w proc \<Rightarrow> int option \<times> 'w proc" where
  "inetConnect K host service ty s =
     (case os_getaddrinfo K host service \<lparr>h_family = AF_UNSPEC, h_socktype = ty, h_flags = 0\<rparr> (world s) of
        Inl e \<Rightarrow> (None, s\<lparr>errno := ENOSYS\<rparr>)
      | Inr result \<Rightarrow> connect_any K result s)"

text \<open>The result of the binding loop: an address that was bound, none, or the early return.\<close>

datatype bound = Bound int addrinfo | Unbound | Gives_up

fun bind_any :: "'w netos \<Rightarrow> bool \<Rightarrow> addrinfo list \<Rightarrow> 'w proc \<Rightarrow> bound \<times> 'w proc" where
  "bind_any K doListen [] s = (Unbound, s)"
| "bind_any K doListen (rp # rps) s =
     (case call_fd (os_socket K (ai_family rp) (ai_socktype rp) (ai_protocol rp)) s of
        (None, s1) \<Rightarrow> bind_any K doListen rps s1
      | (Some sfd, s1) \<Rightarrow>
          (case (if doListen then call_ok (os_reuseaddr K sfd) s1 else (True, s1)) of
             (False, s2) \<Rightarrow> (Gives_up, snd (call_ok (os_close K sfd) s2))
           | (True, s2) \<Rightarrow>
               (case call_ok (os_bind K sfd (ai_addr rp)) s2 of
                  (True, s3) \<Rightarrow> (Bound sfd rp, s3)
                | (False, s3) \<Rightarrow> bind_any K doListen rps (snd (call_ok (os_close K sfd) s3)))))"

definition inetPassiveSocket :: "'w netos \<Rightarrow> string \<Rightarrow> int \<Rightarrow> bool \<Rightarrow> int \<Rightarrow> 'w proc \<Rightarrow> (int \<times> int) option \<times> 'w proc" where
  "inetPassiveSocket K service ty doListen backlog s =
     (case os_getaddrinfo K None service \<lparr>h_family = AF_UNSPEC, h_socktype = ty, h_flags = AI_PASSIVE\<rparr> (world s) of
        Inl e \<Rightarrow> (None, s)
      | Inr result \<Rightarrow>
          (case bind_any K doListen result s of
             (Gives_up, s1) \<Rightarrow> (None, s1)
           | (Unbound, s1) \<Rightarrow> (None, s1)
           | (Bound sfd rp, s1) \<Rightarrow>
               if doListen then
                 (case call_ok (os_listen K sfd backlog) s1 of
                    (False, s2) \<Rightarrow> (None, s2)
                  | (True, s2) \<Rightarrow> (Some (sfd, ai_addrlen rp), s2))
               else (Some (sfd, ai_addrlen rp), s1)))"

definition inetListen :: "'w netos \<Rightarrow> string \<Rightarrow> int \<Rightarrow> 'w proc \<Rightarrow> (int \<times> int) option \<times> 'w proc" where
  "inetListen K service backlog s = inetPassiveSocket K service SOCK_STREAM True backlog s"

definition inetBind :: "'w netos \<Rightarrow> string \<Rightarrow> int \<Rightarrow> 'w proc \<Rightarrow> (int \<times> int) option \<times> 'w proc" where
  "inetBind K service ty s = inetPassiveSocket K service ty False 0 s"

definition inetAddressStr :: "'w netos \<Rightarrow> string \<Rightarrow> nat \<Rightarrow> 'w \<Rightarrow> string" where
  "inetAddressStr K addr addrStrLen w =
     (case os_getnameinfo K addr True w of
        Some (host, service) \<Rightarrow> snprintf addrStrLen (msg [''('', host, '', '', service, '')''])
      | None \<Rightarrow> snprintf addrStrLen ''(?UNKNOWN?)'')"

section \<open>UNIX domain sockets\<close>

text \<open>The size of \<open>sun_path\<close>; an address is the pathname it holds.\<close>

definition SUN_PATH :: nat where "SUN_PATH = 108"

definition unixBuildAddress :: "string option \<Rightarrow> 'w proc \<Rightarrow> string option \<times> 'w proc" where
  "unixBuildAddress path s =
     (case path of
        None \<Rightarrow> (None, s\<lparr>errno := SOCK_EINVAL\<rparr>)
      | Some p \<Rightarrow>
          if length p \<ge> SUN_PATH - 1 then (None, s\<lparr>errno := SOCK_EINVAL\<rparr>)
          else if length p < SUN_PATH then (Some (strncpy (SUN_PATH - 1) p), s)
          else (None, s\<lparr>errno := ENAMETOOLONG\<rparr>))"

text \<open>Closing the descriptor after a failure, with errno as the failed call left it.\<close>

definition close_keep :: "'w netos \<Rightarrow> int \<Rightarrow> 'w proc \<Rightarrow> 'w proc" where
  "close_keep K sd s = (snd (call_ok (os_close K sd) s))\<lparr>errno := errno s\<rparr>"

definition unixConnect :: "'w netos \<Rightarrow> string option \<Rightarrow> int \<Rightarrow> 'w proc \<Rightarrow> int option \<times> 'w proc" where
  "unixConnect K path ty s =
     (case unixBuildAddress path s of
        (None, s1) \<Rightarrow> (None, s1)
      | (Some addr, s1) \<Rightarrow>
          (case call_fd (os_socket K AF_UNIX ty 0) s1 of
             (None, s2) \<Rightarrow> (None, s2)
           | (Some sd, s2) \<Rightarrow>
               (case call_ok (os_connect K sd addr) s2 of
                  (False, s3) \<Rightarrow> (None, close_keep K sd s3)
                | (True, s3) \<Rightarrow> (Some sd, s3))))"

definition unixPassiveSocket :: "'w netos \<Rightarrow> string option \<Rightarrow> int \<Rightarrow> bool \<Rightarrow> int \<Rightarrow> 'w proc \<Rightarrow> int option \<times> 'w proc" where
  "unixPassiveSocket K path ty doListen backlog s =
     (case unixBuildAddress path s of
        (None, s1) \<Rightarrow> (None, s1)
      | (Some addr, s1) \<Rightarrow>
          (case call_fd (os_socket K AF_UNIX ty 0) s1 of
             (None, s2) \<Rightarrow> (None, s2)
           | (Some sd, s2) \<Rightarrow>
               (case call_ok (os_bind K sd addr) s2 of
                  (False, s3) \<Rightarrow> (None, close_keep K sd s3)
                | (True, s3) \<Rightarrow>
                    if doListen then
                      (case call_ok (os_listen K sd backlog) s3 of
                         (False, s4) \<Rightarrow> (None, close_keep K sd s4)
                       | (True, s4) \<Rightarrow> (Some sd, s4))
                    else (Some sd, s3))))"

definition unixListen :: "'w netos \<Rightarrow> string option \<Rightarrow> int \<Rightarrow> 'w proc \<Rightarrow> int option \<times> 'w proc" where
  "unixListen K path backlog s = unixPassiveSocket K path SOCK_STREAM True backlog s"

definition unixBind :: "'w netos \<Rightarrow> string option \<Rightarrow> int \<Rightarrow> 'w proc \<Rightarrow> int option \<times> 'w proc" where
  "unixBind K path ty s = unixPassiveSocket K path ty False 0 s"

section \<open>Descriptors\<close>

text \<open>
  What is documented of the calls as far as the table of open descriptors goes: socket(2) opens a
  descriptor that was free, close(2) releases it even when it reports an error, and no other call
  changes the table.
\<close>

definition keeps_fds :: "('w \<Rightarrow> int set) \<Rightarrow> ('w \<Rightarrow> int option \<times> 'w) \<Rightarrow> bool" where
  "keeps_fds fds f = (\<forall>w. fds (snd (f w)) = fds w)"

definition fd_table :: "'w netos \<Rightarrow> ('w \<Rightarrow> int set) \<Rightarrow> bool" where
  "fd_table K fds =
     ((\<forall>d t p w. case os_socket K d t p w of
          (Inl e, v) \<Rightarrow> fds v = fds w | (Inr fd, v) \<Rightarrow> fd \<notin> fds w \<and> fds v = insert fd (fds w)) \<and>
      (\<forall>fd w. fds (snd (os_close K fd w)) = fds w - {fd}) \<and>
      (\<forall>fd a. keeps_fds fds (os_connect K fd a) \<and> keeps_fds fds (os_bind K fd a)) \<and>
      (\<forall>fd b. keeps_fds fds (os_listen K fd b) \<and> keeps_fds fds (os_reuseaddr K fd)))"

text \<open>The outcome of a function that opens a socket: the descriptor is new and open, or nothing is left.\<close>

definition opens_one :: "('w \<Rightarrow> int set) \<Rightarrow> 'w proc \<Rightarrow> int option \<times> 'w proc \<Rightarrow> bool" where
  "opens_one fds s r =
     (case r of
        (None, t) \<Rightarrow> fds (world t) = fds (world s)
      | (Some fd, t) \<Rightarrow> fd \<notin> fds (world s) \<and> fds (world t) = insert fd (fds (world s)))"

lemma call_ok_fds:
  assumes "keeps_fds fds f" "call_ok f s = (b, t)"
  shows "fds (world t) = fds (world s)"
proof (cases "f (world s)")
  case (Pair e w)
  have k: "fds (snd (f (world s))) = fds (world s)" by (rule assms(1) [unfolded keeps_fds_def, THEN spec])
  have "world t = w" using assms(2) Pair by (cases e) (simp_all add: call_ok_def, safe, simp_all)
  then show ?thesis using k Pair by simp
qed

lemma call_fd_fds:
  assumes "fd_table K fds" "call_fd (os_socket K d t p) s = (r, u)"
  shows "case r of None \<Rightarrow> fds (world u) = fds (world s)
    | Some fd \<Rightarrow> fd \<notin> fds (world s) \<and> fds (world u) = insert fd (fds (world s))"
proof (cases "os_socket K d t p (world s)")
  case (Pair x v)
  have k: "case os_socket K d t p (world s) of (Inl e, v) \<Rightarrow> fds v = fds (world s)
      | (Inr fd, v) \<Rightarrow> fd \<notin> fds (world s) \<and> fds v = insert fd (fds (world s))"
    by (rule assms(1) [unfolded fd_table_def, THEN conjunct1, THEN spec, THEN spec, THEN spec, THEN spec])
  show ?thesis
  proof (cases x)
    case (Inl e)
    then have "r = None" "world u = v" using assms(2) Pair by (simp_all add: call_fd_def, safe, simp_all)
    then show ?thesis using k Pair Inl by simp
  next
    case (Inr fd)
    then have "r = Some fd" "world u = v" using assms(2) Pair by (simp_all add: call_fd_def, safe, simp_all)
    then show ?thesis using k Pair Inr by simp
  qed
qed

lemma close_fds:
  assumes "fd_table K fds"
  shows "fds (world (snd (call_ok (os_close K fd) s))) = fds (world s) - {fd}"
    "fds (world (close_keep K fd s)) = fds (world s) - {fd}"
proof -
  have c: "fds (snd (os_close K fd (world s))) = fds (world s) - {fd}" using assms by (simp add: fd_table_def)
  obtain e w where e: "os_close K fd (world s) = (e, w)" by force
  show "fds (world (snd (call_ok (os_close K fd) s))) = fds (world s) - {fd}"
    "fds (world (close_keep K fd s)) = fds (world s) - {fd}"
    using c by (cases e; simp add: close_keep_def call_ok_def e)+
qed

lemma table_calls:
  assumes "fd_table K fds"
  shows "keeps_fds fds (os_connect K fd a)" "keeps_fds fds (os_bind K fd a)" "keeps_fds fds (os_listen K fd b)"
    "keeps_fds fds (os_reuseaddr K fd)"
  using assms by (simp_all add: fd_table_def)

lemma opens_one_same: "fds (world s) = fds (world t) \<Longrightarrow> opens_one fds t r \<Longrightarrow> opens_one fds s r"
  unfolding opens_one_def by (auto split: prod.splits option.splits)

lemma connect_any_opens:
  assumes "fd_table K fds"
  shows "opens_one fds s (connect_any K rps s)"
proof (induction rps arbitrary: s)
  case (Cons rp rps)
  obtain r s1 where r: "call_fd (os_socket K (ai_family rp) (ai_socktype rp) (ai_protocol rp)) s = (r, s1)" by force
  note f = call_fd_fds [OF assms r]
  show ?case
  proof (cases r)
    case None
    then show ?thesis using f r opens_one_same [OF _ Cons [of s1]] by simp
  next
    case (Some sfd)
    obtain b s2 where b: "call_ok (os_connect K sfd (ai_addr rp)) s1 = (b, s2)" by force
    have k: "fds (world s2) = fds (world s1)" by (rule call_ok_fds [OF table_calls(1) [OF assms] b])
    show ?thesis
    proof (cases b)
      case True
      then show ?thesis using f r b k Some by (simp add: opens_one_def)
    next
      case False
      let ?t = "snd (call_ok (os_close K sfd) s2)"
      have "fds (world s) = fds (world ?t)" using f k Some by (simp add: close_fds [OF assms])
      then show ?thesis using r b Some False Cons [of ?t] by (auto intro: opens_one_same)
    qed
  qed
qed (simp add: opens_one_def)

definition bound_fd :: "bound \<Rightarrow> int option" where
  "bound_fd b = (case b of Bound fd rp \<Rightarrow> Some fd | _ \<Rightarrow> None)"

lemma bind_any_opens:
  assumes "fd_table K fds"
  shows "opens_one fds s (map_prod bound_fd id (bind_any K doListen rps s))"
proof (induction rps arbitrary: s)
  case (Cons rp rps)
  obtain r s1 where r: "call_fd (os_socket K (ai_family rp) (ai_socktype rp) (ai_protocol rp)) s = (r, s1)" by force
  note f = call_fd_fds [OF assms r]
  show ?case
  proof (cases r)
    case None
    then show ?thesis using f r opens_one_same [OF _ Cons [of s1]] by simp
  next
    case (Some sfd)
    obtain o1 s2 where o: "(if doListen then call_ok (os_reuseaddr K sfd) s1 else (True, s1)) = (o1, s2)" by force
    have k2: "fds (world s2) = fds (world s1)"
      using o call_ok_fds [OF table_calls(4) [OF assms]] by (auto split: if_splits)
    obtain b s3 where b: "call_ok (os_bind K sfd (ai_addr rp)) s2 = (b, s3)" by force
    have k3: "fds (world s3) = fds (world s2)" by (rule call_ok_fds [OF table_calls(2) [OF assms] b])
    let ?t2 = "snd (call_ok (os_close K sfd) s2)" and ?t3 = "snd (call_ok (os_close K sfd) s3)"
    have t: "fds (world ?t2) = fds (world s)" "fds (world ?t3) = fds (world s)"
      using f k2 k3 Some by (simp_all add: close_fds [OF assms])
    show ?thesis
    proof (cases o1)
      case ok: True
      show ?thesis
      proof (cases b)
        case True
        then show ?thesis using r o b Some f k2 k3 ok by (simp add: opens_one_def bound_fd_def)
      next
        case False
        then show ?thesis using r o b Some ok opens_one_same [OF t(2) [symmetric] Cons [of ?t3]] by simp
      qed
    next
      case False
      then show ?thesis using r o Some t(1) by (simp add: opens_one_def bound_fd_def)
    qed
  qed
qed (simp add: opens_one_def bound_fd_def)

lemma inetConnect_opens: "fd_table K fds \<Longrightarrow> opens_one fds s (inetConnect K host service ty s)"
  by (simp add: inetConnect_def connect_any_opens opens_one_def [of fds s "(None, _)"] split: sum.split)

lemma bind_any_bound:
  assumes "fd_table K fds" "bind_any K doListen rps s = (b, t)"
  shows "case bound_fd b of None \<Rightarrow> fds (world t) = fds (world s)
    | Some fd \<Rightarrow> fd \<notin> fds (world s) \<and> fds (world t) = insert fd (fds (world s))"
  using bind_any_opens [OF assms(1), of s doListen rps] assms(2) by (simp add: opens_one_def)

lemma inetBind_opens:
  assumes "fd_table K fds"
  shows "opens_one fds s (map_prod (map_option fst) id (inetBind K service ty s))"
proof (cases "os_getaddrinfo K None service \<lparr>h_family = AF_UNSPEC, h_socktype = ty, h_flags = AI_PASSIVE\<rparr> (world s)")
  case (Inr rps)
  obtain b t where b: "bind_any K False rps s = (b, t)" by (cases "bind_any K False rps s")
  show ?thesis using bind_any_bound [OF assms b] Inr b
    by (cases b) (simp_all add: inetBind_def inetPassiveSocket_def opens_one_def bound_fd_def)
qed (simp add: inetBind_def inetPassiveSocket_def opens_one_def)

lemma unixBuildAddress_world: "unixBuildAddress path s = (r, t) \<Longrightarrow> world t = world s"
  by (auto simp: unixBuildAddress_def split: option.splits if_splits)

lemma unixConnect_opens:
  assumes "fd_table K fds"
  shows "opens_one fds s (unixConnect K path ty s)"
proof (cases "unixBuildAddress path s")
  case (Pair a s1)
  note w = unixBuildAddress_world [OF Pair]
  obtain r s2 where r: "call_fd (os_socket K AF_UNIX ty 0) s1 = (r, s2)" by (cases "call_fd (os_socket K AF_UNIX ty 0) s1")
  note f = call_fd_fds [OF assms r]
  show ?thesis
  proof (cases a)
    case (Some addr)
    note a = this
    show ?thesis
    proof (cases r)
      case (Some sd)
      obtain b s3 where b: "call_ok (os_connect K sd addr) s2 = (b, s3)" by (cases "call_ok (os_connect K sd addr) s2")
      have "fds (world s3) = fds (world s2)" by (rule call_ok_fds [OF table_calls(1) [OF assms] b])
      then show ?thesis using Pair w r f b a Some
        by (cases b) (simp_all add: unixConnect_def opens_one_def close_fds [OF assms])
    qed (use Pair w r f a in \<open>simp add: unixConnect_def opens_one_def\<close>)
  qed (use Pair w in \<open>simp add: unixConnect_def opens_one_def\<close>)
qed

lemma unixPassiveSocket_opens:
  assumes "fd_table K fds"
  shows "opens_one fds s (unixPassiveSocket K path ty doListen backlog s)"
proof (cases "unixBuildAddress path s")
  case (Pair a s1)
  note w = unixBuildAddress_world [OF Pair]
  obtain r s2 where r: "call_fd (os_socket K AF_UNIX ty 0) s1 = (r, s2)" by (cases "call_fd (os_socket K AF_UNIX ty 0) s1")
  note f = call_fd_fds [OF assms r]
  show ?thesis
  proof (cases a)
    case (Some addr)
    note a = this
    show ?thesis
    proof (cases r)
      case (Some sd)
      obtain b s3 where b: "call_ok (os_bind K sd addr) s2 = (b, s3)" by (cases "call_ok (os_bind K sd addr) s2")
      obtain l s4 where l: "call_ok (os_listen K sd backlog) s3 = (l, s4)" by (cases "call_ok (os_listen K sd backlog) s3")
      have "fds (world s3) = fds (world s2)" "fds (world s4) = fds (world s3)"
        by (rule call_ok_fds [OF table_calls(2) [OF assms] b], rule call_ok_fds [OF table_calls(3) [OF assms] l])
      then show ?thesis using Pair w r f b l a Some
        by (cases b; cases l) (simp_all add: unixPassiveSocket_def opens_one_def close_fds [OF assms])
    qed (use Pair w r f a in \<open>simp add: unixPassiveSocket_def opens_one_def\<close>)
  qed (use Pair w in \<open>simp add: unixPassiveSocket_def opens_one_def\<close>)
qed

section \<open>Properties\<close>

text \<open>
  A table of descriptors for the examples: a new one is above every open one, an address that starts
  with x is refused, and so is a negative backlog.
\<close>

fun fresh_fd :: "int list \<Rightarrow> int" where
  "fresh_fd [] = 3"
| "fresh_fd (x # xs) = max (x + 1) (fresh_fd xs)"

definition example_net :: "int list netos" where
  "example_net =
     \<lparr>os_getaddrinfo = \<lambda>host service h w. Inr [\<lparr>ai_family = 2, ai_socktype = h_socktype h, ai_protocol = 0,
          ai_addr = ''x1'', ai_addrlen = 16\<rparr>, \<lparr>ai_family = 10, ai_socktype = h_socktype h, ai_protocol = 0,
          ai_addr = ''y2'', ai_addrlen = 28\<rparr>],
      os_getnameinfo = \<lambda>a n w. None,
      os_socket = \<lambda>d t p w. (Inr (fresh_fd w), fresh_fd w # w),
      os_reuseaddr = \<lambda>fd w. (None, w),
      os_connect = \<lambda>fd a w. (if take 1 a = ''x'' then Some 111 else None, w),
      os_bind = \<lambda>fd a w. (if take 1 a = ''x'' then Some 98 else None, w),
      os_listen = \<lambda>fd b w. (if b < 0 then Some 95 else None, w),
      os_close = \<lambda>fd w. (None, removeAll fd w),
      net_strerror = \<lambda>e. ''''\<rparr>"

lemma fresh_fd_gt: "x \<in> set xs \<Longrightarrow> x < fresh_fd xs"
  by (induction xs) auto

lemma example_net_table: "fd_table example_net set"
  using fresh_fd_gt by (fastforce simp: fd_table_def keeps_fds_def example_net_def)

definition example_proc :: "int list proc" where
  "example_proc = \<lparr>out_buf = '''', out = '''', err = '''', errno = 0, ef_dumpcore = None, world = [0, 1, 2]\<rparr>"

text \<open>
  C10. No function of the libraries but inetListen loses a descriptor: inetConnect, inetBind, unixConnect,
  unixListen and unixBind either return a descriptor that was free and is now the only new open one, or
  return -1 and leave the table of open descriptors as it was, whichever of their calls fail.
\<close>

theorem sockets_no_leak:
  assumes "fd_table K fds"
  shows "opens_one fds s (inetConnect K host service ty s) \<and>
    opens_one fds s (map_prod (map_option fst) id (inetBind K service ty s)) \<and>
    opens_one fds s (unixConnect K path ty s) \<and>
    opens_one fds s (unixListen K path backlog s) \<and>
    opens_one fds s (unixBind K path ty s)"
  unfolding unixListen_def unixBind_def
  by (intro conjI inetConnect_opens inetBind_opens unixConnect_opens unixPassiveSocket_opens assms)

theorem sockets_no_leak_witness:
  "opens_one set example_proc (inetConnect example_net (Some ''localhost'') ''80'' SOCK_STREAM example_proc) \<and>
   fst (inetConnect example_net (Some ''localhost'') ''80'' SOCK_STREAM example_proc) = Some 3 \<and>
   opens_one set example_proc (unixListen example_net (Some ''x'') 5 example_proc) \<and>
   fst (unixListen example_net (Some ''x'') 5 example_proc) = None"
  using sockets_no_leak [OF example_net_table, of example_proc "Some ''localhost''" "''80''" SOCK_STREAM "Some ''x''" 5]
  by (simp add: inetConnect_def call_fd_def call_ok_def example_net_def example_proc_def unixListen_def
      unixPassiveSocket_def unixBuildAddress_def SUN_PATH_def strncpy_def)

text \<open>
  inetListen loses the descriptor it has bound when listen(2) fails: it returns -1, and the descriptor,
  whose number the caller never learns, stays open.
\<close>

theorem inetListen_leaks:
  assumes "fd_table K fds"
    "os_getaddrinfo K None service \<lparr>h_family = AF_UNSPEC, h_socktype = SOCK_STREAM, h_flags = AI_PASSIVE\<rparr> (world s)
      = Inr rps"
    "bind_any K True rps s = (Bound sfd rp, s1)" "call_ok (os_listen K sfd backlog) s1 = (False, s2)"
  shows "inetListen K service backlog s = (None, s2) \<and> sfd \<notin> fds (world s) \<and>
    fds (world s2) = insert sfd (fds (world s))"
  using bind_any_bound [OF assms(1,3)] call_ok_fds [OF table_calls(3) [OF assms(1)] assms(4)] assms(2-4)
  by (simp add: inetListen_def inetPassiveSocket_def bound_fd_def)

theorem inetListen_leaks_witness:
  "\<exists>s2. inetListen example_net ''80'' (- 1) example_proc = (None, s2) \<and> 3 \<notin> set (world example_proc) \<and>
     set (world s2) = insert 3 (set (world example_proc))"
  by (rule exI, rule inetListen_leaks [OF example_net_table, where
        ?s1.0 = "example_proc\<lparr>errno := 98, world := [3, 0, 1, 2]\<rparr>" and
        ?s2.0 = "example_proc\<lparr>errno := 95, world := [3, 0, 1, 2]\<rparr>" and
        rp = "\<lparr>ai_family = 10, ai_socktype = SOCK_STREAM, ai_protocol = 0, ai_addr = ''y2'', ai_addrlen = 28\<rparr>"])
    (simp add: example_net_def example_proc_def call_fd_def call_ok_def)+

end
