(* ===== verification/SeqNum.thy ===== *)
theory SeqNum
  imports Sockets ReadIO GetNum
begin

text \<open>
  The sequence number services of \<open>tlpi-dist\<close>: the stream socket server and client in two versions
  (\<open>sockets/is_seqnum_sv.c\<close>, \<open>is_seqnum_cl.c\<close>, \<open>is_seqnum_v2_sv.c\<close>, \<open>is_seqnum_v2_cl.c\<close>) and the FIFO server
  and client (\<open>pipes/fifo_seqnum_server.c\<close>, \<open>fifo_seqnum_client.c\<close>). A server never ends by itself: it is run on
  the list of what its loop meets, and the result is its state when it waits for the next client.
\<close>

section \<open>The stream socket servers\<close>

definition INT_LEN :: nat where "INT_LEN = 30"
definition PORT_NUM :: string where "PORT_NUM = ''50000''"
definition BACKLOG :: int where "BACKLOG = 50"
definition ADDRSTRLEN :: nat where "ADDRSTRLEN = 1025 + 32 + 10"
definition IS_ADDR_STR_LEN :: nat where "IS_ADDR_STR_LEN = 4096"

text \<open>
  A connection: the address of the client, the bytes it sends, the bytes written to it, and the error of
  close(2), if any. accept(2) gives a connection or an error.
\<close>

record conn =
  peer :: string
  incoming :: source
  outgoing :: sink
  close_fails :: "int option"

datatype arrival = Refused int | Arrives conn

definition set_failure :: "int option \<Rightarrow> 'w proc \<Rightarrow> 'w proc" where
  "set_failure e s = (case e of None \<Rightarrow> s | Some n \<Rightarrow> s\<lparr>errno := n\<rparr>)"

text \<open>The start of the sequence for one client, as the reply holds it.\<close>

definition reply_text :: "32 word \<Rightarrow> string" where
  "reply_text seqNum = snprintf INT_LEN (msg [dec (sint seqNum), nl])"

definition answer_client :: "'w netos \<Rightarrow> conn \<Rightarrow> int \<Rightarrow> 32 word \<Rightarrow> 'w proc \<Rightarrow> (conn \<times> 32 word \<times> 'w proc) option" where
  "answer_client K c reqLen seqNum s =
     (case write_call (reply_text seqNum) (outgoing c) of
        None \<Rightarrow> None
      | Some (r, snk) \<Rightarrow>
          let s1 = (case r of
                      Inl e \<Rightarrow> fputs_err ''Error on write'' (s\<lparr>errno := e\<rparr>)
                    | Inr n \<Rightarrow> if n \<noteq> length (reply_text seqNum) then fputs_err ''Error on write'' s else s);
              s2 = (case close_fails c of None \<Rightarrow> s1 | Some e \<Rightarrow> errMsg (net_strerror K) ''close'' (s1\<lparr>errno := e\<rparr>))
          in Some (c\<lparr>outgoing := snk\<rparr>, seqNum + word_of_int reqLen, s2))"

definition serve_client :: "'w netos \<Rightarrow> (string \<Rightarrow> string) \<Rightarrow> arrival \<Rightarrow> 32 word \<times> 'w proc \<Rightarrow>
    (arrival \<times> 32 word \<times> 'w proc) option" where
  "serve_client K addrStr a st =
     (case st of (seqNum, s) \<Rightarrow> case a of
        Refused e \<Rightarrow> Some (a, seqNum, errMsg (net_strerror K) ''accept'' (s\<lparr>errno := e\<rparr>))
      | Arrives c \<Rightarrow>
          let s1 = printf_out (msg [''Connection from '', addrStr (peer c), nl]) s
          in case readLine INT_LEN (incoming c) of
               None \<Rightarrow> None
             | Some (Inl e, src) \<Rightarrow>
                 Some (Arrives (c\<lparr>incoming := src\<rparr>), seqNum, set_failure (close_fails c) (s1\<lparr>errno := e\<rparr>))
             | Some (Inr None, src) \<Rightarrow> Some (Arrives (c\<lparr>incoming := src\<rparr>), seqNum, set_failure (close_fails c) s1)
             | Some (Inr (Some line), src) \<Rightarrow>
                 let reqLen = atoi line; c1 = c\<lparr>incoming := src\<rparr>
                 in if reqLen \<le> 0 then Some (Arrives c1, seqNum, set_failure (close_fails c) s1)
                    else map_option (\<lambda>(c2, q, s2). (Arrives c2, q, s2)) (answer_client K c1 reqLen seqNum s1))"

text \<open>The endless loop of a server, run on a list of what it meets.\<close>

fun serve_list :: "('a \<Rightarrow> 's \<Rightarrow> ('b \<times> 's) option) \<Rightarrow> 'a list \<Rightarrow> 's \<Rightarrow> ('b list \<times> 's) option" where
  "serve_list serve [] s = Some ([], s)"
| "serve_list serve (a # as) s =
     (case serve a s of
        None \<Rightarrow> None
      | Some (b, s1) \<Rightarrow> (case serve_list serve as s1 of None \<Rightarrow> None | Some (bs, s2) \<Rightarrow> Some (b # bs, s2)))"

text \<open>\<open>init_seqNum\<close>: the value of the optional argument, converted to the unsigned counter.\<close>

definition init_seqNum :: "string list \<Rightarrow> 'w proc \<Rightarrow> ('w proc, 32 word) res" where
  "init_seqNum argv s =
     (if length argv > 1
      then case getInt (Some (argv ! 1)) 0 (Some ''init-seq-num'') of
             Inl m \<Rightarrow> exit3 EXIT_FAILURE (fputs_err m s)
           | Inr v \<Rightarrow> Ret (word_of_int v) s
      else Ret 0 s)"

fun sv_bind_any :: "'w netos \<Rightarrow> addrinfo list \<Rightarrow> 'w proc \<Rightarrow> ('w proc, int option) res" where
  "sv_bind_any K [] s = Ret None s"
| "sv_bind_any K (rp # rps) s =
     (case call_fd (os_socket K (ai_family rp) (ai_socktype rp) (ai_protocol rp)) s of
        (None, s1) \<Rightarrow> sv_bind_any K rps s1
      | (Some lfd, s1) \<Rightarrow>
          (case call_ok (os_reuseaddr K lfd) s1 of
             (False, s2) \<Rightarrow> errExit (net_strerror K) ''setsockopt'' s2
           | (True, s2) \<Rightarrow>
               (case call_ok (os_bind K lfd (ai_addr rp)) s2 of
                  (True, s3) \<Rightarrow> Ret (Some lfd) s3
                | (False, s3) \<Rightarrow> sv_bind_any K rps (snd (call_ok (os_close K lfd) s3)))))"

text \<open>Everything before the loop. \<open>sigpipe\<close> is the call that ignores SIGPIPE.\<close>

definition sv_setup :: "'w netos \<Rightarrow> ('w \<Rightarrow> int option \<times> 'w) \<Rightarrow> string list \<Rightarrow> 'w proc \<Rightarrow> ('w proc, int \<times> 32 word) res" where
  "sv_setup K sigpipe argv s =
     (if length argv > 1 \<and> argv ! 1 = ''--help'' then usageErr (msg [argv ! 0, '' [init-seq-num]'', nl]) s
      else bindR (init_seqNum argv s) (\<lambda>seqNum s1.
        case call_ok sigpipe s1 of
          (False, s2) \<Rightarrow> errExit (net_strerror K) ''signal'' s2
        | (True, s2) \<Rightarrow>
            (case os_getaddrinfo K None PORT_NUM
                \<lparr>h_family = AF_UNSPEC, h_socktype = SOCK_STREAM, h_flags = AI_PASSIVE + AI_NUMERICSERV\<rparr> (world s2) of
               Inl e \<Rightarrow> errExit (net_strerror K) ''getaddrinfo'' s2
             | Inr result \<Rightarrow> bindR (sv_bind_any K result s2) (\<lambda>r s3.
                 case r of
                   None \<Rightarrow> fatal (net_strerror K) ''Could not bind socket to any address'' s3
                 | Some lfd \<Rightarrow>
                     (case call_ok (os_listen K lfd BACKLOG) s3 of
                        (False, s4) \<Rightarrow> errExit (net_strerror K) ''listen'' s4
                      | (True, s4) \<Rightarrow> Ret (lfd, seqNum) s4)))))"

definition sv_addrStr :: "'w netos \<Rightarrow> 'w \<Rightarrow> string \<Rightarrow> string" where
  "sv_addrStr K w addr =
     (case os_getnameinfo K addr False w of
        Some (host, service) \<Rightarrow> snprintf ADDRSTRLEN (msg [''('', host, '', '', service, '')''])
      | None \<Rightarrow> snprintf ADDRSTRLEN ''(?UNKNOWN?)'')"

text \<open>The result of a server that has entered its loop: the connections, its counter and its state.\<close>

definition run_loop :: "('w proc, 32 word \<times> (string \<Rightarrow> string)) res \<Rightarrow> 'w netos \<Rightarrow> arrival list \<Rightarrow>
    ('w proc, arrival list \<times> 32 word) res option" where
  "run_loop r K as =
     (case r of
        Ret (seqNum, addrStr) s \<Rightarrow> map_option (\<lambda>(bs, q, s1). Ret (bs, q) s1) (serve_list (serve_client K addrStr) as (seqNum, s))
      | Exit c s \<Rightarrow> Some (Exit c s)
      | Abort s \<Rightarrow> Some (Abort s)
      | Undef \<Rightarrow> Some Undef)"

definition is_seqnum_sv :: "'w netos \<Rightarrow> ('w \<Rightarrow> int option \<times> 'w) \<Rightarrow> string list \<Rightarrow> arrival list \<Rightarrow> 'w proc \<Rightarrow>
    ('w proc, arrival list \<times> 32 word) res option" where
  "is_seqnum_sv K sigpipe argv as s =
     run_loop (bindR (sv_setup K sigpipe argv s) (\<lambda>(lfd, seqNum) s1. Ret (seqNum, sv_addrStr K (world s1)) s1)) K as"

text \<open>\<open>malloc\<close> tells whether the buffer for the client's address is allocated.\<close>

definition sv2_setup :: "'w netos \<Rightarrow> ('w \<Rightarrow> int option \<times> 'w) \<Rightarrow> (int \<Rightarrow> bool) \<Rightarrow> string list \<Rightarrow> 'w proc \<Rightarrow>
    ('w proc, int \<times> 32 word) res" where
  "sv2_setup K sigpipe malloc argv s =
     (if length argv > 1 \<and> argv ! 1 = ''--help'' then usageErr (msg [argv ! 0, '' [init-seq-num]'', nl]) s
      else bindR (init_seqNum argv s) (\<lambda>seqNum s1.
        case call_ok sigpipe s1 of
          (False, s2) \<Rightarrow> errExit (net_strerror K) ''signal'' s2
        | (True, s2) \<Rightarrow>
            (case inetListen K PORT_NUM 5 s2 of
               (None, s3) \<Rightarrow> fatal (net_strerror K) ''inetListen() failed'' s3
             | (Some (lfd, addrlen), s3) \<Rightarrow>
                 if malloc addrlen then Ret (lfd, seqNum) s3
                 else errExit (net_strerror K) ''malloc'' (s3\<lparr>errno := 12\<rparr>))))"

definition is_seqnum_v2_sv :: "'w netos \<Rightarrow> ('w \<Rightarrow> int option \<times> 'w) \<Rightarrow> (int \<Rightarrow> bool) \<Rightarrow> string list \<Rightarrow> arrival list \<Rightarrow>
    'w proc \<Rightarrow> ('w proc, arrival list \<times> 32 word) res option" where
  "is_seqnum_v2_sv K sigpipe malloc argv as s =
     run_loop (bindR (sv2_setup K sigpipe malloc argv s)
       (\<lambda>(lfd, seqNum) s1. Ret (seqNum, \<lambda>addr. inetAddressStr K addr IS_ADDR_STR_LEN (world s1)) s1)) K as"

section \<open>The stream socket clients\<close>

text \<open>From the connection on, which both clients share: what is written to it, and how the client ends.\<close>

definition cl_exchange :: "'w netos \<Rightarrow> string list \<Rightarrow> sink \<Rightarrow> source \<Rightarrow> 'w proc \<Rightarrow> (sink \<times> ('w proc, unit) res) option" where
  "cl_exchange K argv snk src s =
     (let reqLenStr = (if length argv > 2 then argv ! 2 else ''1'')
      in case write_call reqLenStr snk of
           None \<Rightarrow> None
         | Some (r, snk1) \<Rightarrow>
             if r \<noteq> Inr (length reqLenStr) then Some (snk1, fatal (net_strerror K) ''Partial/failed write (reqLenStr)'' s)
             else (case write_call nl snk1 of
                     None \<Rightarrow> None
                   | Some (r1, snk2) \<Rightarrow>
                       if r1 \<noteq> Inr 1 then Some (snk2, fatal (net_strerror K) ''Partial/failed write (newline)'' s)
                       else (case readLine INT_LEN src of
                               None \<Rightarrow> None
                             | Some (Inl e, _) \<Rightarrow> Some (snk2, errExit (net_strerror K) ''readLine'' (s\<lparr>errno := e\<rparr>))
                             | Some (Inr None, _) \<Rightarrow> Some (snk2, fatal (net_strerror K) ''Unexpected EOF from server'' s)
                             | Some (Inr (Some seqNumStr), _) \<Rightarrow>
                                 Some (snk2, exit3 EXIT_SUCCESS (printf_out (msg [''Sequence number: '', cstr seqNumStr]) s)))))"

definition is_seqnum_cl :: "'w netos \<Rightarrow> string list \<Rightarrow> sink \<Rightarrow> source \<Rightarrow> 'w proc \<Rightarrow> (sink \<times> ('w proc, unit) res) option" where
  "is_seqnum_cl K argv snk src s =
     (if length argv < 2 \<or> argv ! 1 = ''--help''
      then Some (snk, usageErr (msg [argv ! 0, '' server-host [sequence-len]'', nl]) s)
      else case os_getaddrinfo K (Some (argv ! 1)) PORT_NUM
               \<lparr>h_family = AF_UNSPEC, h_socktype = SOCK_STREAM, h_flags = AI_NUMERICSERV\<rparr> (world s) of
             Inl e \<Rightarrow> Some (snk, errExit (net_strerror K) ''getaddrinfo'' s)
           | Inr result \<Rightarrow>
               (case connect_any K result s of
                  (None, s1) \<Rightarrow> Some (snk, fatal (net_strerror K) ''Could not connect socket to any address'' s1)
                | (Some cfd, s1) \<Rightarrow> cl_exchange K argv snk src s1))"

definition is_seqnum_v2_cl :: "'w netos \<Rightarrow> string list \<Rightarrow> sink \<Rightarrow> source \<Rightarrow> 'w proc \<Rightarrow> (sink \<times> ('w proc, unit) res) option" where
  "is_seqnum_v2_cl K argv snk src s =
     (if length argv < 2 \<or> argv ! 1 = ''--help''
      then Some (snk, usageErr (msg [argv ! 0, '' server-host [sequence-len]'', nl]) s)
      else case inetConnect K (Some (argv ! 1)) PORT_NUM SOCK_STREAM s of
             (None, s1) \<Rightarrow> Some (snk, fatal (net_strerror K) ''inetConnect() failed'' s1)
           | (Some cfd, s1) \<Rightarrow> cl_exchange K argv snk src s1)"

section \<open>The FIFO server and client\<close>

definition SERVER_FIFO :: string where "SERVER_FIFO = ''/tmp/seqnum_sv''"
definition CLIENT_FIFO_NAME_LEN :: nat where "CLIENT_FIFO_NAME_LEN = 19 + 20"
definition EEXIST :: int where "EEXIST = 17"

definition client_fifo :: "int \<Rightarrow> string" where
  "client_fifo p = snprintf CLIENT_FIFO_NAME_LEN (msg [''/tmp/seqnum_cl.'', dec p])"

record request =
  rq_pid :: int
  seqLen :: int

text \<open>
  One trip of the server: the request, or \<open>None\<close> for a partial or failed read; then the results of the
  calls on the client's FIFO, with the size of \<open>struct response\<close> for a complete write.
\<close>

definition RESPONSE_SIZE :: nat where "RESPONSE_SIZE = 4"

record trip =
  tr_read :: "request option"
  tr_open :: "int option"
  tr_write :: "int + nat"
  tr_close :: "int option"

text \<open>
  The result holds the response that reaches a FIFO. The sum is one of signed integers: when it is out of
  range the behaviour is undefined, which is \<open>None\<close>.
\<close>

definition fifo_serve :: "(int \<Rightarrow> string) \<Rightarrow> trip \<Rightarrow> int \<times> 'w proc \<Rightarrow> ((string \<times> int) option \<times> int \<times> 'w proc) option" where
  "fifo_serve strerror tr st =
     (case st of (seqNum, s) \<Rightarrow> case tr_read tr of
        None \<Rightarrow> Some (None, seqNum, fputs_err (msg [''Error reading request; discarding'', nl]) s)
      | Some req \<Rightarrow>
          let clientFifo = client_fifo (rq_pid req)
          in case tr_open tr of
               Some e \<Rightarrow> Some (None, seqNum, errMsg strerror (msg [''open '', clientFifo]) (s\<lparr>errno := e\<rparr>))
             | None \<Rightarrow>
                 let s1 = (if tr_write tr \<noteq> Inr RESPONSE_SIZE
                           then fputs_err (msg [''Error writing to FIFO '', clientFifo, nl]) s else s);
                     s2 = (case tr_close tr of None \<Rightarrow> s1 | Some e \<Rightarrow> errMsg strerror ''close'' (s1\<lparr>errno := e\<rparr>));
                     seqNum1 = seqNum + seqLen req
                 in if seqNum1 < INT_MIN \<or> INT_MAX < seqNum1 then None
                    else Some (if tr_write tr = Inr RESPONSE_SIZE then Some (clientFifo, seqNum) else None, seqNum1, s2))"

record sv_calls =
  sv_mkfifo :: "int option"
  sv_open_read :: "int option"
  sv_open_write :: "int option"
  sv_signal :: "int option"

definition fail_with :: "(int \<Rightarrow> string) \<Rightarrow> string \<Rightarrow> int option \<Rightarrow> 'w proc \<Rightarrow> ('w proc, unit) res" where
  "fail_with strerror m e s = (case e of None \<Rightarrow> Ret () s | Some n \<Rightarrow> errExit strerror m (s\<lparr>errno := n\<rparr>))"

definition fifo_setup :: "(int \<Rightarrow> string) \<Rightarrow> sv_calls \<Rightarrow> 'w proc \<Rightarrow> ('w proc, unit) res" where
  "fifo_setup strerror k s =
     bindR (if sv_mkfifo k = Some EEXIST then Ret () (s\<lparr>errno := EEXIST\<rparr>)
            else fail_with strerror (msg [''mkfifo '', SERVER_FIFO]) (sv_mkfifo k) s) (\<lambda>_ s1.
     bindR (fail_with strerror (msg [''open '', SERVER_FIFO]) (sv_open_read k) s1) (\<lambda>_ s2.
     bindR (fail_with strerror (msg [''open '', SERVER_FIFO]) (sv_open_write k) s2) (\<lambda>_ s3.
       fail_with strerror ''signal'' (sv_signal k) s3)))"

definition fifo_seqnum_server :: "(int \<Rightarrow> string) \<Rightarrow> sv_calls \<Rightarrow> trip list \<Rightarrow> 'w proc \<Rightarrow>
    ('w proc, (string \<times> int) option list \<times> int) res" where
  "fifo_seqnum_server strerror k trips s =
     bindR (fifo_setup strerror k s) (\<lambda>_ s1.
       case serve_list (fifo_serve strerror) trips (0, s1) of
         None \<Rightarrow> Undef
       | Some (rs, q, s2) \<Rightarrow> Ret (rs, q) s2)"

text \<open>
  The client: its process ID and the results of its calls; the last read gives the response or \<open>None\<close>.
  The world is the FIFOs that exist.
\<close>

record cl_calls =
  cl_pid :: int
  cl_mkfifo :: "int option"
  cl_atexit :: bool
  cl_open_server :: "int option"
  cl_write :: "int + nat"
  cl_open_own :: "int option"
  cl_read :: "int option"

definition REQUEST_SIZE :: nat where "REQUEST_SIZE = 8"

definition removeFifo :: "string \<Rightarrow> string list proc \<Rightarrow> string list proc" where
  "removeFifo clientFifo s = s\<lparr>world := removeAll clientFifo (world s)\<rparr>"

text \<open>exit(3) runs the handler; abort(3) does not.\<close>

definition with_handler :: "string \<Rightarrow> (string list proc, 'a) res \<Rightarrow> (string list proc, 'a) res" where
  "with_handler clientFifo r = (case r of Exit c s \<Rightarrow> Exit c (removeFifo clientFifo s) | _ \<Rightarrow> r)"

definition cl_request :: "(int \<Rightarrow> string) \<Rightarrow> cl_calls \<Rightarrow> string list \<Rightarrow> string \<Rightarrow> string list proc \<Rightarrow>
    request option \<times> (string list proc, unit) res" where
  "cl_request strerror k argv clientFifo s =
     (case (if length argv > 1 then getInt (Some (argv ! 1)) GN_GT_0 (Some ''seq-len'') else Inr 1) of
        Inl m \<Rightarrow> (None, exit3 EXIT_FAILURE (fputs_err m s))
      | Inr n \<Rightarrow>
          (case cl_open_server k of
             Some e \<Rightarrow> (None, errExit strerror (msg [''open '', SERVER_FIFO]) (s\<lparr>errno := e\<rparr>))
           | None \<Rightarrow>
               if cl_write k \<noteq> Inr REQUEST_SIZE then (None, fatal strerror ''Can't write to server'' s)
               else (Some \<lparr>rq_pid = cl_pid k, seqLen = n\<rparr>,
                 case cl_open_own k of
                   Some e \<Rightarrow> errExit strerror (msg [''open '', clientFifo]) (s\<lparr>errno := e\<rparr>)
                 | None \<Rightarrow>
                     (case cl_read k of
                        None \<Rightarrow> fatal strerror ''Can't read response from server'' s
                      | Some seqNum \<Rightarrow> exit3 EXIT_SUCCESS (printf_out (msg [dec seqNum, nl]) s)))))"

definition fifo_seqnum_client :: "(int \<Rightarrow> string) \<Rightarrow> cl_calls \<Rightarrow> string list \<Rightarrow> string list proc \<Rightarrow>
    request option \<times> (string list proc, unit) res" where
  "fifo_seqnum_client strerror k argv s =
     (if length argv > 1 \<and> argv ! 1 = ''--help'' then (None, usageErr (msg [argv ! 0, '' [seq-len]'', nl]) s)
      else
        let clientFifo = client_fifo (cl_pid k)
        in if cl_mkfifo k \<noteq> None \<and> cl_mkfifo k \<noteq> Some EEXIST
           then (None, errExit strerror (msg [''mkfifo '', clientFifo]) (s\<lparr>errno := the (cl_mkfifo k)\<rparr>))
           else
             let s1 = (set_failure (cl_mkfifo k) s)\<lparr>world := List.insert clientFifo (world s)\<rparr>
             in if \<not> cl_atexit k then (None, errExit strerror ''atexit'' s1)
                else map_prod id (with_handler clientFifo) (cl_request strerror k argv clientFifo s1))"

section \<open>Grants\<close>

text \<open>
  What the servers have in common: a counter that each client moves by what it demands, whatever else
  happens, and grants that are the counter as the client found it. \<open>capacity\<close> bounds the numbers that are
  different as values of the counter's type.
\<close>

locale sequencer =
  fixes serve :: "'a \<Rightarrow> 's \<Rightarrow> ('b \<times> 's) option"
    and counter :: "'s \<Rightarrow> 'n :: comm_ring_1"
    and demand :: "'a \<Rightarrow> nat"
    and granted :: "'b \<Rightarrow> 'n option"
    and valid :: "'a \<Rightarrow> bool"
    and capacity :: nat
  assumes advances: "valid a \<Longrightarrow> serve a s = Some (b, t) \<Longrightarrow> counter t = counter s + of_nat (demand a)"
    and grants: "valid a \<Longrightarrow> serve a s = Some (b, t) \<Longrightarrow> granted b = Some v \<Longrightarrow> v = counter s"
    and distinct_numbers: "m < capacity \<Longrightarrow> n < capacity \<Longrightarrow> (of_nat m :: 'n) = of_nat n \<Longrightarrow> m = n"
begin

lemma run_counter:
  assumes "list_all valid as" "serve_list serve as s = Some (bs, t)"
  shows "length bs = length as" "counter t = counter s + of_nat (sum_list (map demand as))"
  using assms
  by (induction as arbitrary: s bs t) (auto dest: advances split: option.splits prod.splits simp: algebra_simps)

lemma run_grants:
  assumes "list_all valid as" "serve_list serve as s = Some (bs, t)" "i < length as" "granted (bs ! i) = Some v"
  shows "v = counter s + of_nat (sum_list (map demand (take i as)))"
  using assms
proof (induction as arbitrary: s bs t i)
  case (Cons a as)
  obtain b s1 where b: "serve a s = Some (b, s1)" using Cons.prems(2) by (cases "serve a s") auto
  then obtain bs' where bs: "serve_list serve as s1 = Some (bs', t)" "bs = b # bs'"
    using Cons.prems(2) by (auto split: option.splits)
  have a: "valid a" "list_all valid as" using Cons.prems(1) by auto
  show ?case
  proof (cases i)
    case 0
    then show ?thesis using Cons.prems(4) bs grants [OF a(1) b] by simp
  next
    case (Suc j)
    then show ?thesis using Cons.IH [OF a(2) bs(1), of j] Cons.prems bs advances [OF a(1) b] by (simp add: algebra_simps)
  qed
qed simp

lemma run_disjoint:
  assumes "list_all valid as" "serve_list serve as s = Some (bs, t)" "sum_list (map demand as) \<le> capacity"
    "i < j" "j < length as" "granted (bs ! i) = Some v" "granted (bs ! j) = Some w" "k < demand (as ! i)" "l < demand (as ! j)"
  shows "v + of_nat k \<noteq> w + of_nat l"
proof
  let ?f = "\<lambda>n. sum_list (map demand (take n as))"
  have mono: "n \<le> m \<Longrightarrow> ?f n \<le> ?f m" for n m
    by (metis le_add1 map_append min.absorb1 sum_list_append take_add le_add_diff_inverse)
  have step: "n < length as \<Longrightarrow> ?f (Suc n) = ?f n + demand (as ! n)" for n
    by (simp add: take_Suc_conv_app_nth)
  have "?f i + k < ?f (Suc i)" "?f (Suc i) \<le> ?f j" "?f j + l < ?f (Suc j)" "?f (Suc j) \<le> ?f (length as)"
    using assms(4,5,8,9) step [of i] step [of j] mono [of "Suc i" j] mono [of "Suc j" "length as"] by auto
  then have "?f i + k < ?f j + l" "?f j + l < capacity" using assms(3) by auto
  moreover assume "v + of_nat k = w + of_nat l"
  then have "(of_nat (?f i + k) :: 'n) = of_nat (?f j + l)"
    using run_grants [OF assms(1,2) _ assms(6)] run_grants [OF assms(1,2) _ assms(7)] assms(4,5) by (simp add: add.assoc)
  ultimately show False using distinct_numbers [of "?f i + k" "?f j + l"] by simp
qed

end

section \<open>The stream socket service\<close>

text \<open>What the server reads of a request, and what the client finds in a reply that ends with a newline.\<close>

definition cl_demand :: "arrival \<Rightarrow> nat" where
  "cl_demand a =
     (case a of
        Refused e \<Rightarrow> 0
      | Arrives c \<Rightarrow> (case readLine INT_LEN (incoming c) of Some (Inr (Some line), _) \<Rightarrow> nat (atoi line) | _ \<Rightarrow> 0))"

definition cl_granted :: "arrival \<Rightarrow> 32 word option" where
  "cl_granted a =
     (case a of
        Refused e \<Rightarrow> None
      | Arrives c \<Rightarrow>
          let r = accepted (outgoing c)
          in if r \<noteq> [] \<and> last r = newline then Some (word_of_int (atoi r)) else None)"

text \<open>A connection on which nothing has been written.\<close>

definition cl_fresh :: "arrival \<Rightarrow> bool" where
  "cl_fresh a = (case a of Refused e \<Rightarrow> True | Arrives c \<Rightarrow> accepted (outgoing c) = [])"

lemma length_digits10: "n < 10 ^ k \<Longrightarrow> 0 < k \<Longrightarrow> length (digits10 n) \<le> k"
proof (induction n arbitrary: k rule: digits10.induct)
  case (1 n)
  show ?case
  proof (cases "n < 10")
    case False
    then obtain j where k: "k = Suc j" "0 < j" using 1(2,3) by (cases k; cases "k - 1") auto
    then have "n div 10 < 10 ^ j" using 1(2) by (simp add: less_mult_imp_div_less mult.commute)
    then show ?thesis using False 1(1) [of j] k by (subst digits10.simps) simp
  qed (use 1 in \<open>subst digits10.simps, simp\<close>)
qed

lemma length_dec32:
  assumes "INT_MIN \<le> i" "i \<le> INT_MAX"
  shows "length (dec i) \<le> 11"
proof -
  have "nat \<bar>i\<bar> < 10 ^ 10" using assms by (simp add: long_limits)
  then have "length (digits10 (nat \<bar>i\<bar>)) \<le> 10" by (rule length_digits10) simp
  then show ?thesis by (auto simp: dec_def abs_if split: if_splits)
qed

lemma dec_no_newline: "newline \<notin> set (dec i)"
proof -
  have "\<not> is_base_digit 10 newline" by (simp add: is_base_digit_def digit_of_def)
  then have "newline \<notin> set (digits10 n)" for n using digits10_digits [of n] by blast
  then show ?thesis by (simp add: dec_def)
qed

lemma sint32_range: "INT_MIN \<le> sint (q :: 32 word)" "sint (q :: 32 word) \<le> INT_MAX"
  using to_int32_range [of "uint q"] by (simp_all add: to_int32_def)

lemma reply_text_eq: "reply_text q = dec (sint q) @ nl"
  using length_dec32 [OF sint32_range, of q] by (simp add: reply_text_def snprintf_def msg_def INT_LEN_def nl_def)

lemma reply_complete:
  assumes "take k (reply_text q) \<noteq> []" "last (take k (reply_text q)) = newline"
  shows "take k (reply_text q) = reply_text q"
proof (cases "k \<le> length (dec (sint q))")
  case True
  then have "take k (reply_text q) = take k (dec (sint q))" by (simp add: reply_text_eq)
  then have "newline \<in> set (dec (sint q))" using assms last_in_set by (metis in_set_takeD)
  then show ?thesis using dec_no_newline by blast
qed (simp add: reply_text_eq nl_def)

lemma reply_value: "word_of_int (atoi (reply_text q)) = q"
  unfolding reply_text_eq by (subst atoi_dec) (simp_all add: sint32_range no_digit_def nl_def is_base_digit_def digit_of_def)

lemma answer_client_spec:
  assumes "answer_client K c reqLen q s = Some (c', q', t)" "accepted (outgoing c) = []"
  shows "q' = q + word_of_int reqLen"
    "\<lbrakk>accepted (outgoing c') \<noteq> []; last (accepted (outgoing c')) = newline\<rbrakk> \<Longrightarrow> accepted (outgoing c') = reply_text q"
  using assms reply_complete [of _ q]
  by (auto simp: answer_client_def write_call_def Let_def split: option.splits list.splits answer.splits)

lemma serve_client_spec:
  assumes "cl_fresh a" "serve_client K addrStr a (q, s) = Some (b, q', t)"
  shows "q' = q + of_nat (cl_demand a)" "cl_granted b = Some v \<Longrightarrow> v = q"
proof -
  have "q' = q + of_nat (cl_demand a) \<and> (cl_granted b = Some v \<longrightarrow> v = q)"
  proof (cases a)
    case (Arrives c)
    then have fresh: "accepted (outgoing c) = []" using assms(1) by (simp add: cl_fresh_def)
    obtain r src where r: "readLine INT_LEN (incoming c) = Some (r, src)"
      using assms(2) Arrives by (cases "readLine INT_LEN (incoming c)") (auto simp: serve_client_def)
    show ?thesis
    proof (cases "\<exists>line. r = Inr (Some line) \<and> 0 < atoi line")
      case True
      then obtain line where line: "r = Inr (Some line)" "0 < atoi line" by blast
      then obtain c' where c': "b = Arrives c'"
          "answer_client K (c\<lparr>incoming := src\<rparr>) (atoi line) q
             (printf_out (msg [''Connection from '', addrStr (peer c), nl]) s) = Some (c', q', t)"
        using assms(2) Arrives r by (auto simp: serve_client_def Let_def)
      have "q' = q + of_nat (cl_demand a)"
        using answer_client_spec(1) [OF c'(2)] fresh Arrives r line by (simp add: cl_demand_def)
      moreover have "cl_granted b = Some v \<longrightarrow> v = q"
        using answer_client_spec(2) [OF c'(2)] fresh c'(1) reply_value [of q]
        by (auto simp: cl_granted_def Let_def)
      ultimately show ?thesis by blast
    next
      case False
      then have "q' = q" "\<exists>s1. b = Arrives (c\<lparr>incoming := s1\<rparr>)"
        using assms(2) Arrives r by (auto simp: serve_client_def Let_def split: sum.splits option.splits if_splits)
      moreover have "cl_demand a = 0"
        using False Arrives r by (auto simp: cl_demand_def split: sum.splits option.splits)
      ultimately show ?thesis using fresh by (auto simp: cl_granted_def)
    qed
  qed (use assms in \<open>auto simp: serve_client_def cl_demand_def cl_granted_def\<close>)
  then show "q' = q + of_nat (cl_demand a)" "cl_granted b = Some v \<Longrightarrow> v = q" by blast+
qed

lemma of_nat_word32_inj: "m < 2 ^ 32 \<Longrightarrow> n < 2 ^ 32 \<Longrightarrow> (of_nat m :: 32 word) = of_nat n \<Longrightarrow> m = n"
  by (simp add: word_of_nat_eq_iff take_bit_nat_eq_self)

interpretation sq: sequencer "serve_client K addrStr" fst cl_demand cl_granted cl_fresh "2 ^ 32"
proof
  fix a s b t v
  assume a: "cl_fresh a" "serve_client K addrStr a s = Some (b, t)"
  then have s: "serve_client K addrStr a (fst s, snd s) = Some (b, fst t, snd t)" by simp
  show "fst t = fst s + of_nat (cl_demand a)" by (rule serve_client_spec(1) [OF a(1) s])
  show "cl_granted b = Some v \<Longrightarrow> v = fst s" by (rule serve_client_spec(2) [OF a(1) s])
qed (rule of_nat_word32_inj)

section \<open>The FIFO service\<close>

definition trip_demand :: "trip \<Rightarrow> nat" where
  "trip_demand tr = (case tr_read tr of None \<Rightarrow> 0 | Some req \<Rightarrow> if tr_open tr = None then nat (seqLen req) else 0)"

definition trip_valid :: "trip \<Rightarrow> bool" where
  "trip_valid tr = (case tr_read tr of None \<Rightarrow> True | Some req \<Rightarrow> 0 \<le> seqLen req)"

lemma fifo_serve_spec:
  assumes "trip_valid tr" "fifo_serve strerror tr (q, s) = Some (b, q', t)"
  shows "q' = q + of_nat (trip_demand tr)" "map_option snd b = Some v \<Longrightarrow> v = q"
  using assms
  by (auto simp: fifo_serve_def trip_valid_def trip_demand_def Let_def split: option.splits if_splits)

interpretation fq: sequencer "fifo_serve strerror" fst trip_demand "map_option snd" trip_valid "2 ^ 33"
proof
  fix a s b t v
  assume a: "trip_valid a" "fifo_serve strerror a s = Some (b, t)"
  then have s: "fifo_serve strerror a (fst s, snd s) = Some (b, fst t, snd t)" by simp
  show "fst t = fst s + of_nat (trip_demand a)" by (rule fifo_serve_spec(1) [OF a(1) s])
  show "map_option snd b = Some v \<Longrightarrow> v = fst s" by (rule fifo_serve_spec(2) [OF a(1) s])
qed simp

section \<open>Properties\<close>

lemma run_loop_Ret:
  assumes "run_loop r K as = Some (Ret (bs, q) t)"
  shows "\<exists>q0 f s0. serve_list (serve_client K f) as (q0, s0) = Some (bs, q, t)"
  using assms by (cases r) (auto simp: run_loop_def split: option.splits)

lemma first_line_newline: "newline \<notin> set l \<Longrightarrow> first_line (l @ nl @ r) = l @ nl"
  by (induction l) (auto simp: nl_def)

lemma readLine_number:
  assumes "INT_MIN \<le> n" "n \<le> INT_MAX" "no_failure as" "12 < calls as"
  shows "\<exists>as'. readLine INT_LEN \<lparr>pending = dec n @ nl, answers = as\<rparr> =
    Some (Inr (Some (dec n @ nl)), \<lparr>pending = [], answers = as'\<rparr>)"
proof -
  have len: "length (dec n @ nl) \<le> 12" using length_dec32 [OF assms(1,2)] by (simp add: nl_def)
  have f: "first_line (dec n @ nl) = dec n @ nl" using first_line_newline [OF dec_no_newline, of n "[]"] by simp
  then have "length (first_line (dec n @ nl)) < calls as" using len assms(4) by simp
  from readLine_loop_spec [OF assms(3) this, of "[]" INT_LEN] show ?thesis
    using len by (simp add: f readLine_def line_result_def INT_LEN_def Let_def)
qed

lemma cstr_number: "cstr (dec i @ nl) = dec i @ nl"
proof -
  have "\<not> is_base_digit 10 (CHR 0x00)" by (simp add: is_base_digit_def digit_of_def)
  then have "CHR 0x00 \<notin> set (digits10 m)" for m using digits10_digits [of m] by blast
  then have "CHR 0x00 \<notin> set (dec i @ nl)" by (simp add: dec_def nl_def)
  then show ?thesis unfolding cstr_def takeWhile_eq_all_conv by blast
qed

lemma no_digit_nl: "no_digit nl"
  by (simp add: no_digit_def nl_def is_base_digit_def digit_of_def)

lemma answer_client_full:
  assumes "outgoing c = \<lparr>accepted = [], replies = Upto k # rs\<rparr>" "12 \<le> k"
  shows "\<exists>c' t. answer_client K c n q s = Some (c', q + word_of_int n, t) \<and> accepted (outgoing c') = dec (sint q) @ nl"
proof -
  have "length (reply_text q) \<le> k" using length_dec32 [OF sint32_range, of q] assms(2) by (simp add: reply_text_eq nl_def)
  then have "take k (reply_text q) = reply_text q" by simp
  then show ?thesis unfolding reply_text_eq [symmetric] using assms(1) by (simp add: answer_client_def write_call_def)
qed

lemma serve_client_number:
  assumes "0 < n" "n \<le> INT_MAX" "incoming c = \<lparr>pending = dec n @ nl, answers = as\<rparr>" "no_failure as" "12 < calls as"
    "outgoing c = \<lparr>accepted = [], replies = Upto k # rs\<rparr>" "12 \<le> k"
  shows "\<exists>c' t. serve_client K f (Arrives c) (q, s) = Some (Arrives c', q + word_of_int n, t) \<and>
    accepted (outgoing c') = dec (sint q) @ nl"
proof -
  have n: "INT_MIN \<le> n" using assms(1) by (simp add: long_limits)
  obtain as' where r: "readLine INT_LEN (incoming c) = Some (Inr (Some (dec n @ nl)), \<lparr>pending = [], answers = as'\<rparr>)"
    using readLine_number [OF n assms(2,4,5)] assms(3) by auto
  have v: "atoi (dec n @ nl) = n" by (rule atoi_dec [OF n assms(2) no_digit_nl])
  let ?c = "c\<lparr>incoming := \<lparr>pending = [], answers = as'\<rparr>\<rparr>" and ?s = "printf_out (msg [''Connection from '', f (peer c), nl]) s"
  obtain c' t where "answer_client K ?c n q ?s = Some (c', q + word_of_int n, t)" "accepted (outgoing c') = dec (sint q) @ nl"
    using answer_client_full [of ?c k rs K n q ?s] assms(6,7) by auto
  then show ?thesis using r v assms(1) by (simp add: serve_client_def Let_def)
qed

text \<open>
  C9. The stream socket servers never grant a number twice: in a run of either server, over any connections,
  with misbehaving clients and failing calls, the sequences of two clients that receive a complete reply are
  disjoint, as long as the numbers asked for are not more than the counter has values.
\<close>

theorem seqnum_disjoint:
  assumes "is_seqnum_sv K sigpipe argv as s = Some (Ret (bs, q) t) \<or>
      is_seqnum_v2_sv K sigpipe malloc argv as s = Some (Ret (bs, q) t)"
    "list_all cl_fresh as" "sum_list (map cl_demand as) \<le> 2 ^ 32"
    "i < j" "j < length as" "cl_granted (bs ! i) = Some v" "cl_granted (bs ! j) = Some w"
    "k < cl_demand (as ! i)" "l < cl_demand (as ! j)"
  shows "v + of_nat k \<noteq> w + of_nat l"
proof -
  obtain q0 f s0 where "serve_list (serve_client K f) as (q0, s0) = Some (bs, q, t)"
    using assms(1) unfolding is_seqnum_sv_def is_seqnum_v2_sv_def by (elim disjE) (drule run_loop_Ret, blast)+
  then show ?thesis by (rule sq.run_disjoint [OF assms(2) _ assms(3-9)])
qed

definition example_client :: "int \<Rightarrow> conn" where
  "example_client n = \<lparr>peer = ''p'', incoming = \<lparr>pending = dec n @ nl, answers = replicate 13 (Upto 0)\<rparr>,
     outgoing = \<lparr>accepted = '''', replies = [Upto 30]\<rparr>, close_fails = None\<rparr>"

lemma ready_answers: "no_failure (replicate 13 (Upto 0))" "12 < calls (replicate 13 (Upto 0))"
  by (simp_all add: no_failure_def list_all_iff calls_def)

lemma example_serve:
  assumes "0 < n" "n \<le> INT_MAX"
  shows "\<exists>c' t. serve_client K f (Arrives (example_client n)) (q, s) = Some (Arrives c', q + word_of_int n, t) \<and>
    accepted (outgoing c') = dec (sint q) @ nl"
  by (rule serve_client_number [OF assms]) (rule ready_answers | simp add: example_client_def)+

lemma example_demand: "0 < n \<Longrightarrow> n \<le> INT_MAX \<Longrightarrow> cl_demand (Arrives (example_client n)) = nat n"
  "cl_fresh (Arrives (example_client n))"
  using readLine_number [OF _ _ ready_answers, of n]
  by (auto simp: cl_demand_def example_client_def cl_fresh_def atoi_dec no_digit_nl long_limits)

lemma granted_reply: "accepted (outgoing c) = dec (sint q) @ nl \<Longrightarrow> cl_granted (Arrives c) = Some q"
  using reply_value [of q] by (simp add: cl_granted_def reply_text_eq Let_def) (simp add: nl_def)

lemma example_setup:
  "\<exists>s. sv2_setup example_net (\<lambda>w. (None, w)) (\<lambda>n. True) [''sv''] example_proc = Ret (3, 0) s"
  by (simp add: sv2_setup_def init_seqNum_def call_ok_def example_net_def inetListen_def inetPassiveSocket_def call_fd_def
      example_proc_def)

theorem seqnum_disjoint_witness:
  "\<exists>bs q t. is_seqnum_v2_sv example_net (\<lambda>w. (None, w)) (\<lambda>n. True) [''sv'']
       [Arrives (example_client 3), Arrives (example_client 2)] example_proc = Some (Ret (bs, q) t) \<and>
     map cl_granted bs = [Some 0, Some 3] \<and> 0 + of_nat 2 \<noteq> (3 + of_nat 1 :: 32 word)"
proof -
  obtain s0 where s0: "sv2_setup example_net (\<lambda>w. (None, w)) (\<lambda>n. True) [''sv''] example_proc = Ret (3, 0) s0"
    using example_setup by blast
  let ?f = "\<lambda>addr. inetAddressStr example_net addr IS_ADDR_STR_LEN (world s0)"
  obtain c1 s1 where c1: "serve_client example_net ?f (Arrives (example_client 3)) (0, s0) = Some (Arrives c1, 0 + word_of_int 3, s1)"
      "accepted (outgoing c1) = dec (sint (0 :: 32 word)) @ nl"
    using example_serve [of 3 example_net ?f 0 s0] by (auto simp: long_limits)
  obtain c2 s2 where c2: "serve_client example_net ?f (Arrives (example_client 2)) (3, s1) = Some (Arrives c2, 3 + word_of_int 2, s2)"
      "accepted (outgoing c2) = dec (sint (3 :: 32 word)) @ nl"
    using example_serve [of 2 example_net ?f 3 s1] by (auto simp: long_limits)
  have r: "is_seqnum_v2_sv example_net (\<lambda>w. (None, w)) (\<lambda>n. True) [''sv'']
      [Arrives (example_client 3), Arrives (example_client 2)] example_proc = Some (Ret ([Arrives c1, Arrives c2], 5) s2)"
    using s0 c1(1) c2(1) by (simp add: is_seqnum_v2_sv_def run_loop_def)
  have g: "cl_granted (Arrives c1) = Some 0" "cl_granted (Arrives c2) = Some 3"
    using granted_reply [OF c1(2)] granted_reply [OF c2(2)] by simp_all
  have "0 + of_nat 2 \<noteq> (3 + of_nat 1 :: 32 word)"
    by (rule seqnum_disjoint [OF disjI2 [OF r], of 0 1]) (simp_all add: example_demand long_limits g)
  then show ?thesis using r g by auto
qed

text \<open>
  The client and the server understand each other: when no call fails, a client that asks for \<open>n\<close> numbers
  makes the server advance its counter by \<open>n\<close>, and prints the counter as it was, as a signed number, so
  negative from 2147483648 on.
\<close>

theorem client_prints_number:
  assumes "0 < n" "n \<le> INT_MAX" "length (dec n) \<le> a" "1 \<le> b"
    "incoming c = \<lparr>pending = dec n @ nl, answers = as\<rparr>" "no_failure as" "12 < calls as"
    "outgoing c = \<lparr>accepted = [], replies = Upto k # rs\<rparr>" "12 \<le> k"
    "no_failure as1" "12 < calls as1"
  shows "\<exists>c' t. serve_client K f (Arrives c) (q, s) = Some (Arrives c', q + word_of_int n, t) \<and>
    cl_exchange K' [prog, host, dec n] \<lparr>accepted = [], replies = [Upto a, Upto b]\<rparr>
      \<lparr>pending = accepted (outgoing c'), answers = as1\<rparr> u =
    Some (\<lparr>accepted = pending (incoming c), replies = []\<rparr>,
      exit3 EXIT_SUCCESS (printf_out (msg [''Sequence number: '', dec (sint q), nl]) u))"
proof -
  obtain c' t where c': "serve_client K f (Arrives c) (q, s) = Some (Arrives c', q + word_of_int n, t)"
      "accepted (outgoing c') = dec (sint q) @ nl"
    using serve_client_number [OF assms(1,2,5-9)] by blast
  obtain as2 where r: "readLine INT_LEN \<lparr>pending = dec (sint q) @ nl, answers = as1\<rparr> =
      Some (Inr (Some (dec (sint q) @ nl)), \<lparr>pending = [], answers = as2\<rparr>)"
    using readLine_number [OF sint32_range assms(10,11)] by blast
  have "length (dec (sint q) @ nl) = length (dec (sint q)) + 1" "length nl = 1" by (simp_all add: nl_def)
  then show ?thesis using c' r assms(3-5)
    by (intro exI [of _ c'] exI [of _ t]) (simp add: cl_exchange_def write_call_def Let_def cstr_number msg_def)
qed

theorem client_prints_number_witness:
  "\<exists>c' t. serve_client example_net id (Arrives (example_client 3)) (2147483648, example_proc) =
      Some (Arrives c', 2147483651, t) \<and>
    cl_exchange example_net [''cl'', ''localhost'', dec 3] \<lparr>accepted = [], replies = [Upto 1, Upto 1]\<rparr>
      \<lparr>pending = accepted (outgoing c'), answers = replicate 13 (Upto 0)\<rparr> example_proc =
    Some (\<lparr>accepted = dec 3 @ nl, replies = []\<rparr>,
      exit3 EXIT_SUCCESS (printf_out (msg [''Sequence number: '', dec (- 2147483648), nl]) example_proc))"
proof -
  have c: "incoming (example_client 3) = \<lparr>pending = dec 3 @ nl, answers = replicate 13 (Upto 0)\<rparr>"
    "outgoing (example_client 3) = \<lparr>accepted = [], replies = Upto 30 # []\<rparr>"
    by (simp_all add: example_client_def)
  have d: "0 < (3 :: int)" "3 \<le> INT_MAX" "length (dec 3) \<le> 1" "(1 :: nat) \<le> 1" "(12 :: nat) \<le> 30"
    by (simp_all add: long_limits dec_def digits10.simps)
  show ?thesis
    using client_prints_number [OF d(1-4) c(1) ready_answers c(2) d(5) ready_answers, of example_net id 2147483648 example_proc
        example_net "''cl''" "''localhost''" example_proc]
    by (simp add: c(1))
qed

lemma serve_list_nth:
  "serve_list serve as s = Some (bs, t) \<Longrightarrow> i < length as \<Longrightarrow> \<exists>s1 t1. serve (as ! i) s1 = Some (bs ! i, t1)"
  by (induction as arbitrary: s bs i) (force split: option.splits simp: less_Suc_eq_0_disj nth_Cons')+

lemma fifo_serve_range:
  assumes "serve_list (fifo_serve strerror) trips (q0, s) = Some (rs, q, t)" "INT_MIN \<le> q0" "q0 \<le> INT_MAX"
  shows "INT_MIN \<le> q \<and> q \<le> INT_MAX"
  using assms
proof (induction trips arbitrary: q0 s rs)
  case (Cons tr trips)
  obtain b q1 s1 where b: "fifo_serve strerror tr (q0, s) = Some (b, q1, s1)"
    using Cons.prems(1) by (cases "fifo_serve strerror tr (q0, s)") auto
  then have "INT_MIN \<le> q1" "q1 \<le> INT_MAX"
    using Cons.prems(2,3) by (auto simp: fifo_serve_def Let_def split: option.splits if_splits)
  moreover obtain rs' where "serve_list (fifo_serve strerror) trips (q1, s1) = Some (rs', q, t)"
    using Cons.prems(1) b by (auto split: option.splits)
  ultimately show ?case using Cons.IH by blast
qed auto

text \<open>
  The FIFO server never grants a number twice to clients that ask for no negative number: the sequences
  of two clients that receive their response are disjoint, in every run that stays within the signed counter.
\<close>

theorem fifo_disjoint:
  assumes "fifo_seqnum_server strerror k trips s = Ret (rs, q) t" "list_all trip_valid trips" "i < j" "j < length trips"
    "rs ! i = Some (f, v)" "rs ! j = Some (g, w)" "tr_read (trips ! i) = Some a" "tr_read (trips ! j) = Some b"
    "m < nat (seqLen a)" "n < nat (seqLen b)"
  shows "v + int m \<noteq> w + int n"
proof -
  obtain s1 where r: "serve_list (fifo_serve strerror) trips (0, s1) = Some (rs, q, t)"
    using assms(1) by (auto simp: fifo_seqnum_server_def bindR_Ret_iff split: option.splits)
  have opened: "x < length trips \<Longrightarrow> rs ! x = Some z \<Longrightarrow> tr_open (trips ! x) = None" for x z
    using serve_list_nth [OF r, of x] by (auto simp: fifo_serve_def Let_def split: option.splits if_splits)
  have d: "m < trip_demand (trips ! i)" "n < trip_demand (trips ! j)"
    using opened [of i] opened [of j] assms(3-10) by (simp_all add: trip_demand_def)
  have "q = int (sum_list (map trip_demand trips))" using fq.run_counter(2) [OF assms(2) r] by simp
  then have "sum_list (map trip_demand trips) \<le> 2 ^ 33" using fifo_serve_range [OF r] by (simp add: long_limits)
  from fq.run_disjoint [OF assms(2) r this assms(3,4) _ _ d, of v w] show ?thesis using assms(5,6) by simp
qed

definition example_trip :: "int \<Rightarrow> int \<Rightarrow> trip" where
  "example_trip p n = \<lparr>tr_read = Some \<lparr>rq_pid = p, seqLen = n\<rparr>, tr_open = None, tr_write = Inr RESPONSE_SIZE, tr_close = None\<rparr>"

definition example_calls :: sv_calls where
  "example_calls = \<lparr>sv_mkfifo = Some EEXIST, sv_open_read = None, sv_open_write = None, sv_signal = None\<rparr>"

lemmas example_fifo = fifo_seqnum_server_def fifo_setup_def example_calls_def fail_with_def fifo_serve_def example_trip_def
  EEXIST_def long_limits Let_def

theorem fifo_disjoint_witness:
  "\<exists>rs q t. fifo_seqnum_server (\<lambda>e. '''') example_calls [example_trip 7 3, example_trip 8 2] example_proc = Ret (rs, q) t \<and>
     rs = [Some (client_fifo 7, 0), Some (client_fifo 8, 3)] \<and> 0 + int 2 \<noteq> 3 + int 1"
proof -
  have r: "\<exists>t. fifo_seqnum_server (\<lambda>e. '''') example_calls [example_trip 7 3, example_trip 8 2] example_proc =
      Ret ([Some (client_fifo 7, 0), Some (client_fifo 8, 3)], 5) t"
    by (simp add: example_fifo)
  then obtain t where t: "fifo_seqnum_server (\<lambda>e. '''') example_calls [example_trip 7 3, example_trip 8 2] example_proc =
      Ret ([Some (client_fifo 7, 0), Some (client_fifo 8, 3)], 5) t" ..
  have "0 + int 2 \<noteq> 3 + int 1"
    by (rule fifo_disjoint [OF t, of 0 1 "client_fifo 7" 0 "client_fifo 8" 3]) (simp add: trip_valid_def example_trip_def)+
  with t show ?thesis by blast
qed

text \<open>
  The FIFO server trusts the length in a request, unlike the stream socket servers: after a request for
  -3 numbers the numbers it has given to the first client go to the third one as well.
\<close>

theorem fifo_reuses_numbers:
  "\<exists>t. fifo_seqnum_server strerror example_calls [example_trip 7 3, example_trip 8 (- 3), example_trip 9 3] s =
     Ret ([Some (client_fifo 7, 0), Some (client_fifo 8, 3), Some (client_fifo 9, 0)], 3) t"
  by (simp add: example_fifo)

end
