(* ===== verification/EpollTimer.thy ===== *)
theory EpollTimer
  imports ErrorFunctions "HOL-Library.Multiset"
begin

text \<open>
  The server \<open>ALSP/epoll_timerfd.c\<close>, which closes connections that are idle: every connection is an entry of
  the table \<open>fds_list\<close> with its socket and a timer, and both are in the interest set of one epoll instance.
  The kernel is the parameter \<open>epos\<close>. A pointer to an entry of the table is its index; an access outside the
  allocated table is \<open>Undef\<close>. A call of the program that never returns is \<open>None\<close>.
\<close>

section \<open>State and kernel\<close>

record fdsession =
  socketfd :: int
  timerfd :: int
  timeout :: int

record 'w srv =
  n_allocated :: int
  n_used :: int
  slots :: "fdsession list"
  epollfd :: int
  sys :: "'w proc"

definition EPOLLIN :: int where "EPOLLIN = 1"
definition EPOLLERR :: int where "EPOLLERR = 8"
definition FDSESSION_DEFAULT_TIMEOUT :: int where "FDSESSION_DEFAULT_TIMEOUT = 30"
definition LISTEN_BACKLOG :: int where "LISTEN_BACKLOG = 256"
definition MAX_EP_EVENTS :: nat where "MAX_EP_EVENTS = 32"
definition ENOENT :: int where "ENOENT = 2"
definition EAGAIN :: int where "EAGAIN = 11"
definition ENOMEM :: int where "ENOMEM = 12"

record epev =
  ev_events :: int
  ev_fd :: int

text \<open>\<open>ep_realloc n\<close> and \<open>ep_calloc\<close> tell whether memory is allocated; the others are the calls of their names.\<close>

record 'w epos =
  ep_getaddrinfo :: "string \<Rightarrow> 'w \<Rightarrow> int + (int \<times> int \<times> int \<times> string)"
  ep_socket :: "int \<Rightarrow> int \<Rightarrow> int \<Rightarrow> 'w \<Rightarrow> (int + int) \<times> 'w"
  ep_bind :: "int \<Rightarrow> string \<Rightarrow> 'w \<Rightarrow> int option \<times> 'w"
  ep_listen :: "int \<Rightarrow> int \<Rightarrow> 'w \<Rightarrow> int option \<times> 'w"
  ep_create :: "'w \<Rightarrow> (int + int) \<times> 'w"
  ep_calloc :: "'w \<Rightarrow> bool"
  ep_wait :: "int \<Rightarrow> nat \<Rightarrow> 'w \<Rightarrow> (int + epev list) \<times> 'w"
  ep_accept :: "int \<Rightarrow> 'w \<Rightarrow> (int + int) \<times> 'w"
  ep_add :: "int \<Rightarrow> int \<Rightarrow> 'w \<Rightarrow> int option \<times> 'w"
  ep_del :: "int \<Rightarrow> int \<Rightarrow> 'w \<Rightarrow> int option \<times> 'w"
  ep_close :: "int \<Rightarrow> 'w \<Rightarrow> int option \<times> 'w"
  ep_timerfd_create :: "'w \<Rightarrow> (int + int) \<times> 'w"
  ep_settime :: "int \<Rightarrow> int \<Rightarrow> 'w \<Rightarrow> int option \<times> 'w"
  ep_recv :: "int \<Rightarrow> nat \<Rightarrow> 'w \<Rightarrow> (int + string) \<times> 'w"
  ep_setnb :: "int \<Rightarrow> 'w \<Rightarrow> int option \<times> 'w"
  ep_linger :: "int \<Rightarrow> 'w \<Rightarrow> int option \<times> 'w"
  ep_realloc :: "int \<Rightarrow> 'w \<Rightarrow> bool"
  ep_clock :: "'w \<Rightarrow> int option"
  ep_localtime :: "int \<Rightarrow> string"
  ep_strerror :: "int \<Rightarrow> string"
  ep_gai_strerror :: "int \<Rightarrow> string"

text \<open>A call that returns a number (\<open>Inl\<close> of errno for -1), and one that only succeeds or fails.\<close>

definition call_int :: "('w \<Rightarrow> (int + 'a) \<times> 'w) \<Rightarrow> 'w srv \<Rightarrow> 'a option \<times> 'w srv" where
  "call_int f s = (case f (world (sys s)) of
     (Inl e, w) \<Rightarrow> (None, s\<lparr>sys := (sys s)\<lparr>world := w, errno := e\<rparr>\<rparr>)
   | (Inr v, w) \<Rightarrow> (Some v, s\<lparr>sys := (sys s)\<lparr>world := w\<rparr>\<rparr>))"

definition call_unit :: "('w \<Rightarrow> int option \<times> 'w) \<Rightarrow> 'w srv \<Rightarrow> bool \<times> 'w srv" where
  "call_unit f s = (case f (world (sys s)) of
     (Some e, w) \<Rightarrow> (False, s\<lparr>sys := (sys s)\<lparr>world := w, errno := e\<rparr>\<rparr>)
   | (None, w) \<Rightarrow> (True, s\<lparr>sys := (sys s)\<lparr>world := w\<rparr>\<rparr>))"

definition sys_errno :: "'w srv \<Rightarrow> int" where
  "sys_errno s = errno (sys s)"

section \<open>Messages (\<open>ALSP/stdalsp.h\<close>)\<close>

text \<open>A message names the source line where its call begins.\<close>

definition pad3 :: "int \<Rightarrow> string" where
  "pad3 n = (let d = dec n in replicate (3 - length d) (CHR ''0'') @ d)"

definition print_msg :: "string \<Rightarrow> string \<Rightarrow> int \<Rightarrow> string list \<Rightarrow> string" where
  "print_msg ty func line arg =
     msg ([''['', ty, ''] [epoll_timerfd.c/'', func, '':'', pad3 line, ''] ''] @ arg @ [nl])"

definition pr_err :: "string \<Rightarrow> int \<Rightarrow> string list \<Rightarrow> 'w srv \<Rightarrow> 'w srv" where
  "pr_err func line arg s = s\<lparr>sys := fputs_err (print_msg ''ERR'' func line arg) (sys s)\<rparr>"

definition pr_out :: "string \<Rightarrow> int \<Rightarrow> string list \<Rightarrow> 'w srv \<Rightarrow> 'w srv" where
  "pr_out func line arg s = s\<lparr>sys := printf_out (print_msg ''REP'' func line arg) (sys s)\<rparr>"

text \<open>\<open>get_time0\<close> for a buffer of \<open>sz\<close> bytes; \<open>ep_localtime\<close> is the text of localtime_r(3) and strftime(3).\<close>

definition get_time0 :: "'w epos \<Rightarrow> nat \<Rightarrow> 'w srv \<Rightarrow> string option" where
  "get_time0 K sz s =
     (if sz < 20 then None
      else case ep_clock K (world (sys s)) of
             None \<Rightarrow> None
           | Some sec \<Rightarrow> let t = ep_localtime K sec in if t = [] \<or> length t \<ge> sz then None else Some t)"

definition GET_TIME0 :: "'w epos \<Rightarrow> 'w srv \<Rightarrow> string" where
  "GET_TIME0 K s = (case get_time0 K 32 s of None \<Rightarrow> ''error'' | Some t \<Rightarrow> t)"

section \<open>The session table\<close>

definition new_slot :: fdsession where
  "new_slot = \<lparr>socketfd = 0, timerfd = 0, timeout = 0\<rparr>"

text \<open>The first entry of the \<open>n_used\<close> that satisfies \<open>P\<close>; the loops of the three functions below.\<close>

function find_slot :: "(fdsession \<Rightarrow> bool) \<Rightarrow> int \<Rightarrow> 'w srv \<Rightarrow> ('w srv, int option) res" where
  "find_slot P i s =
     (if \<not> i < n_used s then Ret None s
      else if i < 0 \<or> i \<ge> int (length (slots s)) then Undef
      else if P (slots s ! nat i) then Ret (Some i) s
      else find_slot P (i + 1) s)"
  by pat_completeness auto
termination
  by (relation "measure (\<lambda>(P, i, s). nat (n_used s - i))") auto

declare find_slot.simps [simp del]

definition fds_findbysocketfd :: "int \<Rightarrow> 'w srv \<Rightarrow> ('w srv, int option) res" where
  "fds_findbysocketfd fd s = find_slot (\<lambda>f. socketfd f = fd) 0 s"

definition fds_findbytimerfd :: "int \<Rightarrow> 'w srv \<Rightarrow> ('w srv, int option) res" where
  "fds_findbytimerfd fd s = find_slot (\<lambda>f. timerfd f = fd) 0 s"

definition put_slot :: "int \<Rightarrow> fdsession \<Rightarrow> 'w srv \<Rightarrow> ('w srv, unit) res" where
  "put_slot i f s =
     (if i < 0 \<or> i \<ge> int (length (slots s)) then Undef else Ret () (s\<lparr>slots := (slots s)[nat i := f]\<rparr>))"

definition get_slot :: "int \<Rightarrow> 'w srv \<Rightarrow> ('w srv, fdsession) res" where
  "get_slot i s = (if i < 0 \<or> i \<ge> int (length (slots s)) then Undef else Ret (slots s ! nat i) s)"

text \<open>The result is 0, or ENOENT when no entry has the timer.\<close>

definition fds_deletebytimerfd :: "int \<Rightarrow> 'w srv \<Rightarrow> ('w srv, int) res" where
  "fds_deletebytimerfd tfd s =
     bindR (find_slot (\<lambda>f. timerfd f = tfd) 0 s) (\<lambda>r s1.
       case r of
         None \<Rightarrow> Ret ENOENT s1
       | Some i \<Rightarrow>
           bindR (get_slot (n_used s1 - 1) s1) (\<lambda>lst s2.
           bindR (if i \<noteq> n_used s2 - 1 then put_slot i lst s2 else Ret () s2) (\<lambda>_ s3.
           bindR (put_slot (n_used s3 - 1) (lst\<lparr>socketfd := - 1, timerfd := - 1\<rparr>) s3) (\<lambda>_ s4.
             Ret 0 (s4\<lparr>n_used := n_used s4 - 1\<rparr>)))))"

text \<open>The index of the new entry, or the error number.\<close>

definition grow_slots :: "'w epos \<Rightarrow> 'w srv \<Rightarrow> bool \<times> 'w srv" where
  "grow_slots K s =
     (if n_allocated s = n_used s
      then if ep_realloc K (n_allocated s + 16) (world (sys s))
           then (True, s\<lparr>slots := slots s @ replicate 16 new_slot, n_allocated := n_allocated s + 16\<rparr>)
           else (False, s\<lparr>sys := (sys s)\<lparr>errno := ENOMEM\<rparr>\<rparr>)
      else (True, s))"

definition fds_new_timerfd :: "'w epos \<Rightarrow> int \<Rightarrow> int \<Rightarrow> 'w srv \<Rightarrow> ('w srv, int + int) res" where
  "fds_new_timerfd K sfd tmo s =
     (case grow_slots K s of
        (False, s1) \<Rightarrow> Ret (Inl (sys_errno s1)) s1
      | (True, s1) \<Rightarrow>
          (case call_int (ep_timerfd_create K) s1 of
             (None, s2) \<Rightarrow>
               Ret (Inl (sys_errno s2))
                 (s2\<lparr>sys := fputs_err (msg [''timerfd_create: '', ep_strerror K (sys_errno s2), nl]) (sys s2)\<rparr>)
           | (Some fd, s2) \<Rightarrow>
               bindR (put_slot (n_used s2) \<lparr>socketfd = sfd, timerfd = fd, timeout = tmo\<rparr> s2) (\<lambda>_ s3.
                 Ret (Inr (n_used s3)) (s3\<lparr>n_used := n_used s3 + 1\<rparr>))))"

definition fds_set_timerfd :: "'w epos \<Rightarrow> int \<Rightarrow> 'w srv \<Rightarrow> ('w srv, int) res" where
  "fds_set_timerfd K i s =
     bindR (get_slot i s) (\<lambda>f s1.
       case call_unit (ep_settime K (timerfd f) (timeout f)) s1 of
         (False, s2) \<Rightarrow> Ret (sys_errno s2) (pr_err ''fds_set_timerfd'' 259 [''timerfd_settime''] s2)
       | (True, s2) \<Rightarrow>
           Ret 0 (pr_out ''fds_set_timerfd'' 264
             [''timeout['', GET_TIME0 K s2, ''] start (sfd/tfd='', dec (socketfd f), ''/'', dec (timerfd f),
              '', timeout='', dec (timeout f), '')''] s2))"

section \<open>Events\<close>

definition ctl_error :: "'w epos \<Rightarrow> string \<Rightarrow> int \<Rightarrow> string \<Rightarrow> int \<Rightarrow> 'w srv \<Rightarrow> 'w srv" where
  "ctl_error K func line what fd s =
     pr_err func line [''fd('', dec fd, '') '', what, '' Error('', dec (sys_errno s), '':'', ep_strerror K (sys_errno s), '')''] s"

definition watch_timer :: "'w epos \<Rightarrow> int \<Rightarrow> int \<Rightarrow> int \<Rightarrow> 'w srv \<Rightarrow> ('w srv, int) res" where
  "watch_timer K efd fd i s =
     bindR (fds_set_timerfd K i s) (\<lambda>ret s1.
       if ret \<noteq> 0 then Ret ret s1
       else bindR (get_slot i s1) (\<lambda>f s2.
         case call_unit (ep_add K efd (timerfd f)) s2 of
           (False, s3) \<Rightarrow> Ret (- 1) (ctl_error K ''add_ev'' 196 ''EPOLL_CTL_ADD'' fd s3)
         | (True, s3) \<Rightarrow> Ret 0 s3))"

definition add_ev :: "'w epos \<Rightarrow> int \<Rightarrow> int \<Rightarrow> int \<Rightarrow> 'w srv \<Rightarrow> ('w srv, int) res" where
  "add_ev K efd fd tmo s =
     (case call_unit (ep_add K efd fd) s of
        (False, s1) \<Rightarrow> Ret (- 1) (ctl_error K ''add_ev'' 179 ''EPOLL_CTL_ADD'' fd s1)
      | (True, s1) \<Rightarrow>
          if tmo > 0 then
            bindR (fds_new_timerfd K fd tmo s1) (\<lambda>r s2.
              case r of Inl e \<Rightarrow> Ret e s2 | Inr i \<Rightarrow> watch_timer K efd fd i s2)
          else Ret 0 s1)"

definition del_ev :: "'w epos \<Rightarrow> int \<Rightarrow> int \<Rightarrow> 'w srv \<Rightarrow> ('w srv, int) res" where
  "del_ev K efd fd s =
     (case call_unit (ep_del K efd fd) s of
        (False, s1) \<Rightarrow> Ret (sys_errno s1) (ctl_error K ''del_ev'' 207 ''EPOLL_CTL_DEL'' fd s1)
      | (True, s1) \<Rightarrow>
          let s2 = snd (call_unit (ep_close K fd) s1)
          in bindR (fds_findbysocketfd fd s2) (\<lambda>r s3.
               case r of
                 None \<Rightarrow> Ret (- 1) s3
               | Some i \<Rightarrow>
                   bindR (get_slot i s3) (\<lambda>f s4.
                     case call_unit (ep_del K efd (timerfd f)) s4 of
                       (False, s5) \<Rightarrow> Ret (sys_errno s5) (ctl_error K ''del_ev'' 218 ''EPOLL_CTL_DEL'' (timerfd f) s5)
                     | (True, s5) \<Rightarrow> fds_deletebytimerfd (timerfd f) (snd (call_unit (ep_close K (timerfd f)) s5)))))"

definition srv_exit :: "int \<Rightarrow> 'w srv \<Rightarrow> ('w srv, 'a) res" where
  "srv_exit c s = Exit c (s\<lparr>sys := flush (sys s)\<rparr>)"

definition ADD_EV :: "'w epos \<Rightarrow> string \<Rightarrow> int \<Rightarrow> int \<Rightarrow> int \<Rightarrow> int \<Rightarrow> 'w srv \<Rightarrow> ('w srv, unit) res" where
  "ADD_EV K func line efd fd tmo s =
     bindR (add_ev K efd fd tmo s) (\<lambda>r s1.
       if r = - 1 then srv_exit EXIT_FAILURE (pr_err func line [''Fail: add_ev''] s1) else Ret () s1)"

definition DEL_EV :: "'w epos \<Rightarrow> string \<Rightarrow> int \<Rightarrow> int \<Rightarrow> int \<Rightarrow> 'w srv \<Rightarrow> ('w srv, unit) res" where
  "DEL_EV K func line efd fd s =
     bindR (del_ev K efd fd s) (\<lambda>r s1.
       if r = - 1 then srv_exit EXIT_FAILURE (pr_err func line [''Fail: del_ev''] s1) else Ret () s1)"

text \<open>The loop that accepts every waiting connection; it ends when accept(2) fails.\<close>

definition accept_one :: "'w epos \<Rightarrow> int \<Rightarrow> 'w srv \<Rightarrow> ('w srv, bool) res" where
  "accept_one K lfd s =
     (case call_int (ep_accept K lfd) s of
        (None, s1) \<Rightarrow> Ret False (if sys_errno s1 = EAGAIN then s1 else pr_err ''get_epollevent'' 128 [''accept()''] s1)
      | (Some fd, s1) \<Rightarrow>
          let s2 = snd (call_unit (ep_setnb K fd) s1)
          in bindR (ADD_EV K ''get_epollevent'' 132 (epollfd s2) fd FDSESSION_DEFAULT_TIMEOUT s2) (\<lambda>_ s3.
               Ret True (pr_out ''get_epollevent'' 133 [''accept : add socket = '', dec fd] s3)))"

partial_function (option) accept_all :: "'w epos \<Rightarrow> int \<Rightarrow> 'w srv \<Rightarrow> ('w srv, unit) res option" where
  "accept_all K lfd s =
     (case accept_one K lfd s of
        Ret b s1 \<Rightarrow> if b then accept_all K lfd s1 else Some (Ret () s1)
      | Exit c s1 \<Rightarrow> Some (Exit c s1)
      | Abort s1 \<Rightarrow> Some (Abort s1)
      | Undef \<Rightarrow> Some Undef)"

text \<open>The events of a socket or a timer: 0 to go on, another value to return from \<open>get_epollevent\<close>.\<close>

definition on_readable :: "'w epos \<Rightarrow> int \<Rightarrow> 'w srv \<Rightarrow> ('w srv, int) res" where
  "on_readable K fd s =
     bindR (fds_findbytimerfd fd s) (\<lambda>r s1.
       case r of
         Some i \<Rightarrow>
           bindR (get_slot i s1) (\<lambda>f s2.
             let s3 = pr_out ''get_epollevent'' 138 [''timeout['', GET_TIME0 K s2, ''] expired/closed (sfd/tfd='',
                        dec (socketfd f), ''/'', dec (timerfd f), '')''] s2;
                 s4 = snd (call_unit (ep_linger K (socketfd f)) s3)
             in bindR (DEL_EV K ''get_epollevent'' 141 (epollfd s4) (socketfd f) s4) (\<lambda>_ s5. Ret 0 s5))
       | None \<Rightarrow>
           (case call_int (ep_recv K fd 1024) s1 of
              (None, s2) \<Rightarrow> Ret 0 (pr_err ''get_epollevent'' 144 [''recv()''] s2)
            | (Some buf, s2) \<Rightarrow>
                if buf = [] then
                  bindR (DEL_EV K ''get_epollevent'' 148 (epollfd s2) fd
                    (pr_out ''get_epollevent'' 147 [''closed by foreign host (sfd='', dec fd, '')''] s2)) (\<lambda>_ s3. Ret 0 s3)
                else
                  let s3 = pr_out ''get_epollevent'' 150 [''recv['', GET_TIME0 K s2, ''] (fd='', dec fd, '',n='',
                             dec (int (length buf)), '')='', cstr buf] s2
                  in bindR (fds_findbysocketfd fd s3) (\<lambda>q s4.
                       case q of None \<Rightarrow> Ret (- 1) s4 | Some i \<Rightarrow> fds_set_timerfd K i s4)))"

fun get_epollevent :: "'w epos \<Rightarrow> int \<Rightarrow> epev list \<Rightarrow> 'w srv \<Rightarrow> ('w srv, int) res option" where
  "get_epollevent K lfd [] s = Some (Ret 0 s)"
| "get_epollevent K lfd (ev # evs) s =
     (if ev_events ev AND EPOLLIN \<noteq> 0 then
        if ev_fd ev = lfd then
          (case accept_all K lfd s of
             None \<Rightarrow> None
           | Some (Ret _ s1) \<Rightarrow> get_epollevent K lfd evs s1
           | Some (Exit c s1) \<Rightarrow> Some (Exit c s1)
           | Some (Abort s1) \<Rightarrow> Some (Abort s1)
           | Some Undef \<Rightarrow> Some Undef)
        else
          (case on_readable K (ev_fd ev) s of
             Ret r s1 \<Rightarrow> if r \<noteq> 0 then Some (Ret r s1) else get_epollevent K lfd evs s1
           | Exit c s1 \<Rightarrow> Some (Exit c s1)
           | Abort s1 \<Rightarrow> Some (Abort s1)
           | Undef \<Rightarrow> Some Undef)
      else if ev_events ev AND EPOLLERR \<noteq> 0 then get_epollevent K lfd evs s
      else get_epollevent K lfd evs (pr_out ''get_epollevent'' 165 [''fd('', dec (ev_fd ev), '') epoll event('',
             dec (ev_events ev), '') err('', ep_strerror K (sys_errno s), '')''] s))"

section \<open>The main loop\<close>

text \<open>One round; a failure of epoll_wait(2) is a round without events.\<close>

definition epoll_round :: "'w epos \<Rightarrow> int \<Rightarrow> 'w srv \<Rightarrow> ('w srv, unit) res option" where
  "epoll_round K lfd s =
     (let s1 = pr_out ''main'' 101 [''['', GET_TIME0 K s, ''] epoll waiting...''] s in
      case call_int (ep_wait K (epollfd s1) MAX_EP_EVENTS) s1 of (r, s2) \<Rightarrow>
      let ret_poll = (case r of None \<Rightarrow> - 1 | Some evs \<Rightarrow> int (length evs));
          evs = (case r of None \<Rightarrow> [] | Some evs \<Rightarrow> evs);
          s3 = pr_out ''main'' 106 [''epoll_wait = '', dec ret_poll] s2
      in map_option (\<lambda>x. bindR x (\<lambda>ret s4. Ret () (if ret \<noteq> 0 then pr_err ''main'' 109 [''get_epollevent()''] s4 else s4)))
           (get_epollevent K lfd evs s3))"

text \<open>The state after \<open>n\<close> rounds; the loop has no end of its own.\<close>

fun epoll_rounds :: "'w epos \<Rightarrow> int \<Rightarrow> nat \<Rightarrow> 'w srv \<Rightarrow> ('w srv, unit) res option" where
  "epoll_rounds K lfd 0 s = Some (Ret () s)"
| "epoll_rounds K lfd (Suc n) s =
     (case epoll_round K lfd s of
        Some (Ret _ s1) \<Rightarrow> epoll_rounds K lfd n s1
      | r \<Rightarrow> r)"

definition start_epoll :: "'w epos \<Rightarrow> int \<Rightarrow> 'w srv \<Rightarrow> ('w srv, int) res" where
  "start_epoll K lfd s =
     (case call_int (ep_create K) s of
        (None, s1) \<Rightarrow> srv_exit EXIT_FAILURE s1
      | (Some efd, s1) \<Rightarrow>
          if \<not> ep_calloc K (world (sys s1)) then srv_exit EXIT_FAILURE s1
          else bindR (ADD_EV K ''main'' 97 efd lfd 0 (s1\<lparr>epollfd := efd\<rparr>)) (\<lambda>_ s2. Ret lfd s2))"

definition epoll_setup :: "'w epos \<Rightarrow> string list \<Rightarrow> 'w proc \<Rightarrow> ('w srv, int) res" where
  "epoll_setup K argv p =
     (let s = \<lparr>n_allocated = 0, n_used = 0, slots = [], epollfd = 0, sys = p\<rparr> in
      if length argv > 2 then srv_exit EXIT_FAILURE (s\<lparr>sys := printf_out (msg [argv ! 0, '' [port number]'', nl]) p\<rparr>)
      else
        let port = (if length argv = 2 then argv ! 1 else ''0'') in
        case ep_getaddrinfo K port (world p) of
          Inl e \<Rightarrow> srv_exit EXIT_FAILURE (pr_err ''main'' 71 [''getaddrinfo():'', ep_gai_strerror K e] s)
        | Inr (family, socktype, protocol, addr) \<Rightarrow>
            (case call_int (ep_socket K family socktype protocol) s of
               (None, s1) \<Rightarrow> srv_exit EXIT_FAILURE (pr_err ''main'' 77 [''socket()''] s1)
             | (Some lfd, s1) \<Rightarrow>
                 (case call_unit (ep_bind K lfd addr) (snd (call_unit (ep_setnb K lfd) s1)) of
                    (False, s2) \<Rightarrow> srv_exit EXIT_FAILURE (pr_err ''main'' 83 [''bind()''] s2)
                  | (True, s2) \<Rightarrow>
                      start_epoll K lfd (snd (call_unit (ep_listen K lfd LISTEN_BACKLOG) (pr_out ''main'' 87 [''bind : '', port] s2))))))"

definition epoll_main :: "'w epos \<Rightarrow> nat \<Rightarrow> string list \<Rightarrow> 'w proc \<Rightarrow> ('w srv, unit) res option" where
  "epoll_main K n argv p =
     (case epoll_setup K argv p of
        Ret lfd s \<Rightarrow> epoll_rounds K lfd n s
      | Exit c s \<Rightarrow> Some (Exit c s)
      | Abort s \<Rightarrow> Some (Abort s)
      | Undef \<Rightarrow> Some Undef)"

section \<open>The kernel's side\<close>

text \<open>
  \<open>view\<close> gives the open descriptors and the interest set of the epoll instance. What is documented of the
  calls: a new descriptor was free; a descriptor that is added was not in the interest set; deleting one that is
  in it succeeds; close(2) also takes a descriptor out of the interest set; setting a timer that is open
  to a positive time succeeds; no other call changes either set.
\<close>

definition keeps_view :: "('w \<Rightarrow> int set \<times> int set) \<Rightarrow> ('w \<Rightarrow> 'a \<times> 'w) \<Rightarrow> bool" where
  "keeps_view view f = (\<forall>w. view (snd (f w)) = view w)"

definition opens_view :: "('w \<Rightarrow> int set \<times> int set) \<Rightarrow> ('w \<Rightarrow> (int + int) \<times> 'w) \<Rightarrow> bool" where
  "opens_view view f =
     (\<forall>w. case f w of
        (Inl e, v) \<Rightarrow> view v = view w
      | (Inr fd, v) \<Rightarrow> fd \<notin> fst (view w) \<and> view v = (insert fd (fst (view w)), snd (view w)))"

definition adds_view :: "('w \<Rightarrow> int set \<times> int set) \<Rightarrow> int \<Rightarrow> ('w \<Rightarrow> int option \<times> 'w) \<Rightarrow> bool" where
  "adds_view view fd f =
     (\<forall>w. case f w of
        (Some e, v) \<Rightarrow> view v = view w
      | (None, v) \<Rightarrow> view v = (fst (view w), insert fd (snd (view w))))"

definition dels_view :: "('w \<Rightarrow> int set \<times> int set) \<Rightarrow> int \<Rightarrow> ('w \<Rightarrow> int option \<times> 'w) \<Rightarrow> bool" where
  "dels_view view fd f =
     (\<forall>w. case f w of
        (Some e, v) \<Rightarrow> fd \<notin> snd (view w) \<and> view v = view w
      | (None, v) \<Rightarrow> view v = (fst (view w), snd (view w) - {fd}))"

definition closes_view :: "('w \<Rightarrow> int set \<times> int set) \<Rightarrow> int \<Rightarrow> ('w \<Rightarrow> int option \<times> 'w) \<Rightarrow> bool" where
  "closes_view view fd f = (\<forall>w. view (snd (f w)) = (fst (view w) - {fd}, snd (view w) - {fd}))"

definition epoll_kernel :: "'w epos \<Rightarrow> ('w \<Rightarrow> int set \<times> int set) \<Rightarrow> bool" where
  "epoll_kernel K view =
     ((\<forall>f t p. opens_view view (ep_socket K f t p)) \<and> opens_view view (ep_create K) \<and>
      opens_view view (ep_timerfd_create K) \<and> (\<forall>fd. opens_view view (ep_accept K fd)) \<and>
      (\<forall>efd fd. adds_view view fd (ep_add K efd fd) \<and> dels_view view fd (ep_del K efd fd)) \<and>
      (\<forall>fd. closes_view view fd (ep_close K fd)) \<and>
      (\<forall>fd t. keeps_view view (ep_settime K fd t) \<and>
         (\<forall>w. fd \<in> fst (view w) \<and> 0 < t \<longrightarrow> fst (ep_settime K fd t w) = None)) \<and>
      (\<forall>fd a b n. keeps_view view (ep_bind K fd a) \<and> keeps_view view (ep_listen K fd b) \<and>
         keeps_view view (ep_setnb K fd) \<and> keeps_view view (ep_linger K fd) \<and>
         keeps_view view (ep_recv K fd n) \<and> keeps_view view (ep_wait K fd n)))"

section \<open>The invariant\<close>

definition live :: "'w srv \<Rightarrow> fdsession list" where
  "live s = take (nat (n_used s)) (slots s)"

definition table_ok :: "'w srv \<Rightarrow> bool" where
  "table_ok s = (0 \<le> n_used s \<and> n_used s \<le> n_allocated s \<and> int (length (slots s)) = n_allocated s)"

definition fds_of :: "fdsession list \<Rightarrow> int list" where
  "fds_of L = map socketfd L @ map timerfd L"

text \<open>
  The listening socket, the sockets and the timers are different descriptors, and all of them are open
  and watched. The interest set may hold more: a connection whose timer could not be created has no entry.
\<close>

definition links :: "int \<Rightarrow> fdsession list \<Rightarrow> int set \<times> int set \<Rightarrow> bool" where
  "links lfd L v = (distinct (lfd # fds_of L) \<and> set (lfd # fds_of L) \<subseteq> snd v \<and> snd v \<subseteq> fst v)"

definition view_of :: "('w \<Rightarrow> 'v) \<Rightarrow> 'w srv \<Rightarrow> 'v" where
  "view_of view s = view (world (sys s))"

definition server_ok :: "('w \<Rightarrow> int set \<times> int set) \<Rightarrow> int \<Rightarrow> 'w srv \<Rightarrow> bool" where
  "server_ok view lfd s = (table_ok s \<and> links lfd (live s) (view_of view s))"

text \<open>The part of the state that the calls of the kernel and the messages leave alone.\<close>

definition same_table :: "'w srv \<Rightarrow> 'w srv \<Rightarrow> bool" where
  "same_table s t = (n_allocated t = n_allocated s \<and> n_used t = n_used s \<and> slots t = slots s \<and> epollfd t = epollfd s)"

lemma same_table_refl [simp]: "same_table s s"
  by (simp add: same_table_def)

lemma same_tableD:
  "same_table s t \<Longrightarrow> n_used t = n_used s" "same_table s t \<Longrightarrow> slots t = slots s"
  "same_table s t \<Longrightarrow> live t = live s" "same_table s t \<Longrightarrow> table_ok t = table_ok s"
  by (simp_all add: same_table_def live_def table_ok_def)

lemma same_table_trans: "same_table s t \<Longrightarrow> same_table t u \<Longrightarrow> same_table s u"
  by (simp add: same_table_def)

lemma print_same [simp]:
  "same_table s (pr_out f l a t) = same_table s t" "same_table s (pr_err f l a t) = same_table s t"
  "same_table s (ctl_error K f l x fd t) = same_table s t"
  "view_of view (pr_out f l a t) = view_of view t" "view_of view (pr_err f l a t) = view_of view t"
  "view_of view (ctl_error K f l x fd t) = view_of view t"
  by (simp_all add: same_table_def view_of_def pr_out_def pr_err_def ctl_error_def printf_out_def fputs_err_def)

lemma server_ok_same:
  "server_ok view lfd s \<Longrightarrow> same_table s t \<Longrightarrow> view_of view t = view_of view s \<Longrightarrow> server_ok view lfd t"
  by (simp add: server_ok_def same_tableD)

subsection \<open>Calls\<close>

lemma call_int_same: "call_int f s = (r, t) \<Longrightarrow> same_table s t"
  by (auto simp: call_int_def same_table_def split: prod.splits sum.splits)

lemma call_unit_same: "call_unit f s = (r, t) \<Longrightarrow> same_table s t"
  by (auto simp: call_unit_def same_table_def split: prod.splits option.splits)

lemma call_int_view: "call_int f s = (r, t) \<Longrightarrow> view_of view t = view (snd (f (world (sys s))))"
  by (auto simp: call_int_def view_of_def split: prod.splits sum.splits)

lemma call_unit_view: "call_unit f s = (r, t) \<Longrightarrow> view_of view t = view (snd (f (world (sys s))))"
  by (auto simp: call_unit_def view_of_def split: prod.splits option.splits)

lemma call_keeps:
  "keeps_view view f \<Longrightarrow> call_int f s = (r, t) \<Longrightarrow> view_of view t = view_of view s"
  "keeps_view view g \<Longrightarrow> call_unit g s = (b, t) \<Longrightarrow> view_of view t = view_of view s"
  using call_int_view [of f s r t view] call_unit_view [of g s b t view]
  by (simp_all add: keeps_view_def view_of_def)

lemma call_opens:
  assumes "opens_view view f" "call_int f s = (r, t)"
  shows "case r of None \<Rightarrow> view_of view t = view_of view s
    | Some fd \<Rightarrow> fd \<notin> fst (view_of view s) \<and> view_of view t = (insert fd (fst (view_of view s)), snd (view_of view s))"
proof (cases "f (world (sys s))")
  case (Pair x v)
  have "case f (world (sys s)) of (Inl e, v) \<Rightarrow> view v = view (world (sys s)) | (Inr fd, v) \<Rightarrow>
      fd \<notin> fst (view (world (sys s))) \<and> view v = (insert fd (fst (view (world (sys s)))), snd (view (world (sys s))))"
    by (rule assms(1) [unfolded opens_view_def, THEN spec])
  then show ?thesis using assms(2) Pair
    by (cases x) (simp_all add: call_int_def, safe, simp_all add: view_of_def)
qed

lemma call_adds:
  assumes "adds_view view fd f" "call_unit f s = (b, t)"
  shows "view_of view t = (if b then (fst (view_of view s), insert fd (snd (view_of view s))) else view_of view s)"
proof (cases "f (world (sys s))")
  case (Pair x v)
  have "case f (world (sys s)) of (Some e, v) \<Rightarrow> view v = view (world (sys s)) | (None, v) \<Rightarrow>
      view v = (fst (view (world (sys s))), insert fd (snd (view (world (sys s)))))"
    by (rule assms(1) [unfolded adds_view_def, THEN spec])
  then show ?thesis using assms(2) Pair
    by (cases x) (simp_all add: call_unit_def, safe, simp_all add: view_of_def)
qed

lemma call_dels:
  assumes "dels_view view fd f" "call_unit f s = (b, t)"
  shows "view_of view t = (if b then (fst (view_of view s), snd (view_of view s) - {fd}) else view_of view s) \<and>
    (\<not> b \<longrightarrow> fd \<notin> snd (view_of view s))"
proof (cases "f (world (sys s))")
  case (Pair x v)
  have "case f (world (sys s)) of (Some e, v) \<Rightarrow> fd \<notin> snd (view (world (sys s))) \<and> view v = view (world (sys s))
      | (None, v) \<Rightarrow> view v = (fst (view (world (sys s))), snd (view (world (sys s))) - {fd})"
    by (rule assms(1) [unfolded dels_view_def, THEN spec])
  then show ?thesis using assms(2) Pair
    by (cases x) (simp_all add: call_unit_def, safe, simp_all add: view_of_def)
qed

lemma call_closes:
  assumes "closes_view view fd f"
  shows "view_of view (snd (call_unit f s)) = (fst (view_of view s) - {fd}, snd (view_of view s) - {fd})"
    "same_table s (snd (call_unit f s))"
proof -
  obtain b t where c: "call_unit f s = (b, t)" by (cases "call_unit f s")
  have "view (snd (f (world (sys s)))) = (fst (view (world (sys s))) - {fd}, snd (view (world (sys s))) - {fd})"
    by (rule assms [unfolded closes_view_def, THEN spec])
  then show "view_of view (snd (call_unit f s)) = (fst (view_of view s) - {fd}, snd (view_of view s) - {fd})"
    using call_unit_view [OF c, of view] c by (simp add: view_of_def)
  show "same_table s (snd (call_unit f s))" using call_unit_same [OF c] c by simp
qed

lemma kernel_calls:
  assumes "epoll_kernel K view"
  shows "opens_view view (ep_socket K f t p)" "opens_view view (ep_create K)" "opens_view view (ep_timerfd_create K)"
    "opens_view view (ep_accept K fd)" "adds_view view fd (ep_add K efd fd)" "dels_view view fd (ep_del K efd fd)"
    "closes_view view fd (ep_close K fd)" "keeps_view view (ep_settime K fd tm)"
    "keeps_view view (ep_bind K fd a)" "keeps_view view (ep_listen K fd b)" "keeps_view view (ep_setnb K fd)"
    "keeps_view view (ep_linger K fd)" "keeps_view view (ep_recv K fd n)" "keeps_view view (ep_wait K fd n)"
  using assms unfolding epoll_kernel_def by blast+

lemma kernel_settime:
  "epoll_kernel K view \<Longrightarrow> fd \<in> fst (view w) \<Longrightarrow> 0 < t \<Longrightarrow> fst (ep_settime K fd t w) = None"
  unfolding epoll_kernel_def by blast

subsection \<open>The table\<close>

lemma find_slot_spec:
  assumes "table_ok s" "0 \<le> i"
  shows "\<exists>r. find_slot P i s = Ret r s \<and>
    (case r of None \<Rightarrow> \<forall>j. i \<le> j \<and> j < n_used s \<longrightarrow> \<not> P (slots s ! nat j)
     | Some j \<Rightarrow> i \<le> j \<and> j < n_used s \<and> P (slots s ! nat j))"
  using assms
proof (induction P i s rule: find_slot.induct)
  case (1 P i s)
  show ?case
  proof (cases "i < n_used s \<and> \<not> P (slots s ! nat i)")
    case True
    then have b: "\<not> (i < 0 \<or> i \<ge> int (length (slots s)))" using 1(2,3) by (auto simp: table_ok_def)
    have "\<exists>r. find_slot P (i + 1) s = Ret r s \<and>
        (case r of None \<Rightarrow> \<forall>j. i + 1 \<le> j \<and> j < n_used s \<longrightarrow> \<not> P (slots s ! nat j)
         | Some j \<Rightarrow> i + 1 \<le> j \<and> j < n_used s \<and> P (slots s ! nat j))"
      by (rule 1(1) [OF _ b _ 1(2)]) (use True 1(3) in simp_all)
    then obtain r where r: "find_slot P (i + 1) s = Ret r s"
        "case r of None \<Rightarrow> \<forall>j. i + 1 \<le> j \<and> j < n_used s \<longrightarrow> \<not> P (slots s ! nat j)
         | Some j \<Rightarrow> i + 1 \<le> j \<and> j < n_used s \<and> P (slots s ! nat j)" by blast
    have "find_slot P i s = Ret r s" using True r(1) b by (subst find_slot.simps) simp
    moreover have "r = None \<Longrightarrow> i \<le> j \<Longrightarrow> j < n_used s \<Longrightarrow> \<not> P (slots s ! nat j)" for j
      using r(2) True by (cases "i = j") simp_all
    ultimately show ?thesis using r(2) by (cases r) auto
  next
    case False
    then show ?thesis using 1(2,3) by (subst find_slot.simps) (auto simp: table_ok_def)
  qed
qed

lemma nth_live: "table_ok s \<Longrightarrow> 0 \<le> j \<Longrightarrow> j < n_used s \<Longrightarrow> nat j < length (live s) \<and> live s ! nat j = slots s ! nat j"
  by (auto simp: live_def table_ok_def)

lemma in_live: "table_ok s \<Longrightarrow> f \<in> set (live s) \<Longrightarrow> \<exists>j. 0 \<le> j \<and> j < n_used s \<and> slots s ! nat j = f"
proof -
  assume a: "table_ok s" "f \<in> set (live s)"
  then obtain k where "k < length (live s)" "live s ! k = f" by (auto simp: in_set_conv_nth)
  then show ?thesis using a(1) by (intro exI [of _ "int k"]) (auto simp: live_def table_ok_def)
qed

lemma findby:
  assumes "table_ok s"
  obtains "find_slot P 0 s = Ret None s" "\<forall>f \<in> set (live s). \<not> P f"
  | j where "find_slot P 0 s = Ret (Some j) s" "get_slot j s = Ret (slots s ! nat j) s" "0 \<le> j" "j < n_used s"
      "slots s ! nat j \<in> set (live s)" "P (slots s ! nat j)"
proof -
  obtain r where r: "find_slot P 0 s = Ret r s"
      "case r of None \<Rightarrow> \<forall>j. 0 \<le> j \<and> j < n_used s \<longrightarrow> \<not> P (slots s ! nat j)
       | Some j \<Rightarrow> 0 \<le> j \<and> j < n_used s \<and> P (slots s ! nat j)"
    using find_slot_spec [OF assms, of 0 P] by auto
  show ?thesis
  proof (cases r)
    case None
    then show ?thesis using r in_live [OF assms] by (intro that(1)) auto
  next
    case (Some j)
    then have j: "0 \<le> j" "j < n_used s" "P (slots s ! nat j)" using r(2) by simp_all
    have "slots s ! nat j \<in> set (live s)"
      using nth_live [OF assms j(1,2)] nth_mem [of "nat j" "live s"] by simp
    then show ?thesis using r(1) Some assms j by (intro that(2)) (auto simp: get_slot_def table_ok_def)
  qed
qed

lemma swap_delete:
  assumes "j < n" "n \<le> length xs"
  shows "mset (take n xs) = add_mset (xs ! j) (mset (take (n - 1) ((if j \<noteq> n - 1 then xs[j := xs ! (n - 1)] else xs)[n - 1 := y])))"
proof -
  obtain m where n: "n = Suc m" using assms(1) by (cases n) auto
  let ?ys = "take m xs"
  have m: "m < length xs" using assms n by simp
  have eq: "take n xs = ?ys @ [xs ! m]" using m n by (simp add: take_Suc_conv_app_nth)
  show ?thesis
  proof (cases "j = m")
    case False
    then have j: "j < length ?ys" using assms n by simp
    have "take m ((xs[j := xs ! m])[m := y]) = ?ys[j := xs ! m]" by (subst take_update_cancel) (simp_all add: take_update_swap)
    moreover have "?ys ! j = xs ! j" using j by simp
    then have "mset (?ys[j := xs ! m]) = add_mset (xs ! m) (mset ?ys - {#xs ! j#})" using j by (simp add: mset_update)
    moreover have "xs ! j \<in># mset ?ys" using nth_mem [OF j] \<open>?ys ! j = xs ! j\<close> by simp
    ultimately show ?thesis using False eq n by simp
  qed (use eq n in simp)
qed

lemma delete_spec:
  assumes "table_ok s" "f \<in> set (live s)" "timerfd f = tfd" "distinct (map timerfd (live s))"
  shows "\<exists>t. fds_deletebytimerfd tfd s = Ret 0 t \<and> table_ok t \<and> sys t = sys s \<and> epollfd t = epollfd s \<and>
    mset (live s) = add_mset f (mset (live t))"
proof (rule findby [OF assms(1), of "\<lambda>f. timerfd f = tfd"])
  assume "\<forall>f \<in> set (live s). timerfd f \<noteq> tfd"
  then show ?thesis using assms(2,3) by blast
next
  fix j assume j: "find_slot (\<lambda>f. timerfd f = tfd) 0 s = Ret (Some j) s" "0 \<le> j" "j < n_used s"
      "slots s ! nat j \<in> set (live s)" "timerfd (slots s ! nat j) = tfd"
  have "inj_on timerfd (set (live s))" using assms(4) by (simp add: distinct_map)
  then have f: "slots s ! nat j = f" using j(4,5) assms(2,3) by (simp add: inj_on_def)
  let ?l = "slots s ! nat (n_used s - 1)"
  let ?xs = "(if nat j \<noteq> nat (n_used s) - 1 then (slots s)[nat j := ?l] else slots s)[nat (n_used s) - 1 := ?l\<lparr>socketfd := - 1, timerfd := - 1\<rparr>]"
  have b: "\<not> (n_used s - 1 < 0)" "n_used s - 1 < int (length (slots s))" "j < int (length (slots s))" "nat (n_used s - 1) = nat (n_used s) - 1"
    "(j \<noteq> n_used s - 1) = (nat j \<noteq> nat (n_used s) - 1)"
    using j(2,3) assms(1) by (auto simp: table_ok_def)
  then have "fds_deletebytimerfd tfd s = Ret 0 (s\<lparr>slots := ?xs, n_used := n_used s - 1\<rparr>)"
    using j(1,2) by (simp add: fds_deletebytimerfd_def get_slot_def put_slot_def)
  moreover have "mset (live s) = add_mset f (mset (take (nat (n_used s) - 1) ?xs))"
    using swap_delete [of "nat j" "nat (n_used s)" "slots s" "?l\<lparr>socketfd := - 1, timerfd := - 1\<rparr>"] j(2,3) assms(1) f b(4)
    by (auto simp: live_def table_ok_def)
  ultimately show ?thesis using assms(1) b by (auto simp: table_ok_def live_def)
qed

lemma links_mset:
  assumes "mset L = mset M"
  shows "links lfd L v = links lfd M v"
proof -
  have "mset (lfd # fds_of L) = mset (lfd # fds_of M)" using assms by (simp add: fds_of_def)
  then show ?thesis unfolding links_def by (metis mset_eq_imp_distinct_iff mset_eq_setD)
qed

lemma links_remove:
  assumes "links lfd L v" "mset L = add_mset f (mset M)"
  shows "links lfd M (fst v - {socketfd f, timerfd f}, snd v - {socketfd f, timerfd f})"
proof -
  have "links lfd (f # M) v" using assms links_mset [of L "f # M"] by simp
  then show ?thesis by (auto simp: links_def fds_of_def image_iff)
qed

lemma links_add:
  assumes "links lfd L (T, I)" "sfd \<in> T" "sfd \<notin> I" "tfd \<notin> T"
  shows "links lfd (L @ [\<lparr>socketfd = sfd, timerfd = tfd, timeout = n\<rparr>]) (insert tfd T, insert tfd (insert sfd I))"
  using assms by (auto simp: links_def fds_of_def image_iff)

lemma links_watch: "links lfd L (T, I) \<Longrightarrow> fd \<in> T \<Longrightarrow> links lfd L (T, insert fd I)"
  by (auto simp: links_def)

lemma links_facts:
  assumes "links lfd L v" "f \<in> set L"
  shows "socketfd f \<in> snd v" "timerfd f \<in> snd v" "socketfd f \<noteq> lfd" "distinct (map timerfd L)" "timerfd f \<noteq> socketfd f"
  using assms by (auto simp: links_def fds_of_def)

lemma grow_spec:
  assumes "table_ok s" "grow_slots K s = (b, t)"
  shows "table_ok t" "live t = live s" "view_of view t = view_of view s" "n_used t = n_used s" "b \<Longrightarrow> n_used t < n_allocated t"
  using assms by (auto simp: grow_slots_def table_ok_def live_def view_of_def split: if_splits)

lemma put_new:
  assumes "table_ok s" "n_used s < n_allocated s"
  shows "\<exists>t. put_slot (n_used s) f s = Ret () t \<and> n_used t = n_used s \<and> sys t = sys s \<and> table_ok (t\<lparr>n_used := n_used t + 1\<rparr>) \<and>
    live (t\<lparr>n_used := n_used t + 1\<rparr>) = live s @ [f] \<and>
    get_slot (n_used s) (t\<lparr>n_used := n_used t + 1\<rparr>) = Ret f (t\<lparr>n_used := n_used t + 1\<rparr>)"
proof -
  have n: "nat (n_used s) < length (slots s)" "nat (n_used s + 1) = Suc (nat (n_used s))" "0 \<le> n_used s"
    "int (length (slots s)) = n_allocated s"
    using assms by (auto simp: table_ok_def)
  have "take (Suc (nat (n_used s))) ((slots s)[nat (n_used s) := f]) = take (nat (n_used s)) (slots s) @ [f]"
    using n(1) by (simp add: take_Suc_conv_app_nth take_update_cancel)
  then show ?thesis using n assms(2)
    by (simp add: put_slot_def get_slot_def table_ok_def live_def)
qed

lemma new_timerfd_spec:
  assumes "epoll_kernel K view" "table_ok s"
  shows "safeR (\<lambda>r t. case r of
      Inl e \<Rightarrow> table_ok t \<and> live t = live s \<and> view_of view t = view_of view s
    | Inr i \<Rightarrow> \<exists>tfd. tfd \<notin> fst (view_of view s) \<and> view_of view t = (insert tfd (fst (view_of view s)), snd (view_of view s)) \<and>
        table_ok t \<and> live t = live s @ [\<lparr>socketfd = sfd, timerfd = tfd, timeout = n\<rparr>] \<and>
        get_slot i t = Ret \<lparr>socketfd = sfd, timerfd = tfd, timeout = n\<rparr> t) (fds_new_timerfd K sfd n s)"
proof -
  obtain b s1 where g: "grow_slots K s = (b, s1)" by (cases "grow_slots K s")
  note gs = grow_spec(1,2) [OF assms(2) g] grow_spec(3) [where view = view, OF assms(2) g] grow_spec(4,5) [OF assms(2) g]
  obtain r s2 where c: "call_int (ep_timerfd_create K) s1 = (r, s2)" by (cases "call_int (ep_timerfd_create K) s1")
  note o = call_opens [OF kernel_calls(3) [OF assms(1)] c] and t = call_int_same [OF c]
  show ?thesis
  proof (cases b)
    case True
    note b = this
    show ?thesis
    proof (cases r)
      case None
      then show ?thesis using g c True gs o t
        by (simp add: fds_new_timerfd_def view_of_def fputs_err_def same_table_def table_ok_def live_def)
    next
      case (Some tfd)
      have "table_ok s2" "n_used s2 < n_allocated s2" "live s2 = live s" "n_used s2 = n_used s1"
        using gs b t by (simp_all add: same_tableD) (simp add: same_table_def)
      moreover from put_new [OF this(1,2)] obtain u where "put_slot (n_used s2) \<lparr>socketfd = sfd, timerfd = tfd, timeout = n\<rparr> s2 = Ret () u"
          "n_used u = n_used s2" "sys u = sys s2" "table_ok (u\<lparr>n_used := n_used u + 1\<rparr>)"
          "live (u\<lparr>n_used := n_used u + 1\<rparr>) = live s2 @ [\<lparr>socketfd = sfd, timerfd = tfd, timeout = n\<rparr>]"
          "get_slot (n_used s2) (u\<lparr>n_used := n_used u + 1\<rparr>) = Ret \<lparr>socketfd = sfd, timerfd = tfd, timeout = n\<rparr> (u\<lparr>n_used := n_used u + 1\<rparr>)"
        by blast
      ultimately show ?thesis using g c b Some o gs(3) by (simp add: fds_new_timerfd_def view_of_def)
    qed
  qed (use g gs in \<open>simp add: fds_new_timerfd_def\<close>)
qed

subsection \<open>Every operation keeps it\<close>

lemma set_timerfd_spec:
  assumes "epoll_kernel K view" "get_slot i s = Ret f s"
  shows "safeR (\<lambda>r t. same_table s t \<and> view_of view t = view_of view s \<and>
    (timerfd f \<in> fst (view_of view s) \<and> 0 < timeout f \<longrightarrow> r = 0)) (fds_set_timerfd K i s)"
proof -
  obtain b s1 where c: "call_unit (ep_settime K (timerfd f) (timeout f)) s = (b, s1)"
    by (cases "call_unit (ep_settime K (timerfd f) (timeout f)) s")
  have v: "view_of view s1 = view_of view s" by (rule call_keeps(2) [OF kernel_calls(8) [OF assms(1)] c])
  have "b" if "timerfd f \<in> fst (view_of view s)" "0 < timeout f"
    using c kernel_settime [OF assms(1), of "timerfd f" "world (sys s)" "timeout f"] that
    by (auto simp: call_unit_def view_of_def split: prod.splits option.splits)
  then show ?thesis using assms(2) c v call_unit_same [OF c] by (cases b) (auto simp: fds_set_timerfd_def)
qed

lemma watch_timer_spec:
  assumes K: "epoll_kernel K view" and f: "get_slot i s = Ret f s" "timerfd f \<in> fst (view_of view s)" "0 < timeout f"
  shows "safeR (\<lambda>r t. r \<noteq> - 1 \<longrightarrow> same_table s t \<and>
    view_of view t = (fst (view_of view s), insert (timerfd f) (snd (view_of view s)))) (watch_timer K efd fd i s)"
  unfolding watch_timer_def safeR_bindR
proof (rule safeR_mono [OF set_timerfd_spec [OF K f(1)]], elim conjE)
  fix ret :: int and u
  assume u: "same_table s u" "view_of view u = view_of view s"
    "timerfd f \<in> fst (view_of view s) \<and> 0 < timeout f \<longrightarrow> ret = 0"
  have g: "get_slot i u = Ret f u" using f(1) u(1) by (auto simp: get_slot_def same_table_def split: if_splits)
  obtain b t where c: "call_unit (ep_add K efd (timerfd f)) u = (b, t)" by (cases "call_unit (ep_add K efd (timerfd f)) u")
  show "safeR (\<lambda>r t. r \<noteq> - 1 \<longrightarrow> same_table s t \<and>
      view_of view t = (fst (view_of view s), insert (timerfd f) (snd (view_of view s))))
    (if ret \<noteq> 0 then Ret ret u
     else bindR (get_slot i u) (\<lambda>f s2. case call_unit (ep_add K efd (timerfd f)) s2 of
         (True, s3) \<Rightarrow> Ret 0 s3 | (False, s3) \<Rightarrow> Ret (- 1) (ctl_error K ''add_ev'' 196 ''EPOLL_CTL_ADD'' fd s3)))"
    using u f g c call_adds [OF kernel_calls(5) [OF K] c] same_table_trans [OF u(1) call_unit_same [OF c]]
    by (cases b) simp_all
qed

lemma add_ev_spec:
  assumes K: "epoll_kernel K view" and s: "server_ok view lfd s"
    and fd: "fd \<in> fst (view_of view s)" "fd \<notin> snd (view_of view s)" "0 < n"
  shows "safeR (\<lambda>r t. r \<noteq> - 1 \<longrightarrow> server_ok view lfd t) (add_ev K efd fd n s)"
proof -
  obtain b s1 where a: "call_unit (ep_add K efd fd) s = (b, s1)" by (cases "call_unit (ep_add K efd fd) s")
  let ?T = "fst (view_of view s)" and ?I = "snd (view_of view s)"
  have t1: "table_ok s1" "live s1 = live s" and L: "links lfd (live s) (?T, ?I)"
    using s call_unit_same [OF a] by (simp_all add: server_ok_def same_tableD)
  have v1: "b \<Longrightarrow> view_of view s1 = (?T, insert fd ?I)" using call_adds [OF kernel_calls(5) [OF K] a] by simp
  have "safeR (\<lambda>r t. safeR (\<lambda>r t. r \<noteq> - 1 \<longrightarrow> server_ok view lfd t)
      (case r of Inl e \<Rightarrow> Ret e t | Inr i \<Rightarrow> watch_timer K efd fd i t)) (fds_new_timerfd K fd n s1)" if B: b
  proof (rule safeR_mono [OF new_timerfd_spec [OF K t1(1)]])
    fix r :: "int + int" and t
    assume nt: "case r of
        Inl e \<Rightarrow> table_ok t \<and> live t = live s1 \<and> view_of view t = view_of view s1
      | Inr i \<Rightarrow> \<exists>tfd. tfd \<notin> fst (view_of view s1) \<and>
          view_of view t = (insert tfd (fst (view_of view s1)), snd (view_of view s1)) \<and>
          table_ok t \<and> live t = live s1 @ [\<lparr>socketfd = fd, timerfd = tfd, timeout = n\<rparr>] \<and>
          get_slot i t = Ret \<lparr>socketfd = fd, timerfd = tfd, timeout = n\<rparr> t"
    show "safeR (\<lambda>r t. r \<noteq> - 1 \<longrightarrow> server_ok view lfd t) (case r of Inl e \<Rightarrow> Ret e t | Inr i \<Rightarrow> watch_timer K efd fd i t)"
    proof (cases r)
      case (Inr i)
      then obtain tfd where tfd: "tfd \<notin> ?T" "view_of view t = (insert tfd ?T, insert fd ?I)" "table_ok t"
          "live t = live s @ [\<lparr>socketfd = fd, timerfd = tfd, timeout = n\<rparr>]"
          "get_slot i t = Ret \<lparr>socketfd = fd, timerfd = tfd, timeout = n\<rparr> t"
        using nt v1 [OF B] t1 by auto
      show ?thesis unfolding Inr sum.case
        using links_add [OF L fd(1,2) tfd(1), of n] tfd(2-4) fd(3)
        by (intro safeR_mono [OF watch_timer_spec [OF K tfd(5)]]) (auto simp: server_ok_def dest: same_tableD(3,4))
    qed (use nt t1 v1 [OF B] links_watch [OF L fd(1)] in \<open>simp add: server_ok_def\<close>)
  qed
  then show ?thesis using a fd(3) by (cases b) (simp_all add: add_ev_def safeR_bindR)
qed

lemma del_ev_spec:
  assumes K: "epoll_kernel K view" and s: "server_ok view lfd s"
    and fd: "fd \<noteq> lfd" "\<forall>f \<in> set (live s). timerfd f \<noteq> fd"
  shows "safeR (\<lambda>r t. r \<noteq> - 1 \<longrightarrow> server_ok view lfd t) (del_ev K efd fd s)"
proof -
  obtain b s1 where a: "call_unit (ep_del K efd fd) s = (b, s1)" by (cases "call_unit (ep_del K efd fd) s")
  note d = call_dels [OF kernel_calls(6) [OF K] a]
  show ?thesis
  proof (cases b)
    case True
    define s2 where s2: "s2 = snd (call_unit (ep_close K fd) s1)"
    let ?T = "fst (view_of view s)" and ?I = "snd (view_of view s)"
    have t2: "table_ok s2" "live s2 = live s" "view_of view s2 = (?T - {fd}, ?I - {fd})" and L: "links lfd (live s) (?T, ?I)"
      using s call_unit_same [OF a] call_closes [OF kernel_calls(7) [OF K, of fd], of s1] d True
      by (simp_all add: s2 server_ok_def same_tableD)
    show ?thesis
    proof (rule findby [OF t2(1), of "\<lambda>f. socketfd f = fd"])
      assume "find_slot (\<lambda>f. socketfd f = fd) 0 s2 = Ret None s2"
      then show ?thesis using a True by (simp add: del_ev_def fds_findbysocketfd_def s2)
    next
      fix j let ?f = "slots s2 ! nat j"
      assume j: "find_slot (\<lambda>f. socketfd f = fd) 0 s2 = Ret (Some j) s2" "get_slot j s2 = Ret ?f s2"
        "?f \<in> set (live s2)" "socketfd ?f = fd"
      have f: "timerfd ?f \<in> ?I" "timerfd ?f \<noteq> fd" "distinct (map timerfd (live s))"
        using links_facts [OF L, of ?f] j(3,4) t2(2) by auto
      obtain c s5 where c: "call_unit (ep_del K efd (timerfd ?f)) s2 = (c, s5)"
        by (cases "call_unit (ep_del K efd (timerfd ?f)) s2")
      have c5: "c" "view_of view s5 = (?T - {fd}, ?I - {fd} - {timerfd ?f})" "same_table s2 s5"
        using call_dels [OF kernel_calls(6) [OF K] c] f(1,2) t2(3) call_unit_same [OF c] by auto
      define s6 where s6: "s6 = snd (call_unit (ep_close K (timerfd ?f)) s5)"
      have t6: "table_ok s6" "live s6 = live s" "view_of view s6 = (?T - {fd, timerfd ?f}, ?I - {fd, timerfd ?f})"
        using call_closes [OF kernel_calls(7) [OF K, of "timerfd ?f"], of s5] c5 t2 same_tableD [OF c5(3)]
        by (auto simp: s6 same_tableD)
      obtain t where t: "fds_deletebytimerfd (timerfd ?f) s6 = Ret 0 t" "table_ok t" "sys t = sys s6"
          "mset (live s6) = add_mset ?f (mset (live t))"
        using delete_spec [OF t6(1), of ?f] j(3) f(3) t2(2) t6(2) by auto
      have "server_ok view lfd t"
        using links_remove [OF L, of ?f "live t"] t(2-4) t6(2,3) j(4) by (simp add: server_ok_def view_of_def)
      then show ?thesis using a True j(1,2) c c5(1) t(1)
        by (simp add: del_ev_def fds_findbysocketfd_def s2 [symmetric] s6 [symmetric])
    qed
  qed (use a d s server_ok_same [OF s call_unit_same [OF a]] in \<open>auto simp: del_ev_def intro: server_ok_same\<close>)
qed

lemma ADD_EV_spec:
  assumes "epoll_kernel K view" "server_ok view lfd s" "fd \<in> fst (view_of view s)" "fd \<notin> snd (view_of view s)" "0 < n"
  shows "safeR (\<lambda>_ t. server_ok view lfd t) (ADD_EV K func line efd fd n s)"
  unfolding ADD_EV_def safeR_bindR
  by (rule safeR_mono [OF add_ev_spec [OF assms]]) (simp add: srv_exit_def)

lemma DEL_EV_spec:
  assumes "epoll_kernel K view" "server_ok view lfd s" "fd \<noteq> lfd" "\<forall>f \<in> set (live s). timerfd f \<noteq> fd"
  shows "safeR (\<lambda>_ t. server_ok view lfd t) (DEL_EV K func line efd fd s)"
  unfolding DEL_EV_def safeR_bindR
  by (rule safeR_mono [OF del_ev_spec [OF assms]]) (simp add: srv_exit_def)

lemma server_ok_print [simp]:
  "server_ok view lfd (pr_out f l a t) = server_ok view lfd t" "server_ok view lfd (pr_err f l a t) = server_ok view lfd t"
  by (simp_all add: server_ok_def live_def table_ok_def view_of_def pr_out_def pr_err_def printf_out_def fputs_err_def)

lemma live_print [simp]: "live (pr_out f l a t) = live t"
  by (simp add: live_def pr_out_def)

lemma server_ok_call:
  "server_ok view lfd s \<Longrightarrow> keeps_view view g \<Longrightarrow> call_unit g s = (b, t) \<Longrightarrow> server_ok view lfd t"
  "server_ok view lfd s \<Longrightarrow> keeps_view view f \<Longrightarrow> call_int f s = (r, t) \<Longrightarrow> server_ok view lfd t"
  by (rule server_ok_same, assumption, erule call_unit_same call_int_same, erule call_keeps, assumption)+

lemma accept_one_spec:
  assumes K: "epoll_kernel K view" and s: "server_ok view lfd s"
  shows "safeR (\<lambda>_ t. server_ok view lfd t) (accept_one K lfd s)"
proof -
  obtain r s1 where a: "call_int (ep_accept K lfd) s = (r, s1)" by (cases "call_int (ep_accept K lfd) s")
  note o = call_opens [OF kernel_calls(4) [OF K] a]
  show ?thesis
  proof (cases r)
    case None
    then have "server_ok view lfd s1" using o by (intro server_ok_same [OF s call_int_same [OF a]]) simp
    then show ?thesis using a None by (simp add: accept_one_def)
  next
    case (Some fd)
    obtain b s2 where n: "call_unit (ep_setnb K fd) s1 = (b, s2)" by (cases "call_unit (ep_setnb K fd) s1")
    have v: "view_of view s2 = (insert fd (fst (view_of view s)), snd (view_of view s))" "fd \<notin> fst (view_of view s)"
      using o Some call_keeps(2) [OF kernel_calls(11) [OF K] n] by simp_all
    have t: "same_table s s2" by (rule same_table_trans [OF call_int_same [OF a] call_unit_same [OF n]])
    have "server_ok view lfd s2" "fd \<in> fst (view_of view s2)" "fd \<notin> snd (view_of view s2)"
      using s v same_tableD(3,4) [OF t] by (auto simp: server_ok_def links_def)
    then show ?thesis using a Some n
      by (simp add: accept_one_def safeR_bindR) (rule ADD_EV_spec [OF K], simp_all add: FDSESSION_DEFAULT_TIMEOUT_def)
  qed
qed

lemma accept_all_spec:
  assumes "epoll_kernel K view" "server_ok view lfd s" "accept_all K lfd s = Some r"
  shows "safeR (\<lambda>_ t. server_ok view lfd t) r"
  using assms(1,2)
proof (induction rule: accept_all.raw_induct [OF _ assms(3)])
  case (1 loop K lfd s r)
  have "safeR (\<lambda>_ t. server_ok view lfd t) (accept_one K lfd s)" by (rule accept_one_spec [OF 1(3,4)])
  then show ?case using 1(1) [OF _ 1(3)] 1(2) by (cases "accept_one K lfd s") (auto split: if_splits)
qed

lemma on_readable_spec:
  assumes K: "epoll_kernel K view" and s: "server_ok view lfd s" and fd: "fd \<noteq> lfd"
  shows "safeR (\<lambda>_ t. server_ok view lfd t) (on_readable K fd s)"
proof -
  have t: "table_ok s" and L: "links lfd (live s) (view_of view s)" using s by (simp_all add: server_ok_def)
  show ?thesis
  proof (rule findby [OF t, of "\<lambda>f. timerfd f = fd"])
    fix j let ?f = "slots s ! nat j"
    assume j: "find_slot (\<lambda>f. timerfd f = fd) 0 s = Ret (Some j) s" "get_slot j s = Ret ?f s" "?f \<in> set (live s)"
    define u where u: "u = pr_out ''get_epollevent'' 138 [''timeout['', GET_TIME0 K s, ''] expired/closed (sfd/tfd='',
      dec (socketfd ?f), ''/'', dec (timerfd ?f), '')''] s"
    obtain b v where v: "call_unit (ep_linger K (socketfd ?f)) u = (b, v)" by (cases "call_unit (ep_linger K (socketfd ?f)) u")
    have "server_ok view lfd v" "live v = live s"
      using server_ok_call(1) [OF _ kernel_calls(12) [OF K] v] s same_tableD(3) [OF call_unit_same [OF v]] by (simp_all add: u)
    moreover have "\<forall>f \<in> set (live s). timerfd f \<noteq> socketfd ?f" "socketfd ?f \<noteq> lfd"
      using L j(3) by (auto simp: links_def fds_of_def)
    ultimately show ?thesis using j(1,2) v
      by (simp add: on_readable_def fds_findbytimerfd_def u [symmetric] safeR_bindR) (rule DEL_EV_spec [OF K], simp_all)
  next
    assume n: "find_slot (\<lambda>f. timerfd f = fd) 0 s = Ret None s" "\<forall>f \<in> set (live s). timerfd f \<noteq> fd"
    obtain r v where v: "call_int (ep_recv K fd 1024) s = (r, v)" by (cases "call_int (ep_recv K fd 1024) s")
    have w: "server_ok view lfd v" "live v = live s"
      using server_ok_call(2) [OF s kernel_calls(13) [OF K] v] same_tableD(3) [OF call_int_same [OF v]] by simp_all
    show ?thesis
    proof (cases "\<exists>buf. r = Some buf \<and> buf \<noteq> []")
      case True
      then obtain buf where buf: "r = Some buf" "buf \<noteq> []" by blast
      define u where u: "u = pr_out ''get_epollevent'' 150 [''recv['', GET_TIME0 K v, ''] (fd='', dec fd, '',n='',
        dec (int (length buf)), '')='', cstr buf] v"
      have ok: "server_ok view lfd u" and tu: "table_ok u" using w by (simp_all add: u) (simp add: server_ok_def table_ok_def pr_out_def)
      show ?thesis
        by (rule findby [OF tu, of "\<lambda>f. socketfd f = fd"])
          (use n(1) v buf ok set_timerfd_spec [OF K] server_ok_same [OF ok] in
            \<open>auto simp: on_readable_def fds_findbytimerfd_def fds_findbysocketfd_def u [symmetric] Let_def
              elim!: safeR_mono [OF set_timerfd_spec [OF K]]\<close>)
    next
      case False
      then show ?thesis using n v w fd
        by (cases r) (simp_all add: on_readable_def fds_findbytimerfd_def safeR_bindR, intro DEL_EV_spec [OF K], simp_all)
    qed
  qed
qed

lemma get_epollevent_spec:
  assumes "epoll_kernel K view" "server_ok view lfd s" "get_epollevent K lfd evs s = Some r"
  shows "safeR (\<lambda>_ t. server_ok view lfd t) r"
  using assms(2,3)
proof (induction evs arbitrary: s)
  case (Cons ev evs)
  have a: "accept_all K lfd s = Some x \<Longrightarrow> safeR (\<lambda>_ t. server_ok view lfd t) x" for x
    by (rule accept_all_spec [OF assms(1) Cons.prems(1)])
  have o: "ev_fd ev \<noteq> lfd \<Longrightarrow> safeR (\<lambda>_ t. server_ok view lfd t) (on_readable K (ev_fd ev) s)"
    by (rule on_readable_spec [OF assms(1) Cons.prems(1)])
  show ?case
  proof (cases "ev_events ev AND EPOLLIN \<noteq> 0")
    case True
    note ev = this
    show ?thesis
    proof (cases "ev_fd ev = lfd")
      case True
      then show ?thesis using Cons.prems(2) a ev Cons.IH
        by (cases "accept_all K lfd s") (auto split: res.splits)
    next
      case False
      note o = o [OF this]
      show ?thesis
      proof (cases "on_readable K (ev_fd ev) s")
        case (Ret x t)
        have "x = 0 \<Longrightarrow> get_epollevent K lfd evs t = Some r" "x \<noteq> 0 \<Longrightarrow> r = Ret x t"
          using Cons.prems(2) ev False Ret by simp_all
        moreover have "server_ok view lfd t" using o Ret by simp
        ultimately show ?thesis using Cons.IH [of t] by (cases "x = 0") simp_all
      qed (use Cons.prems(2) o ev False in auto)
    qed
  next
    case False
    then show ?thesis using Cons.prems Cons.IH [of s] Cons.IH [of "pr_out _ _ _ s"] by (simp split: if_splits)
  qed
qed auto

lemma epoll_rounds_spec:
  assumes "epoll_kernel K view" "server_ok view lfd s" "epoll_rounds K lfd n s = Some r"
  shows "safeR (\<lambda>_ t. server_ok view lfd t) r"
  using assms(2,3)
proof (induction n arbitrary: s)
  case (Suc n)
  let ?s1 = "pr_out ''main'' 101 [''['', GET_TIME0 K s, ''] epoll waiting...''] s"
  obtain x s2 where w: "call_int (ep_wait K (epollfd ?s1) MAX_EP_EVENTS) ?s1 = (x, s2)"
    by (cases "call_int (ep_wait K (epollfd ?s1) MAX_EP_EVENTS) ?s1")
  have s2: "server_ok view lfd s2"
    using server_ok_call(2) [OF _ kernel_calls(14) [OF assms(1)] w] Suc.prems(1) by simp
  define s3 where s3: "s3 = pr_out ''main'' 106 [''epoll_wait = '', dec (case x of None \<Rightarrow> - 1 | Some evs \<Rightarrow> int (length evs))] s2"
  define evs where evs: "evs = (case x of None \<Rightarrow> [] | Some evs \<Rightarrow> evs)"
  have r: "epoll_round K lfd s = map_option (\<lambda>x. bindR x (\<lambda>ret s4. Ret () (if ret \<noteq> 0
      then pr_err ''main'' 109 [''get_epollevent()''] s4 else s4))) (get_epollevent K lfd evs s3)"
    using w by (simp add: epoll_round_def Let_def s3 evs)
  show ?case
  proof (cases "get_epollevent K lfd evs s3")
    case (Some y)
    have "safeR (\<lambda>_ t. server_ok view lfd t) y" by (rule get_epollevent_spec [OF assms(1) _ Some]) (simp add: s3 s2)
    then show ?thesis using Suc.prems(2) r Some
    proof (cases y)
      case (Ret ret t)
      let ?u = "if ret \<noteq> 0 then pr_err ''main'' 109 [''get_epollevent()''] t else t"
      have "server_ok view lfd ?u" using \<open>safeR _ y\<close> Ret by simp
      then show ?thesis by (rule Suc.IH) (use Suc.prems(2) r Some Ret in simp)
    qed auto
  qed (use Suc.prems r in auto)
qed auto

lemma start_epoll_spec:
  assumes K: "epoll_kernel K view" and s: "n_used s = 0" "n_allocated s = 0" "slots s = []"
    and v: "lfd \<in> fst (view_of view s)" "snd (view_of view s) = {}"
  shows "safeR (\<lambda>lfd t. server_ok view lfd t) (start_epoll K lfd s)"
proof -
  obtain q s1 where c: "call_int (ep_create K) s = (q, s1)" by (cases "call_int (ep_create K) s")
  show ?thesis
  proof (cases q)
    case (Some efd)
    have v1: "view_of view s1 = (insert efd (fst (view_of view s)), {})"
      using call_opens [OF kernel_calls(2) [OF K] c] Some v by simp
    obtain b s2 where a: "call_unit (ep_add K efd lfd) (s1\<lparr>epollfd := efd\<rparr>) = (b, s2)"
      by (cases "call_unit (ep_add K efd lfd) (s1\<lparr>epollfd := efd\<rparr>)")
    have "b \<Longrightarrow> server_ok view lfd s2"
      using call_adds [OF kernel_calls(5) [OF K] a] call_unit_same [OF a] call_int_same [OF c] s v v1
      by (simp add: server_ok_def links_def fds_of_def table_ok_def live_def same_table_def view_of_def)
    then show ?thesis using c Some a by (cases b) (simp_all add: start_epoll_def ADD_EV_def add_ev_def srv_exit_def)
  qed (use c in \<open>simp add: start_epoll_def srv_exit_def\<close>)
qed

lemma epoll_setup_spec:
  assumes K: "epoll_kernel K view" and p: "snd (view (world p)) = {}"
  shows "safeR (\<lambda>lfd t. server_ok view lfd t) (epoll_setup K argv p)"
proof -
  define s where s: "s = \<lparr>n_allocated = 0, n_used = 0, slots = [], epollfd = 0, sys = p\<rparr>"
  define port where port: "port = (if length argv = 2 then argv ! 1 else ''0'')"
  note defs = epoll_setup_def Let_def s [symmetric] port [symmetric]
  show ?thesis
  proof (cases "\<not> length argv > 2 \<and> (\<exists>a. ep_getaddrinfo K port (world p) = Inr a)")
    case argv: True
    then obtain f ty pr addr where g: "ep_getaddrinfo K port (world p) = Inr (f, ty, pr, addr)" by auto
    obtain r s1 where r: "call_int (ep_socket K f ty pr) s = (r, s1)" by (cases "call_int (ep_socket K f ty pr) s")
    show ?thesis
    proof (cases r)
      case (Some lfd)
      obtain b1 s2 where n: "call_unit (ep_setnb K lfd) s1 = (b1, s2)" by (cases "call_unit (ep_setnb K lfd) s1")
      obtain b s3 where b: "call_unit (ep_bind K lfd addr) s2 = (b, s3)" by (cases "call_unit (ep_bind K lfd addr) s2")
      define s4 where s4: "s4 = pr_out ''main'' 87 [''bind : '', port] s3"
      obtain b2 s5 where l: "call_unit (ep_listen K lfd LISTEN_BACKLOG) s4 = (b2, s5)"
        by (cases "call_unit (ep_listen K lfd LISTEN_BACKLOG) s4")
      have t: "n_used s5 = 0" "n_allocated s5 = 0" "slots s5 = []"
        using call_int_same [OF r] call_unit_same [OF n] call_unit_same [OF b] call_unit_same [OF l]
        by (simp_all add: s4 same_table_def pr_out_def s)
      have v: "view_of view s5 = (insert lfd (fst (view_of view s)), {})"
        using call_opens [OF kernel_calls(1) [OF K] r] Some call_keeps(2) [OF kernel_calls(11) [OF K] n]
          call_keeps(2) [OF kernel_calls(9) [OF K] b] call_keeps(2) [OF kernel_calls(10) [OF K] l] p
        by (simp add: s4 view_of_def s pr_out_def printf_out_def)
      have "safeR (\<lambda>lfd t. server_ok view lfd t) (start_epoll K lfd s5)" by (rule start_epoll_spec [OF K t]) (simp_all add: v)
      then show ?thesis using g r Some n b l argv by (cases b) (simp_all add: defs s4 [symmetric] srv_exit_def)
    qed (use g r argv in \<open>simp add: defs srv_exit_def\<close>)
  qed (auto simp: epoll_setup_def Let_def port [symmetric] srv_exit_def split: sum.splits)
qed

section \<open>Properties\<close>

text \<open>
  C8. Whatever clients do and in whatever order events arrive, stale events included, the server never
  accesses its session table out of bounds, and at the top of its loop the table is well formed: the listening
  socket, the sockets and the timers of the sessions are different descriptors, all open and all watched.
\<close>

theorem epoll_table_ok:
  assumes "epoll_kernel K view" "snd (view (world p)) = {}" "epoll_main K n argv p = Some r"
  shows "safeR (\<lambda>_ s. \<exists>lfd. server_ok view lfd s) r"
proof (cases "epoll_setup K argv p")
  case (Ret lfd s)
  then have "server_ok view lfd s" "epoll_rounds K lfd n s = Some r"
    using epoll_setup_spec [OF assms(1,2), of argv] assms(3) by (simp_all add: epoll_main_def)
  from epoll_rounds_spec [OF assms(1) this] show ?thesis by (rule safeR_mono) blast
qed (use assms(3) epoll_setup_spec [OF assms(1,2), of argv] in \<open>auto simp: epoll_main_def\<close>)

text \<open>
  A kernel for the examples: descriptors are handed out from the lowest free number on; the events of each
  epoll_wait(2), the answers of accept(2), true for a connection, and the descriptors whose peer has closed are given.
  When \<open>e_no_timer\<close> is set, timerfd_create(2) fails with EMFILE.
\<close>

record ew =
  e_tab :: "int list"
  e_int :: "int list"
  e_events :: "epev list list"
  e_conns :: "bool list"
  e_closed :: "int list"
  e_no_timer :: bool

definition lowest :: "int list \<Rightarrow> int" where
  "lowest xs = hd (filter (\<lambda>n. n \<notin> set xs) (map int [0..<Suc (length xs)]))"

lemma lowest_free: "lowest xs \<notin> set xs"
proof -
  let ?ns = "map int [0..<Suc (length xs)]"
  have "card (set xs) < card (set ?ns)" using card_length [of xs] by (simp add: card_image del: upt_Suc)
  then have "\<not> set ?ns \<subseteq> set xs" by (meson List.finite_set card_mono leD)
  then have "filter (\<lambda>n. n \<notin> set xs) ?ns \<noteq> []" by (auto simp: filter_empty_conv simp del: upt_Suc)
  then have "lowest xs \<in> set (filter (\<lambda>n. n \<notin> set xs) ?ns)" unfolding lowest_def by (rule hd_in_set)
  then show ?thesis by (simp del: upt_Suc)
qed

definition e_open :: "ew \<Rightarrow> (int + int) \<times> ew" where
  "e_open w = (Inr (lowest (e_tab w)), w\<lparr>e_tab := lowest (e_tab w) # e_tab w\<rparr>)"

definition example_epos :: "ew epos" where
  "example_epos =
     \<lparr>ep_getaddrinfo = \<lambda>port w. Inr (2, 1, 0, port),
      ep_socket = \<lambda>f t p. e_open,
      ep_bind = \<lambda>fd a w. (None, w), ep_listen = \<lambda>fd b w. (None, w),
      ep_create = e_open,
      ep_calloc = \<lambda>w. True,
      ep_wait = \<lambda>fd n w. case e_events w of [] \<Rightarrow> (Inl 4, w) | evs # r \<Rightarrow> (Inr (take n evs), w\<lparr>e_events := r\<rparr>),
      ep_accept = \<lambda>fd w. case e_conns w of True # r \<Rightarrow> e_open (w\<lparr>e_conns := r\<rparr>) | _ \<Rightarrow> (Inl EAGAIN, w\<lparr>e_conns := tl (e_conns w)\<rparr>),
      ep_add = \<lambda>efd fd w. (None, w\<lparr>e_int := fd # e_int w\<rparr>),
      ep_del = \<lambda>efd fd w. if fd \<in> set (e_int w) then (None, w\<lparr>e_int := removeAll fd (e_int w)\<rparr>) else (Some ENOENT, w),
      ep_close = \<lambda>fd w. (None, w\<lparr>e_tab := removeAll fd (e_tab w), e_int := removeAll fd (e_int w)\<rparr>),
      ep_timerfd_create = \<lambda>w. if e_no_timer w then (Inl 24, w) else e_open w,
      ep_settime = \<lambda>fd t w. (if fd \<in> set (e_tab w) \<and> 0 < t then None else Some 9, w),
      ep_recv = \<lambda>fd n w. (if fd \<in> set (e_closed w) then Inr '''' else Inl EAGAIN, w),
      ep_setnb = \<lambda>fd w. (None, w), ep_linger = \<lambda>fd w. (None, w),
      ep_realloc = \<lambda>n w. True, ep_clock = \<lambda>w. None, ep_localtime = \<lambda>n. '''',
      ep_strerror = \<lambda>e. '''', ep_gai_strerror = \<lambda>e. ''''\<rparr>"

definition example_view :: "ew \<Rightarrow> int set \<times> int set" where
  "example_view w = (set (e_tab w), set (e_int w))"

lemmas example_calls =
  arg_cong [where f = ep_getaddrinfo, OF example_epos_def, unfolded epos.select_convs]
  arg_cong [where f = ep_socket, OF example_epos_def, unfolded epos.select_convs]
  arg_cong [where f = ep_bind, OF example_epos_def, unfolded epos.select_convs]
  arg_cong [where f = ep_listen, OF example_epos_def, unfolded epos.select_convs]
  arg_cong [where f = ep_create, OF example_epos_def, unfolded epos.select_convs]
  arg_cong [where f = ep_calloc, OF example_epos_def, unfolded epos.select_convs]
  arg_cong [where f = ep_wait, OF example_epos_def, unfolded epos.select_convs]
  arg_cong [where f = ep_accept, OF example_epos_def, unfolded epos.select_convs]
  arg_cong [where f = ep_add, OF example_epos_def, unfolded epos.select_convs]
  arg_cong [where f = ep_del, OF example_epos_def, unfolded epos.select_convs]
  arg_cong [where f = ep_close, OF example_epos_def, unfolded epos.select_convs]
  arg_cong [where f = ep_timerfd_create, OF example_epos_def, unfolded epos.select_convs]
  arg_cong [where f = ep_settime, OF example_epos_def, unfolded epos.select_convs]
  arg_cong [where f = ep_recv, OF example_epos_def, unfolded epos.select_convs]
  arg_cong [where f = ep_setnb, OF example_epos_def, unfolded epos.select_convs]
  arg_cong [where f = ep_linger, OF example_epos_def, unfolded epos.select_convs]
  arg_cong [where f = ep_realloc, OF example_epos_def, unfolded epos.select_convs]

lemma example_opens: "opens_view example_view e_open"
  using lowest_free by (auto simp: opens_view_def e_open_def example_view_def)

lemma example_kernel: "epoll_kernel example_epos example_view"
proof -
  have "opens_view example_view (\<lambda>w. if e_no_timer w then (Inl 24, w) else e_open w)"
    "opens_view example_view (\<lambda>w. case e_conns w of True # r \<Rightarrow> e_open (w\<lparr>e_conns := r\<rparr>)
       | _ \<Rightarrow> (Inl EAGAIN, w\<lparr>e_conns := tl (e_conns w)\<rparr>))"
    using lowest_free by (auto simp: opens_view_def e_open_def example_view_def split: list.splits bool.splits)
  then show ?thesis using example_opens
    by (simp add: epoll_kernel_def example_epos_def adds_view_def dels_view_def closes_view_def keeps_view_def split: list.split)
      (auto simp: example_view_def)
qed

definition ew_proc :: "epev list list \<Rightarrow> bool list \<Rightarrow> int list \<Rightarrow> bool \<Rightarrow> ew proc" where
  "ew_proc evs n cl nt = \<lparr>out_buf = '''', out = '''', err = '''', errno = 0, ef_dumpcore = None,
     world = \<lparr>e_tab = [2, 1, 0], e_int = [], e_events = evs, e_conns = n, e_closed = cl, e_no_timer = nt\<rparr>\<rparr>"

abbreviation readable :: "int \<Rightarrow> epev" where "readable fd \<equiv> \<lparr>ev_events = 1, ev_fd = fd\<rparr>"

lemma print_fields:
  "n_used (pr_out f l a s) = n_used s" "n_allocated (pr_out f l a s) = n_allocated s" "slots (pr_out f l a s) = slots s"
  "epollfd (pr_out f l a s) = epollfd s" "world (sys (pr_out f l a s)) = world (sys s)"
  "n_used (pr_err f l a s) = n_used s" "n_allocated (pr_err f l a s) = n_allocated s" "slots (pr_err f l a s) = slots s"
  "epollfd (pr_err f l a s) = epollfd s" "world (sys (pr_err f l a s)) = world (sys s)"
  by (simp_all add: pr_out_def pr_err_def printf_out_def fputs_err_def)

lemma lowest_values:
  "lowest [2, 1, 0] = 3" "lowest [3, 2, 1, 0] = 4" "lowest [4, 3, 2, 1, 0] = 5" "lowest [5, 4, 3, 2, 1, 0] = 6"
  by code_simp+

lemmas epoll_eval = print_fields lowest_values call_int_def call_unit_def e_open_def Let_def
  epoll_main_def epoll_setup_def start_epoll_def ADD_EV_def DEL_EV_def add_ev_def del_ev_def watch_timer_def fds_new_timerfd_def
  fds_set_timerfd_def grow_slots_def get_slot_def put_slot_def accept_one_def accept_all.simps on_readable_def
  fds_findbysocketfd_def fds_findbytimerfd_def fds_deletebytimerfd_def find_slot.simps epoll_round_def sys_errno_def
  FDSESSION_DEFAULT_TIMEOUT_def EPOLLIN_def EAGAIN_def srv_exit_def

text \<open>The part of a state that decides how the server goes on.\<close>

definition state_is :: "ew srv \<Rightarrow> int \<Rightarrow> fdsession list \<Rightarrow> ew \<Rightarrow> bool" where
  "state_is s n sl w = (n_allocated s = int (length sl) \<and> n_used s = n \<and> slots s = sl \<and> epollfd s = 4 \<and> world (sys s) = w)"

lemma epoll_example_setup:
  "\<exists>s. epoll_setup example_epos [''s''] (ew_proc evs cs cl nt) = Ret 3 s \<and> state_is s 0 []
    \<lparr>e_tab = [4, 3, 2, 1, 0], e_int = [3], e_events = evs, e_conns = cs, e_closed = cl, e_no_timer = nt\<rparr>"
  by (simp add: epoll_eval example_calls ew_proc_def state_is_def)

lemma example_round:
  assumes "state_is s n sl w" "e_events w = evs # es" "length evs \<le> 32"
    "\<And>s. state_is s n sl (w\<lparr>e_events := es\<rparr>) \<Longrightarrow> \<exists>t. get_epollevent example_epos 3 evs s = Some (Ret 0 t) \<and> state_is t m sm v"
  shows "\<exists>t. epoll_round example_epos 3 s = Some (Ret () t) \<and> state_is t m sm v"
proof -
  define s1 where s1: "s1 = pr_out ''main'' 101 [''['', GET_TIME0 example_epos s, ''] epoll waiting...''] s"
  define u where u: "u = pr_out ''main'' 106 [''epoll_wait = '', dec (int (length evs))]
    (s1\<lparr>sys := (sys s1)\<lparr>world := w\<lparr>e_events := es\<rparr>\<rparr>\<rparr>)"
  have "state_is u n sl (w\<lparr>e_events := es\<rparr>)" using assms(1) by (simp add: state_is_def print_fields u s1)
  then obtain t where t: "get_epollevent example_epos 3 evs u = Some (Ret 0 t)" "state_is t m sm v" using assms(4) by blast
  have "world (sys s1) = w" using assms(1) by (simp add: state_is_def print_fields s1)
  then have "epoll_round example_epos 3 s = Some (Ret () t)" using assms(2,3) t(1)
    by (simp add: epoll_round_def s1 [symmetric] call_int_def example_calls MAX_EP_EVENTS_def Let_def u)
  then show ?thesis using t(2) by blast
qed

text \<open>The kernel in the three situations of the examples, and the tables that go with them.\<close>

definition quiet :: "epev list list \<Rightarrow> bool list \<Rightarrow> bool \<Rightarrow> ew" where
  "quiet es cs nt = \<lparr>e_tab = [4, 3, 2, 1, 0], e_int = [3], e_events = es, e_conns = cs, e_closed = [5], e_no_timer = nt\<rparr>"

definition orphaned :: "epev list list \<Rightarrow> bool list \<Rightarrow> ew" where
  "orphaned es cs = \<lparr>e_tab = [5, 4, 3, 2, 1, 0], e_int = [5, 3], e_events = es, e_conns = cs, e_closed = [5], e_no_timer = True\<rparr>"

definition connected :: "epev list list \<Rightarrow> bool list \<Rightarrow> ew" where
  "connected es cs = \<lparr>e_tab = [6, 5, 4, 3, 2, 1, 0], e_int = [6, 5, 3], e_events = es, e_conns = cs, e_closed = [5], e_no_timer = False\<rparr>"

definition slots_with :: "int \<Rightarrow> int \<Rightarrow> fdsession list" where
  "slots_with sfd tfd = \<lparr>socketfd = sfd, timerfd = tfd, timeout = 30\<rparr> # replicate 15 new_slot"

lemmas example_states = quiet_def orphaned_def connected_def slots_with_def state_is_def

lemma accept_orphan:
  assumes "state_is s 0 [] (quiet es (True # False # cs) True)"
  shows "\<exists>t. accept_all example_epos 3 s = Some (Ret () t) \<and> state_is t 0 (replicate 16 new_slot) (orphaned es cs)"
  using assms by (simp add: epoll_eval example_calls example_states fputs_err_def)

lemma close_orphan:
  assumes "state_is s 0 (replicate 16 new_slot) (orphaned es cs)"
  shows "\<exists>t. on_readable example_epos 5 s = Exit EXIT_FAILURE t"
  using assms by (simp add: epoll_eval example_calls example_states)

lemma accept_first:
  assumes "state_is s 0 [] (quiet es (True # False # cs) False)"
  shows "\<exists>t. accept_all example_epos 3 s = Some (Ret () t) \<and> state_is t 1 (slots_with 5 6) (connected es cs)"
  using assms by (simp add: epoll_eval example_calls example_states numeral_eq_Suc)

lemma accept_again:
  assumes "state_is s 0 (slots_with (- 1) (- 1)) (quiet es (True # False # cs) False)"
  shows "\<exists>t. accept_all example_epos 3 s = Some (Ret () t) \<and> state_is t 1 (slots_with 5 6) (connected es cs)"
  using assms by (simp add: epoll_eval example_calls example_states)

lemma close_session:
  assumes "state_is s 1 (slots_with 5 6) (connected es cs)"
  shows "\<exists>t. on_readable example_epos 5 s = Ret 0 t \<and> state_is t 0 (slots_with (- 1) (- 1)) (quiet es cs False)"
    "\<exists>t. on_readable example_epos 6 s = Ret 0 t \<and> state_is t 0 (slots_with (- 1) (- 1)) (quiet es cs False)"
  using assms by (simp_all add: epoll_eval example_calls example_states)

lemma example_main:
  "\<exists>s. epoll_main example_epos n [''s''] (ew_proc evs cs [5] nt) = epoll_rounds example_epos 3 n s \<and>
     state_is s 0 [] (quiet evs cs nt)"
  using epoll_example_setup [of evs cs "[5]" nt] by (auto simp: epoll_main_def quiet_def)

lemma listener_events:
  "accept_all example_epos 3 s = Some (Ret () t) \<Longrightarrow>
    get_epollevent example_epos 3 (readable 3 # evs) s = get_epollevent example_epos 3 evs t"
  by (simp add: EPOLLIN_def)

lemma socket_events:
  "fd \<noteq> 3 \<Longrightarrow> on_readable example_epos fd s = Ret 0 t \<Longrightarrow>
    get_epollevent example_epos 3 (readable fd # evs) s = get_epollevent example_epos 3 evs t"
  by (simp add: EPOLLIN_def)

lemma first_round:
  assumes "state_is s 0 [] (quiet ([readable 3] # es) (True # False # cs) False)"
  shows "\<exists>t. epoll_round example_epos 3 s = Some (Ret () t) \<and> state_is t 1 (slots_with 5 6) (connected es cs)"
proof (rule example_round [OF assms])
  fix s assume "state_is s 0 [] (quiet ([readable 3] # es) (True # False # cs) False\<lparr>e_events := es\<rparr>)"
  then obtain t where "accept_all example_epos 3 s = Some (Ret () t)" "state_is t 1 (slots_with 5 6) (connected es cs)"
    using accept_first [of s es cs] by (auto simp: quiet_def)
  then show "\<exists>t. get_epollevent example_epos 3 [readable 3] s = Some (Ret 0 t) \<and> state_is t 1 (slots_with 5 6) (connected es cs)"
    using listener_events by simp
qed (simp_all add: quiet_def)

theorem epoll_table_ok_witness:
  "\<exists>s. epoll_main example_epos 1 [''s''] (ew_proc [[readable 3]] [True, False] [5] False) = Some (Ret () s) \<and>
     map socketfd (live s) = [5] \<and> (\<exists>lfd. server_ok example_view lfd s)"
proof -
  obtain s where s: "epoll_main example_epos 1 [''s''] (ew_proc [[readable 3]] [True, False] [5] False) = epoll_rounds example_epos 3 1 s"
      "state_is s 0 [] (quiet [[readable 3]] [True, False] False)"
    using example_main [of 1 "[[readable 3]]" "[True, False]" False] by blast
  obtain t where t: "epoll_round example_epos 3 s = Some (Ret () t)" "state_is t 1 (slots_with 5 6) (connected [] [])"
    using first_round [OF s(2)] by blast
  have r: "epoll_main example_epos 1 [''s''] (ew_proc [[readable 3]] [True, False] [5] False) = Some (Ret () t)"
    using s(1) t(1) by simp
  have "\<exists>lfd. server_ok example_view lfd t"
    using epoll_table_ok [OF example_kernel _ r] by (simp add: ew_proc_def example_view_def)
  then show ?thesis using r t(2) by (auto simp: state_is_def live_def slots_with_def)
qed

text \<open>
  When timerfd_create(2) fails for a new connection, the connection stays watched without an entry in the
  table, and the server goes on; as soon as that client closes the connection, the whole server exits.
\<close>

theorem orphan_ends_server:
  "\<exists>s. epoll_main example_epos 2 [''s''] (ew_proc [[readable 3], [readable 5]] [True, False] [5] True) =
     Some (Exit EXIT_FAILURE s)"
proof -
  obtain s where s: "epoll_main example_epos 2 [''s''] (ew_proc [[readable 3], [readable 5]] [True, False] [5] True) =
      epoll_rounds example_epos 3 2 s" "state_is s 0 [] (quiet [[readable 3], [readable 5]] [True, False] True)"
    using example_main by blast
  have "\<exists>t. epoll_round example_epos 3 s = Some (Ret () t) \<and> state_is t 0 (replicate 16 new_slot) (orphaned [[readable 5]] [])"
  proof (rule example_round [OF s(2)])
    fix s assume "state_is s 0 [] (quiet [[readable 3], [readable 5]] [True, False] True\<lparr>e_events := [[readable 5]]\<rparr>)"
    then obtain t where "accept_all example_epos 3 s = Some (Ret () t)" "state_is t 0 (replicate 16 new_slot) (orphaned [[readable 5]] [])"
      using accept_orphan [of s "[[readable 5]]" "[]"] by (auto simp: quiet_def)
    then show "\<exists>t. get_epollevent example_epos 3 [readable 3] s = Some (Ret 0 t) \<and>
        state_is t 0 (replicate 16 new_slot) (orphaned [[readable 5]] [])" using listener_events by simp
  qed (simp_all add: quiet_def)
  then obtain t where t: "epoll_round example_epos 3 s = Some (Ret () t)" "state_is t 0 (replicate 16 new_slot) (orphaned [[readable 5]] [])"
    by blast
  define s1 where s1: "s1 = pr_out ''main'' 101 [''['', GET_TIME0 example_epos t, ''] epoll waiting...''] t"
  define u where u: "u = pr_out ''main'' 106 [''epoll_wait = '', dec 1] (s1\<lparr>sys := (sys s1)\<lparr>world := orphaned [] []\<rparr>\<rparr>)"
  have w: "world (sys s1) = orphaned [[readable 5]] []" "state_is u 0 (replicate 16 new_slot) (orphaned [] [])"
    using t(2) by (simp_all add: state_is_def print_fields u s1)
  obtain v where "on_readable example_epos 5 u = Exit EXIT_FAILURE v" using close_orphan [OF w(2)] by blast
  then have "epoll_round example_epos 3 t = Some (Exit EXIT_FAILURE v)" using w(1)
    by (simp add: epoll_round_def s1 [symmetric] call_int_def example_calls MAX_EP_EVENTS_def Let_def EPOLLIN_def u orphaned_def)
  then show ?thesis using s(1) t(1) by (simp add: numeral_2_eq_2)
qed

lemma second_round:
  assumes "state_is s 1 (slots_with 5 6) (connected [[readable 5, readable 3]] [True, False])"
  shows "\<exists>t. epoll_round example_epos 3 s = Some (Ret () t) \<and> state_is t 1 (slots_with 5 6) (connected [] [])"
proof (rule example_round [OF assms])
  fix s assume "state_is s 1 (slots_with 5 6) (connected [[readable 5, readable 3]] [True, False]\<lparr>e_events := []\<rparr>)"
  then obtain t where t: "on_readable example_epos 5 s = Ret 0 t" "state_is t 0 (slots_with (- 1) (- 1)) (quiet [] [True, False] False)"
    using close_session(1) [of s "[]" "[True, False]"] by (auto simp: connected_def)
  obtain u where u: "accept_all example_epos 3 t = Some (Ret () u)" "state_is u 1 (slots_with 5 6) (connected [] [])"
    using accept_again [OF t(2)] by blast
  show "\<exists>t. get_epollevent example_epos 3 [readable 5, readable 3] s = Some (Ret 0 t) \<and> state_is t 1 (slots_with 5 6) (connected [] [])"
    using socket_events [OF _ t(1)] listener_events [OF u(1)] u(2) by simp
qed (simp_all add: connected_def)

lemma second_round_stale:
  assumes "state_is s 1 (slots_with 5 6) (connected [[readable 5, readable 3, readable 6]] [True, False])"
  shows "\<exists>t. epoll_round example_epos 3 s = Some (Ret () t) \<and> state_is t 0 (slots_with (- 1) (- 1)) (quiet [] [] False)"
proof (rule example_round [OF assms])
  fix s assume "state_is s 1 (slots_with 5 6) (connected [[readable 5, readable 3, readable 6]] [True, False]\<lparr>e_events := []\<rparr>)"
  then obtain t where t: "on_readable example_epos 5 s = Ret 0 t" "state_is t 0 (slots_with (- 1) (- 1)) (quiet [] [True, False] False)"
    using close_session(1) [of s "[]" "[True, False]"] by (auto simp: connected_def)
  obtain u where u: "accept_all example_epos 3 t = Some (Ret () u)" "state_is u 1 (slots_with 5 6) (connected [] [])"
    using accept_again [OF t(2)] by blast
  obtain v where v: "on_readable example_epos 6 u = Ret 0 v" "state_is v 0 (slots_with (- 1) (- 1)) (quiet [] [] False)"
    using close_session(2) [OF u(2)] by blast
  show "\<exists>t. get_epollevent example_epos 3 [readable 5, readable 3, readable 6] s = Some (Ret 0 t) \<and>
      state_is t 0 (slots_with (- 1) (- 1)) (quiet [] [] False)"
    using socket_events [OF _ t(1)] listener_events [OF u(1)] socket_events [OF _ v(1)] v(2) by simp
qed (simp_all add: connected_def)

lemma two_rounds:
  assumes "\<And>s. state_is s 1 (slots_with 5 6) (connected [evs] [True, False]) \<Longrightarrow>
    \<exists>t. epoll_round example_epos 3 s = Some (Ret () t) \<and> state_is t n sl w"
  shows "\<exists>t. epoll_main example_epos 2 [''s''] (ew_proc [[readable 3], evs] [True, False, True, False] [5] False) = Some (Ret () t) \<and>
    state_is t n sl w"
proof -
  obtain s where s: "epoll_main example_epos 2 [''s''] (ew_proc [[readable 3], evs] [True, False, True, False] [5] False) =
      epoll_rounds example_epos 3 2 s" "state_is s 0 [] (quiet [[readable 3], evs] [True, False, True, False] False)"
    using example_main by blast
  obtain t where t: "epoll_round example_epos 3 s = Some (Ret () t)" "state_is t 1 (slots_with 5 6) (connected [evs] [True, False])"
    using first_round [OF s(2)] by blast
  obtain u where "epoll_round example_epos 3 t = Some (Ret () u)" "state_is u n sl w" using assms [OF t(2)] by blast
  then show ?thesis using s(1) t(1) by (simp add: numeral_2_eq_2)
qed

text \<open>
  C25. A stale event can close a new connection. In one batch a client closes socket 5, whose timer is 6,
  a new client connects and is given the descriptors 5 and 6 again, and the event of the old timer follows:
  the new session, which is in the table without that last event, is closed as expired.
\<close>

theorem stale_timer_closes_new_session:
  "(\<exists>s. epoll_main example_epos 2 [''s''] (ew_proc [[readable 3], [readable 5, readable 3]] [True, False, True, False] [5] False) =
      Some (Ret () s) \<and> map socketfd (live s) = [5]) \<and>
   (\<exists>s. epoll_main example_epos 2 [''s'']
      (ew_proc [[readable 3], [readable 5, readable 3, readable 6]] [True, False, True, False] [5] False) =
      Some (Ret () s) \<and> live s = [])"
  using two_rounds [of "[readable 5, readable 3]", OF second_round]
    two_rounds [of "[readable 5, readable 3, readable 6]", OF second_round_stale]
  by (auto simp: state_is_def live_def slots_with_def)

end
