(* ===== verification/EnvVars.thy ===== *)
theory EnvVars
  imports Prelude
begin

text \<open>
  \<open>tlpi-dist/proc/setenv.c\<close>: setenv and unsetenv on the array \<open>environ\<close>, whose end is marked by a null pointer.
  The array is a list in which \<open>None\<close> is the null pointer; a read beyond it is \<open>Undef\<close>. getenv(3) and putenv(3)
  are those of the C library: the first entry of that name, and its replacement or an entry at the end.
\<close>

definition ENV_EINVAL :: int where "ENV_EINVAL = 22"
definition ENV_ENOMEM :: int where "ENV_ENOMEM = 12"

record env =
  environ :: "string option list"
  env_errno :: int

section \<open>The C library\<close>

text \<open>\<open>entry_for name e\<close>: the entry \<open>e\<close> is that of the variable \<open>name\<close>, \<open>name=...\<close>.\<close>

definition entry_for :: "string \<Rightarrow> string \<Rightarrow> bool" where
  "entry_for name e = (take (length name) e = name \<and> length name < length e \<and> e ! length name = CHR ''='')"

definition env_strings :: "string option list \<Rightarrow> string list" where
  "env_strings v = map the (takeWhile (\<lambda>e. e \<noteq> None) v)"

definition getenv :: "string \<Rightarrow> env \<Rightarrow> string option" where
  "getenv name s =
     map_option (drop (Suc (length name))) (List.find (entry_for name) (env_strings (environ s)))"

text \<open>putenv(3) of a string with a name; \<open>ok\<close> tells whether memory is left for a longer array.\<close>

fun put_entry :: "string \<Rightarrow> string \<Rightarrow> string list \<Rightarrow> string list" where
  "put_entry name es [] = [es]"
| "put_entry name es (e # r) = (if entry_for name e then es # r else e # put_entry name es r)"

definition putenv :: "bool \<Rightarrow> string \<Rightarrow> env \<Rightarrow> int \<times> env" where
  "putenv ok es s =
     (let name = takeWhile (\<lambda>c. c \<noteq> CHR ''='') es; v = env_strings (environ s)
      in if \<not> ok \<and> List.find (entry_for name) v = None then (- 1, s\<lparr>env_errno := ENV_ENOMEM\<rparr>)
         else (0, s\<lparr>environ := map Some (put_entry name es v) @ [None]\<rparr>))"

section \<open>unsetenv\<close>

text \<open>strncmp(*ep, name, len) == 0 and (*ep)[len] == '='.\<close>

definition strncmp0 :: "string \<Rightarrow> string \<Rightarrow> nat \<Rightarrow> bool" where
  "strncmp0 a b n = (take n a = take n b)"

definition matches :: "string \<Rightarrow> string \<Rightarrow> bool" where
  "matches name e = (strncmp0 e name (length name) \<and> (e @ [CHR 0x00]) ! length name = CHR ''='')"

text \<open>The inner loop, from index \<open>sp\<close> on.\<close>

function shift_back :: "nat \<Rightarrow> string option list \<Rightarrow> (string option list, unit) res" where
  "shift_back sp v =
     (if sp \<ge> length v then Undef
      else if v ! sp = None then Ret () v
      else if Suc sp \<ge> length v then Undef
      else shift_back (Suc sp) (v[sp := v ! Suc sp]))"
  by pat_completeness auto
termination
  by (relation "measure (\<lambda>(sp, v). length v - sp)") auto

declare shift_back.simps [simp del]

text \<open>The outer loop; a removal leaves one entry less before the null pointer, which bounds it.\<close>

function unset_loop :: "nat \<Rightarrow> string \<Rightarrow> nat \<Rightarrow> string option list \<Rightarrow> (string option list, unit) res" where
  "unset_loop fuel name ep v =
     (if ep \<ge> length v then Undef
      else case v ! ep of
        None \<Rightarrow> Ret () v
      | Some e \<Rightarrow>
          (case fuel of
             0 \<Rightarrow> Undef
           | Suc f \<Rightarrow>
               if matches name e
               then bindR (shift_back ep v) (\<lambda>_ w. unset_loop f name ep w)
               else unset_loop f name (Suc ep) v))"
  by pat_completeness auto
termination
  by (relation "measure fst") auto

declare unset_loop.simps [simp del]

definition bad_name :: "string option \<Rightarrow> bool" where
  "bad_name name = (case name of None \<Rightarrow> True | Some n \<Rightarrow> n = [] \<or> strchr n (CHR ''='') \<noteq> None)"

definition unsetenv :: "string option \<Rightarrow> env \<Rightarrow> (env, int) res" where
  "unsetenv name s =
     (if bad_name name then Ret (- 1) (s\<lparr>env_errno := ENV_EINVAL\<rparr>)
      else case unset_loop (length (environ s)) (the name) 0 (environ s) of
             Ret _ v \<Rightarrow> Ret 0 (s\<lparr>environ := v\<rparr>)
           | _ \<Rightarrow> Undef)"

section \<open>setenv\<close>

text \<open>\<open>mem\<close> tells whether malloc(3) succeeds, \<open>ok\<close> whether putenv(3) does.\<close>

definition setenv :: "bool \<Rightarrow> bool \<Rightarrow> string option \<Rightarrow> string option \<Rightarrow> int \<Rightarrow> env \<Rightarrow> (env, int) res" where
  "setenv mem ok name val overwrite s =
     (if bad_name name \<or> val = None then Ret (- 1) (s\<lparr>env_errno := ENV_EINVAL\<rparr>)
      else if getenv (the name) s \<noteq> None \<and> overwrite = 0 then Ret 0 s
      else bindR (unsetenv name s) (\<lambda>_ s1.
        if \<not> mem then Ret (- 1) (s1\<lparr>env_errno := ENV_ENOMEM\<rparr>)
        else
          let es = the name @ ''='' @ the val
          in case putenv ok es s1 of (r, s2) \<Rightarrow> Ret (if r \<noteq> 0 then - 1 else 0) s2))"

section \<open>The loops\<close>

lemma shift_back_spec:
  "shift_back (length a) (map Some (a @ e # b) @ None # r) = Ret () (map Some (a @ b) @ None # None # r)"
proof (induction b arbitrary: a e)
  case Nil
  have "shift_back (length a) (map Some (a @ [e]) @ None # r) = shift_back (Suc (length a)) (map Some a @ None # None # r)"
    by (subst shift_back.simps) (simp add: nth_append list_update_append)
  also have "\<dots> = Ret () (map Some a @ None # None # r)" by (subst shift_back.simps) (simp add: nth_append list_update_append)
  finally show ?case by simp
next
  case (Cons c b)
  have "shift_back (length a) (map Some (a @ e # c # b) @ None # r) =
      shift_back (length (a @ [c])) (map Some ((a @ [c]) @ c # b) @ None # r)"
    by (subst shift_back.simps) (simp add: nth_append list_update_append)
  then show ?case using Cons.IH [of "a @ [c]" c] by simp
qed

lemma unset_loop_spec:
  assumes "length suf \<le> fuel"
  shows "\<exists>r'. unset_loop fuel name (length pref) (map Some (pref @ suf) @ None # r) =
    Ret () (map Some (pref @ filter (\<lambda>e. \<not> matches name e) suf) @ None # r')"
  using assms
proof (induction suf arbitrary: pref fuel r)
  case Nil
  then show ?case by (subst unset_loop.simps) (simp add: nth_append)
next
  case (Cons e suf)
  then obtain f where f: "fuel = Suc f" "length suf \<le> f" by (cases fuel) auto
  let ?v = "map Some (pref @ e # suf) @ None # r"
  have at: "\<not> length ?v \<le> length pref" "?v ! length pref = Some e" by (simp_all add: nth_append)
  show ?case
  proof (cases "matches name e")
    case True
    have "unset_loop fuel name (length pref) ?v = unset_loop f name (length pref) (map Some (pref @ suf) @ None # None # r)"
      using at True f(1) shift_back_spec [of pref e suf r] by (subst unset_loop.simps) simp
    then show ?thesis using Cons.IH [OF f(2), of pref "None # r"] True by simp
  next
    case False
    have "unset_loop fuel name (length pref) ?v = unset_loop f name (length (pref @ [e])) (map Some ((pref @ [e]) @ suf) @ None # r)"
      using at False f(1) by (subst unset_loop.simps) simp
    then show ?thesis using Cons.IH [OF f(2), of "pref @ [e]" r] False by simp
  qed
qed

section \<open>Names\<close>

lemma matches_entry: "matches name e = entry_for name e"
proof (cases "length name < length e")
  case False
  then have "length name = length e \<or> take (length name) e \<noteq> name" by (cases "length e < length name") auto
  then show ?thesis using False by (auto simp: matches_def entry_for_def strncmp0_def nth_append)
qed (simp add: matches_def entry_for_def strncmp0_def nth_append)

abbreviation eq_sign :: char where "eq_sign \<equiv> CHR ''=''"

lemma entry_name:
  assumes "eq_sign \<notin> set name"
  shows "entry_for name e \<longleftrightarrow> takeWhile (\<lambda>c. c \<noteq> eq_sign) e = name \<and> eq_sign \<in> set e"
proof
  assume "entry_for name e"
  then have "e = name @ eq_sign # drop (Suc (length name)) e"
    unfolding entry_for_def by (metis append_take_drop_id Cons_nth_drop_Suc)
  then obtain d where e: "e = name @ eq_sign # d" by blast
  have "\<forall>c \<in> set name. c \<noteq> eq_sign" using assms by blast
  then show "takeWhile (\<lambda>c. c \<noteq> eq_sign) e = name \<and> eq_sign \<in> set e" by (simp add: e takeWhile_append)
next
  assume r: "takeWhile (\<lambda>c. c \<noteq> eq_sign) e = name \<and> eq_sign \<in> set e"
  then have "dropWhile (\<lambda>c. c \<noteq> eq_sign) e \<noteq> []" by (auto simp: dropWhile_eq_Nil_conv)
  then obtain d where "dropWhile (\<lambda>c. c \<noteq> eq_sign) e = eq_sign # d"
    using hd_dropWhile [of "\<lambda>c. c \<noteq> eq_sign" e] by (metis (full_types) list.collapse)
  then have "e = name @ eq_sign # d" using takeWhile_dropWhile_id [of "\<lambda>c. c \<noteq> eq_sign" e] r by simp
  then show "entry_for name e" by (simp add: entry_for_def)
qed

lemma bad_name_Some: "bad_name (Some n) = (n = [] \<or> eq_sign \<in> set n)"
  by (auto simp: bad_name_def strchr_def find_idx_None_iff)

section \<open>The environment as a map\<close>

definition env_ok :: "env \<Rightarrow> bool" where
  "env_ok s = (None \<in> set (environ s))"

definition lookup :: "string list \<Rightarrow> string \<Rightarrow> string option" where
  "lookup es n = (if bad_name (Some n) then None else map_option (drop (Suc (length n))) (List.find (entry_for n) es))"

definition vars :: "env \<Rightarrow> string \<Rightarrow> string option" where
  "vars s = lookup (env_strings (environ s))"

lemma env_strings_array: "env_strings (map Some es @ None # r) = es"
proof -
  have "takeWhile (\<lambda>e. e \<noteq> None) (map Some es @ None # r) = map Some es" by (induction es) auto
  then show ?thesis by (simp add: env_strings_def)
qed

lemma env_array:
  assumes "env_ok s"
  shows "\<exists>r. environ s = map Some (env_strings (environ s)) @ None # r"
proof -
  let ?P = "\<lambda>e :: string option. e \<noteq> None"
  have "dropWhile ?P (environ s) \<noteq> []" using assms by (auto simp: env_ok_def dropWhile_eq_Nil_conv)
  then obtain r where r: "dropWhile ?P (environ s) = None # r"
    using hd_dropWhile [of ?P "environ s"] by (metis list.collapse)
  have m: "map Some (map the (takeWhile ?P (environ s))) = takeWhile ?P (environ s)"
    unfolding map_map by (rule map_idI) (auto dest: set_takeWhileD)
  have "environ s = takeWhile ?P (environ s) @ None # r" by (simp flip: r)
  then show ?thesis unfolding env_strings_def m by blast
qed

lemma unsetenv_spec:
  assumes "env_ok s" "\<not> bad_name (Some n)"
  shows "\<exists>t. unsetenv (Some n) s = Ret 0 t \<and> env_ok t \<and> env_errno t = env_errno s \<and>
    env_strings (environ t) = filter (\<lambda>e. \<not> entry_for n e) (env_strings (environ s))"
proof -
  let ?es = "env_strings (environ s)"
  obtain r where r: "environ s = map Some ?es @ None # r" using env_array [OF assms(1)] by blast
  have "length ?es \<le> length (environ s)" using arg_cong [OF r, of length] by simp
  from unset_loop_spec [OF this, of n "[]" r] r
  obtain r' where "unset_loop (length (environ s)) n 0 (environ s) =
      Ret () (map Some (filter (\<lambda>e. \<not> matches n e) ?es) @ None # r')" by auto
  then show ?thesis using assms(2) by (simp add: unsetenv_def env_ok_def env_strings_array matches_entry)
qed

lemma lookup_filter:
  assumes "\<not> bad_name (Some n)"
  shows "lookup (filter (\<lambda>e. \<not> entry_for n e) es) = (lookup es)(n := None)"
proof
  fix m
  have "\<not> bad_name (Some m) \<Longrightarrow> m \<noteq> n \<Longrightarrow> List.find (entry_for m) (filter (\<lambda>e. \<not> entry_for n e) es) = List.find (entry_for m) es"
    using entry_name [of m] entry_name [of n] assms by (induction es) (auto simp: bad_name_Some)
  moreover have "List.find (entry_for n) (filter (\<lambda>e. \<not> entry_for n e) es) = None" by (induction es) auto
  ultimately show "lookup (filter (\<lambda>e. \<not> entry_for n e) es) m = ((lookup es)(n := None)) m"
    by (simp add: lookup_def)
qed

lemma lookup_append:
  assumes "\<not> bad_name (Some n)" "lookup es n = None"
  shows "lookup (es @ [n @ ''='' @ v]) = (lookup es)(n \<mapsto> v)"
proof
  fix m
  have f: "List.find P (xs @ [x]) = (case List.find P xs of None \<Rightarrow> if P x then Some x else None | Some y \<Rightarrow> Some y)"
    for P xs and x :: string by (induction xs) auto
  have "entry_for n (n @ ''='' @ v)" by (simp add: entry_for_def)
  moreover have "\<not> bad_name (Some m) \<Longrightarrow> m \<noteq> n \<Longrightarrow> \<not> entry_for m (n @ ''='' @ v)"
    using \<open>entry_for n (n @ ''='' @ v)\<close> entry_name [of m "n @ ''='' @ v"] entry_name [of n "n @ ''='' @ v"] assms(1)
    by (auto simp: bad_name_Some)
  ultimately show "lookup (es @ [n @ ''='' @ v]) m = ((lookup es)(n \<mapsto> v)) m"
    using assms by (cases "m = n") (auto simp: lookup_def f split: option.splits)
qed

lemma put_entry_new: "List.find (entry_for n) es = None \<Longrightarrow> put_entry n x es = es @ [x]"
  by (induction es) (auto split: if_splits)

lemma setenv_spec:
  assumes "env_ok s" "\<not> bad_name (Some n)"
  shows "\<exists>r t. setenv mem ok (Some n) (Some v) ow s = Ret r t \<and> env_ok t \<and>
    (if vars s n \<noteq> None \<and> ow = 0 then r = 0 \<and> t = s
     else if mem \<and> ok then r = 0 \<and> vars t = (vars s)(n \<mapsto> v)
     else r = - 1 \<and> vars t = (vars s)(n := None))"
proof (cases "vars s n \<noteq> None \<and> ow = 0")
  case True
  then show ?thesis using assms by (simp add: setenv_def vars_def lookup_def getenv_def)
next
  case False
  then have g: "\<not> (getenv n s \<noteq> None \<and> ow = 0)" using assms(2) by (simp add: vars_def lookup_def getenv_def)
  obtain u where u: "unsetenv (Some n) s = Ret 0 u" "env_ok u"
      "env_strings (environ u) = filter (\<lambda>e. \<not> entry_for n e) (env_strings (environ s))"
    using unsetenv_spec [OF assms] by blast
  let ?es = "env_strings (environ u)"
  have l: "lookup ?es = (vars s)(n := None)" using lookup_filter [OF assms(2)] u(3) by (simp add: vars_def)
  have none: "List.find (entry_for n) ?es = None" using fun_cong [OF l, of n] assms(2) by (simp add: lookup_def)
  have name: "takeWhile (\<lambda>c. c \<noteq> eq_sign) (n @ ''='' @ v) = n"
    using assms(2) by (subst takeWhile_append) (auto simp: bad_name_Some)
  show ?thesis
  proof (cases "mem \<and> ok")
    case True
    let ?t = "u\<lparr>environ := map Some (?es @ [n @ ''='' @ v]) @ [None]\<rparr>"
    have "setenv mem ok (Some n) (Some v) ow s = Ret 0 ?t"
      using assms(2) g u(1) True name none put_entry_new [OF none] by (auto simp: setenv_def putenv_def Let_def)
    moreover have "vars ?t = (vars s)(n \<mapsto> v)"
      using lookup_append [OF assms(2), of ?es v] l by (simp add: vars_def env_strings_array [of _ "[]"] del: map_append)
    ultimately show ?thesis using False True by (auto simp: env_ok_def)
  next
    case no: False
    have "setenv mem ok (Some n) (Some v) ow s = Ret (- 1) (u\<lparr>env_errno := ENV_ENOMEM\<rparr>)"
      using assms(2) g u(1) no name none by (auto simp: setenv_def putenv_def Let_def)
    then show ?thesis using False no u(2) l by (auto simp: env_ok_def vars_def)
  qed
qed

section \<open>Sequences of calls\<close>

fun run_calls :: "('c \<Rightarrow> 's \<Rightarrow> ('s, 'r) res) \<Rightarrow> 'c list \<Rightarrow> 's \<Rightarrow> ('s, 'r list) res" where
  "run_calls step [] s = Ret [] s"
| "run_calls step (c # cs) s = bindR (step c s) (\<lambda>r s1. bindR (run_calls step cs s1) (\<lambda>rs s2. Ret (r # rs) s2))"

fun run_abs :: "('c \<Rightarrow> 'a \<Rightarrow> 'r \<times> 'a) \<Rightarrow> 'c list \<Rightarrow> 'a \<Rightarrow> 'r list \<times> 'a" where
  "run_abs astep [] a = ([], a)"
| "run_abs astep (c # cs) a = (let (r, b) = astep c a; (rs, d) = run_abs astep cs b in (r # rs, d))"

text \<open>A component whose every call does what an abstract call does, and so do sequences of calls.\<close>

locale refined_calls =
  fixes step :: "'c \<Rightarrow> 's \<Rightarrow> ('s, 'r) res"
    and astep :: "'c \<Rightarrow> 'a \<Rightarrow> 'r \<times> 'a"
    and abs_of :: "'s \<Rightarrow> 'a"
    and ok :: "'s \<Rightarrow> bool"
  assumes refines: "ok s \<Longrightarrow> astep c (abs_of s) = (r, a) \<Longrightarrow> \<exists>t. step c s = Ret r t \<and> ok t \<and> abs_of t = a"
begin

lemma run_refines:
  assumes "ok s"
  shows "\<exists>t. run_calls step cs s = Ret (fst (run_abs astep cs (abs_of s))) t \<and> ok t \<and>
    abs_of t = snd (run_abs astep cs (abs_of s))"
  using assms
proof (induction cs arbitrary: s)
  case (Cons c cs)
  obtain r a where ra: "astep c (abs_of s) = (r, a)" by (cases "astep c (abs_of s)")
  obtain t where t: "step c s = Ret r t" "ok t" "abs_of t = a" using refines [OF Cons.prems ra] by blast
  obtain u where "run_calls step cs t = Ret (fst (run_abs astep cs a)) u" "ok u" "abs_of u = snd (run_abs astep cs a)"
    using Cons.IH [OF t(2)] t(3) by blast
  then show ?case using ra t(1) by (simp add: case_prod_beta)
qed simp

end

datatype env_call = Setenv "string option" "string option" int bool bool | Unsetenv "string option"

definition env_step :: "env_call \<Rightarrow> env \<Rightarrow> (env, int) res" where
  "env_step c s =
     (case c of Setenv n v ow mem ok \<Rightarrow> setenv mem ok n v ow s | Unsetenv n \<Rightarrow> unsetenv n s)"

text \<open>The same calls on a map from names to values.\<close>

definition map_step :: "env_call \<Rightarrow> (string \<Rightarrow> string option) \<Rightarrow> int \<times> (string \<Rightarrow> string option)" where
  "map_step c f =
     (case c of
        Setenv n v ow mem ok \<Rightarrow>
          if bad_name n \<or> v = None then (- 1, f)
          else if f (the n) \<noteq> None \<and> ow = 0 then (0, f)
          else if mem \<and> ok then (0, f(the n := v))
          else (- 1, f(the n := None))
      | Unsetenv n \<Rightarrow> if bad_name n then (- 1, f) else (0, f(the n := None)))"

interpretation ev: refined_calls env_step map_step vars env_ok
proof
  fix s c r a
  assume s: "env_ok s" and c: "map_step c (vars s) = (r, a)"
  have e: "env_ok (s\<lparr>env_errno := x\<rparr>)" "vars (s\<lparr>env_errno := x\<rparr>) = vars s" for x
    using s by (simp_all add: env_ok_def vars_def)
  show "\<exists>t. env_step c s = Ret r t \<and> env_ok t \<and> vars t = a"
  proof (cases c)
    case (Setenv n v ow mem ok)
    show ?thesis
    proof (cases "bad_name n \<or> v = None")
      case True
      then show ?thesis using c Setenv e by (auto simp: map_step_def env_step_def setenv_def)
    next
      case False
      then obtain n' v' where n: "n = Some n'" "v = Some v'" "\<not> bad_name (Some n')" by (cases n; cases v) (auto simp: bad_name_def)
      then show ?thesis using c Setenv setenv_spec [OF s n(3), of mem ok v' ow]
        by (auto simp: map_step_def env_step_def split: if_splits)
    qed
  next
    case (Unsetenv n)
    show ?thesis
    proof (cases "bad_name n")
      case True
      then show ?thesis using c Unsetenv e by (auto simp: map_step_def env_step_def unsetenv_def)
    next
      case False
      then obtain n' where n: "n = Some n'" "\<not> bad_name (Some n')" by (cases n) (auto simp: bad_name_def)
      then show ?thesis using c Unsetenv unsetenv_spec [OF s n(2)] lookup_filter [OF n(2)]
        by (auto simp: map_step_def env_step_def vars_def)
    qed
  qed
qed

section \<open>Properties\<close>

text \<open>
  C23. The array of strings implements a map from names to values: any sequence of calls of setenv and
  unsetenv returns what the same calls on a map return and leaves the same values, without an access beyond
  the null pointer, also with duplicate entries, bad names and failed allocations. A call of setenv that fails
  for lack of memory removes the variable.
\<close>

theorem environ_refines_map:
  assumes "env_ok s"
  shows "\<exists>t. run_calls env_step cs s = Ret (fst (run_abs map_step cs (vars s))) t \<and> env_ok t \<and>
    vars t = snd (run_abs map_step cs (vars s))"
  by (rule ev.run_refines [OF assms])

definition example_env :: env where
  "example_env = \<lparr>environ = [Some ''A=1'', Some ''B=2'', Some ''A=3'', None], env_errno = 0\<rparr>"

theorem environ_refines_map_witness:
  "\<exists>t. run_calls env_step [Setenv (Some ''B'') (Some ''x'') 1 True False, Unsetenv (Some ''A'')] example_env = Ret [- 1, 0] t \<and>
    env_ok t \<and> vars t = (vars example_env)(''B'' := None, ''A'' := None)"
proof -
  have "\<not> bad_name (Some ''A'')" "\<not> bad_name (Some ''B'')" by (simp_all add: bad_name_Some)
  moreover have "vars example_env ''B'' \<noteq> None"
    by (simp add: vars_def lookup_def example_env_def env_strings_def bad_name_Some entry_for_def)
  ultimately show ?thesis
    using environ_refines_map [of example_env "[Setenv (Some ''B'') (Some ''x'') 1 True False, Unsetenv (Some ''A'')]"]
    by (simp add: map_step_def env_ok_def) (simp add: example_env_def)
qed

end
