(* ===== verification/TtyPty.thy ===== *)
theory TtyPty
  imports Sockets
begin

text \<open>
  Terminals: \<open>tlpi-dist/pty/pty_master_open.c\<close>, \<open>pty_fork.c\<close> and \<open>tty/tty_functions.c\<close>. The kernel is the parameter
  \<open>ptyos\<close>; fork(2) gives the value it returns in the process that is followed, so a call of \<open>ptyFork\<close> is run
  once as the parent and once as the child.
\<close>

unbundle bit_operations_syntax

section \<open>Terminal attributes\<close>

record termios =
  c_iflag :: "32 word"
  c_oflag :: "32 word"
  c_cflag :: "32 word"
  c_lflag :: "32 word"
  c_cc :: "8 word list"

definition ISIG :: "32 word" where "ISIG = 1"
definition ICANON :: "32 word" where "ICANON = 2"
definition ECHO :: "32 word" where "ECHO = 8"
definition IEXTEN :: "32 word" where "IEXTEN = 0x8000"
definition IGNBRK :: "32 word" where "IGNBRK = 1"
definition BRKINT :: "32 word" where "BRKINT = 2"
definition PARMRK :: "32 word" where "PARMRK = 8"
definition INPCK :: "32 word" where "INPCK = 0x10"
definition ISTRIP :: "32 word" where "ISTRIP = 0x20"
definition INLCR :: "32 word" where "INLCR = 0x40"
definition IGNCR :: "32 word" where "IGNCR = 0x80"
definition ICRNL :: "32 word" where "ICRNL = 0x100"
definition IXON :: "32 word" where "IXON = 0x400"
definition OPOST :: "32 word" where "OPOST = 1"
definition VTIME :: nat where "VTIME = 5"
definition VMIN :: nat where "VMIN = 6"

lemmas termios_bits = ISIG_def ICANON_def ECHO_def IEXTEN_def IGNBRK_def BRKINT_def PARMRK_def INPCK_def ISTRIP_def
  INLCR_def IGNCR_def ICRNL_def IXON_def OPOST_def

record 'w ptyos =
  pt_openpt :: "'w \<Rightarrow> (int + int) \<times> 'w"
  pt_grantpt :: "int \<Rightarrow> 'w \<Rightarrow> int option \<times> 'w"
  pt_unlockpt :: "int \<Rightarrow> 'w \<Rightarrow> int option \<times> 'w"
  pt_ptsname :: "int \<Rightarrow> 'w \<Rightarrow> int + string"
  pt_close :: "int \<Rightarrow> 'w \<Rightarrow> int option \<times> 'w"
  pt_fork :: "'w \<Rightarrow> (int + int) \<times> 'w"
  pt_setsid :: "'w \<Rightarrow> int option \<times> 'w"
  pt_open :: "string \<Rightarrow> 'w \<Rightarrow> (int + int) \<times> 'w"
  pt_ctty :: "int \<Rightarrow> 'w \<Rightarrow> int option \<times> 'w"
  pt_winsize :: "int \<Rightarrow> string \<Rightarrow> 'w \<Rightarrow> int option \<times> 'w"
  pt_dup2 :: "int \<Rightarrow> int \<Rightarrow> 'w \<Rightarrow> int option \<times> 'w"
  pt_tcgetattr :: "int \<Rightarrow> 'w \<Rightarrow> int + termios"
  pt_tcsetattr :: "int \<Rightarrow> termios \<Rightarrow> 'w \<Rightarrow> int option \<times> 'w"
  pt_strerror :: "int \<Rightarrow> string"

text \<open>The changes that the two functions make to the attributes they read.\<close>

definition cbreak_of :: "termios \<Rightarrow> termios" where
  "cbreak_of t = t\<lparr>c_lflag := (c_lflag t AND NOT (ICANON OR ECHO)) OR ISIG, c_iflag := c_iflag t AND NOT ICRNL,
     c_cc := (c_cc t)[VMIN := 1, VTIME := 0]\<rparr>"

definition raw_of :: "termios \<Rightarrow> termios" where
  "raw_of t = t\<lparr>c_lflag := c_lflag t AND NOT (ICANON OR ISIG OR IEXTEN OR ECHO),
     c_iflag := c_iflag t AND NOT (BRKINT OR ICRNL OR IGNBRK OR IGNCR OR INLCR OR INPCK OR ISTRIP OR IXON OR PARMRK),
     c_oflag := c_oflag t AND NOT OPOST,
     c_cc := (c_cc t)[VMIN := 1, VTIME := 0]\<rparr>"

text \<open>The result is the return value with the previous attributes, which the caller may ask for.\<close>

definition tty_change :: "'w ptyos \<Rightarrow> (termios \<Rightarrow> termios) \<Rightarrow> int \<Rightarrow> 'w proc \<Rightarrow> (int \<times> termios option) \<times> 'w proc" where
  "tty_change K f fd s =
     (case pt_tcgetattr K fd (world s) of
        Inl e \<Rightarrow> ((- 1, None), s\<lparr>errno := e\<rparr>)
      | Inr t \<Rightarrow>
          (case call_ok (pt_tcsetattr K fd (f t)) s of
             (False, s1) \<Rightarrow> ((- 1, Some t), s1)
           | (True, s1) \<Rightarrow> ((0, Some t), s1)))"

definition ttySetCbreak :: "'w ptyos \<Rightarrow> int \<Rightarrow> 'w proc \<Rightarrow> (int \<times> termios option) \<times> 'w proc" where
  "ttySetCbreak K fd s = tty_change K cbreak_of fd s"

definition ttySetRaw :: "'w ptyos \<Rightarrow> int \<Rightarrow> 'w proc \<Rightarrow> (int \<times> termios option) \<times> 'w proc" where
  "ttySetRaw K fd s = tty_change K raw_of fd s"

section \<open>ptyMasterOpen\<close>

definition EOVERFLOW :: int where "EOVERFLOW = 75"
definition MAX_SNAME :: nat where "MAX_SNAME = 1000"

definition pt_close_keep :: "'w ptyos \<Rightarrow> int \<Rightarrow> 'w proc \<Rightarrow> 'w proc" where
  "pt_close_keep K fd s = (snd (call_ok (pt_close K fd) s))\<lparr>errno := errno s\<rparr>"

definition ptyMasterOpen :: "'w ptyos \<Rightarrow> nat \<Rightarrow> 'w proc \<Rightarrow> (int \<times> string) option \<times> 'w proc" where
  "ptyMasterOpen K snLen s =
     (case call_fd (pt_openpt K) s of
        (None, s1) \<Rightarrow> (None, s1)
      | (Some masterFd, s1) \<Rightarrow>
          (case call_ok (pt_grantpt K masterFd) s1 of
             (False, s2) \<Rightarrow> (None, pt_close_keep K masterFd s2)
           | (True, s2) \<Rightarrow>
               (case call_ok (pt_unlockpt K masterFd) s2 of
                  (False, s3) \<Rightarrow> (None, pt_close_keep K masterFd s3)
                | (True, s3) \<Rightarrow>
                    (case pt_ptsname K masterFd (world s3) of
                       Inl e \<Rightarrow> (None, pt_close_keep K masterFd (s3\<lparr>errno := e\<rparr>))
                     | Inr p \<Rightarrow>
                         if length p < snLen then (Some (masterFd, strncpy snLen p), s3)
                         else (None, (snd (call_ok (pt_close K masterFd) s3))\<lparr>errno := EOVERFLOW\<rparr>)))))"

section \<open>ptyFork\<close>

text \<open>The child: each step ends the process with \<open>err_exit\<close> when it fails.\<close>

definition must :: "'w ptyos \<Rightarrow> string \<Rightarrow> ('w \<Rightarrow> int option \<times> 'w) \<Rightarrow> 'w proc \<Rightarrow> ('w proc, unit) res" where
  "must K m f s =
     (case call_ok f s of (False, s1) \<Rightarrow> err_exit (pt_strerror K) (''ptyFork:'' @ m) s1 | (True, s1) \<Rightarrow> Ret () s1)"

definition pty_slave :: "'w ptyos \<Rightarrow> int \<Rightarrow> termios option \<Rightarrow> string option \<Rightarrow> 'w proc \<Rightarrow> ('w proc, unit) res" where
  "pty_slave K slaveFd slaveTermios slaveWS s =
     bindR (must K ''ioctl-TIOCSCTTY'' (pt_ctty K slaveFd) s) (\<lambda>_ s1.
     bindR (case slaveTermios of None \<Rightarrow> Ret () s1
            | Some t \<Rightarrow> must K ''tcsetattr'' (pt_tcsetattr K slaveFd t) s1) (\<lambda>_ s2.
     bindR (case slaveWS of None \<Rightarrow> Ret () s2
            | Some ws \<Rightarrow> must K ''ioctl-TIOCSWINSZ'' (pt_winsize K slaveFd ws) s2) (\<lambda>_ s3.
     bindR (must K ''dup2-STDIN_FILENO'' (pt_dup2 K slaveFd 0) s3) (\<lambda>_ s4.
     bindR (must K ''dup2-STDOUT_FILENO'' (pt_dup2 K slaveFd 1) s4) (\<lambda>_ s5.
     bindR (must K ''dup2-STDERR_FILENO'' (pt_dup2 K slaveFd 2) s5) (\<lambda>_ s6.
       Ret () (if slaveFd > 2 then snd (call_ok (pt_close K slaveFd) s6) else s6)))))))"

definition pty_child :: "'w ptyos \<Rightarrow> int \<Rightarrow> string \<Rightarrow> termios option \<Rightarrow> string option \<Rightarrow> 'w proc \<Rightarrow> ('w proc, unit) res" where
  "pty_child K mfd slname slaveTermios slaveWS s =
     bindR (must K ''setsid'' (pt_setsid K) s) (\<lambda>_ s1.
       case call_fd (pt_open K slname) (snd (call_ok (pt_close K mfd) s1)) of
         (None, s2) \<Rightarrow> err_exit (pt_strerror K) ''ptyFork:open-slave'' s2
       | (Some slaveFd, s2) \<Rightarrow> pty_slave K slaveFd slaveTermios slaveWS s2)"

text \<open>
  \<open>want\<close> is the size of the caller's buffer for the name, if it has one. The result is the return value, with
  the master descriptor in the parent.
\<close>

definition ptyFork :: "'w ptyos \<Rightarrow> nat option \<Rightarrow> termios option \<Rightarrow> string option \<Rightarrow> 'w proc \<Rightarrow>
    ('w proc, int \<times> int option) res" where
  "ptyFork K want slaveTermios slaveWS s =
     (case ptyMasterOpen K MAX_SNAME s of
        (None, s1) \<Rightarrow> Ret (- 1, None) s1
      | (Some (mfd, slname), s1) \<Rightarrow>
          if (case want of None \<Rightarrow> False | Some snLen \<Rightarrow> \<not> length slname < snLen)
          then Ret (- 1, None) ((snd (call_ok (pt_close K mfd) s1))\<lparr>errno := EOVERFLOW\<rparr>)
          else
            (case call_fd (pt_fork K) s1 of
               (None, s2) \<Rightarrow> Ret (- 1, None) (pt_close_keep K mfd s2)
             | (Some childPid, s2) \<Rightarrow>
                 if childPid \<noteq> 0 then Ret (childPid, Some mfd) s2
                 else bindR (pty_child K mfd slname slaveTermios slaveWS s2) (\<lambda>_ s3. Ret (0, None) s3)))"

section \<open>Descriptors\<close>















section \<open>Attributes\<close>

lemma clear_mask: "(x AND NOT m) AND m = 0" "(x AND NOT m) OR (x AND m) = (x :: 32 word)"
  "(x AND NOT m) AND NOT m = x AND NOT m"
  by (auto simp: bit_eq_iff bit_simps)

text \<open>Raw mode clears the bits of its masks and no others; setting it twice changes nothing more.\<close>

lemma raw_of_sel:
  "c_lflag (raw_of t) = c_lflag t AND NOT (ICANON OR ISIG OR IEXTEN OR ECHO)"
  "c_iflag (raw_of t) = c_iflag t AND NOT (BRKINT OR ICRNL OR IGNBRK OR IGNCR OR INLCR OR INPCK OR ISTRIP OR IXON OR PARMRK)"
  "c_oflag (raw_of t) = c_oflag t AND NOT OPOST" "c_cflag (raw_of t) = c_cflag t" "c_cc (raw_of t) = (c_cc t)[VMIN := 1, VTIME := 0]"
  by (simp_all add: raw_of_def)

lemma raw_of_flags:
  "c_lflag (raw_of t) AND (ICANON OR ISIG OR IEXTEN OR ECHO) = 0" "c_oflag (raw_of t) AND OPOST = 0"
  "c_lflag (raw_of t) OR (c_lflag t AND (ICANON OR ISIG OR IEXTEN OR ECHO)) = c_lflag t"
  "c_oflag (raw_of t) OR (c_oflag t AND OPOST) = c_oflag t"
  unfolding raw_of_sel by (rule clear_mask)+

lemma raw_of_idem: "raw_of (raw_of t) = raw_of t"
proof (rule termios.equality)
  show "c_cc (raw_of (raw_of t)) = c_cc (raw_of t)" by (simp add: raw_of_sel(5) list_update_swap VMIN_def VTIME_def)
qed (simp_all only: raw_of_sel(1-4) clear_mask, simp)

section \<open>Properties\<close>






end
