(* ===== verification/LibMisc.thy ===== *)
theory LibMisc
  imports ErrorFunctions
begin

text \<open>
  Smaller files of the library of \<open>tlpi-dist\<close>: \<open>files/file_perms.c\<close>, \<open>timers/itimerspec_from_str.c\<close>,
  \<open>procexec/print_wait_status.c\<close>, \<open>signals/signal_functions.c\<close>, \<open>procres/print_rlimit.c\<close>, \<open>time/curr_time.c\<close> and
  \<open>lib/alt_functions.c\<close>. The texts of strsignal(3) and strftime(3) are parameters.
\<close>

unbundle bit_operations_syntax

section \<open>Permissions (\<open>filePermStr\<close>)\<close>

definition FP_SPECIAL :: int where "FP_SPECIAL = 1"
definition STR_SIZE :: nat where "STR_SIZE = 10"

definition S_ISUID :: "32 word" where "S_ISUID = 2 ^ 11"
definition S_ISGID :: "32 word" where "S_ISGID = 2 ^ 10"
definition S_ISVTX :: "32 word" where "S_ISVTX = 2 ^ 9"
definition S_IRUSR :: "32 word" where "S_IRUSR = 2 ^ 8"
definition S_IWUSR :: "32 word" where "S_IWUSR = 2 ^ 7"
definition S_IXUSR :: "32 word" where "S_IXUSR = 2 ^ 6"
definition S_IRGRP :: "32 word" where "S_IRGRP = 2 ^ 5"
definition S_IWGRP :: "32 word" where "S_IWGRP = 2 ^ 4"
definition S_IXGRP :: "32 word" where "S_IXGRP = 2 ^ 3"
definition S_IROTH :: "32 word" where "S_IROTH = 2 ^ 2"
definition S_IWOTH :: "32 word" where "S_IWOTH = 2 ^ 1"
definition S_IXOTH :: "32 word" where "S_IXOTH = 2 ^ 0"

lemmas mode_bits = S_ISUID_def S_ISGID_def S_ISVTX_def S_IRUSR_def S_IWUSR_def S_IXUSR_def S_IRGRP_def S_IWGRP_def
  S_IXGRP_def S_IROTH_def S_IWOTH_def S_IXOTH_def

definition has :: "32 word \<Rightarrow> 32 word \<Rightarrow> bool" where
  "has perm m = (perm AND m \<noteq> 0)"

text \<open>An execute field, with the letter for the special bit when the execute bit is on or off.\<close>

definition exec_char :: "32 word \<Rightarrow> int \<Rightarrow> 32 word \<Rightarrow> 32 word \<Rightarrow> char \<Rightarrow> char \<Rightarrow> char" where
  "exec_char perm flags x special low up =
     (if has perm x then if has perm special \<and> flags AND FP_SPECIAL \<noteq> 0 then low else CHR ''x''
      else if has perm special \<and> flags AND FP_SPECIAL \<noteq> 0 then up else CHR ''-'')"

definition filePermStr :: "32 word \<Rightarrow> int \<Rightarrow> string" where
  "filePermStr perm flags =
     snprintf STR_SIZE
       [if has perm S_IRUSR then CHR ''r'' else CHR ''-'', if has perm S_IWUSR then CHR ''w'' else CHR ''-'',
        exec_char perm flags S_IXUSR S_ISUID (CHR ''s'') (CHR ''S''),
        if has perm S_IRGRP then CHR ''r'' else CHR ''-'', if has perm S_IWGRP then CHR ''w'' else CHR ''-'',
        exec_char perm flags S_IXGRP S_ISGID (CHR ''s'') (CHR ''S''),
        if has perm S_IROTH then CHR ''r'' else CHR ''-'', if has perm S_IWOTH then CHR ''w'' else CHR ''-'',
        exec_char perm flags S_IXOTH S_ISVTX (CHR ''t'') (CHR ''T'')]"

section \<open>Timer values (\<open>itimerspecFromStr\<close>)\<close>

record timespec =
  tv_sec :: int
  tv_nsec :: int

record itimerspec =
  it_value :: timespec
  it_interval :: timespec

text \<open>The part of a string before a character, and the part after it, if it occurs.\<close>

definition cut_at :: "char \<Rightarrow> string \<Rightarrow> string \<times> string option" where
  "cut_at c str =
     (case strchr str c of None \<Rightarrow> (str, None) | Some i \<Rightarrow> (take i str, Some (drop (Suc i) str)))"

definition secs_nsecs :: "string \<Rightarrow> timespec" where
  "secs_nsecs str =
     (case cut_at (CHR ''/'') str of
        (a, b) \<Rightarrow> \<lparr>tv_sec = atoi a, tv_nsec = (case b of None \<Rightarrow> 0 | Some n \<Rightarrow> atoi n)\<rparr>)"

text \<open>\<open>mem\<close> tells whether strdup(3) gets memory; its result is used without a test.\<close>

definition itimerspecFromStr :: "bool \<Rightarrow> string \<Rightarrow> (unit, itimerspec) res" where
  "itimerspecFromStr mem str =
     (if \<not> mem then Undef
      else case cut_at (CHR '':'') str of
        (a, None) \<Rightarrow> Ret \<lparr>it_value = secs_nsecs a, it_interval = \<lparr>tv_sec = 0, tv_nsec = 0\<rparr>\<rparr> ()
      | (a, Some b) \<Rightarrow> Ret \<lparr>it_value = secs_nsecs a, it_interval = secs_nsecs b\<rparr> ())"

section \<open>Wait status (\<open>printWaitStatus\<close>)\<close>

definition WTERMSIG :: "nat \<Rightarrow> nat" where "WTERMSIG status = status mod 128"
definition WEXITSTATUS :: "nat \<Rightarrow> nat" where "WEXITSTATUS status = status div 256 mod 256"
definition WIFEXITED :: "nat \<Rightarrow> bool" where "WIFEXITED status = (WTERMSIG status = 0)"
definition WIFSIGNALED :: "nat \<Rightarrow> bool" where
  "WIFSIGNALED status = (let t = int (WTERMSIG status + 1); c = (if t \<ge> 128 then t - 256 else t) in c div 2 > 0)"
definition WCOREDUMP :: "nat \<Rightarrow> bool" where "WCOREDUMP status = (status div 128 mod 2 = 1)"
definition WIFSTOPPED :: "nat \<Rightarrow> bool" where "WIFSTOPPED status = (status mod 256 = 127)"
definition WSTOPSIG :: "nat \<Rightarrow> nat" where "WSTOPSIG status = WEXITSTATUS status"
definition WIFCONTINUED :: "nat \<Rightarrow> bool" where "WIFCONTINUED status = (status = 65535)"

lemmas wait_macros = WTERMSIG_def WEXITSTATUS_def WIFEXITED_def WIFSIGNALED_def WCOREDUMP_def WIFSTOPPED_def
  WSTOPSIG_def WIFCONTINUED_def

text \<open>printf's \<open>%x\<close>.\<close>

fun hex :: "nat \<Rightarrow> string" where
  "hex n = (let d = n mod 16; c = char_of (if d < 10 then 48 + d else 87 + d)
            in if n < 16 then [c] else hex (n div 16) @ [c])"

declare hex.simps [simp del]

definition printWaitStatus :: "(nat \<Rightarrow> string) \<Rightarrow> string option \<Rightarrow> nat \<Rightarrow> string" where
  "printWaitStatus strsignal m status =
     (case m of None \<Rightarrow> '''' | Some t \<Rightarrow> t) @
     (if WIFEXITED status then msg [''child exited, status='', dec (int (WEXITSTATUS status)), nl]
      else if WIFSIGNALED status then
        msg [''child killed by signal '', dec (int (WTERMSIG status)), '' ('', strsignal (WTERMSIG status), '')''] @
        (if WCOREDUMP status then '' (core dumped)'' else '''') @ nl
      else if WIFSTOPPED status then
        msg [''child stopped by signal '', dec (int (WSTOPSIG status)), '' ('', strsignal (WSTOPSIG status), '')'', nl]
      else if WIFCONTINUED status then msg [''child continued'', nl]
      else msg [''what happened to this child? (status='', hex status, '')'', nl])"

section \<open>Signal sets (\<open>signal_functions.c\<close>)\<close>

definition NSIG :: nat where "NSIG = 65"

text \<open>The text that is printed; a signal set is a predicate, a failed call \<open>None\<close>.\<close>

definition printSigset :: "(nat \<Rightarrow> string) \<Rightarrow> string \<Rightarrow> (nat \<Rightarrow> bool) \<Rightarrow> string" where
  "printSigset strsignal prefix sigset =
     (let sigs = filter sigset [1..<NSIG]
      in if sigs = [] then msg [prefix, ''<empty signal set>'', nl]
         else concat (map (\<lambda>sig. msg [prefix, dec (int sig), '' ('', strsignal sig, '')'', nl]) sigs))"

definition two_tabs :: string where "two_tabs = [CHR 0x09, CHR 0x09]"

definition printSigs :: "(nat \<Rightarrow> string) \<Rightarrow> string option \<Rightarrow> (nat \<Rightarrow> bool) option \<Rightarrow> int \<times> string" where
  "printSigs strsignal m call =
     (let t = (case m of None \<Rightarrow> '''' | Some x \<Rightarrow> x)
      in case call of None \<Rightarrow> (- 1, t) | Some sigset \<Rightarrow> (0, t @ printSigset strsignal two_tabs sigset))"

text \<open>\<open>blocked\<close> and \<open>pend\<close> are the results of sigprocmask(2) and sigpending(2).\<close>

definition printSigMask :: "(nat \<Rightarrow> string) \<Rightarrow> string option \<Rightarrow> (nat \<Rightarrow> bool) option \<Rightarrow> int \<times> string" where
  "printSigMask strsignal m blocked = printSigs strsignal m blocked"

definition printPendingSigs :: "(nat \<Rightarrow> string) \<Rightarrow> string option \<Rightarrow> (nat \<Rightarrow> bool) option \<Rightarrow> int \<times> string" where
  "printPendingSigs strsignal m pend = printSigs strsignal m pend"

section \<open>Limits, time and substitutes\<close>

text \<open>On Linux RLIM_SAVED_CUR and RLIM_SAVED_MAX are RLIM_INFINITY, all ones, printed as a signed number.\<close>

definition RLIM_INFINITY :: "64 word" where "RLIM_INFINITY = - 1"

definition printRlimit :: "string \<Rightarrow> (64 word \<times> 64 word) option \<Rightarrow> int \<times> string" where
  "printRlimit m rlim =
     (case rlim of
        None \<Rightarrow> (- 1, '''')
      | Some (cur, lim) \<Rightarrow>
          (0, msg [m, '' soft='', if cur = RLIM_INFINITY then ''infinite'' else dec (sint cur), ''; hard='',
                   if lim = RLIM_INFINITY then ''infinite'' else dec (sint lim), nl]))"

text \<open>
  \<open>currTime\<close> with the local time, if there is one: \<open>strftime format tm\<close> is the text, which must fit.
\<close>

definition TIME_BUF_SIZE :: nat where "TIME_BUF_SIZE = 1000"

definition currTime :: "(string \<Rightarrow> 'tm \<Rightarrow> string) \<Rightarrow> 'tm option \<Rightarrow> string option \<Rightarrow> string option" where
  "currTime strftime tm format =
     (case tm of
        None \<Rightarrow> None
      | Some t \<Rightarrow>
          let b = strftime (case format of None \<Rightarrow> ''%c'' | Some f \<Rightarrow> f) t;
              n = (if length b < TIME_BUF_SIZE then length b else 0)
          in if n = 0 then None else Some b)"

definition ALT_BUF_SIZE :: nat where "ALT_BUF_SIZE = 100"

definition ALT_strsignal :: "int \<Rightarrow> string" where
  "ALT_strsignal sig = snprintf ALT_BUF_SIZE (msg [''SIG-'', dec sig])"

definition ALT_hstrerror :: "int \<Rightarrow> string" where
  "ALT_hstrerror e = snprintf ALT_BUF_SIZE (msg [''hstrerror-'', dec e])"

definition ALT_posix_openpt :: "(string \<Rightarrow> int \<Rightarrow> 'w \<Rightarrow> (int + int) \<times> 'w) \<Rightarrow> int \<Rightarrow> 'w \<Rightarrow> (int + int) \<times> 'w" where
  "ALT_posix_openpt open2 flags w = open2 ''/dev/ptmx'' flags w"

section \<open>Properties\<close>

text \<open>The permissions that a listing shows, and the special bits when it includes them.\<close>

definition field :: "bool \<Rightarrow> 32 word \<Rightarrow> 32 word" where
  "field b m = (if b then m else 0)"

definition perm_of_str :: "string \<Rightarrow> 32 word" where
  "perm_of_str t =
     field (t ! 0 = CHR ''r'') S_IRUSR OR field (t ! 1 = CHR ''w'') S_IWUSR OR
     field (t ! 2 = CHR ''x'' \<or> t ! 2 = CHR ''s'') S_IXUSR OR field (t ! 2 = CHR ''s'' \<or> t ! 2 = CHR ''S'') S_ISUID OR
     field (t ! 3 = CHR ''r'') S_IRGRP OR field (t ! 4 = CHR ''w'') S_IWGRP OR
     field (t ! 5 = CHR ''x'' \<or> t ! 5 = CHR ''s'') S_IXGRP OR field (t ! 5 = CHR ''s'' \<or> t ! 5 = CHR ''S'') S_ISGID OR
     field (t ! 6 = CHR ''r'') S_IROTH OR field (t ! 7 = CHR ''w'') S_IWOTH OR
     field (t ! 8 = CHR ''x'' \<or> t ! 8 = CHR ''t'') S_IXOTH OR field (t ! 8 = CHR ''t'' \<or> t ! 8 = CHR ''T'') S_ISVTX"

lemma field_has: "field (has x (2 ^ k)) (2 ^ k) = x AND 2 ^ k"
proof -
  have "x AND 2 ^ k = (if bit x k then 2 ^ k else 0)" for x :: "32 word"
    by (rule bit_eqI) (auto simp: bit_simps)
  then show ?thesis by (auto simp: field_def has_def)
qed

lemma exec_chars:
  assumes "flags AND FP_SPECIAL \<noteq> 0" "low \<notin> {CHR ''x'', CHR ''-'', up}" "up \<notin> {CHR ''x'', CHR ''-''}"
  shows "(exec_char p flags x sp low up = CHR ''x'' \<or> exec_char p flags x sp low up = low) = has p x"
    "(exec_char p flags x sp low up = low \<or> exec_char p flags x sp low up = up) = has p sp"
  using assms by (auto simp: exec_char_def)

text \<open>
  filePermStr with FP_SPECIAL loses nothing: the twelve permission bits can be read back from the nine
  characters.
\<close>

theorem filePermStr_roundtrip:
  assumes "flags AND FP_SPECIAL \<noteq> 0"
  shows "perm_of_str (filePermStr perm flags) = perm AND 0xFFF"
proof -
  have r: "(if b then CHR ''r'' else CHR ''-'') = CHR ''r'' \<longleftrightarrow> b" "(if b then CHR ''w'' else CHR ''-'') = CHR ''w'' \<longleftrightarrow> b" for b
    by auto
  define u g d where c: "u = exec_char perm flags S_IXUSR S_ISUID (CHR ''s'') (CHR ''S'')"
    "g = exec_char perm flags S_IXGRP S_ISGID (CHR ''s'') (CHR ''S'')"
    "d = exec_char perm flags S_IXOTH S_ISVTX (CHR ''t'') (CHR ''T'')"
  have e: "(u = CHR ''x'' \<or> u = CHR ''s'') = has perm S_IXUSR" "(u = CHR ''s'' \<or> u = CHR ''S'') = has perm S_ISUID"
    "(g = CHR ''x'' \<or> g = CHR ''s'') = has perm S_IXGRP" "(g = CHR ''s'' \<or> g = CHR ''S'') = has perm S_ISGID"
    "(d = CHR ''x'' \<or> d = CHR ''t'') = has perm S_IXOTH" "(d = CHR ''t'' \<or> d = CHR ''T'') = has perm S_ISVTX"
    unfolding c by (rule exec_chars [OF assms]; simp)+
  have "perm_of_str (filePermStr perm flags) =
    field (has perm S_IRUSR) S_IRUSR OR field (has perm S_IWUSR) S_IWUSR OR field (has perm S_IXUSR) S_IXUSR OR field (has perm S_ISUID) S_ISUID OR
    field (has perm S_IRGRP) S_IRGRP OR field (has perm S_IWGRP) S_IWGRP OR field (has perm S_IXGRP) S_IXGRP OR field (has perm S_ISGID) S_ISGID OR
    field (has perm S_IROTH) S_IROTH OR field (has perm S_IWOTH) S_IWOTH OR field (has perm S_IXOTH) S_IXOTH OR field (has perm S_ISVTX) S_ISVTX"
    by (simp add: perm_of_str_def filePermStr_def c [symmetric] snprintf_def STR_SIZE_def r e)
  also have "\<dots> = (perm AND S_IRUSR) OR (perm AND S_IWUSR) OR (perm AND S_IXUSR) OR (perm AND S_ISUID) OR
    (perm AND S_IRGRP) OR (perm AND S_IWGRP) OR (perm AND S_IXGRP) OR (perm AND S_ISGID) OR
    (perm AND S_IROTH) OR (perm AND S_IWOTH) OR (perm AND S_IXOTH) OR (perm AND S_ISVTX)"
    unfolding mode_bits field_has by (rule refl)
  also have "\<dots> = perm AND 0xFFF" by (simp add: mode_bits flip: bit.conj_disj_distrib)
  finally show ?thesis .
qed

theorem filePermStr_roundtrip_witness:
  "perm_of_str (filePermStr 0x9ED FP_SPECIAL) = 0x9ED \<and> filePermStr 0x9ED FP_SPECIAL = ''rwsr-xr-x''"
  using filePermStr_roundtrip [of FP_SPECIAL "0x9ED"]
  by (simp add: FP_SPECIAL_def filePermStr_def exec_char_def has_def mode_bits snprintf_def STR_SIZE_def)

text \<open>The textual form of a timer value.\<close>

definition show_timespec :: "timespec \<Rightarrow> string" where
  "show_timespec t = dec (tv_sec t) @ ''/'' @ dec (tv_nsec t)"

definition timespec_ok :: "timespec \<Rightarrow> bool" where
  "timespec_ok t = (0 \<le> tv_sec t \<and> tv_sec t \<le> INT_MAX \<and> 0 \<le> tv_nsec t \<and> tv_nsec t \<le> INT_MAX)"

lemma dec_no_slash:
  assumes "0 \<le> i"
  shows "CHR ''/'' \<notin> set (dec i)"
proof -
  have "\<not> is_base_digit 10 (CHR ''/'')" by (simp add: is_base_digit_def digit_of_def)
  then show ?thesis using dec_digits [OF assms] by blast
qed

lemma cut_at_append: "c \<notin> set a \<Longrightarrow> cut_at c (a @ [c] @ b) = (a, Some b)"
  by (simp add: cut_at_def strchr_append)

lemma cut_at_none: "c \<notin> set a \<Longrightarrow> cut_at c a = (a, None)"
  by (simp add: cut_at_def strchr_None)

lemma atoi_number: "0 \<le> i \<Longrightarrow> i \<le> INT_MAX \<Longrightarrow> atoi (dec i) = i"
  using atoi_dec [of i "[]"] by (simp add: long_limits)

lemma secs_nsecs_show: "timespec_ok t \<Longrightarrow> secs_nsecs (show_timespec t) = t"
  using cut_at_append [OF dec_no_slash, of "tv_sec t" "dec (tv_nsec t)"]
  by (simp add: show_timespec_def secs_nsecs_def timespec_ok_def atoi_number)

lemma show_no_colon: "timespec_ok t \<Longrightarrow> CHR '':'' \<notin> set (show_timespec t)"
  using dec_no_mark(1) by (simp add: show_timespec_def timespec_ok_def)

text \<open>
  itimerspecFromStr reads back every pair of times within the range of int that is printed in its format;
  without an interval the interval is 0, and without nanoseconds they are 0.
\<close>

theorem itimerspecFromStr_show:
  assumes "timespec_ok v" "timespec_ok i"
  shows "itimerspecFromStr True (show_timespec v @ '':'' @ show_timespec i) = Ret \<lparr>it_value = v, it_interval = i\<rparr> () \<and>
    itimerspecFromStr True (show_timespec v) = Ret \<lparr>it_value = v, it_interval = \<lparr>tv_sec = 0, tv_nsec = 0\<rparr>\<rparr> () \<and>
    itimerspecFromStr True (dec (tv_sec v)) =
      Ret \<lparr>it_value = \<lparr>tv_sec = tv_sec v, tv_nsec = 0\<rparr>, it_interval = \<lparr>tv_sec = 0, tv_nsec = 0\<rparr>\<rparr> ()"
proof -
  have v: "0 \<le> tv_sec v" "tv_sec v \<le> INT_MAX" using assms(1) by (simp_all add: timespec_ok_def)
  show ?thesis
    using cut_at_append [OF show_no_colon [OF assms(1)], of "show_timespec i"] cut_at_none [OF show_no_colon [OF assms(1)]]
      cut_at_none [OF dec_no_mark(1) [OF v(1)]] cut_at_none [OF dec_no_slash [OF v(1)]] v
    by (simp add: itimerspecFromStr_def secs_nsecs_show assms atoi_number secs_nsecs_def [of "dec (tv_sec v)"])
qed

theorem itimerspecFromStr_show_witness:
  "itimerspecFromStr True (show_timespec \<lparr>tv_sec = 2, tv_nsec = 500\<rparr> @ '':'' @ show_timespec \<lparr>tv_sec = 1, tv_nsec = 0\<rparr>) =
     Ret \<lparr>it_value = \<lparr>tv_sec = 2, tv_nsec = 500\<rparr>, it_interval = \<lparr>tv_sec = 1, tv_nsec = 0\<rparr>\<rparr> ()"
  using itimerspecFromStr_show [of "\<lparr>tv_sec = 2, tv_nsec = 500\<rparr>" "\<lparr>tv_sec = 1, tv_nsec = 0\<rparr>"]
  by (simp add: timespec_ok_def long_limits)

text \<open>
  printWaitStatus tells the four kinds of status apart, as the kernel builds them: an exit status below
  256, a signal below 127 with or without a core dump, a stop signal below 256, and a continued child.
\<close>

theorem printWaitStatus_kinds:
  assumes "c < 256" "0 < sig" "sig < 127" "stop < 256"
  shows "printWaitStatus ss None (256 * c) = msg [''child exited, status='', dec (int c), nl] \<and>
    printWaitStatus ss None (sig + (if core then 128 else 0)) =
      msg [''child killed by signal '', dec (int sig), '' ('', ss sig, '')''] @ (if core then '' (core dumped)'' else '''') @ nl \<and>
    printWaitStatus ss None (256 * stop + 127) = msg [''child stopped by signal '', dec (int stop), '' ('', ss stop, '')'', nl] \<and>
    printWaitStatus ss None 65535 = msg [''child continued'', nl]"
proof -
  have "256 * c mod 128 = 0" "256 * c div 256 mod 256 = c" using assms(1) by (simp_all add: mod_eq_0_iff_dvd dvd_mult2)
  moreover have "(256 * stop + 127) mod 256 = 127" "(256 * stop + 127) div 256 mod 256 = stop"
    using assms(4) by (simp_all add: div_add1_eq)
  moreover have "(256 * stop + 127) mod 128 = 127" using mod_mult_self2 [of 127 128 "2 * stop"] by (simp add: add.commute)
  moreover have "0 < (1 + int sig) div 2" using assms(2) by linarith
  moreover have "(sig + 128) mod 128 = sig" "sig mod 128 = sig" "(sig + 128) div 128 mod 2 = 1" "sig div 128 = 0"
    using assms by (simp_all add: mod_less div_less)
  ultimately show ?thesis using assms by (simp add: printWaitStatus_def wait_macros Let_def)
qed

theorem printWaitStatus_kinds_witness:
  "printWaitStatus (\<lambda>n. ''Killed'') None 9 = msg [''child killed by signal '', dec 9, '' ('', ''Killed'', '')''] @ '''' @ nl"
  using printWaitStatus_kinds [of 3 9 19 "\<lambda>n. ''Killed''" False] by simp

end
