(* ===== verification/PidFile.thy ===== *)
theory PidFile
  imports ErrorFunctions ReadIO
begin

text \<open>
  Record locks: \<open>tlpi-dist/filelock/region_locking.c\<close>, and \<open>filelock/create_pid_file.c\<close>, which lets one instance of
  a program run at a time by a lock on a file that holds its process ID. fcntl(2) is a parameter of the
  locking functions. For \<open>createPidFile\<close> any number of processes interleave at their system calls on a kernel
  with the files of that name: a file that is unlinked lives on while it is open, and locks belong to files.
\<close>

unbundle bit_operations_syntax

section \<open>Region locking\<close>

definition F_SETLK :: int where "F_SETLK = 6"
definition F_SETLKW :: int where "F_SETLKW = 7"
definition F_GETLK :: int where "F_GETLK = 5"
definition F_RDLCK :: int where "F_RDLCK = 0"
definition F_WRLCK :: int where "F_WRLCK = 1"
definition F_UNLCK :: int where "F_UNLCK = 2"
definition SEEK_SET :: int where "SEEK_SET = 0"
definition LK_EAGAIN :: int where "LK_EAGAIN = 11"
definition LK_EACCES :: int where "LK_EACCES = 13"

record flock =
  l_type :: int
  l_whence :: int
  l_start :: int
  l_len :: int
  l_pid :: int

text \<open>\<open>fcntl fd cmd fl w\<close>: the error, if any, the structure as the call leaves it, and the kernel's state.\<close>

type_synonym 'w fcntl_call = "int \<Rightarrow> int \<Rightarrow> flock \<Rightarrow> 'w \<Rightarrow> (int option \<times> flock) \<times> 'w"

definition lockReg :: "'w fcntl_call \<Rightarrow> int \<Rightarrow> int \<Rightarrow> int \<Rightarrow> int \<Rightarrow> int \<Rightarrow> int \<Rightarrow> 'w \<Rightarrow> int option \<times> 'w" where
  "lockReg fcntl fd cmd ty whence start len w =
     (case fcntl fd cmd \<lparr>l_type = ty, l_whence = whence, l_start = start, l_len = len, l_pid = 0\<rparr> w of
        ((e, fl), v) \<Rightarrow> (e, v))"

definition lockRegion :: "'w fcntl_call \<Rightarrow> int \<Rightarrow> int \<Rightarrow> int \<Rightarrow> int \<Rightarrow> int \<Rightarrow> 'w \<Rightarrow> int option \<times> 'w" where
  "lockRegion fcntl fd ty whence start len w = lockReg fcntl fd F_SETLK ty whence start len w"

definition lockRegionWait :: "'w fcntl_call \<Rightarrow> int \<Rightarrow> int \<Rightarrow> int \<Rightarrow> int \<Rightarrow> int \<Rightarrow> 'w \<Rightarrow> int option \<times> 'w" where
  "lockRegionWait fcntl fd ty whence start len w = lockReg fcntl fd F_SETLKW ty whence start len w"

definition regionIsLocked :: "'w fcntl_call \<Rightarrow> int \<Rightarrow> int \<Rightarrow> int \<Rightarrow> int \<Rightarrow> int \<Rightarrow> 'w \<Rightarrow> (int + int) \<times> 'w" where
  "regionIsLocked fcntl fd ty whence start len w =
     (case fcntl fd F_GETLK \<lparr>l_type = ty, l_whence = whence, l_start = start, l_len = len, l_pid = 0\<rparr> w of
        ((Some e, fl), v) \<Rightarrow> (Inl e, v)
      | ((None, fl), v) \<Rightarrow> (Inr (if l_type fl = F_UNLCK then 0 else l_pid fl), v))"

section \<open>createPidFile\<close>

definition CPF_CLOEXEC :: int where "CPF_CLOEXEC = 1"
definition PID_BUF_SIZE :: nat where "PID_BUF_SIZE = 100"

text \<open>The control points of a process: before each system call, after a return, and after its end.\<close>

datatype ppc = P_open | P_getfd | P_setfd | P_lock | P_trunc | P_write | P_running | P_died string | P_exited

record pproc =
  ppc :: ppc
  p_id :: int
  p_file :: nat

text \<open>The kernel: the file that has the name, and for each file its contents and the process that locks it.\<close>

record pkern =
  named :: "nat option"
  n_files :: nat
  contents :: "nat \<Rightarrow> string"
  owner :: "nat \<Rightarrow> int option"

text \<open>A write lock on the whole of a file, the only request of \<open>createPidFile\<close>.\<close>

definition pk_fcntl :: "int \<Rightarrow> answer \<Rightarrow> pkern fcntl_call" where
  "pk_fcntl pid a fd cmd fl k =
     (case a of
        Intr \<Rightarrow> ((Some IO_EINTR, fl), k)
      | Fail e \<Rightarrow> ((Some e, fl), k)
      | Upto _ \<Rightarrow>
          (case owner k (nat fd) of
             Some p \<Rightarrow> if p = pid then ((None, fl), k) else ((Some LK_EAGAIN, fl), k)
           | None \<Rightarrow> ((None, fl), k\<lparr>owner := (owner k)(nat fd := Some pid)\<rparr>)))"

text \<open>The end of a process releases its locks.\<close>

definition release :: "int \<Rightarrow> pkern \<Rightarrow> pkern" where
  "release pid k = k\<lparr>owner := (\<lambda>f. if owner k f = Some pid then None else owner k f)\<rparr>"

definition p_go :: "ppc \<Rightarrow> pproc \<Rightarrow> pkern \<Rightarrow> pproc \<times> pkern" where
  "p_go c p k = (p\<lparr>ppc := c\<rparr>, k)"

definition p_die :: "string \<Rightarrow> pproc \<Rightarrow> pkern \<Rightarrow> pproc \<times> pkern" where
  "p_die m p k = (p\<lparr>ppc := P_died m\<rparr>, release (p_id p) k)"

text \<open>An apostrophe, as in the messages.\<close>

definition apo :: string where "apo = [CHR 0x27]"

definition pid_text :: "int \<Rightarrow> string" where
  "pid_text pid = snprintf PID_BUF_SIZE (msg [dec pid, nl])"

definition p_open :: "pproc \<Rightarrow> pkern \<Rightarrow> pproc \<times> pkern" where
  "p_open p k =
     (case named k of
        Some f \<Rightarrow> (p\<lparr>p_file := f\<rparr>, k)
      | None \<Rightarrow> (p\<lparr>p_file := n_files k\<rparr>,
          k\<lparr>named := Some (n_files k), n_files := Suc (n_files k), contents := (contents k)(n_files k := ''''),
            owner := (owner k)(n_files k := None)\<rparr>))"

fun createPidFile :: "string \<Rightarrow> string \<Rightarrow> int \<Rightarrow> answer \<Rightarrow> ppc \<Rightarrow> pproc \<Rightarrow> pkern \<Rightarrow> pproc \<times> pkern" where
  "createPidFile progName pidFile flags a P_open p k =
     (case a of
        Upto _ \<Rightarrow> (case p_open p k of (p1, k1) \<Rightarrow> p_go (if flags AND CPF_CLOEXEC \<noteq> 0 then P_getfd else P_lock) p1 k1)
      | _ \<Rightarrow> p_die (msg [''Could not open PID file '', pidFile]) p k)"
| "createPidFile progName pidFile flags a P_getfd p k =
     (case a of Upto _ \<Rightarrow> p_go P_setfd p k | _ \<Rightarrow> p_die (msg [''Could not get flags for PID file '', pidFile]) p k)"
| "createPidFile progName pidFile flags a P_setfd p k =
     (case a of Upto _ \<Rightarrow> p_go P_lock p k | _ \<Rightarrow> p_die (msg [''Could not set flags for PID file '', pidFile]) p k)"
| "createPidFile progName pidFile flags a P_lock p k =
     (case lockRegion (pk_fcntl (p_id p) a) (int (p_file p)) F_WRLCK SEEK_SET 0 0 k of
        (None, k1) \<Rightarrow> p_go P_trunc p k1
      | (Some e, k1) \<Rightarrow>
          if e = LK_EAGAIN \<or> e = LK_EACCES
          then p_die (msg [''PID file '', apo, pidFile, apo, '' is locked; probably '', apo, progName, apo, '' is already running'']) p k1
          else p_die (msg [''Unable to lock PID file '', apo, pidFile, apo]) p k1)"
| "createPidFile progName pidFile flags a P_trunc p k =
     (case a of
        Upto _ \<Rightarrow> p_go P_write p (k\<lparr>contents := (contents k)(p_file p := '''')\<rparr>)
      | _ \<Rightarrow> p_die (msg [''Could not truncate PID file '', apo, pidFile, apo]) p k)"
| "createPidFile progName pidFile flags a P_write p k =
     (case a of
        Upto n \<Rightarrow>
          let b = take n (pid_text (p_id p)); k1 = k\<lparr>contents := (contents k)(p_file p := contents k (p_file p) @ b)\<rparr>
          in if b \<noteq> pid_text (p_id p) then p_die (msg [''Writing to PID file '', apo, pidFile, apo]) p k1 else p_go P_running p k1
      | _ \<Rightarrow> p_die (msg [''Writing to PID file '', apo, pidFile, apo]) p k)"
| "createPidFile progName pidFile flags a c p k = (p, k)"

record psys =
  pk :: pkern
  pprocs :: "pproc list"

definition pstep :: "string \<Rightarrow> string \<Rightarrow> int \<Rightarrow> nat \<Rightarrow> answer \<Rightarrow> psys \<Rightarrow> psys" where
  "pstep progName pidFile flags i a s =
     (if i < length (pprocs s)
      then (case createPidFile progName pidFile flags a (ppc (pprocs s ! i)) (pprocs s ! i) (pk s) of
              (p, k) \<Rightarrow> s\<lparr>pk := k, pprocs := (pprocs s)[i := p]\<rparr>)
      else s)"

text \<open>A program that has been running ends, after it has deleted the file if \<open>del\<close>.\<close>

definition pexit :: "bool \<Rightarrow> nat \<Rightarrow> psys \<Rightarrow> psys" where
  "pexit del i s =
     (if i < length (pprocs s) \<and> ppc (pprocs s ! i) = P_running
      then let k = release (p_id (pprocs s ! i)) (pk s)
           in s\<lparr>pk := (if del then k\<lparr>named := None\<rparr> else k), pprocs := (pprocs s)[i := (pprocs s ! i)\<lparr>ppc := P_exited\<rparr>]\<rparr>
      else s)"

definition p_init :: "int list \<Rightarrow> psys" where
  "p_init pids = \<lparr>pk = \<lparr>named = None, n_files = 0, contents = (\<lambda>f. ''''), owner = (\<lambda>f. None)\<rparr>,
     pprocs = map (\<lambda>x. \<lparr>ppc = P_open, p_id = x, p_file = 0\<rparr>) pids\<rparr>"

text \<open>The reachable states; \<open>dels\<close> tells whether programs delete the file when they end.\<close>

inductive p_reach :: "string \<Rightarrow> string \<Rightarrow> int \<Rightarrow> bool \<Rightarrow> int list \<Rightarrow> psys \<Rightarrow> bool" for progName pidFile flags dels pids where
  start: "p_reach progName pidFile flags dels pids (p_init pids)"
| step: "p_reach progName pidFile flags dels pids s \<Longrightarrow> p_reach progName pidFile flags dels pids (pstep progName pidFile flags i a s)"
| quit: "p_reach progName pidFile flags dels pids s \<Longrightarrow> p_reach progName pidFile flags dels pids (pexit dels i s)"

section \<open>Exclusion\<close>

fun past_open :: "ppc \<Rightarrow> bool" where
  "past_open P_open = False"
| "past_open (P_died m) = False"
| "past_open P_exited = False"
| "past_open c = True"

fun holds_lock :: "ppc \<Rightarrow> bool" where
  "holds_lock P_trunc = True"
| "holds_lock P_write = True"
| "holds_lock P_running = True"
| "holds_lock c = False"

text \<open>While nobody deletes the file there is one, with number 0; what the kernel must be for a process.\<close>

definition kern_ok :: "pkern \<Rightarrow> bool" where
  "kern_ok k = (named k = None \<and> n_files k = 0 \<or> named k = Some 0 \<and> n_files k = 1)"

definition proc_ok :: "pkern \<Rightarrow> pproc \<Rightarrow> bool" where
  "proc_ok k p =
     ((past_open (ppc p) \<longrightarrow> named k = Some 0 \<and> p_file p = 0) \<and>
      (holds_lock (ppc p) \<longrightarrow> owner k 0 = Some (p_id p)) \<and>
      (ppc p = P_write \<longrightarrow> contents k 0 = '''') \<and>
      (ppc p = P_running \<longrightarrow> contents k 0 = pid_text (p_id p)))"

definition step_ok :: "pkern \<Rightarrow> pproc \<Rightarrow> pproc \<times> pkern \<Rightarrow> bool" where
  "step_ok k p r =
     (case r of (p', k') \<Rightarrow> kern_ok k' \<and> proc_ok k' p' \<and> p_id p' = p_id p \<and>
        (\<forall>q. p_id q \<noteq> p_id p \<longrightarrow> proc_ok k q \<longrightarrow> proc_ok k' q))"

lemma step_ok_die: "kern_ok k \<Longrightarrow> step_ok k p (p_die m p k)"
  by (auto simp: step_ok_def p_die_def kern_ok_def proc_ok_def release_def)

lemma createPidFile_ok:
  assumes "kern_ok k" "proc_ok k p"
  shows "step_ok k p (createPidFile progName pidFile flags a (ppc p) p k)"
proof (cases "ppc p")
  case P_open
  then show ?thesis using assms step_ok_die
    by (cases a) (auto simp: step_ok_def p_go_def p_open_def kern_ok_def proc_ok_def split: option.splits prod.splits elim: past_open.elims)
next
  case P_lock
  then show ?thesis using assms step_ok_die [OF assms(1)]
    by (cases a; cases "owner k 0") (auto simp: lockRegion_def lockReg_def pk_fcntl_def step_ok_def p_go_def proc_ok_def kern_ok_def)
next
  case P_write
  then show ?thesis using assms
    by (cases a) (auto simp: Let_def step_ok_def p_go_def p_die_def release_def proc_ok_def kern_ok_def)
qed (use assms in \<open>cases a; auto simp: step_ok_def p_go_def p_die_def release_def proc_ok_def kern_ok_def\<close>)+

definition psys_ok :: "int list \<Rightarrow> psys \<Rightarrow> bool" where
  "psys_ok pids s = (kern_ok (pk s) \<and> map p_id (pprocs s) = pids \<and> (\<forall>p \<in> set (pprocs s). proc_ok (pk s) p))"

lemma update_ok:
  assumes "distinct pids" "psys_ok pids s" "i < length (pprocs s)" "step_ok (pk s) (pprocs s ! i) (p, k)"
  shows "psys_ok pids (s\<lparr>pk := k, pprocs := (pprocs s)[i := p]\<rparr>)"
proof -
  let ?q = "pprocs s ! i"
  have ids: "map p_id (pprocs s) = pids" using assms(2) by (simp add: psys_ok_def)
  then have "p_id (pprocs s ! j) \<noteq> p_id ?q" if "j < length (pprocs s)" "j \<noteq> i" for j
    using assms(1,3) that by (metis length_map nth_eq_iff_index_eq nth_map)
  then have "proc_ok k ((pprocs s)[i := p] ! j)" if "j < length (pprocs s)" for j
    using assms(2,3,4) that by (cases "j = i") (auto simp: step_ok_def psys_ok_def)
  then have "\<forall>x \<in> set ((pprocs s)[i := p]). proc_ok k x" by (auto simp: in_set_conv_nth)
  moreover have "map p_id ((pprocs s)[i := p]) = pids"
    unfolding ids [symmetric] using assms(3,4) by (simp add: map_update step_ok_def list_update_same_conv)
  ultimately show ?thesis using assms(4) by (simp add: psys_ok_def step_ok_def)
qed

lemma exit_step_ok:
  "kern_ok k \<Longrightarrow> proc_ok k p \<Longrightarrow> step_ok k p (p\<lparr>ppc := P_exited\<rparr>, release (p_id p) k)"
  by (auto simp: step_ok_def kern_ok_def proc_ok_def release_def)

lemma p_reach_ok:
  assumes "distinct pids" "p_reach progName pidFile flags False pids s"
  shows "psys_ok pids s"
  using assms(2)
proof (induction rule: p_reach.induct)
  case start
  show ?case by (auto simp: psys_ok_def p_init_def kern_ok_def proc_ok_def comp_def)
next
  case (step s i a)
  show ?case
  proof (cases "i < length (pprocs s)")
    case True
    let ?q = "pprocs s ! i"
    obtain p k where r: "createPidFile progName pidFile flags a (ppc ?q) ?q (pk s) = (p, k)"
      by (cases "createPidFile progName pidFile flags a (ppc ?q) ?q (pk s)")
    have "step_ok (pk s) ?q (createPidFile progName pidFile flags a (ppc ?q) ?q (pk s))"
      using step.IH True by (intro createPidFile_ok) (auto simp: psys_ok_def)
    then show ?thesis using update_ok [OF assms(1) step.IH True] r True by (simp add: pstep_def)
  qed (use step.IH in \<open>simp add: pstep_def\<close>)
next
  case (quit s i)
  show ?case
  proof (cases "i < length (pprocs s) \<and> ppc (pprocs s ! i) = P_running")
    case True
    have "step_ok (pk s) (pprocs s ! i) ((pprocs s ! i)\<lparr>ppc := P_exited\<rparr>, release (p_id (pprocs s ! i)) (pk s))"
      using quit.IH True by (intro exit_step_ok) (auto simp: psys_ok_def)
    then show ?thesis using update_ok [OF assms(1) quit.IH] True by (simp add: pexit_def Let_def)
  qed (use quit.IH in \<open>auto simp: pexit_def\<close>)
qed

section \<open>Properties\<close>

text \<open>
  C26. As long as no program deletes the file, createPidFile lets one instance run at a time: in every
  interleaving of any number of processes, with any failures, at most one process has returned from it and
  not ended, and then the file that has the name holds exactly the process ID of that process.
\<close>

theorem one_instance_runs:
  assumes "distinct pids" "p_reach progName pidFile flags False pids s"
    "i < length (pprocs s)" "ppc (pprocs s ! i) = P_running"
  shows "named (pk s) = Some (p_file (pprocs s ! i)) \<and>
    contents (pk s) (p_file (pprocs s ! i)) = pid_text (p_id (pprocs s ! i)) \<and>
    (\<forall>j. j < length (pprocs s) \<and> ppc (pprocs s ! j) = P_running \<longrightarrow> j = i)"
proof -
  have ok: "psys_ok pids s" by (rule p_reach_ok [OF assms(1,2)])
  have p: "proc_ok (pk s) (pprocs s ! j)" if "j < length (pprocs s)" for j using ok that by (auto simp: psys_ok_def)
  have "j = i" if j: "j < length (pprocs s)" "ppc (pprocs s ! j) = P_running" for j
  proof -
    have "p_id (pprocs s ! j) = p_id (pprocs s ! i)"
      using p [OF assms(3)] p [OF j(1)] assms(4) j(2) by (simp add: proc_ok_def)
    then show ?thesis using ok assms(1,3) j(1) by (metis length_map nth_eq_iff_index_eq nth_map psys_ok_def)
  qed
  then show ?thesis using p [OF assms(3)] assms(4) by (auto simp: proc_ok_def)
qed

text \<open>Process \<open>i\<close> runs the whole of the function with no failure.\<close>

definition run_all :: "nat \<Rightarrow> psys \<Rightarrow> psys" where
  "run_all i s = fold (\<lambda>n s. pstep ''d'' ''/run/d'' 0 i (Upto 100) s) [0..<4] s"

lemma run_all_reach:
  "p_reach ''d'' ''/run/d'' 0 dels pids s \<Longrightarrow> p_reach ''d'' ''/run/d'' 0 dels pids (run_all i s)"
  by (simp add: run_all_def upt_rec p_reach.step)

theorem one_instance_runs_witness:
  "contents (pk (run_all 0 (p_init [7, 8]))) 0 = pid_text 7 \<and> ppc (pprocs (run_all 1 (run_all 0 (p_init [7, 8]))) ! 0) = P_running"
proof -
  have r: "ppc (pprocs (run_all 0 (p_init [7, 8])) ! 0) = P_running"
    "p_id (pprocs (run_all 0 (p_init [7, 8])) ! 0) = 7" "p_file (pprocs (run_all 0 (p_init [7, 8])) ! 0) = 0" "0 < length (pprocs (run_all 0 (p_init [7, 8])))"
    "ppc (pprocs (run_all 1 (run_all 0 (p_init [7, 8]))) ! 0) = P_running" by code_simp+
  have "contents (pk (run_all 0 (p_init [7, 8]))) (p_file (pprocs (run_all 0 (p_init [7, 8])) ! 0)) = pid_text (p_id (pprocs (run_all 0 (p_init [7, 8])) ! 0))"
    using one_instance_runs [of "[7, 8]" "''d''" "''/run/d''" 0 "run_all 0 (p_init [7, 8])" 0]
      run_all_reach [OF p_reach.start] r by simp
  then show ?thesis using r by simp
qed

text \<open>
  When the program deletes the file before it ends, as the comment above the function says it should, two
  instances can run at once: one process has opened the old file but not locked it when the file is deleted, and
  it goes on to lock a file that has no name any more, while another process creates and locks a new one.
\<close>

theorem deleted_pid_file_two_run:
  "\<exists>s. p_reach ''d'' ''/run/d'' 0 True [7, 8, 9] s \<and>
     ppc (pprocs s ! 1) = P_running \<and> ppc (pprocs s ! 2) = P_running"
proof (intro exI conjI)
  let ?s = "run_all 2 (run_all 1 (pexit True 0 (pstep ''d'' ''/run/d'' 0 1 (Upto 0) (run_all 0 (p_init [7, 8, 9])))))"
  show "p_reach ''d'' ''/run/d'' 0 True [7, 8, 9] ?s"
    by (intro run_all_reach p_reach.quit p_reach.step p_reach.start)
  show "ppc (pprocs ?s ! 1) = P_running" "ppc (pprocs ?s ! 2) = P_running" by code_simp+
qed

end
