(* ===== verification/WorkQueue.thy ===== *)
theory WorkQueue
  imports ErrorFunctions
begin

text \<open>
  The work queue programs \<open>ALSP/cond_var.c\<close> and \<open>ALSP/cond_var_rts.c\<close>: thread A reads bytes from a FIFO into a
  ring buffer, three threads B take them out, and all wait for each other with a mutex and a condition
  variable; in the second program (\<open>rts\<close>) a further thread is told of every job by a realtime signal. The
  threads interleave at their calls. An access outside the ring is \<open>Undef\<close>. Of a message of \<open>pr_out\<close> and
  \<open>pr_err\<close> the text is kept, without the place in the source that the macro adds.
\<close>

section \<open>The ring (\<open>push_item\<close>, \<open>pop_item\<close>)\<close>

definition MAX_ITEMS :: int where "MAX_ITEMS = 64"

record workqueue =
  item :: "int list"
  idx :: int
  cnt :: int

text \<open>The queue with the messages so far.\<close>

record wqst =
  wq :: workqueue
  wlog :: "string list"

definition say :: "string list \<Rightarrow> wqst \<Rightarrow> wqst" where
  "say t s = s\<lparr>wlog := wlog s @ [msg t]\<rparr>"

text \<open>A \<open>char\<close> as an \<open>int\<close>, and C's remainder.\<close>

definition schar :: "char \<Rightarrow> int" where
  "schar c = (let n = int (of_char c) in if n \<ge> 128 then n - 256 else n)"

definition crem :: "int \<Rightarrow> int \<Rightarrow> int" where
  "crem a b = (if a < 0 then - ((- a) mod b) else a mod b)"

text \<open>The loop of \<open>push_item\<close> on the buffer \<open>b\<close> of which \<open>n\<close> bytes are pushed.\<close>

function push_loop :: "string \<Rightarrow> int \<Rightarrow> int \<Rightarrow> int \<Rightarrow> wqst \<Rightarrow> (wqst, int) res" where
  "push_loop b n i j s =
     (if \<not> i < n then Ret i s
      else if cnt (wq s) = MAX_ITEMS then
        Ret i (say [''[Q:'', dec i, '','', dec j, ''] queue full : wq(idx,cnt='', dec (idx (wq s)), '','', dec (cnt (wq s)), '')''] s)
      else let k = (if j = MAX_ITEMS then 0 else j) in
        if k < 0 \<or> k \<ge> int (length (item (wq s))) \<or> i < 0 \<or> i \<ge> int (length b) then Undef
        else let q = (wq s)\<lparr>item := (item (wq s))[nat k := schar (b ! nat i)]\<rparr>;
                 t = say [''[Q:'', dec i, '','', dec k, ''] push(idx,cnt='', dec (idx q), '','', dec (cnt q), '') : item=('', [b ! nat i], '')''] s
             in push_loop b n (i + 1) (k + 1) (t\<lparr>wq := q\<lparr>cnt := cnt q + 1\<rparr>\<rparr>))"
  by pat_completeness auto
termination
  by (relation "measure (\<lambda>(b, n, i, j, s). nat (n - i))") auto

declare push_loop.simps [simp del]

definition push_item :: "string \<Rightarrow> wqst \<Rightarrow> (wqst, int) res" where
  "push_item b s = push_loop b (int (length b)) 0 (crem (idx (wq s) + cnt (wq s)) MAX_ITEMS) s"

text \<open>The branch of \<open>pop_item\<close> in which there is an item.\<close>

definition pop_item :: "int \<Rightarrow> wqst \<Rightarrow> (wqst, int) res" where
  "pop_item self s =
     (let i = (if idx (wq s) = MAX_ITEMS then 0 else idx (wq s)) in
      if i < 0 \<or> i \<ge> int (length (item (wq s))) then Undef
      else let x = item (wq s) ! nat i; q = (wq s)\<lparr>idx := i + 1, cnt := cnt (wq s) - 1\<rparr>
           in Ret x (say [''[B] pop('', dec (idx q), '','', dec (cnt q), '') item('', [char_of (nat (x mod 256))], '') (tid='', dec self, '')''] (s\<lparr>wq := q\<rparr>)))"

text \<open>The seconds \<open>process_job\<close> sleeps: the argument of sleep(3) is unsigned.\<close>

definition process_job :: "int \<Rightarrow> nat" where
  "process_job x = nat ((crem x 5 + 1) mod 2 ^ 32)"

section \<open>The threads\<close>

text \<open>What a call answers: success, an error number, or the bytes that read(2) gives.\<close>

datatype wans = WOk | WErr int | WData string

definition W_EEXIST :: int where "W_EEXIST = 17"

text \<open>The points of a thread before each of its calls; \<open>B_asleep\<close> waits in pthread_cond_wait(3).\<close>

datatype tpc =
    A_mkfifo | A_open | A_read | A_lock string | A_push string | A_unlock | A_bcast
  | B_start | B_lock | B_test | B_asleep | B_woken | B_unlock int | B_job int | B_notify
  | S_start | S_wait

text \<open>
  The mutex is held by the thread of that number. The pending signals name their senders. \<open>pushed\<close> and
  \<open>popped\<close> record the items that went through the queue, \<open>naps\<close> the sleeps; \<open>wended\<close> is the exit status and
  \<open>a_errno\<close> is errno of thread A.
\<close>

record wsys =
  wst :: wqst
  mtx :: "nat option"
  thr :: "tpc list"
  pending :: "nat list"
  wended :: "int option"
  a_errno :: int
  broken :: bool
  pushed :: "int list"
  popped :: "int list"
  naps :: "nat list"

definition go :: "nat \<Rightarrow> tpc \<Rightarrow> wsys \<Rightarrow> wsys" where
  "go i c s = s\<lparr>thr := (thr s)[i := c]\<rparr>"

definition tell :: "string list \<Rightarrow> wsys \<Rightarrow> wsys" where
  "tell t s = s\<lparr>wst := say t (wst s)\<rparr>"

definition quit :: "string list \<Rightarrow> wsys \<Rightarrow> wsys" where
  "quit t s = (tell t s)\<lparr>wended := Some EXIT_FAILURE\<rparr>"

text \<open>pthread_mutex_lock(3), which waits while the mutex is held, and pthread_mutex_unlock(3).\<close>

definition lock_then :: "nat \<Rightarrow> tpc \<Rightarrow> wsys \<Rightarrow> wsys" where
  "lock_then i c s = (if mtx s = None then go i c (s\<lparr>mtx := Some i\<rparr>) else s)"

definition unlock_then :: "nat \<Rightarrow> tpc \<Rightarrow> wsys \<Rightarrow> wsys" where
  "unlock_then i c s = go i c (s\<lparr>mtx := None\<rparr>)"

definition wake :: "tpc \<Rightarrow> tpc" where
  "wake c = (if c = B_asleep then B_woken else c)"

fun tfunc_a :: "bool \<Rightarrow> (int \<Rightarrow> string) \<Rightarrow> nat \<Rightarrow> wans \<Rightarrow> tpc \<Rightarrow> wsys \<Rightarrow> wsys" where
  "tfunc_a rts serr i a A_mkfifo s =
     (let t = tell ['' >> Thread (A) Started!''] s in
      case a of
        WErr e \<Rightarrow> if e \<noteq> W_EEXIST then quit [''[A] FAIL: mkfifo : '', serr e] t else go i A_open (t\<lparr>a_errno := e\<rparr>)
      | _ \<Rightarrow> go i A_open t)"
| "tfunc_a rts serr i a A_open s =
     (case a of WErr e \<Rightarrow> quit [''[A] FAIL: open : '', serr e] s | _ \<Rightarrow> go i A_read s)"
| "tfunc_a rts serr i a A_read s =
     (case a of
        WErr e \<Rightarrow> quit [''[A] FAIL: read : '', serr e] s
      | WData b \<Rightarrow> if b = [] then quit [if rts then ''[A] broken pipe : '' else ''[A] broken pipe: '', serr (a_errno s)] s else go i (A_lock (take (nat (MAX_ITEMS div 2)) b)) s
      | WOk \<Rightarrow> s)"
| "tfunc_a rts serr i a (A_lock b) s = lock_then i (A_push b) s"
| "tfunc_a rts serr i a (A_push b) s =
     (case push_item b (wst s) of
        Ret n t \<Rightarrow> go i A_unlock (s\<lparr>wst := t, pushed := pushed s @ map schar (take (nat n) b)\<rparr>)
      | _ \<Rightarrow> s\<lparr>broken := True\<rparr>)"
| "tfunc_a rts serr i a A_unlock s = unlock_then i A_bcast s"
| "tfunc_a rts serr i a A_bcast s = (let t = tell [''[A] cond_signal''] s in go i A_read (t\<lparr>thr := map wake (thr t)\<rparr>))"
| "tfunc_a rts serr i a c s = s"

text \<open>\<open>self\<close> is pthread_self(3). A sleeping thread may also wake up for no reason.\<close>

fun tfunc_b :: "bool \<Rightarrow> int \<Rightarrow> nat \<Rightarrow> wans \<Rightarrow> tpc \<Rightarrow> wsys \<Rightarrow> wsys" where
  "tfunc_b rts self i a B_start s = go i B_lock (tell [if rts then '' >> Thread (B) Started!'' else '' >> Thread (B) started!''] s)"
| "tfunc_b rts self i a B_lock s = lock_then i B_test s"
| "tfunc_b rts self i a B_test s =
     (if cnt (wq (wst s)) > 0 then
        case pop_item self (wst s) of
          Ret x t \<Rightarrow> go i (B_unlock x) (s\<lparr>wst := t, popped := popped s @ [x]\<rparr>)
        | _ \<Rightarrow> s\<lparr>broken := True\<rparr>
      else unlock_then i B_asleep (tell [''[B] cond_wait (tid='', dec self, '')''] s))"
| "tfunc_b rts self i a B_asleep s = go i B_woken s"
| "tfunc_b rts self i a B_woken s =
     (if mtx s = None then lock_then i B_test (tell [''[B] Wake up (tid='', dec self, '')''] s) else s)"
| "tfunc_b rts self i a (B_unlock x) s = unlock_then i (B_job x) s"
| "tfunc_b rts self i a (B_job x) s =
     go i (if rts then B_notify else B_lock) ((tell [''[B] item='', dec x] s)\<lparr>naps := naps s @ [process_job x]\<rparr>)"
| "tfunc_b rts self i a B_notify s =
     (case a of WErr e \<Rightarrow> s\<lparr>wended := Some EXIT_FAILURE\<rparr> | _ \<Rightarrow> go i B_lock (s\<lparr>pending := pending s @ [i]\<rparr>))"
| "tfunc_b rts self i a c s = s"

fun start_sigthread :: "(int \<Rightarrow> string) \<Rightarrow> (nat \<Rightarrow> int) \<Rightarrow> nat \<Rightarrow> wans \<Rightarrow> tpc \<Rightarrow> wsys \<Rightarrow> wsys" where
  "start_sigthread serr tid i a S_start s = go i S_wait (tell [''* Start signal thread (tid = '', dec (tid i), '') ''] s)"
| "start_sigthread serr tid i a S_wait s =
     (case a of
        WErr e \<Rightarrow> tell [[CHR 0x09], ''[RTS] others.''] (tell [''FAIL: sigwaitinfo('', serr e, '')'', nl] s)
      | _ \<Rightarrow> (case pending s of
                [] \<Rightarrow> s
              | k # ks \<Rightarrow> tell [[CHR 0x09], ''[RTS] notification from ('', dec (tid k), '').''] (s\<lparr>pending := ks\<rparr>)))"
| "start_sigthread serr tid i a c s = s"

text \<open>The table of thread functions, by their first points.\<close>

definition t_arg :: "bool \<Rightarrow> tpc list" where
  "t_arg rts = [A_mkfifo, B_start, B_start, B_start] @ (if rts then [S_start] else [])"

text \<open>
  \<open>main\<close> creates the threads of the table one after the other, which run at once, and then waits in
  \<open>clean_thread\<close> for the first, which never returns.
\<close>

definition main_step :: "bool \<Rightarrow> (nat \<Rightarrow> int) \<Rightarrow> wans \<Rightarrow> wsys \<Rightarrow> wsys" where
  "main_step rts tid a s =
     (let i = length (thr s) in
      if i < length (t_arg rts) then
        case a of
          WErr e \<Rightarrow> s\<lparr>wended := Some EXIT_FAILURE\<rparr>
        | _ \<Rightarrow> tell [''pthread_create : tid = '', dec (tid i)] (s\<lparr>thr := thr s @ [t_arg rts ! i]\<rparr>)
      else s)"

text \<open>The function that a thread runs, and a step of thread \<open>i\<close>.\<close>

datatype trole = Role_A | Role_B | Role_S

fun role :: "tpc \<Rightarrow> trole" where
  "role A_mkfifo = Role_A" | "role A_open = Role_A" | "role A_read = Role_A" | "role (A_lock b) = Role_A"
| "role (A_push b) = Role_A" | "role A_unlock = Role_A" | "role A_bcast = Role_A"
| "role S_start = Role_S" | "role S_wait = Role_S"
| "role c = Role_B"

definition thread_step :: "bool \<Rightarrow> (int \<Rightarrow> string) \<Rightarrow> (nat \<Rightarrow> int) \<Rightarrow> nat \<Rightarrow> wans \<Rightarrow> wsys \<Rightarrow> wsys" where
  "thread_step rts serr tid i a s =
     (if wended s \<noteq> None \<or> broken s \<or> i \<ge> length (thr s) then s
      else case role (thr s ! i) of
             Role_A \<Rightarrow> tfunc_a rts serr i a (thr s ! i) s
           | Role_B \<Rightarrow> tfunc_b rts (tid i) i a (thr s ! i) s
           | Role_S \<Rightarrow> start_sigthread serr tid i a (thr s ! i) s)"

definition empty_wsys :: wsys where
  "empty_wsys = \<lparr>wst = \<lparr>wq = \<lparr>item = replicate 64 0, idx = 0, cnt = 0\<rparr>, wlog = []\<rparr>, mtx = None, thr = [], pending = [],
     wended = None, a_errno = 0, broken = False, pushed = [], popped = [], naps = []\<rparr>"

text \<open>The state after the allocation of the queue, which may fail.\<close>

definition w_init :: "bool \<Rightarrow> (int \<Rightarrow> string) \<Rightarrow> wans \<Rightarrow> wsys" where
  "w_init rts serr a = (case a of
     WErr e \<Rightarrow> (if rts then empty_wsys\<lparr>wended := Some EXIT_FAILURE\<rparr> else quit [''calloc('', serr e, '')''] empty_wsys)
   | _ \<Rightarrow> empty_wsys)"

inductive w_reach :: "bool \<Rightarrow> (int \<Rightarrow> string) \<Rightarrow> (nat \<Rightarrow> int) \<Rightarrow> wsys \<Rightarrow> bool" for rts serr tid where
  w_start: "w_reach rts serr tid (w_init rts serr a)"
| w_main: "w_reach rts serr tid s \<Longrightarrow> wended s = None \<Longrightarrow> \<not> broken s \<Longrightarrow> w_reach rts serr tid (main_step rts tid a s)"
| w_step: "w_reach rts serr tid s \<Longrightarrow> w_reach rts serr tid (thread_step rts serr tid i a s)"

section \<open>The ring is a queue\<close>

definition ring_ok :: "workqueue \<Rightarrow> bool" where
  "ring_ok q = (length (item q) = 64 \<and> 0 \<le> idx q \<and> idx q \<le> 64 \<and> 0 \<le> cnt q \<and> cnt q \<le> 64)"

definition ring_items :: "workqueue \<Rightarrow> int list" where
  "ring_items q = map (\<lambda>k. item q ! ((nat (idx q) + k) mod 64)) [0..<nat (cnt q)]"

lemma length_ring_items: "length (ring_items q) = nat (cnt q)"
  by (simp add: ring_items_def)

lemma add_mod_cancel:
  assumes "(a + b) mod n = (a + c) mod (n :: nat)"
  shows "b mod n = c mod n"
proof -
  have "(int a + int b) mod int n = (int a + int c) mod int n"
    using arg_cong [OF assms, of int] by (simp add: zmod_int)
  then have "int b mod int n = int c mod int n" by (simp add: mod_eq_dvd_iff)
  then show ?thesis by (simp flip: zmod_int)
qed

lemma ring_put:
  assumes "ring_ok q" "cnt q < 64" "k = (nat (idx q) + nat (cnt q)) mod 64"
  shows "ring_items (q\<lparr>item := (item q)[k := x], cnt := cnt q + 1\<rparr>) = ring_items q @ [x]"
proof -
  have c: "nat (cnt q + 1) = Suc (nat (cnt q))" using assms(1) by (simp add: ring_ok_def nat_add_distrib)
  have ne: "(nat (idx q) + m) mod 64 \<noteq> k" if "m < nat (cnt q)" for m
  proof
    assume "(nat (idx q) + m) mod 64 = k"
    then have "m mod 64 = nat (cnt q) mod 64" unfolding assms(3) by (rule add_mod_cancel)
    then show False using that assms(2) by simp
  qed
  have "(item q)[k := x] ! ((nat (idx q) + m) mod 64) = item q ! ((nat (idx q) + m) mod 64)" if "m < nat (cnt q)" for m
    using ne [OF that] by (metis nth_list_update_neq)
  moreover have "(item q)[k := x] ! k = x" using assms(1,3) by (simp add: ring_ok_def)
  ultimately show ?thesis using assms(3) by (simp add: ring_items_def c)
qed

lemma say_wq [simp]: "wq (say t s) = wq s"
  by (simp add: say_def)

lemma push_loop_stop: "i = n \<Longrightarrow> push_loop b n i j s = Ret i s"
  by (subst push_loop.simps) simp

lemma push_loop_full: "cnt (wq s) = 64 \<Longrightarrow> \<exists>t. push_loop b n i j s = Ret i t \<and> wq t = wq s"
  by (subst push_loop.simps) (simp add: MAX_ITEMS_def)

lemma push_loop_step:
  assumes "ring_ok (wq s)" "cnt (wq s) < 64" "0 \<le> i" "i < n" "n = int (length b)" "0 \<le> j" "j \<le> 64"
    "nat j mod 64 = (nat (idx (wq s)) + nat (cnt (wq s))) mod 64"
  obtains t k where "push_loop b n i j s = push_loop b n (i + 1) (k + 1) t" "ring_ok (wq t)" "idx (wq t) = idx (wq s)"
    "cnt (wq t) = cnt (wq s) + 1" "ring_items (wq t) = ring_items (wq s) @ [schar (b ! nat i)]" "0 \<le> k" "k < 64"
    "nat k = (nat (idx (wq s)) + nat (cnt (wq s))) mod 64"
proof -
  let ?q = "wq s" and ?k = "if j = MAX_ITEMS then 0 else j"
  let ?t = "(say [''[Q:'', dec i, '','', dec ?k, ''] push(idx,cnt='', dec (idx ?q), '','', dec (cnt ?q), '') : item=('', [b ! nat i], '')''] s)
      \<lparr>wq := ?q\<lparr>item := (item ?q)[nat ?k := schar (b ! nat i)], cnt := cnt ?q + 1\<rparr>\<rparr>"
  have k: "0 \<le> ?k" "?k < 64" "nat ?k = (nat (idx ?q) + nat (cnt ?q)) mod 64"
    using assms(6-8) by (auto simp: MAX_ITEMS_def)
  have "push_loop b n i j s = push_loop b n (i + 1) (?k + 1) ?t"
    using assms(1-5) k(1,2) by (subst push_loop.simps) (simp add: Let_def MAX_ITEMS_def ring_ok_def)
  moreover have "ring_ok (wq ?t)" using assms(1,2) by (simp add: ring_ok_def)
  ultimately show thesis using that [of ?k ?t] k ring_put [OF assms(1,2) k(3)] by simp
qed

lemma push_loop_spec:
  assumes "ring_ok (wq s)" "0 \<le> i" "i \<le> n" "n = int (length b)" "0 \<le> j" "j \<le> 64"
    "nat j mod 64 = (nat (idx (wq s)) + nat (cnt (wq s))) mod 64"
  shows "\<exists>t. push_loop b n i j s = Ret (i + min (n - i) (64 - cnt (wq s))) t \<and> ring_ok (wq t) \<and>
    ring_items (wq t) = ring_items (wq s) @ map schar (take (nat (64 - cnt (wq s))) (drop (nat i) b))"
  using assms
proof (induction "nat (n - i)" arbitrary: i j s)
  case 0
  then show ?case by (auto simp: push_loop_stop ring_ok_def)
next
  case (Suc m)
  have c: "0 \<le> cnt (wq s)" "cnt (wq s) \<le> 64" using Suc.prems(1) by (simp_all add: ring_ok_def)
  show ?case
  proof (cases "cnt (wq s) = 64")
    case True
    then show ?thesis using push_loop_full [OF True, of b n i j] Suc.prems(1,3) by auto
  next
    case False
    then have l: "cnt (wq s) < 64" "i < n" using c Suc.hyps(2) by simp_all
    obtain t k where t: "push_loop b n i j s = push_loop b n (i + 1) (k + 1) t" "ring_ok (wq t)" "idx (wq t) = idx (wq s)"
      "cnt (wq t) = cnt (wq s) + 1" "ring_items (wq t) = ring_items (wq s) @ [schar (b ! nat i)]" "0 \<le> k" "k < 64"
      "nat k = (nat (idx (wq s)) + nat (cnt (wq s))) mod 64"
      using push_loop_step [OF Suc.prems(1) l(1) Suc.prems(2) l(2) Suc.prems(4-7)] by blast
    have m: "m = nat (n - (i + 1))" using Suc.hyps(2) by linarith
    have "nat (k + 1) mod 64 = (nat (idx (wq t)) + nat (cnt (wq t))) mod 64"
      using t(3,4,6,8) c(1) by (simp add: nat_add_distrib mod_Suc_eq)
    then obtain u where "push_loop b n (i + 1) (k + 1) t = Ret (i + 1 + min (n - (i + 1)) (64 - cnt (wq t))) u" "ring_ok (wq u)"
      "ring_items (wq u) = ring_items (wq t) @ map schar (take (nat (64 - cnt (wq t))) (drop (nat (i + 1)) b))"
      using Suc.hyps(1) [OF m t(2) _ _ Suc.prems(4), of "k + 1"] Suc.prems(2) l(2) t(6,7) by force
    moreover have "drop (nat i) b = b ! nat i # drop (nat (i + 1)) b"
      using l(2) Suc.prems(2,4) by (simp add: Cons_nth_drop_Suc nat_add_distrib)
    moreover have "nat (64 - cnt (wq s)) = Suc (nat (64 - cnt (wq t)))" using t(4) l(1) by simp
    ultimately show ?thesis using t(1,4,5) by (simp add: min_def)
  qed
qed

lemma push_item_spec:
  assumes "ring_ok (wq s)"
  shows "\<exists>t. push_item b s = Ret (int (min (length b) (64 - length (ring_items (wq s))))) t \<and> ring_ok (wq t) \<and>
    ring_items (wq t) = ring_items (wq s) @ map schar (take (64 - length (ring_items (wq s))) b)"
proof -
  let ?j = "crem (idx (wq s) + cnt (wq s)) MAX_ITEMS"
  have r: "0 \<le> idx (wq s)" "0 \<le> cnt (wq s)" "cnt (wq s) \<le> 64" using assms by (simp_all add: ring_ok_def)
  then have "?j = (idx (wq s) + cnt (wq s)) mod 64" by (simp add: crem_def MAX_ITEMS_def)
  moreover have "(idx (wq s) + cnt (wq s)) mod 64 \<le> 64" using pos_mod_bound [of 64 "idx (wq s) + cnt (wq s)"] by linarith
  moreover from calculation(1) have "nat ?j = (nat (idx (wq s)) + nat (cnt (wq s))) mod 64"
    using r by (simp add: nat_mod_distrib nat_add_distrib)
  moreover have "int (64 - nat (cnt (wq s))) = 64 - cnt (wq s)" "nat (64 - cnt (wq s)) = 64 - nat (cnt (wq s))" using r by auto
  ultimately show ?thesis
    using push_loop_spec [OF assms, of 0 "int (length b)" b ?j] by (simp add: push_item_def length_ring_items of_nat_min)
qed

lemma ring_get:
  assumes "ring_ok q" "0 < cnt q" "i = (if idx q = 64 then 0 else idx q)"
  shows "item q ! nat i # ring_items (q\<lparr>idx := i + 1, cnt := cnt q - 1\<rparr>) = ring_items q"
proof -
  obtain c where c: "nat (cnt q) = Suc c" using assms(2) by (metis gr0_implies_Suc zero_less_nat_eq)
  have i: "nat i mod 64 = nat (idx q) mod 64" "nat i < 64" "nat (i + 1) = Suc (nat i)" "nat (cnt q - 1) = c"
    using assms(1,3) c by (auto simp: ring_ok_def)
  have m: "Suc (nat i + k) mod 64 = Suc (nat (idx q) + k) mod 64" for k
    using mod_add_cong [OF i(1) refl, of "Suc k"] by simp
  have "item q ! (nat (idx q) mod 64) = item q ! nat i" using i(1,2) by (metis mod_less)
  then show ?thesis
    by (simp add: ring_items_def i(3,4) c m upt_rec [of 0] map_Suc_upt [symmetric] del: upt_Suc)
qed

lemma pop_item_spec:
  assumes "ring_ok (wq s)" "ring_items (wq s) \<noteq> []"
  shows "\<exists>t. pop_item self s = Ret (hd (ring_items (wq s))) t \<and> ring_ok (wq t) \<and> ring_items (wq t) = tl (ring_items (wq s))"
proof -
  have c: "0 < cnt (wq s)" using assms(2) length_ring_items [of "wq s"] by (metis length_greater_0_conv zero_less_nat_eq)
  have "ring_ok ((wq s)\<lparr>idx := (if idx (wq s) = 64 then 0 else idx (wq s)) + 1, cnt := cnt (wq s) - 1\<rparr>)"
    using assms(1) c by (auto simp: ring_ok_def)
  moreover have "0 \<le> (if idx (wq s) = 64 then 0 else idx (wq s))" "(if idx (wq s) = 64 then 0 else idx (wq s)) < 64"
    "length (item (wq s)) = 64" using assms(1) by (auto simp: ring_ok_def)
  ultimately show ?thesis using arg_cong [OF ring_get [OF assms(1) c refl], of hd] arg_cong [OF ring_get [OF assms(1) c refl], of tl]
    by (simp add: pop_item_def MAX_ITEMS_def Let_def)
qed

text \<open>A queue of bounded size, and what its clients may rely on for the record of what went through it.\<close>

locale bounded_fifo =
  fixes ok :: "'s \<Rightarrow> bool" and items :: "'s \<Rightarrow> int list" and put :: "string \<Rightarrow> 's \<Rightarrow> ('s, int) res"
    and get :: "int \<Rightarrow> 's \<Rightarrow> ('s, int) res" and cap :: nat
  assumes put: "ok s \<Longrightarrow> \<exists>t. put b s = Ret (int (min (length b) (cap - length (items s)))) t \<and> ok t \<and>
      items t = items s @ map schar (take (cap - length (items s)) b)"
    and get: "ok s \<Longrightarrow> items s \<noteq> [] \<Longrightarrow> \<exists>t. get self s = Ret (hd (items s)) t \<and> ok t \<and> items t = tl (items s)"
begin

lemma put_history:
  assumes "ok s" "old @ items s = all"
  shows "\<exists>n t. put b s = Ret n t \<and> ok t \<and> old @ items t = all @ map schar (take (nat n) b)"
  using put [OF assms(1), of b] assms(2) by (auto simp: min_def)

lemma get_history:
  assumes "ok s" "items s \<noteq> []" "old @ items s = all"
  shows "\<exists>x t. get self s = Ret x t \<and> ok t \<and> (old @ [x]) @ items t = all"
  using get [OF assms(1,2), of self] assms(2,3) by auto

end

interpretation rq: bounded_fifo "\<lambda>s. ring_ok (wq s)" "\<lambda>s. ring_items (wq s)" push_item pop_item 64
  by unfold_locales (use push_item_spec pop_item_spec in blast)+

section \<open>The threads keep the queue\<close>

fun holds :: "tpc \<Rightarrow> bool" where
  "holds (A_push b) = True"
| "holds A_unlock = True"
| "holds B_test = True"
| "holds (B_unlock x) = True"
| "holds c = False"

definition waker :: "tpc \<Rightarrow> bool" where
  "waker c = (c = A_unlock \<or> c = A_bcast)"

text \<open>The mutex agrees with the threads; while an item is there no thread sleeps, or a broadcast is due.\<close>

definition lock_inv :: "nat option \<Rightarrow> tpc list \<Rightarrow> bool" where
  "lock_inv m l = ((\<forall>i < length l. holds (l ! i) = (m = Some i)) \<and> (\<forall>i. m = Some i \<longrightarrow> i < length l))"

definition wake_inv :: "bool \<Rightarrow> tpc list \<Rightarrow> bool" where
  "wake_inv b l = (b \<longrightarrow> (\<exists>i < length l. l ! i = B_asleep) \<longrightarrow> (\<exists>j < length l. waker (l ! j)))"

definition some_items :: "wsys \<Rightarrow> bool" where
  "some_items s = (cnt (wq (wst s)) > 0)"

definition queue_inv :: "wsys \<Rightarrow> bool" where
  "queue_inv s = (ring_ok (wq (wst s)) \<and> popped s @ ring_items (wq (wst s)) = pushed s \<and> \<not> broken s)"

definition w_inv :: "wsys \<Rightarrow> bool" where
  "w_inv s = (queue_inv s \<and> lock_inv (mtx s) (thr s) \<and> wake_inv (some_items s) (thr s))"

lemma lock_inv_same: "lock_inv m l \<Longrightarrow> i < length l \<Longrightarrow> holds c = holds (l ! i) \<Longrightarrow> lock_inv m (l[i := c])"
  by (auto simp: lock_inv_def nth_list_update)

lemma lock_inv_take: "lock_inv None l \<Longrightarrow> i < length l \<Longrightarrow> holds c \<Longrightarrow> lock_inv (Some i) (l[i := c])"
  by (auto simp: lock_inv_def nth_list_update)

lemma lock_inv_drop: "lock_inv m l \<Longrightarrow> i < length l \<Longrightarrow> holds (l ! i) \<Longrightarrow> \<not> holds c \<Longrightarrow> lock_inv None (l[i := c])"
  by (auto simp: lock_inv_def nth_list_update)

lemma lock_inv_wake: "lock_inv m l \<Longrightarrow> lock_inv m (map wake l)"
proof -
  have "holds (wake c) = holds c" for c by (simp add: wake_def)
  then show "lock_inv m l \<Longrightarrow> lock_inv m (map wake l)" by (simp add: lock_inv_def)
qed

lemma lock_inv_append: "lock_inv m l \<Longrightarrow> \<not> holds c \<Longrightarrow> lock_inv m (l @ [c])"
  by (auto simp: lock_inv_def nth_append less_Suc_eq)

lemma wake_inv_same:
  assumes "wake_inv b l" "i < length l" "c \<noteq> B_asleep" "waker (l ! i) \<Longrightarrow> waker c"
  shows "wake_inv b (l[i := c])"
  unfolding wake_inv_def
proof (intro impI, elim exE conjE)
  fix k
  assume b: b and k: "k < length (l[i := c])" "l[i := c] ! k = B_asleep"
  then have "l ! k = B_asleep" using assms(3) by (metis nth_list_update_eq nth_list_update_neq length_list_update)
  then have "\<exists>k < length l. l ! k = B_asleep" using k(1) by auto
  then obtain j where j: "j < length l" "waker (l ! j)" using assms(1) [unfolded wake_inv_def, THEN mp, OF b] by blast
  then have "waker (l[i := c] ! j)" using assms(4) by (cases "j = i") simp_all
  then show "\<exists>j < length (l[i := c]). waker (l[i := c] ! j)" using j(1) by auto
qed

lemma wake_inv_waker: "i < length l \<Longrightarrow> waker c \<Longrightarrow> wake_inv b (l[i := c])"
  by (auto simp: wake_inv_def)

lemma wake_inv_all: "wake_inv b ((map wake l)[i := A_read])"
proof -
  have "B_asleep \<notin> set ((map wake l)[i := A_read])"
    using set_update_subset_insert [of "map wake l" i A_read] by (auto simp: wake_def split: if_splits)
  then show ?thesis unfolding wake_inv_def by (metis nth_mem)
qed

lemma wake_inv_append:
  assumes "wake_inv b l" "c \<noteq> B_asleep"
  shows "wake_inv b (l @ [c])"
  unfolding wake_inv_def
proof (intro impI, elim exE conjE)
  fix k
  assume b: b and k: "k < length (l @ [c])" "(l @ [c]) ! k = B_asleep"
  then have "k < length l" "l ! k = B_asleep" using assms(2) by (auto simp: nth_append less_Suc_eq)
  then obtain j where "j < length l" "waker (l ! j)" using assms(1) [unfolded wake_inv_def, THEN mp, OF b] by blast
  then show "\<exists>j < length (l @ [c]). waker ((l @ [c]) ! j)" by (intro exI [of _ j]) (simp add: nth_append)
qed

lemma wake_inv_less: "wake_inv b l \<Longrightarrow> (b' \<Longrightarrow> b) \<Longrightarrow> wake_inv b' l"
  by (simp add: wake_inv_def)

lemmas w_inv_defs = w_inv_def queue_inv_def some_items_def

lemma w_inv_frame [simp]:
  "w_inv (tell t s) = w_inv s" "w_inv (s\<lparr>wended := e\<rparr>) = w_inv s" "w_inv (s\<lparr>a_errno := n\<rparr>) = w_inv s"
  "w_inv (s\<lparr>pending := p\<rparr>) = w_inv s" "w_inv (s\<lparr>naps := ns\<rparr>) = w_inv s"
  by (simp_all add: w_inv_defs tell_def)

lemma tell_frame [simp]: "thr (tell t s) = thr s" "mtx (tell t s) = mtx s" "wended (tell t s) = wended s"
  "some_items (tell t s) = some_items s"
  by (simp_all add: tell_def some_items_def)

lemma w_inv_go:
  "w_inv s \<Longrightarrow> i < length (thr s) \<Longrightarrow> holds c = holds (thr s ! i) \<Longrightarrow> c \<noteq> B_asleep \<Longrightarrow> (waker (thr s ! i) \<longrightarrow> waker c) \<Longrightarrow>
     w_inv (go i c s)"
  by (simp add: w_inv_defs go_def lock_inv_same wake_inv_same)

lemma w_inv_lock:
  "w_inv s \<Longrightarrow> i < length (thr s) \<Longrightarrow> holds c \<Longrightarrow> c \<noteq> B_asleep \<Longrightarrow> (waker (thr s ! i) \<longrightarrow> waker c) \<Longrightarrow> w_inv (lock_then i c s)"
  by (cases "mtx s") (simp_all add: w_inv_defs go_def lock_then_def lock_inv_take wake_inv_same)

lemma w_inv_unlock:
  "w_inv s \<Longrightarrow> i < length (thr s) \<Longrightarrow> holds (thr s ! i) \<Longrightarrow> \<not> holds c \<Longrightarrow> wake_inv (some_items s) ((thr s)[i := c]) \<Longrightarrow>
     w_inv (unlock_then i c s)"
  using lock_inv_drop [of "mtx s" "thr s" i c] by (simp add: w_inv_defs go_def unlock_then_def)

lemma tfunc_a_inv:
  assumes "w_inv s" "i < length (thr s)"
  shows "w_inv (tfunc_a rts serr i a (thr s ! i) s)"
proof (cases "thr s ! i")
  case (A_push b)
  have q: "ring_ok (wq (wst s))" "popped s @ ring_items (wq (wst s)) = pushed s" "\<not> broken s" "lock_inv (mtx s) (thr s)"
    using assms(1) by (simp_all add: w_inv_def queue_inv_def)
  obtain n t where "push_item b (wst s) = Ret n t" "ring_ok (wq t)"
    "popped s @ ring_items (wq t) = pushed s @ map schar (take (nat n) b)"
    using rq.put_history [OF q(1,2)] by blast
  then show ?thesis using A_push assms(2) q(3,4)
    by (simp add: w_inv_defs go_def lock_inv_same wake_inv_waker waker_def)
next
  case A_unlock
  then show ?thesis using w_inv_unlock [OF assms, of A_bcast] assms(2) by (simp add: wake_inv_waker waker_def)
next
  case A_bcast
  have "lock_inv (mtx s) ((map wake (thr s))[i := A_read])"
    using assms A_bcast lock_inv_wake by (simp add: lock_inv_same w_inv_def wake_def)
  then show ?thesis using A_bcast assms(1) by (simp add: w_inv_defs go_def tell_def wake_inv_all)
next
  case A_mkfifo
  then show ?thesis using assms by (cases a) (simp_all add: w_inv_go waker_def Let_def quit_def)
next
  case A_open
  then show ?thesis using assms by (cases a) (simp_all add: w_inv_go waker_def quit_def)
next
  case A_read
  then show ?thesis using assms by (cases a) (simp_all add: w_inv_go waker_def quit_def)
next
  case (A_lock b)
  then show ?thesis using assms by (simp add: w_inv_lock waker_def)
qed (use assms in simp_all)

lemma tfunc_b_inv:
  assumes "w_inv s" "i < length (thr s)"
  shows "w_inv (tfunc_b rts self i a (thr s ! i) s)"
proof (cases "thr s ! i")
  case B_test
  have q: "ring_ok (wq (wst s))" "popped s @ ring_items (wq (wst s)) = pushed s" "\<not> broken s" "lock_inv (mtx s) (thr s)"
    using assms(1) by (simp_all add: w_inv_def queue_inv_def)
  show ?thesis
  proof (cases "cnt (wq (wst s)) > 0")
    case True
    then have "ring_items (wq (wst s)) \<noteq> []" using length_ring_items [of "wq (wst s)"] by auto
    then obtain x t where t: "pop_item self (wst s) = Ret x t" "ring_ok (wq t)" "(popped s @ [x]) @ ring_items (wq t) = pushed s"
      using rq.get_history [OF q(1) _ q(2)] by blast
    have "wake_inv (cnt (wq t) > 0) ((thr s)[i := B_unlock x])"
      using wake_inv_less [of True "(thr s)[i := B_unlock x]"] wake_inv_same [of True "thr s" i "B_unlock x"] assms B_test True
      by (simp add: w_inv_defs waker_def)
    then show ?thesis using B_test True t q(3,4) assms(2) by (simp add: w_inv_defs go_def lock_inv_same)
  next
    case False
    then have "wake_inv (some_items s) ((thr s)[i := B_asleep])" by (simp add: wake_inv_def some_items_def)
    then show ?thesis using B_test False assms w_inv_unlock [of "tell t s" i B_asleep for t] by simp
  qed
next
  case (B_unlock x)
  then show ?thesis using assms w_inv_unlock [OF assms, of "B_job x"] wake_inv_same [of "some_items s" "thr s" i "B_job x"]
    by (simp add: w_inv_def waker_def)
next
  case B_notify
  then show ?thesis using assms by (cases a) (simp_all add: w_inv_go waker_def)
qed (use assms in \<open>simp_all add: w_inv_go w_inv_lock waker_def\<close>)

lemma start_sigthread_inv:
  assumes "w_inv s" "i < length (thr s)"
  shows "w_inv (start_sigthread serr tid i a (thr s ! i) s)"
proof (cases "thr s ! i")
  case S_wait
  then show ?thesis using assms by (cases a; cases "pending s") simp_all
qed (use assms in \<open>simp_all add: w_inv_go waker_def\<close>)

lemma main_step_inv: "w_inv s \<Longrightarrow> w_inv (main_step rts tid a s)"
proof -
  assume s: "w_inv s"
  have "\<not> holds c \<and> c \<noteq> B_asleep" if "c \<in> set (t_arg rts)" for c using that by (auto simp: t_arg_def split: if_splits)
  then have "w_inv (s\<lparr>thr := thr s @ [t_arg rts ! length (thr s)]\<rparr>)" if "length (thr s) < length (t_arg rts)"
    using that s by (simp add: w_inv_defs lock_inv_append wake_inv_append)
  then show ?thesis using s by (cases a) (simp_all add: main_step_def Let_def)
qed

lemma w_reach_inv: "w_reach rts serr tid s \<Longrightarrow> w_inv s"
proof (induction rule: w_reach.induct)
  case (w_start a)
  have "w_inv empty_wsys"
    by (simp add: empty_wsys_def w_inv_defs ring_ok_def ring_items_def lock_inv_def wake_inv_def)
  then show ?case by (cases a) (simp_all add: w_init_def quit_def)
next
  case (w_step s i a)
  then show ?case
    by (simp add: thread_step_def tfunc_a_inv tfunc_b_inv start_sigthread_inv split: trole.split)
qed (simp add: main_step_inv)

section \<open>Properties\<close>

text \<open>
  C27. The ring buffer is a first-in first-out queue for the threads of both programs: in every interleaving, with
  any failures and spurious wake-ups, the items that consumers have taken followed by those in the queue are
  exactly the items that were pushed, in their order, and no access leaves the array.
\<close>

theorem workqueue_fifo:
  assumes "w_reach rts serr tid s"
  shows "\<not> broken s \<and> popped s @ ring_items (wq (wst s)) = pushed s \<and> length (ring_items (wq (wst s))) \<le> 64"
  using w_reach_inv [OF assms] by (simp add: w_inv_def queue_inv_def length_ring_items ring_ok_def nat_le_iff)

text \<open>
  C28. No wake-up is lost: whenever the queue holds an item and a consumer sleeps, the producer has pushed and
  is about to broadcast, which wakes every consumer. The thread that holds the mutex is the only one in a
  critical section.
\<close>

theorem no_lost_wakeup:
  assumes "w_reach rts serr tid s" "ring_items (wq (wst s)) \<noteq> []" "B_asleep \<in> set (thr s)"
  shows "A_unlock \<in> set (thr s) \<or> A_bcast \<in> set (thr s)"
proof -
  have "some_items s" using assms(2) length_ring_items [of "wq (wst s)"]
    unfolding some_items_def by (metis length_greater_0_conv zero_less_nat_eq)
  moreover have "wake_inv (some_items s) (thr s)" using w_reach_inv [OF assms(1)] by (simp add: w_inv_def)
  ultimately obtain j where "j < length (thr s)" "waker (thr s ! j)" using assms(3) unfolding wake_inv_def by (metis in_set_conv_nth)
  then show ?thesis by (metis nth_mem waker_def)
qed

text \<open>
  A byte from 0 to 127 makes its consumer sleep for one to five seconds. A byte above 127 is a negative
  item, and unless its remainder by 5 is 0 or -1 the consumer sleeps for more than four billion seconds, since
  sleep(3) takes an unsigned number.
\<close>

theorem process_job_seconds:
  "process_job (schar c) =
     (let n = of_char c :: nat; m = (256 - n) mod 5
      in if n < 128 then n mod 5 + 1 else if m \<le> 1 then 1 - m else 2 ^ 32 + 1 - m)"
proof (cases "(of_char c :: nat) < 128")
  case True
  then show ?thesis by (simp add: process_job_def schar_def crem_def Let_def nat_mod_distrib nat_add_distrib)
next
  case False
  define m :: nat where "m = (256 - of_char c) mod 5"
  have l: "(of_char c :: nat) < 256" using nat_of_char_less_256 [of c] by simp
  have "schar c = - int (256 - of_char c)" using False l by (simp add: schar_def Let_def of_nat_diff less_imp_le)
  then have "crem (schar c) 5 = - int m" using l by (simp add: crem_def m_def zmod_int of_nat_diff less_imp_le)
  moreover have "m = 0 \<or> m = 1 \<or> m = 2 \<or> m = 3 \<or> m = 4"
    using mod_less_divisor [of 5 "256 - of_char c"] unfolding m_def by linarith
  ultimately show ?thesis using False by (auto simp: process_job_def Let_def m_def [symmetric])
qed

text \<open>Thread \<open>i\<close> of the first program takes \<open>n\<close> steps.\<close>

definition steps :: "nat \<Rightarrow> wans list \<Rightarrow> wsys \<Rightarrow> wsys" where
  "steps i as s = fold (\<lambda>a s. thread_step False (\<lambda>e. []) int i a s) as s"

definition created :: wsys where
  "created = fold (\<lambda>a s. main_step False int a s) [WOk, WOk, WOk, WOk] (w_init False (\<lambda>e. []) WOk)"

lemma steps_reach: "w_reach False (\<lambda>e. []) int s \<Longrightarrow> w_reach False (\<lambda>e. []) int (steps i as s)"
  by (induction as arbitrary: s) (simp_all add: steps_def w_step)

lemma created_reach: "w_reach False (\<lambda>e. []) int created"
proof -
  let ?m = "\<lambda>s. main_step False int WOk s" and ?i = "w_init False (\<lambda>e. []) WOk"
  have "wended ?i = None \<and> \<not> broken ?i" "wended (?m ?i) = None \<and> \<not> broken (?m ?i)"
    "wended (?m (?m ?i)) = None \<and> \<not> broken (?m (?m ?i))" "wended (?m (?m (?m ?i))) = None \<and> \<not> broken (?m (?m (?m ?i)))"
    by code_simp+
  then show ?thesis by (simp add: created_def w_start w_main)
qed

definition one_taken :: wsys where
  "one_taken = steps 1 (replicate 3 WOk) (steps 0 [WOk, WOk, WData ''ab'', WOk, WOk, WOk] created)"

definition one_asleep :: wsys where
  "one_asleep = steps 0 [WOk, WOk, WData ''ab'', WOk, WOk] (steps 1 (replicate 3 WOk) created)"

theorem workqueue_fifo_witness:
  "popped one_taken = [97] \<and> popped one_taken @ ring_items (wq (wst one_taken)) = [97, 98]"
proof -
  have "popped one_taken = [97]" "pushed one_taken = [97, 98]" by code_simp+
  then show ?thesis using workqueue_fifo [of False "\<lambda>e. []" int one_taken]
    by (simp add: one_taken_def steps_reach created_reach)
qed

theorem no_lost_wakeup_witness:
  "B_asleep \<in> set (thr one_asleep) \<and> (A_unlock \<in> set (thr one_asleep) \<or> A_bcast \<in> set (thr one_asleep))"
proof -
  have "ring_items (wq (wst one_asleep)) \<noteq> []" "B_asleep \<in> set (thr one_asleep)" by code_simp+
  then show ?thesis using no_lost_wakeup [of False "\<lambda>e. []" int one_asleep]
    by (simp add: one_asleep_def steps_reach created_reach)
qed

end
