(* ===== verification/ProdCons.thy ===== *)
theory ProdCons
  imports ErrorFunctions
begin

text \<open>
  The producer and consumer programs \<open>tlpi-dist/threads/prod_condvar.c\<close> and \<open>prod_no_condvar.c\<close>: the main thread
  creates one producer for each argument and consumes the units they make. In the first program it waits on a
  condition variable, in the second it polls; the flag \<open>cv\<close> tells them apart. The threads interleave at their
  calls. The answer to a pthread call is the number it returns, 0 for success. The overflow of an int is
  \<open>Undef\<close>.
\<close>

section \<open>State\<close>

text \<open>A producer before its loop test, the lock, the increment, the unlock, the signal, and after its return.\<close>

datatype prpc = P_loop | P_lock | P_incr | P_unlock | P_signal | P_done

record producer =
  at :: prpc
  units :: int

datatype mpc = M_create | M_lock | M_test | M_wait | M_woken | M_consume | M_unlock | M_exited

text \<open>
  The mutex is held by \<open>Some 0\<close>, the main thread, or by \<open>Some (Suc i)\<close>, producer \<open>i\<close>. \<open>args\<close> are the arguments for
  which there is no thread yet. \<open>over\<close> is how the process has ended.
\<close>

record pcst =
  avail :: int
  owner :: "nat option"
  prods :: "producer list"
  mpos :: mpc
  args :: "string list"
  totRequired :: int
  numConsumed :: int
  isdone :: bool
  io :: "unit proc"
  over :: "(unit proc, unit) res option"

definition int_ok :: "int \<Rightarrow> bool" where
  "int_ok n = (INT_MIN \<le> n \<and> n \<le> INT_MAX)"

text \<open>\<open>errExitEN\<close> in any thread ends the process.\<close>

definition die :: "(int \<Rightarrow> string) \<Rightarrow> int \<Rightarrow> string \<Rightarrow> pcst \<Rightarrow> pcst" where
  "die serr e m s = s\<lparr>over := Some (errExitEN serr e m (io s))\<rparr>"

definition undef :: "pcst \<Rightarrow> pcst" where
  "undef s = s\<lparr>over := Some Undef\<rparr>"

definition put :: "nat \<Rightarrow> prpc \<Rightarrow> int \<Rightarrow> pcst \<Rightarrow> pcst" where
  "put i c n s = s\<lparr>prods := (prods s)[i := \<lparr>at = c, units = n\<rparr>]\<rparr>"

section \<open>The threads\<close>

fun threadFunc :: "bool \<Rightarrow> (int \<Rightarrow> string) \<Rightarrow> nat \<Rightarrow> int \<Rightarrow> prpc \<Rightarrow> int \<Rightarrow> pcst \<Rightarrow> pcst" where
  "threadFunc cv serr i a P_loop n s = put i (if n > 0 then P_lock else P_done) n s"
| "threadFunc cv serr i a P_lock n s =
     (if a \<noteq> 0 then die serr a ''pthread_mutex_lock'' s
      else if owner s = None then put i P_incr n (s\<lparr>owner := Some (Suc i)\<rparr>) else s)"
| "threadFunc cv serr i a P_incr n s =
     (if int_ok (avail s + 1) then put i P_unlock n (s\<lparr>avail := avail s + 1\<rparr>) else undef s)"
| "threadFunc cv serr i a P_unlock n s =
     (if a \<noteq> 0 then die serr a ''pthread_mutex_unlock'' s
      else if cv then put i P_signal n (s\<lparr>owner := None\<rparr>) else put i P_loop (n - 1) (s\<lparr>owner := None\<rparr>))"
| "threadFunc cv serr i a P_signal n s =
     (if a \<noteq> 0 then die serr a ''pthread_cond_signal'' s
      else put i P_loop (n - 1) (s\<lparr>mpos := (if mpos s = M_wait then M_woken else mpos s)\<rparr>))"
| "threadFunc cv serr i a P_done n s = s"

text \<open>\<open>now\<close> is the time since the start. The main thread is followed from the creation of the threads to its exit.\<close>

fun main :: "bool \<Rightarrow> (int \<Rightarrow> string) \<Rightarrow> int \<Rightarrow> int \<Rightarrow> mpc \<Rightarrow> pcst \<Rightarrow> pcst" where
  "main cv serr now a M_create s =
     (case args s of
        [] \<Rightarrow> s\<lparr>mpos := M_lock\<rparr>
      | x # xs \<Rightarrow>
          if \<not> int_ok (totRequired s + atoi x) then undef s
          else let t = s\<lparr>totRequired := totRequired s + atoi x\<rparr>
               in if a \<noteq> 0 then die serr a ''pthread_create'' t
                  else t\<lparr>args := xs, prods := prods t @ [\<lparr>at = P_loop, units = atoi x\<rparr>]\<rparr>)"
| "main cv serr now a M_lock s =
     (if a \<noteq> 0 then die serr a ''pthread_mutex_lock'' s
      else if owner s = None then s\<lparr>owner := Some 0, mpos := (if cv then M_test else M_consume)\<rparr> else s)"
| "main cv serr now a M_test s =
     (if avail s = 0
      then if a \<noteq> 0 then die serr a ''pthread_cond_wait'' s else s\<lparr>owner := None, mpos := M_wait\<rparr>
      else s\<lparr>mpos := M_consume\<rparr>)"
| "main cv serr now a M_wait s = s"
| "main cv serr now a M_woken s = (if owner s = None then s\<lparr>owner := Some 0, mpos := M_test\<rparr> else s)"
| "main cv serr now a M_consume s =
     (if avail s > 0
      then if int_ok (numConsumed s + 1)
           then s\<lparr>numConsumed := numConsumed s + 1, avail := avail s - 1,
                  io := printf_out (msg [''T='', dec now, '': numConsumed='', dec (numConsumed s + 1), nl]) (io s),
                  isdone := (numConsumed s + 1 \<ge> totRequired s)\<rparr>
           else undef s
      else s\<lparr>mpos := M_unlock\<rparr>)"
| "main cv serr now a M_unlock s =
     (if a \<noteq> 0 then die serr a ''pthread_mutex_unlock'' s
      else if isdone s then s\<lparr>owner := None, mpos := M_exited, over := Some (exit3 EXIT_SUCCESS (io s))\<rparr>
      else s\<lparr>owner := None, mpos := M_lock\<rparr>)"
| "main cv serr now a M_exited s = s"

text \<open>A step of the main thread, \<open>0\<close>, or of producer \<open>i\<close>, \<open>Suc i\<close>.\<close>

definition move :: "bool \<Rightarrow> (int \<Rightarrow> string) \<Rightarrow> nat \<Rightarrow> int \<Rightarrow> int \<Rightarrow> pcst \<Rightarrow> pcst" where
  "move cv serr t now a s =
     (if over s \<noteq> None then s
      else case t of
             0 \<Rightarrow> main cv serr now a (mpos s) s
           | Suc i \<Rightarrow> if i < length (prods s) then threadFunc cv serr i a (at (prods s ! i)) (units (prods s ! i)) s else s)"

definition begin_state :: "string list \<Rightarrow> unit proc \<Rightarrow> pcst" where
  "begin_state argv p = \<lparr>avail = 0, owner = None, prods = [], mpos = M_create, args = argv, totRequired = 0,
     numConsumed = 0, isdone = False, io = p, over = None\<rparr>"

text \<open>The reachable states; pthread_cond_wait(3) may also return without a signal.\<close>

inductive pc_reach :: "bool \<Rightarrow> (int \<Rightarrow> string) \<Rightarrow> string list \<Rightarrow> unit proc \<Rightarrow> pcst \<Rightarrow> bool" for cv serr argv p where
  pc_start: "pc_reach cv serr argv p (begin_state argv p)"
| pc_move: "pc_reach cv serr argv p s \<Longrightarrow> pc_reach cv serr argv p (move cv serr t now a s)"
| pc_spurious: "pc_reach cv serr argv p s \<Longrightarrow> over s = None \<Longrightarrow> mpos s = M_wait \<Longrightarrow> pc_reach cv serr argv p (s\<lparr>mpos := M_woken\<rparr>)"

text \<open>Runs of \<open>n\<close> steps in which every call succeeds and every step does something.\<close>

inductive pc_run :: "(int \<Rightarrow> string) \<Rightarrow> string list \<Rightarrow> unit proc \<Rightarrow> nat \<Rightarrow> pcst \<Rightarrow> bool" for serr argv p where
  run_start: "pc_run serr argv p 0 (begin_state argv p)"
| run_step: "pc_run serr argv p n s \<Longrightarrow> move True serr t now 0 s \<noteq> s \<Longrightarrow> pc_run serr argv p (Suc n) (move True serr t now 0 s)"

section \<open>The invariant\<close>

definition total :: "string list \<Rightarrow> int" where
  "total xs = sum_list (map atoi xs)"

definition mholds :: "mpc \<Rightarrow> bool" where
  "mholds c = (c = M_test \<or> c = M_consume \<or> c = M_unlock)"

definition pholds :: "producer \<Rightarrow> bool" where
  "pholds p = (at p = P_incr \<or> at p = P_unlock)"

definition made :: "producer \<Rightarrow> bool" where
  "made p = (at p = P_unlock \<or> at p = P_signal)"

definition owed :: "producer \<Rightarrow> int" where
  "owed p = units p - (if made p then 1 else 0)"

definition prod_ok :: "producer \<Rightarrow> bool" where
  "prod_ok p = (0 \<le> units p \<and> (at p \<noteq> P_loop \<and> at p \<noteq> P_done \<longrightarrow> 0 < units p) \<and> (at p = P_done \<longrightarrow> units p = 0))"

text \<open>The mutex agrees with where the threads are.\<close>

definition lock_ok :: "pcst \<Rightarrow> bool" where
  "lock_ok s =
     ((owner s = Some 0) = mholds (mpos s) \<and>
      (\<forall>i < length (prods s). (owner s = Some (Suc i)) = pholds (prods s ! i)) \<and>
      (\<forall>i. owner s = Some (Suc i) \<longrightarrow> i < length (prods s)))"

text \<open>Every unit is consumed, available, or still to be made.\<close>

definition units_ok :: "string list \<Rightarrow> pcst \<Rightarrow> bool" where
  "units_ok argv s =
     (numConsumed s + avail s + sum_list (map owed (prods s)) + total (args s) = total argv \<and>
      totRequired s + total (args s) = total argv \<and> 0 \<le> avail s \<and> 0 \<le> numConsumed s \<and> 0 \<le> totRequired s \<and>
      (\<forall>p \<in> set (prods s). prod_ok p) \<and> (\<forall>x \<in> set (args s). 0 \<le> atoi x))"

text \<open>The main thread stops waiting when there is something, and the loop ends when all is consumed.\<close>

definition main_ok :: "bool \<Rightarrow> pcst \<Rightarrow> bool" where
  "main_ok cv s =
     ((mpos s = M_wait \<and> 0 < avail s \<longrightarrow> (\<exists>p \<in> set (prods s). made p)) \<and>
      (mpos s \<noteq> M_create \<longrightarrow> args s = []) \<and> (mpos s = M_create \<longrightarrow> numConsumed s = 0) \<and>
      (isdone s \<longrightarrow> mpos s = M_consume \<or> mpos s = M_unlock \<or> mpos s = M_exited) \<and>
      isdone s = (0 < numConsumed s \<and> totRequired s \<le> numConsumed s) \<and>
      (mpos s = M_exited \<longrightarrow> isdone s) \<and> (over s = None) = (mpos s \<noteq> M_exited) \<and> (mpos s = M_exited \<longrightarrow> over s = Some (exit3 EXIT_SUCCESS (io s))) \<and>
       over s \<noteq> Some Undef \<and> 
      (cv \<or> mpos s \<noteq> M_test \<and> mpos s \<noteq> M_wait \<and> mpos s \<noteq> M_woken \<and> (\<forall>p \<in> set (prods s). at p \<noteq> P_signal)))"

text \<open>The invariant holds until a call fails.\<close>

definition failed :: "pcst \<Rightarrow> bool" where
  "failed s = (over s \<noteq> None \<and> over s \<noteq> Some Undef \<and> mpos s \<noteq> M_exited)"

definition live_inv :: "bool \<Rightarrow> string list \<Rightarrow> pcst \<Rightarrow> bool" where
  "live_inv cv argv s = (lock_ok s \<and> units_ok argv s \<and> main_ok cv s)"

definition pc_inv :: "bool \<Rightarrow> string list \<Rightarrow> pcst \<Rightarrow> bool" where
  "pc_inv cv argv s = (failed s \<or> live_inv cv argv s)"

lemma sum_owed_nonneg:
  assumes "\<forall>p \<in> set ps. prod_ok p"
  shows "0 \<le> sum_list (map owed ps)"
proof (rule sum_list_nonneg)
  fix x
  assume "x \<in> set (map owed ps)"
  then obtain p where p: "p \<in> set ps" "x = owed p" by auto
  then have "prod_ok p" using assms by simp
  then show "0 \<le> x" using p(2) by (auto simp: owed_def made_def prod_ok_def)
qed

lemma total_nonneg: "\<forall>x \<in> set xs. 0 \<le> atoi x \<Longrightarrow> 0 \<le> total xs"
  unfolding total_def by (rule sum_list_nonneg) auto

lemma errExitEN_not_undef: "errExitEN serr e m p \<noteq> Undef"
  by (simp add: errExitEN_def terminate_def exit3_def split: option.split)

lemma die_failed: "mpos s \<noteq> M_exited \<Longrightarrow> failed (die serr e m s)"
  by (simp add: failed_def die_def errExitEN_not_undef)

text \<open>No number is larger than the total.\<close>

lemma numbers_fit:
  assumes "units_ok argv s" "total argv \<le> INT_MAX"
  shows "0 \<le> avail s" "avail s + numConsumed s \<le> total argv" "totRequired s \<le> total argv"
proof -
  have "0 \<le> sum_list (map owed (prods s))" "0 \<le> total (args s)"
    using assms(1) sum_owed_nonneg total_nonneg by (auto simp: units_ok_def)
  then show "0 \<le> avail s" "avail s + numConsumed s \<le> total argv" "totRequired s \<le> total argv"
    using assms(1) by (auto simp: units_ok_def)
qed

lemma lock_put:
  assumes "lock_ok s" "i < length (prods s)" "owner t = owner s" "mholds (mpos t) = mholds (mpos s)" "prods t = prods s"
    "pholds \<lparr>at = c, units = n\<rparr> = pholds (prods s ! i)"
  shows "lock_ok (put i c n t)"
  using assms by (auto simp: lock_ok_def put_def nth_list_update)

lemma lock_take:
  assumes "lock_ok s" "i < length (prods s)" "owner s = None" "pholds \<lparr>at = c, units = n\<rparr>"
  shows "lock_ok (put i c n (s\<lparr>owner := Some (Suc i)\<rparr>))"
  using assms by (auto simp: lock_ok_def put_def nth_list_update)

lemma lock_drop:
  assumes "lock_ok s" "i < length (prods s)" "pholds (prods s ! i)" "\<not> pholds \<lparr>at = c, units = n\<rparr>"
  shows "lock_ok (put i c n (s\<lparr>owner := None\<rparr>))"
proof -
  have "owner s = Some (Suc i)" using assms by (simp add: lock_ok_def)
  then show ?thesis using assms by (auto simp: lock_ok_def put_def nth_list_update)
qed

lemma units_put:
  assumes "units_ok argv s" "i < length (prods s)" "prods t = prods s" "args t = args s" "totRequired t = totRequired s"
    "numConsumed t = numConsumed s" "prod_ok \<lparr>at = c, units = n\<rparr>" "0 \<le> avail t"
    "avail t + owed \<lparr>at = c, units = n\<rparr> = avail s + owed (prods s ! i)"
  shows "units_ok argv (put i c n t)"
proof -
  have "\<forall>p \<in> set ((prods s)[i := \<lparr>at = c, units = n\<rparr>]). prod_ok p"
    using assms(1,7) set_update_subset_insert [of "prods s" i "\<lparr>at = c, units = n\<rparr>"] by (auto simp: units_ok_def)
  then show ?thesis using assms by (simp add: units_ok_def put_def sum_list_upd)
qed

lemma main_put:
  assumes "main_ok cv s" "i < length (prods s)" "prods t = prods s" "args t = args s" "totRequired t = totRequired s"
    "numConsumed t = numConsumed s" "isdone t = isdone s" "over t = over s" "mpos t = mpos s" "io t = io s" "cv \<or> c \<noteq> P_signal"
    "made \<lparr>at = c, units = n\<rparr> \<or> \<not> made (prods s ! i) \<and> avail t = avail s \<or> mpos s \<noteq> M_wait"
  shows "main_ok cv (put i c n t)"
proof -
  let ?ps = "(prods s)[i := \<lparr>at = c, units = n\<rparr>]"
  have "\<exists>p \<in> set ?ps. made p" if "made \<lparr>at = c, units = n\<rparr>"
    using that set_update_memI [OF assms(2)] by blast
  moreover have "\<exists>p \<in> set ?ps. made p" if ex: "\<exists>p \<in> set (prods s). made p" and no: "\<not> made (prods s ! i)"
  proof -
    obtain j where j: "j < length (prods s)" "made (prods s ! j)" "j \<noteq> i" using ex no by (metis in_set_conv_nth)
    have "?ps ! j = prods s ! j" using j(3) by simp
    moreover have "?ps ! j \<in> set ?ps" using j(1) by (intro nth_mem) simp
    ultimately show ?thesis using j(2) by metis
  qed
  ultimately have w: "mpos s = M_wait \<and> 0 < avail t \<longrightarrow> (\<exists>p \<in> set ?ps. made p)"
    using assms(1,12) unfolding main_ok_def by metis
  have "at p \<noteq> P_signal" if "\<not> cv" "p \<in> set ?ps" for p
    using assms(1,11) that set_update_subset_insert [of "prods s" i "\<lparr>at = c, units = n\<rparr>"] by (auto simp: main_ok_def)
  then show ?thesis using assms(1) w by (simp add: main_ok_def put_def assms(3-10)) blast
qed

lemma units_frame [simp]: "units_ok argv (s\<lparr>mpos := c\<rparr>) = units_ok argv s" "units_ok argv (s\<lparr>owner := m\<rparr>) = units_ok argv s"
  "units_ok argv (s\<lparr>over := r\<rparr>) = units_ok argv s" "units_ok argv (s\<lparr>owner := m, mpos := c\<rparr>) = units_ok argv s"
  "units_ok argv (s\<lparr>owner := m, mpos := c, over := r\<rparr>) = units_ok argv s"
  by (simp_all add: units_ok_def)

lemma woken_inv: "live_inv cv argv s \<Longrightarrow> mpos s = M_wait \<Longrightarrow> live_inv cv argv (s\<lparr>mpos := M_woken\<rparr>)"
  by (auto simp: live_inv_def lock_ok_def main_ok_def mholds_def)

lemma threadFunc_inv:
  assumes "live_inv cv argv s" "over s = None" "total argv \<le> INT_MAX" "i < length (prods s)" "prods s ! i = \<lparr>at = c, units = n\<rparr>"
  shows "pc_inv cv argv (threadFunc cv serr i a c n s)"
proof -
  have l: "lock_ok s" and u: "units_ok argv s" and m: "main_ok cv s" using assms(1) by (simp_all add: live_inv_def)
  have ok: "prod_ok \<lparr>at = c, units = n\<rparr>" using u assms(4,5) nth_mem by (fastforce simp: units_ok_def)
  have x: "mpos s \<noteq> M_exited" using m assms(2) by (simp add: main_ok_def)
  note fit = numbers_fit [OF u assms(3)]
  note put = pc_inv_def live_inv_def lock_put [OF l assms(4)] units_put [OF u assms(4)] main_put [OF m assms(4)] assms(5)
  note vals = prod_ok_def owed_def made_def pholds_def
  show ?thesis
  proof (cases c)
    case P_loop
    then show ?thesis using ok fit(1) by (simp add: put vals)
  next
    case P_lock
    then show ?thesis using ok fit(1) die_failed [OF x] lock_take [OF l assms(4)] assms(1) by (simp add: put vals)
  next
    case P_incr
    have u1: "units_ok argv (put i P_unlock n (s\<lparr>avail := avail s + 1\<rparr>))" using P_incr ok fit(1) by (simp add: put vals)
    then have "int_ok (avail s + 1)"
      using numbers_fit [OF u1 assms(3)] assms(3) u by (simp add: put_def int_ok_def units_ok_def INT_MIN_def)
    then show ?thesis using P_incr ok u1 by (simp add: put vals)
  next
    case P_unlock
    have "main_ok cv (put i P_signal n (s\<lparr>owner := None\<rparr>))" if cv
      using that P_unlock main_put [OF m assms(4), of "s\<lparr>owner := None\<rparr>" P_signal n] by (simp add: made_def)
    moreover have "main_ok cv (put i P_loop (n - 1) (s\<lparr>owner := None\<rparr>))" if "\<not> cv"
    proof (rule main_put [OF m assms(4)])
      show "made \<lparr>at = P_loop, units = n - 1\<rparr> \<or> \<not> made (prods s ! i) \<and> avail (s\<lparr>owner := None\<rparr>) = avail s \<or> mpos s \<noteq> M_wait"
        using that m by (simp add: main_ok_def)
    qed simp_all
    ultimately show ?thesis using P_unlock ok fit(1) die_failed [OF x] lock_drop [OF l assms(4)] by (simp add: put vals)
  next
    case P_signal
    let ?t = "s\<lparr>mpos := (if mpos s = M_wait then M_woken else mpos s)\<rparr>"
    have t: "live_inv cv argv ?t" using woken_inv [OF assms(1)] assms(1) by simp
    have "mpos ?t \<noteq> M_wait" "avail ?t = avail s" by simp_all
    then have "live_inv cv argv (put i P_loop (n - 1) ?t)"
      using t P_signal ok fit(1) lock_put [of ?t i ?t] units_put [of argv ?t i ?t] main_put [of cv ?t i ?t] assms(4,5)
      by (simp add: live_inv_def vals)
    then show ?thesis using P_signal die_failed [OF x] by (simp add: pc_inv_def)
  next
    case P_done
    then show ?thesis using assms(1) by (simp add: pc_inv_def)
  qed
qed

lemma main_inv:
  assumes "live_inv cv argv s" "over s = None" "total argv \<le> INT_MAX"
  shows "pc_inv cv argv (main cv serr now a (mpos s) s)"
proof -
  have l: "lock_ok s" and u: "units_ok argv s" and m: "main_ok cv s" using assms(1) by (simp_all add: live_inv_def)
  have x: "mpos s \<noteq> M_exited" using m assms(2) by (simp add: main_ok_def)
  note fit = numbers_fit [OF u assms(3)]
  show ?thesis
  proof (cases "mpos s")
    case M_create
    show ?thesis
    proof (cases "args s")
      case Nil
      then show ?thesis using M_create l u m by (auto simp: pc_inv_def live_inv_def lock_ok_def main_ok_def mholds_def)
    next
      case (Cons y ys)
      let ?t = "s\<lparr>totRequired := totRequired s + atoi y\<rparr>"
      let ?u = "?t\<lparr>args := ys, prods := prods s @ [\<lparr>at = P_loop, units = atoi y\<rparr>]\<rparr>"
      have y: "0 \<le> atoi y" "\<forall>x \<in> set ys. 0 \<le> atoi x" "total (args s) = atoi y + total ys"
        using u Cons by (simp_all add: units_ok_def total_def)
      have "int_ok (totRequired s + atoi y)"
        using u y(1,3) total_nonneg [OF y(2)] assms(3) by (simp add: units_ok_def int_ok_def INT_MIN_def)
      moreover have "live_inv cv argv ?u"
      proof -
        have "lock_ok ?u" using l M_create by (auto simp: lock_ok_def mholds_def pholds_def nth_append less_Suc_eq)
        moreover have "units_ok argv ?u" using u y by (auto simp: units_ok_def owed_def made_def prod_ok_def)
        moreover have "main_ok cv ?u" using m M_create by (auto simp: main_ok_def)
        ultimately show ?thesis by (simp add: live_inv_def)
      qed
      ultimately show ?thesis using M_create Cons die_failed [of ?t] by (simp add: pc_inv_def Let_def)
    qed
  next
    case M_lock
    then show ?thesis using l u m die_failed [OF x] assms(1) by (auto simp: pc_inv_def live_inv_def lock_ok_def main_ok_def mholds_def)
  next
    case M_test
    then show ?thesis using l u m die_failed [OF x] by (auto simp: pc_inv_def live_inv_def lock_ok_def main_ok_def mholds_def)
  next
    case M_wait
    then show ?thesis using assms(1) by (simp add: pc_inv_def)
  next
    case M_woken
    then show ?thesis using l u m assms(1) by (auto simp: pc_inv_def live_inv_def lock_ok_def main_ok_def mholds_def)
  next
    case M_consume
    show ?thesis
    proof (cases "avail s > 0")
      case True
      then have "int_ok (numConsumed s + 1)" using fit assms(3) u by (simp add: int_ok_def INT_MIN_def units_ok_def)
      then show ?thesis using True M_consume l u m
        by (auto simp: pc_inv_def live_inv_def lock_ok_def main_ok_def mholds_def units_ok_def)
    next
      case False
      then show ?thesis using M_consume l u m by (auto simp: pc_inv_def live_inv_def lock_ok_def main_ok_def mholds_def)
    qed
  next
    case M_unlock
    then show ?thesis using l u m die_failed [OF x] by (auto simp: pc_inv_def live_inv_def lock_ok_def main_ok_def mholds_def exit3_def)
  next
    case M_exited
    then show ?thesis using x by simp
  qed
qed

definition sane :: "string list \<Rightarrow> bool" where
  "sane argv = ((\<forall>x \<in> set argv. 0 \<le> atoi x) \<and> total argv \<le> INT_MAX)"

lemma begin_inv: "sane argv \<Longrightarrow> live_inv cv argv (begin_state argv p)"
  by (simp add: sane_def live_inv_def lock_ok_def units_ok_def main_ok_def begin_state_def mholds_def)

lemma move_inv:
  assumes "live_inv cv argv s" "sane argv"
  shows "pc_inv cv argv (move cv serr t now a s)"
proof (cases "over s = None")
  case True
  have tot: "total argv \<le> INT_MAX" using assms(2) by (simp add: sane_def)
  have "pc_inv cv argv (threadFunc cv serr i a (at (prods s ! i)) (units (prods s ! i)) s)" if "i < length (prods s)" for i
    using threadFunc_inv [OF assms(1) True tot that, of "at (prods s ! i)" "units (prods s ! i)"] by simp
  then show ?thesis using main_inv [OF assms(1) True tot] True assms(1) by (auto simp: move_def pc_inv_def split: nat.split)
qed (use assms(1) in \<open>simp add: move_def pc_inv_def\<close>)

lemma pc_reach_inv:
  assumes "pc_reach cv serr argv p s" "sane argv"
  shows "pc_inv cv argv s"
  using assms(1)
proof (induction rule: pc_reach.induct)
  case pc_start
  show ?case using begin_inv [OF assms(2)] by (simp add: pc_inv_def)
next
  case (pc_move s t now a)
  show ?case
  proof (cases "failed s")
    case True
    then show ?thesis by (simp add: pc_inv_def move_def failed_def)
  next
    case False
    then show ?thesis using pc_move.IH move_inv [OF _ assms(2)] by (simp add: pc_inv_def)
  qed
next
  case (pc_spurious s)
  then have "live_inv cv argv s" by (simp add: pc_inv_def failed_def)
  then show ?case using woken_inv pc_spurious.hyps(3) by (simp add: pc_inv_def)
qed

lemma exited_consumed:
  assumes "live_inv cv argv s" "mpos s = M_exited"
  shows "numConsumed s = total argv" "avail s = 0" "over s = Some (exit3 EXIT_SUCCESS (io s))"
proof -
  have u: "units_ok argv s" and m: "main_ok cv s" using assms(1) by (simp_all add: live_inv_def)
  have "args s = []" using m assms(2) by (simp add: main_ok_def)
  then have "totRequired s = total argv" "numConsumed s + avail s + sum_list (map owed (prods s)) = total argv"
    using u by (simp_all add: units_ok_def total_def)
  moreover have "totRequired s \<le> numConsumed s" using m assms(2) by (auto simp: main_ok_def)
  moreover have "0 \<le> sum_list (map owed (prods s))" "0 \<le> avail s" using u sum_owed_nonneg by (auto simp: units_ok_def)
  ultimately show "numConsumed s = total argv" "avail s = 0" by linarith+
  show "over s = Some (exit3 EXIT_SUCCESS (io s))" using m assms(2) by (simp add: main_ok_def)
qed

section \<open>Progress\<close>

lemma producer_moves:
  assumes "i < length (prods s)" "over s = None" "at (prods s ! i) \<noteq> P_done" "at (prods s ! i) = P_lock \<longrightarrow> owner s = None"
  shows "move True serr (Suc i) now 0 s \<noteq> s"
proof
  assume e: "move True serr (Suc i) now 0 s = s"
  have "at (prods (move True serr (Suc i) now 0 s) ! i) \<noteq> at (prods s ! i) \<or> over (move True serr (Suc i) now 0 s) \<noteq> None"
    using assms by (cases "at (prods s ! i)") (auto simp: move_def put_def undef_def)
  then show False using e assms(2) by simp
qed

lemma main_moves:
  assumes "over s = None" "mpos s = M_create \<or> mholds (mpos s) \<or> owner s = None \<and> (mpos s = M_lock \<or> mpos s = M_woken)"
  shows "move True serr 0 now 0 s \<noteq> s"
proof
  assume e: "move True serr 0 now 0 s = s"
  have "mpos (move True serr 0 now 0 s) \<noteq> mpos s \<or> over (move True serr 0 now 0 s) \<noteq> None \<or>
      avail (move True serr 0 now 0 s) \<noteq> avail s \<or> length (args (move True serr 0 now 0 s)) \<noteq> length (args s)"
    using assms by (auto simp: move_def undef_def mholds_def Let_def split: list.splits if_splits)
  then show False using e assms(1) by simp
qed

text \<open>While the program has not ended some thread can go on.\<close>

lemma someone_moves:
  assumes "live_inv True argv s" "over s = None" "0 < total argv"
  shows "\<exists>t. move True serr t now 0 s \<noteq> s"
proof (cases "mpos s = M_create \<or> mholds (mpos s)")
  case True
  then show ?thesis using main_moves [OF assms(2)] by blast
next
  case False
  have l: "lock_ok s" and u: "units_ok argv s" and m: "main_ok True s" using assms(1) by (simp_all add: live_inv_def)
  show ?thesis
  proof (cases "owner s")
    case (Some k)
    then obtain i where k: "k = Suc i" using l False by (cases k) (auto simp: lock_ok_def)
    then have "i < length (prods s)" "pholds (prods s ! i)" using l Some by (auto simp: lock_ok_def)
    then have "move True serr (Suc i) now 0 s \<noteq> s" by (intro producer_moves assms(2)) (auto simp: pholds_def)
    then show ?thesis by blast
  next
    case None
    have "\<exists>i < length (prods s). at (prods s ! i) \<noteq> P_done" if w: "mpos s = M_wait"
    proof (rule ccontr)
      assume "\<not> ?thesis"
      then have d: "at p = P_done" if "p \<in> set (prods s)" for p using that by (metis in_set_conv_nth)
      then have "owed p = 0" if "p \<in> set (prods s)" for p
        using that u d [OF that] by (auto simp: units_ok_def prod_ok_def owed_def made_def)
      then have "map owed (prods s) = map (\<lambda>p. 0) (prods s)" by simp
      then have "sum_list (map owed (prods s)) = 0" by (simp only: sum_list_triv)
      moreover have "avail s = 0" using m w d u by (force simp: main_ok_def units_ok_def made_def)
      moreover have "args s = []" "\<not> isdone s" using m w by (auto simp: main_ok_def)
      ultimately show False using u m assms(3) by (auto simp: units_ok_def main_ok_def total_def)
    qed
    moreover have "mpos s = M_wait \<or> mpos s = M_lock \<or> mpos s = M_woken"
      using False m assms(2) by (cases "mpos s") (auto simp: mholds_def main_ok_def)
    ultimately show ?thesis using main_moves [OF assms(2)] producer_moves [OF _ assms(2)] None by metis
  qed
qed

text \<open>A bound on the steps to come.\<close>

fun prod_steps :: "producer \<Rightarrow> int" where
  "prod_steps p =
     (case at p of P_loop \<Rightarrow> 5 * units p + 1 | P_lock \<Rightarrow> 5 * units p | P_incr \<Rightarrow> 5 * units p - 1
      | P_unlock \<Rightarrow> 5 * units p - 2 | P_signal \<Rightarrow> 5 * units p - 3 | P_done \<Rightarrow> 0)"

declare prod_steps.simps [simp del]

definition main_steps :: "string list \<Rightarrow> pcst \<Rightarrow> int" where
  "main_steps argv s =
     (let u = 8 * (total argv - numConsumed s) in
      case mpos s of
        M_create \<Rightarrow> u + 10 | M_lock \<Rightarrow> u + 4 | M_woken \<Rightarrow> u + 3 | M_test \<Rightarrow> u + 2 | M_wait \<Rightarrow> u
      | M_consume \<Rightarrow> if avail s > 0 then u - 1 else u + 6 | M_unlock \<Rightarrow> u + 5 | M_exited \<Rightarrow> 0)"

definition steps_left :: "string list \<Rightarrow> pcst \<Rightarrow> int" where
  "steps_left argv s = 4 * sum_list (map prod_steps (prods s)) + main_steps argv s +
     sum_list (map (\<lambda>x. 20 * atoi x + 5) (args s))"

lemma prod_steps_nonneg: "prod_ok p \<Longrightarrow> 0 \<le> prod_steps p"
  by (auto simp: prod_steps.simps prod_ok_def split: prpc.split)

lemma steps_left_nonneg:
  assumes "live_inv True argv s" "sane argv"
  shows "0 \<le> steps_left argv s"
proof -
  have u: "units_ok argv s" using assms(1) by (simp add: live_inv_def)
  have "0 \<le> sum_list (map prod_steps (prods s))" using u prod_steps_nonneg by (intro sum_list_nonneg) (auto simp: units_ok_def)
  moreover have "0 \<le> sum_list (map (\<lambda>x. 20 * atoi x + 5) (args s))" using u by (intro sum_list_nonneg) (auto simp: units_ok_def)
  moreover have "0 \<le> main_steps argv s"
    using numbers_fit [OF u] assms(2) u by (auto simp: main_steps_def Let_def sane_def units_ok_def split: mpc.split)
  ultimately show ?thesis by (simp add: steps_left_def)
qed

lemma pc_inv_defined: "pc_inv cv argv s \<Longrightarrow> over s \<noteq> Some Undef"
  by (auto simp: pc_inv_def failed_def live_inv_def main_ok_def)

lemma main_less:
  assumes "live_inv True argv s" "over s = None" "sane argv" "main True serr now 0 (mpos s) s \<noteq> s"
  shows "steps_left argv (main True serr now 0 (mpos s) s) < steps_left argv s"
proof -
  have u: "units_ok argv s" and m: "main_ok True s" using assms(1) by (simp_all add: live_inv_def)
  have "pc_inv True argv (main True serr now 0 (mpos s) s)" using main_inv [OF assms(1,2)] assms(3) by (simp add: sane_def)
  then have nu: "over (main True serr now 0 (mpos s) s) \<noteq> Some Undef" by (rule pc_inv_defined)
  have a: "args s = [] \<or> mpos s = M_create" using m by (auto simp: main_ok_def)
  show ?thesis
  proof (cases "mpos s")
    case M_create
    then show ?thesis using nu by (cases "args s") (auto simp: steps_left_def main_steps_def prod_steps.simps undef_def Let_def split: if_splits)
  next
    case M_consume
    then show ?thesis using nu assms(4) by (auto simp: steps_left_def main_steps_def Let_def undef_def split: if_splits)
  next
    case M_unlock
    have "numConsumed s \<le> total argv" using numbers_fit [OF u] assms(3) by (auto simp: sane_def)
    then show ?thesis using M_unlock by (auto simp: steps_left_def main_steps_def Let_def)
  qed (use assms(4) u in \<open>auto simp: steps_left_def main_steps_def Let_def units_ok_def split: if_splits\<close>)
qed

lemma thread_less:
  assumes "live_inv True argv s" "over s = None" "sane argv" "i < length (prods s)" "prods s ! i = \<lparr>at = c, units = n\<rparr>"
    "threadFunc True serr i 0 c n s \<noteq> s"
  shows "steps_left argv (threadFunc True serr i 0 c n s) < steps_left argv s"
proof -
  have l: "lock_ok s" using assms(1) by (simp add: live_inv_def)
  have "pc_inv True argv (threadFunc True serr i 0 c n s)" using threadFunc_inv [OF assms(1,2) _ assms(4,5)] assms(3) by (simp add: sane_def)
  then have nu: "over (threadFunc True serr i 0 c n s) \<noteq> Some Undef" by (rule pc_inv_defined)
  have h: "\<not> mholds (mpos s)" if "c = P_incr"
  proof -
    have "owner s = Some (Suc i)" using l assms(4,5) that by (auto simp: lock_ok_def pholds_def)
    then show ?thesis using l by (simp add: lock_ok_def)
  qed
  have s: "sum_list (map prod_steps ((prods s)[i := p])) = sum_list (map prod_steps (prods s)) - prod_steps \<lparr>at = c, units = n\<rparr> + prod_steps p" for p
    using sum_list_upd [OF assms(4), of prod_steps p] assms(5) by simp
  have "prod_ok \<lparr>at = c, units = n\<rparr>" using assms(1,4,5) nth_mem by (fastforce simp: live_inv_def units_ok_def)
  then have "0 \<le> n" by (simp add: prod_ok_def)
  then show ?thesis using assms(6) nu h
    by (cases c) (auto simp: steps_left_def put_def s prod_steps.simps main_steps_def Let_def mholds_def undef_def split: mpc.splits if_splits)
qed

lemma move_less:
  assumes "live_inv True argv s" "sane argv" "move True serr t now 0 s \<noteq> s"
  shows "steps_left argv (move True serr t now 0 s) < steps_left argv s"
proof -
  have o: "over s = None" using assms(3) by (simp add: move_def split: if_splits)
  show ?thesis
  proof (cases t)
    case 0
    then show ?thesis using main_less [OF assms(1) o assms(2)] assms(3) o by (simp add: move_def)
  next
    case (Suc i)
    then have i: "i < length (prods s)" using assms(3) o by (simp add: move_def split: if_splits)
    then show ?thesis using thread_less [OF assms(1) o assms(2) i, of "at (prods s ! i)" "units (prods s ! i)"] assms(3) o Suc
      by (simp add: move_def)
  qed
qed

lemma no_failure: "over s = None \<Longrightarrow> \<not> failed (move cv serr t now 0 s)"
proof -
  assume o: "over s = None"
  have "\<not> failed (threadFunc cv serr i 0 c n s)" for i c n using o by (cases c) (simp_all add: failed_def put_def undef_def)
  moreover have "\<not> failed (main cv serr now 0 c s)" for c
    using o by (cases c) (simp_all add: failed_def undef_def Let_def split: list.split)
  ultimately show ?thesis using o by (simp add: move_def failed_def split: nat.split)
qed

lemma pc_run_inv:
  assumes "pc_run serr argv p n s" "sane argv"
  shows "live_inv True argv s \<and> int n + steps_left argv s \<le> steps_left argv (begin_state argv p)"
  using assms(1)
proof (induction rule: pc_run.induct)
  case run_start
  show ?case using begin_inv [OF assms(2)] by simp
next
  case (run_step n s t now)
  have i: "live_inv True argv s" using run_step.IH by simp
  have "over s = None" using run_step.hyps(2) by (simp add: move_def split: if_splits)
  then have "live_inv True argv (move True serr t now 0 s)"
    using move_inv [OF i assms(2), of serr t now 0] no_failure by (simp add: pc_inv_def)
  then show ?case using move_less [OF i assms(2) run_step.hyps(2)] run_step.IH by simp
qed

lemma steps_left_begin: "steps_left argv (begin_state argv p) = 28 * total argv + 5 * int (length argv) + 10"
proof -
  have "sum_list (map (\<lambda>x. 20 * atoi x + 5) argv) = 20 * total argv + 5 * int (length argv)"
    by (induction argv) (simp_all add: total_def)
  then show ?thesis by (simp add: steps_left_def begin_state_def main_steps_def)
qed

section \<open>Properties\<close>

text \<open>
  In every interleaving of either program, with any failures of its calls and spurious wake-ups, no number
  overflows, and when the program exits with success it has consumed exactly the units that its arguments
  ask for and none is left over.
\<close>

theorem exit_consumes_all:
  assumes "sane argv" "pc_reach cv serr argv p s"
  shows "over s \<noteq> Some Undef \<and>
    (mpos s = M_exited \<longrightarrow> numConsumed s = total argv \<and> avail s = 0 \<and> over s = Some (exit3 EXIT_SUCCESS (io s)))"
proof -
  have i: "pc_inv cv argv s" by (rule pc_reach_inv [OF assms(2,1)])
  then have "live_inv cv argv s" if "mpos s = M_exited" using that by (simp add: pc_inv_def failed_def)
  then show ?thesis using pc_inv_defined [OF i] exited_consumed by blast
qed

text \<open>
  C29. The program with the condition variable always finishes: when at least one unit is to be made and no call
  fails, every run has at most 28 steps for each unit, five for each argument and ten more, and a state
  in which no thread can move is one in which the program has exited with success after it consumed all units.
\<close>

theorem prod_condvar_completes:
  assumes "sane argv" "0 < total argv" "pc_run serr argv p n s"
  shows "int n \<le> 28 * total argv + 5 * int (length argv) + 10 \<and>
    ((\<forall>t now. move True serr t now 0 s = s) \<longrightarrow> numConsumed s = total argv \<and> over s = Some (exit3 EXIT_SUCCESS (io s)))"
proof (intro conjI impI)
  have i: "live_inv True argv s" "int n + steps_left argv s \<le> steps_left argv (begin_state argv p)"
    using pc_run_inv [OF assms(3,1)] by auto
  then show "int n \<le> 28 * total argv + 5 * int (length argv) + 10"
    using steps_left_nonneg [OF i(1) assms(1)] by (simp add: steps_left_begin)
  assume "\<forall>t now. move True serr t now 0 s = s"
  then have "over s \<noteq> None" using someone_moves [OF i(1) _ assms(2)] by blast
  then have "mpos s = M_exited" using i(1) by (auto simp: live_inv_def main_ok_def)
  then show "numConsumed s = total argv" "over s = Some (exit3 EXIT_SUCCESS (io s))" using exited_consumed [OF i(1)] by auto
qed

text \<open>
  When the arguments ask for no unit at all, neither program ever exits with success: the test whether all
  units are consumed is made only after one has been consumed.
\<close>

theorem nothing_to_make_never_ends:
  assumes "sane argv" "total argv = 0" "pc_reach cv serr argv p s"
  shows "mpos s \<noteq> M_exited"
proof
  assume x: "mpos s = M_exited"
  then have l: "live_inv cv argv s" using pc_reach_inv [OF assms(3,1)] by (simp add: pc_inv_def failed_def)
  have "0 < numConsumed s" using l x by (auto simp: live_inv_def main_ok_def)
  then show False using exited_consumed(1) [OF l x] assms(2) by simp
qed

text \<open>A schedule: the threads that move, one after the other.\<close>

fun play :: "nat list \<Rightarrow> pcst \<Rightarrow> pcst" where
  "play [] s = s"
| "play (t # ts) s = play ts (move True (\<lambda>e. []) t 0 0 s)"

fun all_move :: "nat list \<Rightarrow> pcst \<Rightarrow> bool" where
  "all_move [] s = True"
| "all_move (t # ts) s = (move True (\<lambda>e. []) t 0 0 s \<noteq> s \<and> all_move ts (move True (\<lambda>e. []) t 0 0 s))"

lemma play_run:
  "pc_run (\<lambda>e. []) argv p n s \<Longrightarrow> all_move ts s \<Longrightarrow> pc_run (\<lambda>e. []) argv p (length ts + n) (play ts s)"
proof (induction ts arbitrary: n s)
  case (Cons t ts)
  then show ?case using run_step [of "\<lambda>e. []" argv p n s t 0] Cons.IH [of "Suc n"] by simp
qed simp

lemma play_reach: "pc_reach True (\<lambda>e. []) argv p s \<Longrightarrow> pc_reach True (\<lambda>e. []) argv p (play ts s)"
  by (induction ts arbitrary: s) (simp_all add: pc_move)

definition quiet :: "unit proc" where
  "quiet = \<lparr>out_buf = [], out = [], err = [], errno = 0, ef_dumpcore = None, world = ()\<rparr>"

definition one_unit :: "nat list" where
  "one_unit = [0, 0, 0, 0, 1, 1, 1, 1, 1, 0, 0, 0, 0, 0]"

definition finished :: pcst where
  "finished = play one_unit (begin_state [''1''] quiet)"

lemma one_unit_sane: "sane [''1'']" "total [''1''] = 1"
  by code_simp+

lemma one_unit_ends: "mpos finished = M_exited" "over finished \<noteq> None" "all_move one_unit (begin_state [''1''] quiet)"
  by code_simp+

theorem exit_consumes_all_witness: "mpos finished = M_exited \<and> numConsumed finished = 1"
  using exit_consumes_all [OF one_unit_sane(1), of True "\<lambda>e. []" quiet finished] one_unit_ends one_unit_sane(2)
    play_reach [OF pc_start] by (simp add: finished_def)

theorem prod_condvar_completes_witness: "int (length one_unit) \<le> 43 \<and> numConsumed finished = 1"
proof -
  have "pc_run (\<lambda>e. []) [''1''] quiet (length one_unit) finished"
    using play_run [OF run_start one_unit_ends(3)] by (simp add: finished_def)
  moreover have "\<forall>t now. move True (\<lambda>e. []) t now 0 finished = finished" using one_unit_ends(2) by (simp add: move_def)
  ultimately show ?thesis using prod_condvar_completes [OF one_unit_sane(1)] one_unit_sane(2) by fastforce
qed

theorem nothing_to_make_never_ends_witness: "mpos (play [0, 0, 0, 0, 1, 0] (begin_state [''0''] quiet)) \<noteq> M_exited"
proof -
  have "sane [''0'']" "total [''0''] = 0" by code_simp+
  then show ?thesis by (rule nothing_to_make_never_ends [OF _ _ play_reach [OF pc_start]])
qed

end
