(* ===== verification/ThreadIncr.thy ===== *)
theory ThreadIncr
  imports ErrorFunctions GetNum
begin

text \<open>
  Two threads that increment a global variable: \<open>tlpi-dist/threads/thread_incr.c\<close> without any lock, and the versions
  with a mutex, a spin lock, a read-write lock and a POSIX semaphore (\<open>thread_incr_mutex.c\<close>,
  \<open>thread_incr_spinlock.c\<close>, \<open>thread_incr_rwlock.c\<close>, \<open>psem/thread_incr_psem.c\<close>). A step is one call, one read or one
  write of the variable. The answer to a call is 0, or its error number.
\<close>

section \<open>The programs\<close>

datatype guard = No_lock | Mutex | Spinlock | Rwlock | Semaphore

text \<open>The functions named in the messages of each version: set up, lock and unlock.\<close>

fun init_name :: "guard \<Rightarrow> string option" where
  "init_name Spinlock = Some ''pthread_spin_init''"
| "init_name Rwlock = Some ''pthread_rwlock_init''"
| "init_name Semaphore = Some ''sem_init''"
| "init_name g = None"

fun lock_name :: "guard \<Rightarrow> string" where
  "lock_name Mutex = ''pthread_mutex_lock''"
| "lock_name Spinlock = ''pthread_spin_lock''"
| "lock_name Rwlock = ''pthread_rwlock_wrlock''"
| "lock_name Semaphore = ''sem_wait''"
| "lock_name No_lock = ''''"

fun unlock_name :: "guard \<Rightarrow> string" where
  "unlock_name Mutex = ''pthread_mutex_unlock''"
| "unlock_name Spinlock = ''pthread_spin_unlock''"
| "unlock_name Rwlock = ''pthread_rwlock_unlock''"
| "unlock_name Semaphore = ''sem_post''"
| "unlock_name No_lock = ''''"

text \<open>A thread at its loop test, the lock, the read, the write of \<open>loc\<close>, the unlock, and after its return.\<close>

datatype ipc = T_loop | T_lock | T_load | T_store int | T_unlock | T_done

record ithread =
  ipos :: ipc
  j :: int

datatype impc = I_init | I_create | I_join nat | I_print | I_exited

record ist =
  glob :: int
  holder :: "nat option"
  thr :: "ithread list"
  imain :: impc
  loops :: int
  iproc :: "unit proc"
  iover :: "(unit proc, unit) res option"

text \<open>The pthread functions return their error number, the semaphore functions set errno.\<close>

definition lock_fails :: "(int \<Rightarrow> string) \<Rightarrow> guard \<Rightarrow> int \<Rightarrow> string \<Rightarrow> ist \<Rightarrow> ist" where
  "lock_fails serr g e m s =
     s\<lparr>iover := Some (if g = Semaphore then errExit serr m ((iproc s)\<lparr>errno := e\<rparr>) else errExitEN serr e m (iproc s))\<rparr>"

definition ifail :: "(int \<Rightarrow> string) \<Rightarrow> int \<Rightarrow> string \<Rightarrow> ist \<Rightarrow> ist" where
  "ifail serr e m s = s\<lparr>iover := Some (errExitEN serr e m (iproc s))\<rparr>"

definition iput :: "nat \<Rightarrow> ipc \<Rightarrow> int \<Rightarrow> ist \<Rightarrow> ist" where
  "iput i c n s = s\<lparr>thr := (thr s)[i := \<lparr>ipos = c, j = n\<rparr>]\<rparr>"

fun threadFunc :: "guard \<Rightarrow> (int \<Rightarrow> string) \<Rightarrow> nat \<Rightarrow> int \<Rightarrow> ipc \<Rightarrow> int \<Rightarrow> ist \<Rightarrow> ist" where
  "threadFunc g serr i a T_loop n s =
     iput i (if n < loops s then if g = No_lock then T_load else T_lock else T_done) n s"
| "threadFunc g serr i a T_lock n s =
     (if a \<noteq> 0 then lock_fails serr g a (lock_name g) s
      else if holder s = None then iput i T_load n (s\<lparr>holder := Some i\<rparr>) else s)"
| "threadFunc g serr i a T_load n s =
     (if glob s + 1 \<le> INT_MAX then iput i (T_store (glob s + 1)) n s else s\<lparr>iover := Some Undef\<rparr>)"
| "threadFunc g serr i a (T_store loc) n s =
     (if g = No_lock then iput i T_loop (n + 1) (s\<lparr>glob := loc\<rparr>) else iput i T_unlock n (s\<lparr>glob := loc\<rparr>))"
| "threadFunc g serr i a T_unlock n s =
     (if a \<noteq> 0 then lock_fails serr g a (unlock_name g) s else iput i T_loop (n + 1) (s\<lparr>holder := None\<rparr>))"
| "threadFunc g serr i a T_done n s = s"

text \<open>The main thread after its argument is read: the lock, two threads, and the wait for them.\<close>

fun main :: "guard \<Rightarrow> (int \<Rightarrow> string) \<Rightarrow> int \<Rightarrow> impc \<Rightarrow> ist \<Rightarrow> ist" where
  "main g serr a I_init s =
     (case init_name g of
        None \<Rightarrow> s\<lparr>imain := I_create\<rparr>
      | Some m \<Rightarrow> if a \<noteq> 0 then lock_fails serr g a m s else s\<lparr>imain := I_create\<rparr>)"
| "main g serr a I_create s =
     (if a \<noteq> 0 then ifail serr a ''pthread_create'' s
      else s\<lparr>thr := thr s @ [\<lparr>ipos = T_loop, j = 0\<rparr>], imain := (if length (thr s) = 0 then I_create else I_join 0)\<rparr>)"
| "main g serr a (I_join k) s =
     (if a \<noteq> 0 then ifail serr a ''pthread_join'' s
      else if ipos (thr s ! k) = T_done then s\<lparr>imain := (if k = 0 then I_join 1 else I_print)\<rparr> else s)"
| "main g serr a I_print s =
     s\<lparr>imain := I_exited, iover := Some (exit3 EXIT_SUCCESS (printf_out (msg [''glob = '', dec (glob s), nl]) (iproc s)))\<rparr>"
| "main g serr a I_exited s = s"

definition DEFAULT_LOOPS :: int where "DEFAULT_LOOPS = 10000000"

text \<open>The start: a bad argument ends the program with the text of \<open>getInt\<close>.\<close>

definition incr_start :: "string list \<Rightarrow> unit proc \<Rightarrow> ist" where
  "incr_start args p =
     (let s = \<lparr>glob = 0, holder = None, thr = [], imain = I_init, loops = DEFAULT_LOOPS, iproc = p, iover = None\<rparr> in
      case args of
        [] \<Rightarrow> s
      | x # xs \<Rightarrow>
          (case getInt (Some x) GN_GT_0 (Some ''num-loops'') of
             Inl e \<Rightarrow> s\<lparr>iover := Some (exit3 EXIT_FAILURE (fputs_err e p))\<rparr>
           | Inr n \<Rightarrow> s\<lparr>loops := n\<rparr>))"

definition incr_move :: "guard \<Rightarrow> (int \<Rightarrow> string) \<Rightarrow> nat \<Rightarrow> int \<Rightarrow> ist \<Rightarrow> ist" where
  "incr_move g serr t a s =
     (if iover s \<noteq> None then s
      else case t of
             0 \<Rightarrow> main g serr a (imain s) s
           | Suc i \<Rightarrow> if i < length (thr s) then threadFunc g serr i a (ipos (thr s ! i)) (j (thr s ! i)) s else s)"

inductive incr_reach :: "guard \<Rightarrow> (int \<Rightarrow> string) \<Rightarrow> string list \<Rightarrow> unit proc \<Rightarrow> ist \<Rightarrow> bool" for g serr args p where
  incr_begin: "incr_reach g serr args p (incr_start args p)"
| incr_step: "incr_reach g serr args p s \<Longrightarrow> incr_reach g serr args p (incr_move g serr t a s)"

section \<open>The invariant of the versions with a lock\<close>

definition inside :: "ithread \<Rightarrow> bool" where
  "inside t = (case ipos t of T_load \<Rightarrow> True | T_store l \<Rightarrow> True | T_unlock \<Rightarrow> True | _ \<Rightarrow> False)"

definition increments :: "ithread \<Rightarrow> int" where
  "increments t = j t + (if ipos t = T_unlock then 1 else 0)"

definition ithread_ok :: "int \<Rightarrow> int \<Rightarrow> ithread \<Rightarrow> bool" where
  "ithread_ok n g t =
     (0 \<le> j t \<and> j t \<le> n \<and> (ipos t \<noteq> T_loop \<and> ipos t \<noteq> T_done \<longrightarrow> j t < n) \<and> (ipos t = T_done \<longrightarrow> j t = n) \<and>
      (\<forall>l. ipos t = T_store l \<longrightarrow> l = g + 1))"

text \<open>One thread at a time is between lock and unlock, and the variable counts the increments.\<close>

definition excl :: "ist \<Rightarrow> bool" where
  "excl s = ((\<forall>i < length (thr s). inside (thr s ! i) = (holder s = Some i)) \<and> (\<forall>i. holder s = Some i \<longrightarrow> i < length (thr s)))"

definition counted :: "ist \<Rightarrow> bool" where
  "counted s = (sum_list (map increments (thr s)) = glob s \<and> (\<forall>t \<in> set (thr s). ithread_ok (loops s) (glob s) t))"

definition joined :: "ist \<Rightarrow> bool" where
  "joined s = (case imain s of
     I_init \<Rightarrow> thr s = []
   | I_create \<Rightarrow> length (thr s) < 2
   | I_join k \<Rightarrow> length (thr s) = 2 \<and> k < 2 \<and> (k = 1 \<longrightarrow> ipos (thr s ! 0) = T_done)
   | _ \<Rightarrow> length (thr s) = 2 \<and> (\<forall>t \<in> set (thr s). ipos t = T_done))"

definition ended :: "ist \<Rightarrow> bool" where
  "ended s = ((iover s = None) = (imain s \<noteq> I_exited) \<and>
     (imain s = I_exited \<longrightarrow> iover s = Some (exit3 EXIT_SUCCESS (printf_out (msg [''glob = '', dec (glob s), nl]) (iproc s)))))"

definition ilive :: "ist \<Rightarrow> bool" where
  "ilive s = (excl s \<and> counted s \<and> joined s \<and> ended s \<and> 2 * loops s \<le> INT_MAX \<and> 0 \<le> loops s)"

definition ifailed :: "ist \<Rightarrow> bool" where
  "ifailed s = (iover s \<noteq> None \<and> iover s \<noteq> Some Undef \<and> imain s \<noteq> I_exited)"

lemma fails_failed: "imain s \<noteq> I_exited \<Longrightarrow> ifailed (ifail serr e m s)" "imain s \<noteq> I_exited \<Longrightarrow> ifailed (lock_fails serr g e m s)"
  by (simp_all add: ifailed_def ifail_def lock_fails_def errExitEN_def errExit_def terminate_def exit3_def split: option.split)

lemma excl_same:
  "excl s \<Longrightarrow> i < length (thr s) \<Longrightarrow> thr t = thr s \<Longrightarrow> holder t = holder s \<Longrightarrow> inside \<lparr>ipos = c, j = n\<rparr> = inside (thr s ! i) \<Longrightarrow> excl (iput i c n t)"
  by (auto simp: excl_def iput_def nth_list_update)

lemma excl_take:
  "excl s \<Longrightarrow> i < length (thr s) \<Longrightarrow> holder s = None \<Longrightarrow> inside \<lparr>ipos = c, j = n\<rparr> \<Longrightarrow> excl (iput i c n (s\<lparr>holder := Some i\<rparr>))"
  by (auto simp: excl_def iput_def nth_list_update)

lemma excl_drop:
  assumes "excl s" "i < length (thr s)" "inside (thr s ! i)" "\<not> inside \<lparr>ipos = c, j = n\<rparr>"
  shows "excl (iput i c n (s\<lparr>holder := None\<rparr>))"
proof -
  have "holder s = Some i" using assms by (simp add: excl_def)
  then show ?thesis using assms by (auto simp: excl_def iput_def nth_list_update)
qed

lemma counted_put:
  assumes "counted s" "excl s" "i < length (thr s)" "thr t = thr s" "loops t = loops s" "glob t = glob s \<or> inside (thr s ! i)"
    "ithread_ok (loops s) (glob t) \<lparr>ipos = c, j = n\<rparr>" "glob t = glob s + increments \<lparr>ipos = c, j = n\<rparr> - increments (thr s ! i)"
  shows "counted (iput i c n t)"
proof -
  have "ithread_ok (loops s) (glob t) ((thr s)[i := \<lparr>ipos = c, j = n\<rparr>] ! k)" if k: "k < length (thr s)" for k
  proof (cases "k = i")
    case False
    have old: "ithread_ok (loops s) (glob s) (thr s ! k)" using assms(1) k unfolding counted_def by (meson nth_mem)
    have "ipos (thr s ! k) \<noteq> T_store l" if "glob t \<noteq> glob s" for l
    proof
      assume "ipos (thr s ! k) = T_store l"
      then have "inside (thr s ! k)" by (simp add: inside_def)
      moreover have "inside (thr s ! i)" using that assms(6) by simp
      ultimately show False using assms(2,3) k False by (simp add: excl_def)
    qed
    then show ?thesis using old False by (cases "glob t = glob s") (auto simp: ithread_ok_def)
  qed (use assms(3,7) in simp)
  then have "\<forall>x \<in> set ((thr s)[i := \<lparr>ipos = c, j = n\<rparr>]). ithread_ok (loops s) (glob t) x" by (auto simp: in_set_conv_nth)
  then show ?thesis using assms(1,4,5,8) sum_list_upd [OF assms(3), of increments] by (simp add: counted_def iput_def)
qed

lemma joined_put:
  assumes "joined s" "i < length (thr s)" "thr t = thr s" "imain t = imain s" "ipos (thr s ! i) \<noteq> T_done"
  shows "joined (iput i c n t)"
proof -
  have "thr s ! i \<in> set (thr s)" using assms(2) by simp
  then have "i \<noteq> 0" if "imain s = I_join 1" using assms(1,5) that by (cases i) (auto simp: joined_def)
  then show ?thesis using assms \<open>thr s ! i \<in> set (thr s)\<close>
    by (auto simp: joined_def iput_def nth_list_update split: impc.splits)
qed

lemma ended_put: "ended s \<Longrightarrow> imain s \<noteq> I_exited \<Longrightarrow> imain t = imain s \<Longrightarrow> iover t = iover s \<Longrightarrow> ended (iput i c n t)"
  by (simp add: ended_def iput_def)

lemma room:
  assumes "ilive s" "i < length (thr s)" "thr s ! i = \<lparr>ipos = T_load, j = n\<rparr>"
  shows "glob s + 1 \<le> INT_MAX"
proof -
  let ?ts = "(thr s)[i := \<lparr>ipos = T_unlock, j = n\<rparr>]"
  have ok: "\<forall>t \<in> set (thr s). ithread_ok (loops s) (glob s) t" using assms(1) by (simp add: ilive_def counted_def)
  then have "\<forall>t \<in> set (thr s). increments t \<le> loops s" by (auto simp: ithread_ok_def increments_def)
  moreover have "n < loops s" using ok assms(2,3) nth_mem by (fastforce simp: ithread_ok_def)
  then have "increments \<lparr>ipos = T_unlock, j = n\<rparr> \<le> loops s" by (simp add: increments_def)
  ultimately have "\<forall>t \<in> set ?ts. increments t \<le> loops s"
    using set_update_subset_insert [of "thr s" i "\<lparr>ipos = T_unlock, j = n\<rparr>"] by blast
  then have "sum_list (map increments ?ts) \<le> int (length ?ts) * loops s" by (rule sum_list_le)
  moreover have "sum_list (map increments ?ts) = glob s + 1"
    using assms(1,2,3) sum_list_upd [OF assms(2), of increments] by (simp add: ilive_def counted_def increments_def)
  moreover have "length (thr s) \<le> 2" using assms(1) by (auto simp: ilive_def joined_def split: impc.splits)
  then have "int (length ?ts) * loops s \<le> 2 * loops s" using assms(1) by (intro mult_right_mono) (simp_all add: ilive_def)
  ultimately show ?thesis using assms(1) by (simp add: ilive_def)
qed

lemma threadFunc_live:
  assumes "g \<noteq> No_lock" "ilive s" "iover s = None" "i < length (thr s)" "thr s ! i = \<lparr>ipos = c, j = n\<rparr>"
  shows "ifailed (threadFunc g serr i a c n s) \<or> ilive (threadFunc g serr i a c n s)"
proof -
  have e: "excl s" and k: "counted s" and m: "joined s" and d: "ended s" and r: "2 * loops s \<le> INT_MAX" "0 \<le> loops s"
    using assms(2) by (simp_all add: ilive_def)
  have x: "imain s \<noteq> I_exited" using d assms(3) by (simp add: ended_def)
  have ok: "ithread_ok (loops s) (glob s) \<lparr>ipos = c, j = n\<rparr>" using k assms(4,5) unfolding counted_def by (metis nth_mem)
  note put = ilive_def excl_same [OF e assms(4)] counted_put [OF k e assms(4)] joined_put [OF m assms(4)] ended_put [OF d x] assms(5)
  have frame: "loops (iput i c n t) = loops t" for c n t by (simp add: iput_def)
  note vals = ithread_ok_def inside_def increments_def frame
  show ?thesis
  proof (cases c)
    case T_loop
    then show ?thesis using ok r assms(1) by (simp add: put vals)
  next
    case T_lock
    then show ?thesis using ok r fails_failed [OF x] assms(2) excl_take [OF e assms(4)] by (simp add: put vals)
  next
    case T_load
    then show ?thesis using ok r room [OF assms(2,4)] by (simp add: put vals)
  next
    case (T_store l)
    then show ?thesis using ok r assms(1) by (simp add: put vals)
  next
    case T_unlock
    then show ?thesis using ok r fails_failed [OF x] excl_drop [OF e assms(4)] by (simp add: put vals)
  next
    case T_done
    then show ?thesis using assms(2) by simp
  qed
qed

lemma main_live:
  assumes "ilive s" "iover s = None"
  shows "ifailed (main g serr a (imain s) s) \<or> ilive (main g serr a (imain s) s)"
proof -
  have e: "excl s" and k: "counted s" and m: "joined s" and d: "ended s" and r: "2 * loops s \<le> INT_MAX" "0 \<le> loops s"
    using assms(1) by (simp_all add: ilive_def)
  have x: "imain s \<noteq> I_exited" using d assms(2) by (simp add: ended_def)
  show ?thesis
  proof (cases "imain s")
    case I_init
    then show ?thesis using e k m d r fails_failed [OF x] by (auto simp: ilive_def excl_def counted_def joined_def ended_def split: option.split)
  next
    case I_create
    have "excl (s\<lparr>thr := thr s @ [\<lparr>ipos = T_loop, j = 0\<rparr>], imain := c\<rparr>)" for c
      using e by (auto simp: excl_def inside_def nth_append less_Suc_eq)
    moreover have "counted (s\<lparr>thr := thr s @ [\<lparr>ipos = T_loop, j = 0\<rparr>], imain := c\<rparr>)" for c
      using k r by (auto simp: counted_def increments_def ithread_ok_def)
    moreover have "length (thr s) < 2" using m I_create by (simp add: joined_def)
    then have "length (thr s) = 0 \<or> length (thr s) = 1" by linarith
    ultimately show ?thesis using I_create d r fails_failed [OF x] by (auto simp: ilive_def joined_def ended_def)
  next
    case (I_join q)
    have l: "length (thr s) = 2" "q < 2" "q = 1 \<longrightarrow> ipos (thr s ! 0) = T_done" using m I_join by (simp_all add: joined_def)
    then have "ipos t = T_done" if el: "t \<in> set (thr s)" and q: "q \<noteq> 0" "ipos (thr s ! q) = T_done" for t
    proof -
      obtain i where "i < 2" "t = thr s ! i" using el l(1) by (metis in_set_conv_nth)
      then show ?thesis using q l(2,3) by (auto simp: less_2_cases_iff)
    qed
    then have "joined (s\<lparr>imain := (if q = 0 then I_join 1 else I_print)\<rparr>)" if "ipos (thr s ! q) = T_done"
      using that l(1) by (cases "q = 0") (simp_all add: joined_def)
    moreover have "excl (s\<lparr>imain := c\<rparr>)" "counted (s\<lparr>imain := c\<rparr>)" for c using e k by (simp_all add: excl_def counted_def)
    moreover have "ended (s\<lparr>imain := (if q = 0 then I_join 1 else I_print)\<rparr>)" using d x by (simp add: ended_def)
    ultimately have "ilive (s\<lparr>imain := (if q = 0 then I_join 1 else I_print)\<rparr>)" if "ipos (thr s ! q) = T_done"
      using that r by (simp add: ilive_def)
    then show ?thesis using I_join fails_failed [OF x] assms(1) by simp
  next
    case I_print
    then show ?thesis using e k m d r by (auto simp: ilive_def excl_def counted_def joined_def ended_def)
  next
    case I_exited
    then show ?thesis using x by simp
  qed
qed

lemma move_loops: "loops (incr_move g serr t a s) = loops s"
proof -
  have "loops (threadFunc g serr i a c n s) = loops s" for i c n by (cases c) (simp_all add: iput_def lock_fails_def)
  moreover have "loops (main g serr a c s) = loops s" for c
    by (cases c) (simp_all add: ifail_def lock_fails_def split: option.split)
  ultimately show ?thesis by (simp add: incr_move_def split: nat.split)
qed

lemma start_loops: "0 \<le> loops (incr_start args p)"
proof (cases args)
  case (Cons x xs)
  have "0 \<le> n" if "getInt (Some x) GN_GT_0 (Some ''num-loops'') = Inr n" for n
    using getInt_bounds [OF that] by (simp add: sign_ok_def GN_GT_0_def)
  then show ?thesis using Cons by (simp add: incr_start_def Let_def DEFAULT_LOOPS_def split: sum.split)
qed (simp add: incr_start_def DEFAULT_LOOPS_def)

lemma incr_reach_live:
  assumes "incr_reach g serr args p s" "g \<noteq> No_lock" "2 * loops (incr_start args p) \<le> INT_MAX"
  shows "(ifailed s \<or> ilive s) \<and> loops s = loops (incr_start args p)"
  using assms(1)
proof (induction rule: incr_reach.induct)
  case incr_begin
  have "iover (incr_start args p) = None \<or> ifailed (incr_start args p)"
    by (auto simp: incr_start_def Let_def ifailed_def exit3_def split: list.split sum.split)
  moreover have "thr (incr_start args p) = []" "holder (incr_start args p) = None" "imain (incr_start args p) = I_init"
    "glob (incr_start args p) = 0" by (simp_all add: incr_start_def Let_def split: list.split sum.split)
  ultimately show ?case using assms(3) start_loops [of args p] by (auto simp: ilive_def excl_def counted_def joined_def ended_def)
next
  case (incr_step s t a)
  show ?case
  proof (cases "iover s = None")
    case True
    then have l: "ilive s" using incr_step.IH by (simp add: ifailed_def)
    have "ifailed (threadFunc g serr i a (ipos (thr s ! i)) (j (thr s ! i)) s) \<or> ilive (threadFunc g serr i a (ipos (thr s ! i)) (j (thr s ! i)) s)"
      if "i < length (thr s)" for i using threadFunc_live [OF assms(2) l True that] by simp
    then show ?thesis using main_live [OF l True] True incr_step.IH l move_loops [of g serr t a s]
      by (simp add: incr_move_def split: nat.split)
  qed (use incr_step.IH in \<open>simp add: incr_move_def\<close>)
qed

section \<open>Properties\<close>

text \<open>
  C30. With any of the four locks no increment is lost: in every interleaving, when the program exits with success
  it has printed twice the number of loops, provided that this fits an int. No increment overflows.
\<close>

theorem locked_increments:
  assumes "g \<noteq> No_lock" "2 * loops (incr_start args p) \<le> INT_MAX" "incr_reach g serr args p s"
  shows "iover s \<noteq> Some Undef \<and> (imain s = I_exited \<longrightarrow>
    iover s = Some (exit3 EXIT_SUCCESS (printf_out (msg [''glob = '', dec (2 * loops (incr_start args p)), nl]) (iproc s))))"
proof -
  have r: "ifailed s \<or> ilive s" "loops s = loops (incr_start args p)" using incr_reach_live [OF assms(3,1,2)] by auto
  have "glob s = 2 * loops s" if x: "imain s = I_exited" "ilive s"
  proof -
    have "length (thr s) = 2" and d: "\<forall>t \<in> set (thr s). ipos t = T_done" using x by (simp_all add: ilive_def joined_def)
    have "increments t = loops s" if "t \<in> set (thr s)" for t
      using x(2) that d unfolding ilive_def counted_def by (auto simp: ithread_ok_def increments_def)
    then have "map increments (thr s) = replicate 2 (loops s)" using \<open>length (thr s) = 2\<close> by (simp add: list_eq_iff_nth_eq)
    then show ?thesis using x(2) by (simp add: ilive_def counted_def numeral_2_eq_2)
  qed
  then show ?thesis using r by (auto simp: ifailed_def ilive_def ended_def exit3_def)
qed

definition plays :: "guard \<Rightarrow> nat list \<Rightarrow> ist \<Rightarrow> ist" where
  "plays g ts s = fold (\<lambda>t s. incr_move g (\<lambda>e. []) t 0 s) ts s"

lemma plays_reach: "incr_reach g (\<lambda>e. []) args p s \<Longrightarrow> incr_reach g (\<lambda>e. []) args p (plays g ts s)"
  by (induction ts arbitrary: s) (simp_all add: plays_def incr_step)

definition idle :: "unit proc" where
  "idle = \<lparr>out_buf = [], out = [], err = [], errno = 0, ef_dumpcore = None, world = ()\<rparr>"

definition with_mutex :: ist where
  "with_mutex = plays Mutex ([0, 0, 0] @ replicate 6 1 @ replicate 6 2 @ [0, 0, 0]) (incr_start [''1''] idle)"

theorem locked_increments_witness:
  "imain with_mutex = I_exited \<and> out (case iover with_mutex of Some (Exit c q) \<Rightarrow> q) = msg [''glob = '', dec 2, nl]"
proof -
  have "imain with_mutex = I_exited" "iproc with_mutex = idle" "loops (incr_start [''1''] idle) = 1" by code_simp+
  then show ?thesis
    using locked_increments [of Mutex "[''1'']" idle "\<lambda>e. []" with_mutex] plays_reach [OF incr_begin]
    by (simp add: with_mutex_def INT_MAX_def exit3_def flush_def printf_out_def idle_def)
qed

text \<open>
  Without a lock an increment can be lost: with one loop each, both threads read the variable before either
  writes it, and the program prints 1.
\<close>

theorem unlocked_loses_increment:
  "\<exists>s. incr_reach No_lock (\<lambda>e. []) [''1''] idle s \<and> imain s = I_exited \<and> loops s = 1 \<and> glob s = 1"
proof (intro exI conjI)
  let ?s = "plays No_lock [0, 0, 0, 1, 1, 2, 2, 1, 2, 1, 2, 0, 0, 0] (incr_start [''1''] idle)"
  show "incr_reach No_lock (\<lambda>e. []) [''1''] idle ?s" by (rule plays_reach [OF incr_begin])
  show "imain ?s = I_exited" "loops ?s = 1" "glob ?s = 1" by code_simp+
qed

end
