(* ===== verification/OnceInit.thy ===== *)
theory OnceInit
  imports ErrorFunctions
begin

text \<open>
  \<open>tlpi-dist/threads/one_time_init.c\<close>: an initialisation that runs once although two threads call it twice each. A step
  is one call, the test of the flag, or its assignment. The answer to a pthread call is the number it returns.
\<close>

section \<open>The program\<close>

text \<open>A thread at the lock, the test of \<open>called\<close>, the call of \<open>init\<close>, the assignment, the unlock, and after its return.\<close>

datatype opc = O_lock | O_test | O_init | O_set | O_unlock | O_done

text \<open>\<open>todo\<close> counts the calls of \<open>one_time_init\<close> the thread has not finished.\<close>

record othread =
  opos :: opc
  todo :: nat

datatype ompc = O_create | O_join nat | O_exited

record ost =
  omtx :: "nat option"
  called :: int
  othr :: "othread list"
  omain :: ompc
  oproc :: "unit proc"
  oover :: "(unit proc, unit) res option"

definition odie :: "(int \<Rightarrow> string) \<Rightarrow> int \<Rightarrow> string \<Rightarrow> ost \<Rightarrow> ost" where
  "odie serr e m s = s\<lparr>oover := Some (errExitEN serr e m (oproc s))\<rparr>"

definition oput :: "nat \<Rightarrow> opc \<Rightarrow> nat \<Rightarrow> ost \<Rightarrow> ost" where
  "oput i c n s = s\<lparr>othr := (othr s)[i := \<lparr>opos = c, todo = n\<rparr>]\<rparr>"

definition oprint :: "string \<Rightarrow> ost \<Rightarrow> ost" where
  "oprint m s = s\<lparr>oproc := printf_out (m @ nl) (oproc s)\<rparr>"

definition init_func :: "ost \<Rightarrow> ost" where
  "init_func s = oprint ''Called init_func()'' s"

text \<open>
  \<open>one_time_init\<close> in thread \<open>i\<close>. The results are compared with -1, so another error number is ignored and the thread
  goes on without the mutex.
\<close>

fun one_time_init :: "(int \<Rightarrow> string) \<Rightarrow> nat \<Rightarrow> int \<Rightarrow> opc \<Rightarrow> nat \<Rightarrow> ost \<Rightarrow> ost" where
  "one_time_init serr i a O_lock n s =
     (if a = - 1 then odie serr a ''pthread_mutex_lock'' s
      else if a \<noteq> 0 then oput i O_test n s
      else if omtx s = None then oput i O_test n (s\<lparr>omtx := Some i\<rparr>) else s)"
| "one_time_init serr i a O_test n s = oput i (if called s = 0 then O_init else O_unlock) n s"
| "one_time_init serr i a O_init n s = oput i O_set n (init_func s)"
| "one_time_init serr i a O_set n s = oput i O_unlock n (s\<lparr>called := 1\<rparr>)"
| "one_time_init serr i a O_unlock n s =
     (if a = - 1 then odie serr a ''pthread_mutex_unlock'' s
      else oput i (if n > 1 then O_lock else O_done) (n - 1) (if a = 0 then s\<lparr>omtx := None\<rparr> else s))"
| "one_time_init serr i a O_done n s = s"

text \<open>\<open>threadFunc\<close> makes two calls.\<close>

definition threadFunc :: othread where
  "threadFunc = \<lparr>opos = O_lock, todo = 2\<rparr>"

fun main :: "(int \<Rightarrow> string) \<Rightarrow> int \<Rightarrow> ompc \<Rightarrow> ost \<Rightarrow> ost" where
  "main serr a O_create s =
     (if a \<noteq> 0 then odie serr a ''pthread_create'' s
      else s\<lparr>othr := othr s @ [threadFunc], omain := (if othr s = [] then O_create else O_join 0)\<rparr>)"
| "main serr a (O_join k) s =
     (if a \<noteq> 0 then odie serr a ''pthread_join'' s
      else if opos (othr s ! k) = O_done
      then if k = 0 then oprint ''First thread returned'' (s\<lparr>omain := O_join 1\<rparr>)
           else let t = oprint ''Second thread returned'' (s\<lparr>omain := O_exited\<rparr>) in t\<lparr>oover := Some (exit3 EXIT_SUCCESS (oproc t))\<rparr>
      else s)"
| "main serr a O_exited s = s"

definition once_begin :: "unit proc \<Rightarrow> ost" where
  "once_begin p = \<lparr>omtx = None, called = 0, othr = [], omain = O_create, oproc = p, oover = None\<rparr>"

definition once_move :: "(int \<Rightarrow> string) \<Rightarrow> nat \<Rightarrow> int \<Rightarrow> ost \<Rightarrow> ost" where
  "once_move serr t a s =
     (if oover s \<noteq> None then s
      else case t of
             0 \<Rightarrow> main serr a (omain s) s
           | Suc i \<Rightarrow> if i < length (othr s) then one_time_init serr i a (opos (othr s ! i)) (todo (othr s ! i)) s else s)"

text \<open>\<open>A\<close> are the answers that the mutex may give.\<close>

inductive once_reach :: "int set \<Rightarrow> (int \<Rightarrow> string) \<Rightarrow> unit proc \<Rightarrow> ost \<Rightarrow> bool" for A serr p where
  once_start: "once_reach A serr p (once_begin p)"
| once_step: "once_reach A serr p s \<Longrightarrow> t = 0 \<or> a \<in> A \<Longrightarrow> once_reach A serr p (once_move serr t a s)"

section \<open>The invariant\<close>

definition oinside :: "othread \<Rightarrow> bool" where
  "oinside t = (opos t \<in> {O_test, O_init, O_set, O_unlock})"

definition oexcl :: "ost \<Rightarrow> bool" where
  "oexcl s = ((\<forall>i < length (othr s). oinside (othr s ! i) = (omtx s = Some i)) \<and> (\<forall>i. omtx s = Some i \<longrightarrow> i < length (othr s)))"

text \<open>Before the flag is set no call has ended, and afterwards no thread is in the initialisation.\<close>

definition othread_ok :: "int \<Rightarrow> othread \<Rightarrow> bool" where
  "othread_ok c t =
     ((c = 0 \<longrightarrow> todo t = 2 \<and> opos t \<noteq> O_unlock \<and> opos t \<noteq> O_done) \<and> (c \<noteq> 0 \<longrightarrow> opos t \<noteq> O_init \<and> opos t \<noteq> O_set))"

definition initialised :: "ost \<Rightarrow> bool" where
  "initialised s = (called s \<noteq> 0 \<or> (\<exists>t \<in> set (othr s). opos t = O_set))"

fun reported :: "ompc \<Rightarrow> string" where
  "reported O_create = []"
| "reported (O_join k) = (if k = 0 then [] else ''First thread returned'' @ nl)"
| "reported O_exited = ''First thread returned'' @ nl @ ''Second thread returned'' @ nl"

definition printed :: "unit proc \<Rightarrow> ost \<Rightarrow> bool" where
  "printed p s = (out_buf (oproc s) = out_buf p @ (if initialised s then ''Called init_func()'' @ nl else []) @ reported (omain s))"

definition ojoined :: "ost \<Rightarrow> bool" where
  "ojoined s = (case omain s of
     O_create \<Rightarrow> length (othr s) < 2
   | O_join k \<Rightarrow> length (othr s) = 2 \<and> k < 2 \<and> (k = 1 \<longrightarrow> opos (othr s ! 0) = O_done)
   | O_exited \<Rightarrow> length (othr s) = 2 \<and> opos (othr s ! 0) = O_done)"

definition olive :: "unit proc \<Rightarrow> ost \<Rightarrow> bool" where
  "olive p s = (oexcl s \<and> (\<forall>t \<in> set (othr s). othread_ok (called s) t) \<and> printed p s \<and> ojoined s \<and>
     (oover s = (if omain s = O_exited then Some (exit3 EXIT_SUCCESS (oproc s)) else None)))"

definition ofailed :: "ost \<Rightarrow> bool" where
  "ofailed s = (omain s \<noteq> O_exited \<and> (\<exists>e m q serr. oover s = Some (errExitEN serr e m q)))"

lemma oexcl_same:
  "oexcl s \<Longrightarrow> i < length (othr s) \<Longrightarrow> othr t = othr s \<Longrightarrow> omtx t = omtx s \<Longrightarrow> oinside \<lparr>opos = c, todo = n\<rparr> = oinside (othr s ! i) \<Longrightarrow> oexcl (oput i c n t)"
  by (auto simp: oexcl_def oput_def nth_list_update)

lemma oexcl_take:
  "oexcl s \<Longrightarrow> i < length (othr s) \<Longrightarrow> omtx s = None \<Longrightarrow> oinside \<lparr>opos = c, todo = n\<rparr> \<Longrightarrow> oexcl (oput i c n (s\<lparr>omtx := Some i\<rparr>))"
  by (auto simp: oexcl_def oput_def nth_list_update)

lemma oexcl_drop:
  assumes "oexcl s" "i < length (othr s)" "oinside (othr s ! i)" "\<not> oinside \<lparr>opos = c, todo = n\<rparr>"
  shows "oexcl (oput i c n (s\<lparr>omtx := None\<rparr>))"
proof -
  have "omtx s = Some i" using assms by (simp add: oexcl_def)
  then show ?thesis using assms by (auto simp: oexcl_def oput_def nth_list_update)
qed

lemma alone:
  assumes "oexcl s" "i < length (othr s)" "oinside (othr s ! i)" "k < length (othr s)" "k \<noteq> i"
  shows "\<not> oinside (othr s ! k)"
  using assms by (simp add: oexcl_def)

lemma threads_put:
  assumes "\<forall>t \<in> set (othr s). othread_ok (called s) t" "oexcl s" "i < length (othr s)" "othr t = othr s"
    "othread_ok (called t) \<lparr>opos = c, todo = n\<rparr>" "called t = called s \<or> oinside (othr s ! i) \<and> called t \<noteq> 0"
  shows "\<forall>x \<in> set (othr (oput i c n t)). othread_ok (called t) x"
proof -
  have "othread_ok (called t) ((othr s)[i := \<lparr>opos = c, todo = n\<rparr>] ! k)" if k: "k < length (othr s)" for k
  proof (cases "k = i")
    case False
    have old: "othread_ok (called s) (othr s ! k)" using assms(1) k by simp
    have "opos (othr s ! k) \<noteq> O_init \<and> opos (othr s ! k) \<noteq> O_set" if "oinside (othr s ! i)"
      using alone [OF assms(2,3) that k False] by (auto simp: oinside_def)
    then show ?thesis using old False assms(6) by (auto simp: othread_ok_def)
  qed (use assms(3,5) in simp)
  then show ?thesis using assms(4) by (auto simp: oput_def in_set_conv_nth)
qed

lemma initialised_put:
  assumes "i < length (othr s)" "othr t = othr s"
  shows "initialised (oput i c n t) = (called t \<noteq> 0 \<or> c = O_set \<or> (\<exists>k < length (othr s). k \<noteq> i \<and> opos (othr s ! k) = O_set))"
  using assms by (auto simp: initialised_def oput_def in_set_conv_nth nth_list_update Bex_def)

lemma initialised_alone:
  assumes "oexcl s" "i < length (othr s)" "oinside (othr s ! i)" "othr t = othr s"
  shows "initialised (oput i c n t) = (called t \<noteq> 0 \<or> c = O_set)" "initialised s = (called s \<noteq> 0 \<or> opos (othr s ! i) = O_set)"
proof -
  have o: "opos (othr s ! k) \<noteq> O_set" if "k < length (othr s)" "k \<noteq> i" for k
    using alone [OF assms(1-3) that] by (auto simp: oinside_def)
  then show "initialised (oput i c n t) = (called t \<noteq> 0 \<or> c = O_set)" using initialised_put [OF assms(2,4)] by auto
  show "initialised s = (called s \<noteq> 0 \<or> opos (othr s ! i) = O_set)"
    using o nth_mem [OF assms(2)] unfolding initialised_def by (metis in_set_conv_nth)
qed

lemma initialised_lock:
  assumes "i < length (othr s)" "opos (othr s ! i) = O_lock" "othr t = othr s" "called t = called s" "c \<noteq> O_set"
  shows "initialised (oput i c n t) = initialised s"
proof -
  have "(\<exists>x \<in> set (othr s). opos x = O_set) = (\<exists>k < length (othr s). k \<noteq> i \<and> opos (othr s ! k) = O_set)"
    using assms(2) by (metis in_set_conv_nth opc.distinct(5))
  then show ?thesis using initialised_put [OF assms(1,3)] assms(4,5) by (simp add: initialised_def)
qed

lemma olive_put:
  assumes "olive p s" "oover s = None" "i < length (othr s)" "opos (othr s ! i) \<noteq> O_done" "othr t = othr s" "omain t = omain s" "oover t = oover s"
    "oexcl (oput i c n t)" "othread_ok (called t) \<lparr>opos = c, todo = n\<rparr>" "called t = called s \<or> oinside (othr s ! i) \<and> called t \<noteq> 0"
    "out_buf (oproc t) = out_buf p @ (if initialised (oput i c n t) then ''Called init_func()'' @ nl else []) @ reported (omain s)"
  shows "olive p (oput i c n t)"
proof -
  have "\<forall>x \<in> set (othr (oput i c n t)). othread_ok (called t) x" using threads_put [OF _ _ assms(3,5,9,10)] assms(1) by (simp add: olive_def)
  moreover have "ojoined (oput i c n t)" using assms(1,3-6) by (auto simp: olive_def ojoined_def oput_def nth_list_update split: ompc.splits)
  moreover have "omain s \<noteq> O_exited" using assms(1,2) by (auto simp: olive_def split: if_splits)
  ultimately show ?thesis using assms(2,6-8,11) by (simp add: olive_def printed_def oput_def)
qed

lemma odie_failed: "omain s \<noteq> O_exited \<Longrightarrow> ofailed (odie serr e m s)"
  by (auto simp: ofailed_def odie_def)

lemma one_time_init_live:
  assumes "olive p s" "oover s = None" "i < length (othr s)" "othr s ! i = \<lparr>opos = c, todo = n\<rparr>"
  shows "olive p (one_time_init serr i 0 c n s)"
proof -
  have e: "oexcl s" and m: "ojoined s" and q: "printed p s" using assms(1) by (simp_all add: olive_def)
  have ok: "othread_ok (called s) \<lparr>opos = c, todo = n\<rparr>" using assms(1,3,4) nth_mem [of i "othr s"] by (auto simp: olive_def)
  note put = olive_put [OF assms(1-3)] oexcl_same [OF e assms(3)] assms(4) and vals = othread_ok_def oinside_def
  note ini = initialised_alone [OF e assms(3)] and pr = q [unfolded printed_def]
  show ?thesis
  proof (cases c)
    case O_lock
    have "oexcl (oput i O_test n (s\<lparr>omtx := Some i\<rparr>))" if "omtx s = None" using oexcl_take [OF e assms(3) that] by (simp add: oinside_def)
    then show ?thesis using O_lock ok pr assms(1) initialised_lock [OF assms(3), of "s\<lparr>omtx := Some i\<rparr>" O_test n] by (simp add: put vals)
  next
    case O_test
    then show ?thesis using ok pr ini [of s] by (simp add: put vals)
  next
    case O_init
    have "called s = 0" using ok O_init by (simp add: othread_ok_def split: if_splits)
    have "length (othr s) = 2 \<Longrightarrow> opos (othr s ! 0) \<noteq> O_done" using assms(1) \<open>called s = 0\<close> by (simp add: olive_def othread_ok_def)
    then have "reported (omain s) = []" using m by (auto simp: ojoined_def less_2_cases_iff split: ompc.splits)
    then show ?thesis using O_init ok pr ini [of "init_func s"] \<open>called s = 0\<close>
      by (simp add: put vals init_func_def oprint_def printf_out_def ini(2))
  next
    case O_set
    then show ?thesis using ok pr ini [of "s\<lparr>called := 1\<rparr>"] by (simp add: put vals)
  next
    case O_unlock
    have x: "oexcl (oput i c' n' (s\<lparr>omtx := None\<rparr>))" if "c' = O_lock \<or> c' = O_done" for c' n'
      using oexcl_drop [OF e assms(3)] that O_unlock assms(4) by (auto simp: oinside_def)
    have "called s \<noteq> 0" using ok O_unlock by (auto simp: othread_ok_def split: if_splits)
    then show ?thesis using O_unlock ok pr ini [of "s\<lparr>omtx := None\<rparr>"] x by (simp add: put vals)
  next
    case O_done
    then show ?thesis using assms(1) by simp
  qed
qed

lemma main_olive:
  assumes "olive p s" "oover s = None"
  shows "ofailed (main serr a (omain s) s) \<or> olive p (main serr a (omain s) s)"
proof -
  have x: "omain s \<noteq> O_exited" using assms by (auto simp: olive_def split: if_splits)
  have e: "oexcl s" and m: "ojoined s" and q: "printed p s" and ok: "\<forall>t \<in> set (othr s). othread_ok (called s) t" using assms(1) by (simp_all add: olive_def)
  show ?thesis
  proof (cases "omain s")
    case O_create
    let ?t = "s\<lparr>othr := othr s @ [threadFunc], omain := (if othr s = [] then O_create else O_join 0)\<rparr>"
    have "oexcl ?t" using e by (auto simp: oexcl_def oinside_def threadFunc_def nth_append less_Suc_eq)
    moreover have "initialised ?t = initialised s" by (auto simp: initialised_def threadFunc_def)
    moreover have "length (othr s) = 0 \<or> length (othr s) = 1" using m O_create less_2_cases [of "length (othr s)"] by (simp add: ojoined_def)
    ultimately have "olive p ?t" using q ok O_create assms(2) by (auto simp: olive_def ojoined_def printed_def threadFunc_def othread_ok_def)
    then show ?thesis using O_create odie_failed [OF x] by simp
  next
    case (O_join k)
    have l: "length (othr s) = 2" "k < 2" using m O_join by (auto simp: ojoined_def)
    have "called s \<noteq> 0" if "opos (othr s ! k) = O_done" using ok l that by (auto simp: othread_ok_def dest!: bspec [of _ _ "othr s ! k"] split: if_splits)
    then have "olive p (main serr 0 (O_join k) s)"
      using assms O_join l e ok q m by (auto simp: olive_def oexcl_def printed_def initialised_def ojoined_def oprint_def printf_out_def less_2_cases_iff)
    then show ?thesis using O_join odie_failed [OF x] by (cases "a = 0") simp_all
  next
    case O_exited
    then show ?thesis using x by simp
  qed
qed

lemma once_reach_live:
  assumes "once_reach {0} serr p s"
  shows "ofailed s \<or> olive p s"
  using assms
proof (induction rule: once_reach.induct)
  case once_start
  show ?case by (simp add: once_begin_def olive_def oexcl_def printed_def initialised_def ojoined_def)
next
  case (once_step s t a)
  show ?case
  proof (cases "oover s = None")
    case True
    then have l: "olive p s" using once_step.IH by (auto simp: ofailed_def)
    have "olive p (one_time_init serr i 0 (opos (othr s ! i)) (todo (othr s ! i)) s)" if "i < length (othr s)" for i
      using one_time_init_live [OF l True that] by simp
    then show ?thesis using main_olive [OF l True] True l once_step.hyps(2) by (auto simp: once_move_def split: nat.split)
  qed (use once_step.IH in \<open>simp add: once_move_def\<close>)
qed

section \<open>Properties\<close>

text \<open>
  C32. In every interleaving in which no call on the mutex fails, the initialisation runs exactly once, and before either
  thread has returned: when the program exits with success it has printed its three lines in this order.
\<close>

theorem init_runs_once:
  assumes "once_reach {0} serr p s" "omain s = O_exited"
  shows "\<exists>q. oover s = Some (exit3 EXIT_SUCCESS q) \<and> out_buf q = out_buf p @ ''Called init_func()'' @ nl @
    ''First thread returned'' @ nl @ ''Second thread returned'' @ nl"
proof -
  have l: "olive p s" using once_reach_live [OF assms(1)] assms(2) by (auto simp: ofailed_def)
  then have t: "othr s ! 0 \<in> set (othr s)" "opos (othr s ! 0) = O_done" using assms(2) by (auto simp: olive_def ojoined_def)
  then have "called s \<noteq> 0" using l by (auto simp: olive_def othread_ok_def)
  then show ?thesis using l assms(2) by (auto simp: olive_def printed_def initialised_def)
qed

definition once_plays :: "(nat \<times> int) list \<Rightarrow> ost \<Rightarrow> ost" where
  "once_plays ts s = fold (\<lambda>(t, a). once_move (\<lambda>e. []) t a) ts s"

lemma once_plays_reach: "once_reach A (\<lambda>e. []) p s \<Longrightarrow> \<forall>(t, a) \<in> set ts. t = 0 \<or> a \<in> A \<Longrightarrow> once_reach A (\<lambda>e. []) p (once_plays ts s)"
proof (induction ts arbitrary: s)
  case (Cons x xs)
  then show ?case using once_step [OF Cons.prems(1), of "fst x" "snd x"] by (auto simp: once_plays_def split_beta)
qed (simp add: once_plays_def)

definition once_idle :: "unit proc" where
  "once_idle = \<lparr>out_buf = [], out = [], err = [], errno = 0, ef_dumpcore = None, world = ()\<rparr>"

definition once_run :: ost where
  "once_run = once_plays ([(0, 0), (0, 0), (1, 0), (2, 0)] @ replicate 7 (1, 0) @ replicate 6 (2, 0) @ [(0, 0), (0, 0)]) (once_begin once_idle)"

theorem init_runs_once_witness:
  "omain once_run = O_exited \<and> (\<exists>q. oover once_run = Some (exit3 EXIT_SUCCESS q) \<and> out_buf q = ''Called init_func()'' @ nl @
    ''First thread returned'' @ nl @ ''Second thread returned'' @ nl)"
proof -
  have "omain once_run = O_exited" by code_simp
  moreover have "once_reach {0} (\<lambda>e. []) once_idle once_run"
    unfolding once_run_def by (rule once_plays_reach [OF once_start]) auto
  ultimately show ?thesis using init_runs_once [of "\<lambda>e. []" once_idle once_run] by (simp add: once_idle_def)
qed

text \<open>
  The mutex functions return a positive error number, which the comparison with -1 overlooks: when the two locks fail
  both threads run the initialisation.
\<close>

theorem failed_lock_runs_twice:
  "\<exists>s. once_reach {0, 22} (\<lambda>e. []) once_idle s \<and> omain s = O_exited \<and>
     out_buf (oproc s) = concat [''Called init_func()'', nl, ''Called init_func()'', nl, ''First thread returned'', nl, ''Second thread returned'', nl]"
proof (intro exI conjI)
  let ?s = "once_plays ([(0, 0), (0, 0), (1, 22), (2, 22), (1, 0), (2, 0)] @ replicate 7 (1, 0) @ replicate 7 (2, 0) @ [(0, 0), (0, 0)]) (once_begin once_idle)"
  show "once_reach {0, 22} (\<lambda>e. []) once_idle ?s" by (rule once_plays_reach [OF once_start]) auto
  show "omain ?s = O_exited" by code_simp
  show "out_buf (oproc ?s) = concat [''Called init_func()'', nl, ''Called init_func()'', nl, ''First thread returned'', nl, ''Second thread returned'', nl]" by code_simp
qed

end
