(* ===== verification/SigChld.thy ===== *)
theory SigChld
  imports ErrorFunctions GetNum LibMisc
begin

text \<open>
  \<open>tlpi-dist/procexec/multi_SIGCHLD.c\<close>: a parent that reaps its children in a handler of SIGCHLD. The signal is not
  queued, so one call of the handler serves all the children that are dead. The children interleave with the parent,
  and a child may die at any time. A step of the parent is one of its calls.
\<close>

section \<open>The program\<close>

datatype kid = Running string | Zombie nat | Reaped

text \<open>The main program and, inside sigsuspend(2), the handler.\<close>

datatype spc = S_action | S_block | S_fork | S_test | S_suspend | H_caught | H_wait | H_return | S_exited

text \<open>\<open>unborn\<close> are the arguments for which there is no child yet; \<open>pend\<close> tells whether SIGCHLD is pending.\<close>

record chst =
  kids :: "(int \<times> kid) list"
  unborn :: "string list"
  numLiveChildren :: int
  pend :: bool
  sigCnt :: int
  spos :: spc
  sio :: "unit proc"
  sover :: "(unit proc, unit) res option"

definition E_INTR :: int where "E_INTR = 4"
definition E_CHILD :: int where "E_CHILD = 10"

text \<open>The standard output has no buffer.\<close>

definition say :: "string list \<Rightarrow> chst \<Rightarrow> chst" where
  "say t s = s\<lparr>sio := (sio s)\<lparr>out := out (sio s) @ msg t\<rparr>\<rparr>"

definition sfail :: "(int \<Rightarrow> string) \<Rightarrow> int \<Rightarrow> string \<Rightarrow> chst \<Rightarrow> chst" where
  "sfail serr e m s = s\<lparr>sover := Some (errExit serr m ((sio s)\<lparr>errno := e\<rparr>))\<rparr>"

definition zombie :: "kid \<Rightarrow> bool" where
  "zombie c = (case c of Zombie st \<Rightarrow> True | _ \<Rightarrow> False)"

text \<open>
  The loop of the handler: waitpid(2) reaps the dead child \<open>k\<close>, if there is one; otherwise it returns 0, or fails with
  ECHILD when there is no child at all, and the loop ends.
\<close>

definition sigchldHandler_wait :: "(int \<Rightarrow> string) \<Rightarrow> (nat \<Rightarrow> string) \<Rightarrow> string \<Rightarrow> int \<Rightarrow> nat \<Rightarrow> chst \<Rightarrow> chst" where
  "sigchldHandler_wait serr ss tm a k s =
     (if a \<noteq> 0 \<and> a \<noteq> E_CHILD
      then s\<lparr>spos := H_return, sio := (errMsg serr ''waitpid'' ((sio s)\<lparr>errno := a\<rparr>))\<lparr>errno := errno (sio s)\<rparr>\<rparr>
      else if list_all (\<lambda>c. \<not> zombie (snd c)) (kids s) then s\<lparr>spos := H_return\<rparr>
      else if k < length (kids s)
      then case kids s ! k of
             (pid, Zombie st) \<Rightarrow>
               say [tm, '' handler: Reaped child '', dec pid, '' - '', printWaitStatus ss None st]
                 (s\<lparr>kids := (kids s)[k := (pid, Reaped)], numLiveChildren := numLiveChildren s - 1\<rparr>)
           | _ \<Rightarrow> s
      else s)"

fun main :: "(int \<Rightarrow> string) \<Rightarrow> (nat \<Rightarrow> string) \<Rightarrow> nat \<Rightarrow> string \<Rightarrow> int \<Rightarrow> nat \<Rightarrow> int \<Rightarrow> spc \<Rightarrow> chst \<Rightarrow> chst" where
  "main serr ss n tm a k pid S_action s = (if a \<noteq> 0 then sfail serr a ''sigaction'' s else s\<lparr>spos := S_block\<rparr>)"
| "main serr ss n tm a k pid S_block s = (if a \<noteq> 0 then sfail serr a ''sigprocmask'' s else s\<lparr>spos := S_fork\<rparr>)"
| "main serr ss n tm a k pid S_fork s =
     (case unborn s of
        [] \<Rightarrow> s\<lparr>spos := S_test\<rparr>
      | x # xs \<Rightarrow> if a \<noteq> 0 then sfail serr a ''fork'' s else s\<lparr>kids := kids s @ [(pid, Running x)], unborn := xs\<rparr>)"
| "main serr ss n tm a k pid S_test s =
     (if numLiveChildren s > 0 then s\<lparr>spos := S_suspend\<rparr>
      else let t = say [tm, '' All '', dec (int n), '' children have terminated; SIGCHLD was caught '', dec (sigCnt s), '' times'', nl] (s\<lparr>spos := S_exited\<rparr>)
           in t\<lparr>sover := Some (exit3 EXIT_SUCCESS (sio t))\<rparr>)"
| "main serr ss n tm a k pid S_suspend s =
     (if a \<noteq> 0 \<and> a \<noteq> E_INTR then sfail serr a ''sigsuspend'' s
      else if pend s then s\<lparr>pend := False, spos := H_caught\<rparr> else s)"
| "main serr ss n tm a k pid H_caught s = say [tm, '' handler: Caught SIGCHLD'', nl] (s\<lparr>spos := H_wait\<rparr>)"
| "main serr ss n tm a k pid H_wait s = sigchldHandler_wait serr ss tm a k s"
| "main serr ss n tm a k pid H_return s = say [tm, '' handler: returning'', nl] (s\<lparr>spos := S_test, sigCnt := sigCnt s + 1\<rparr>)"
| "main serr ss n tm a k pid S_exited s = s"

text \<open>Child \<open>k\<close> ends: by itself, with status \<open>0\<close> for a good argument, or killed, with the wait status \<open>st\<close>.\<close>

definition child_ends :: "string \<Rightarrow> nat \<Rightarrow> nat \<Rightarrow> chst \<Rightarrow> chst" where
  "child_ends tm st k s =
     (if k < length (kids s)
      then case kids s ! k of
             (pid, Running x) \<Rightarrow>
               let dead = (\<lambda>w t. t\<lparr>kids := (kids t)[k := (pid, Zombie w)], pend := True\<rparr>) in
               if st \<noteq> 0 then dead st s
               else (case getInt (Some x) GN_NONNEG (Some ''child-sleep-time'') of
                       Inl e \<Rightarrow> dead 256 (s\<lparr>sio := fputs_err e (sio s)\<rparr>)
                     | Inr secs \<Rightarrow> dead 0 (say [tm, '' Child '', dec (int k + 1), '' (PID='', dec pid, '') exiting'', nl] s))
           | _ \<Rightarrow> s
      else s)"

datatype schld = Parent string int nat int | Child string nat nat

definition ch_move :: "(int \<Rightarrow> string) \<Rightarrow> (nat \<Rightarrow> string) \<Rightarrow> nat \<Rightarrow> schld \<Rightarrow> chst \<Rightarrow> chst" where
  "ch_move serr ss n x s =
     (if sover s \<noteq> None then s
      else case x of Parent tm a k pid \<Rightarrow> main serr ss n tm a k pid (spos s) s | Child tm st k \<Rightarrow> child_ends tm st k s)"

text \<open>\<open>argv\<close> are the arguments after the name of the program.\<close>

definition ch_begin :: "string list \<Rightarrow> unit proc \<Rightarrow> chst" where
  "ch_begin argv p =
     \<lparr>kids = [], unborn = argv, numLiveChildren = int (length argv), pend = False, sigCnt = 0, spos = S_action, sio = p,
      sover = (if argv = [] \<or> hd argv = ''--help'' then Some (usageErr (msg [''multi_SIGCHLD child-sleep-time...'', nl]) p) else None)\<rparr>"

inductive ch_reach :: "(int \<Rightarrow> string) \<Rightarrow> (nat \<Rightarrow> string) \<Rightarrow> string list \<Rightarrow> unit proc \<Rightarrow> chst \<Rightarrow> bool" for serr ss argv p where
  ch_start: "ch_reach serr ss argv p (ch_begin argv p)"
| ch_step: "ch_reach serr ss argv p s \<Longrightarrow> ch_reach serr ss argv p (ch_move serr ss (length argv) x s)"

fun answered :: "schld \<Rightarrow> bool" where
  "answered (Parent tm a k pid) = (a = 0)"
| "answered (Child tm st k) = True"

text \<open>Runs of \<open>n\<close> steps in which no call fails and every step does something.\<close>

inductive ch_run :: "(int \<Rightarrow> string) \<Rightarrow> (nat \<Rightarrow> string) \<Rightarrow> string list \<Rightarrow> unit proc \<Rightarrow> nat \<Rightarrow> chst \<Rightarrow> bool" for serr ss argv p where
  chr_start: "ch_run serr ss argv p 0 (ch_begin argv p)"
| chr_step: "ch_run serr ss argv p n s \<Longrightarrow> answered x \<Longrightarrow> ch_move serr ss (length argv) x s \<noteq> s \<Longrightarrow>
    ch_run serr ss argv p (Suc n) (ch_move serr ss (length argv) x s)"

section \<open>The invariant\<close>

definition unreaped :: "int \<times> kid \<Rightarrow> int" where
  "unreaped c = (if snd c = Reaped then 0 else 1)"

definition dead :: "int \<times> kid \<Rightarrow> int" where
  "dead c = (case snd c of Running x \<Rightarrow> 0 | _ \<Rightarrow> 1)"

definition handling :: "chst \<Rightarrow> bool" where
  "handling s = (spos s \<in> {H_caught, H_wait, H_return})"

text \<open>The count of children is right, and there were no more signals than deaths.\<close>

definition kids_ok :: "string list \<Rightarrow> chst \<Rightarrow> bool" where
  "kids_ok argv s =
     (numLiveChildren s = sum_list (map unreaped (kids s)) + int (length (unborn s)) \<and>
      length (kids s) + length (unborn s) = length argv \<and> 0 \<le> sigCnt s \<and>
      sigCnt s + (if pend s then 1 else 0) + (if handling s then 1 else 0) \<le> sum_list (map dead (kids s)) \<and>
      (sigCnt s = 0 \<and> \<not> handling s \<longrightarrow> sum_list (map unreaped (kids s)) = int (length (kids s))))"

definition parent_ok :: "string list \<Rightarrow> chst \<Rightarrow> bool" where
  "parent_ok argv s =
     ((spos s \<notin> {S_action, S_block, S_fork} \<longrightarrow> unborn s = []) \<and> (spos s = S_suspend \<longrightarrow> 0 < numLiveChildren s) \<and>
      sover s = (if spos s = S_exited then Some (exit3 EXIT_SUCCESS (sio s)) else None) \<and>
      (spos s = S_exited \<longrightarrow> numLiveChildren s \<le> 0 \<and> (\<exists>u tm. out (sio s) =
         u @ msg [tm, '' All '', dec (int (length argv)), '' children have terminated; SIGCHLD was caught '', dec (sigCnt s), '' times'', nl])))"

definition ch_failed :: "chst \<Rightarrow> bool" where
  "ch_failed s = (spos s \<noteq> S_exited \<and> sover s \<noteq> None)"

lemma say_frame [simp]:
  "kids (say t s) = kids s" "unborn (say t s) = unborn s" "numLiveChildren (say t s) = numLiveChildren s" "pend (say t s) = pend s"
  "sigCnt (say t s) = sigCnt s" "spos (say t s) = spos s" "sover (say t s) = sover s" "handling (say t s) = handling s"
  by (simp_all add: say_def handling_def)

lemma kids_ok_frame: "kids_ok argv (say t s) = kids_ok argv s"
  by (simp add: kids_ok_def)

lemma sfail_failed: "spos s \<noteq> S_exited \<Longrightarrow> ch_failed (sfail serr e m s)"
  by (simp add: ch_failed_def sfail_def)

lemma unreaped_bounds: "0 \<le> sum_list (map unreaped cs)" "sum_list (map unreaped cs) \<le> int (length cs)"
  "sum_list (map dead cs) \<le> int (length cs)"
  by (induction cs) (auto simp: unreaped_def dead_def split: kid.split)

lemma all_reaped: "sum_list (map unreaped cs) = 0 \<longleftrightarrow> (\<forall>c \<in> set cs. snd c = Reaped)"
proof (induction cs)
  case (Cons c cs)
  then show ?case using unreaped_bounds(1) [of cs] by (auto simp: unreaped_def [of c])
qed simp

lemma reap_inv:
  assumes "kids_ok argv s" "k < length (kids s)" "kids s ! k = (pid, Zombie st)" "spos s = H_wait"
  shows "kids_ok argv (s\<lparr>kids := (kids s)[k := (pid, Reaped)], numLiveChildren := numLiveChildren s - 1\<rparr>)"
  using assms sum_list_upd [OF assms(2), of unreaped "(pid, Reaped)"] sum_list_upd [OF assms(2), of dead "(pid, Reaped)"]
  by (auto simp: kids_ok_def unreaped_def dead_def handling_def)

lemma die_inv:
  assumes "kids_ok argv s" "k < length (kids s)" "kids s ! k = (pid, Running x)"
  shows "kids_ok argv (s\<lparr>kids := (kids s)[k := (pid, Zombie st)], pend := True\<rparr>)"
  using assms sum_list_upd [OF assms(2), of unreaped "(pid, Zombie st)"] sum_list_upd [OF assms(2), of dead "(pid, Zombie st)"]
  by (cases "pend s") (auto simp: kids_ok_def unreaped_def [of "(pid, y)" for y] dead_def [of "(pid, y)" for y] handling_def split: if_splits)

lemma wait_inv:
  assumes "kids_ok argv s" "parent_ok argv s" "spos s = H_wait"
  shows "kids_ok argv (sigchldHandler_wait serr ss tm a k s)" "parent_ok argv (sigchldHandler_wait serr ss tm a k s)"
proof -
  have "kids_ok argv (s\<lparr>spos := H_return, sio := q\<rparr>)" "kids_ok argv (s\<lparr>spos := H_return\<rparr>)" for q
    using assms(1,3) by (simp_all add: kids_ok_def handling_def)
  then show "kids_ok argv (sigchldHandler_wait serr ss tm a k s)"
    using assms reap_inv [OF assms(1) _ _ assms(3)] by (auto simp: sigchldHandler_wait_def kids_ok_frame split: prod.split kid.split)
  show "parent_ok argv (sigchldHandler_wait serr ss tm a k s)"
    using assms(2,3) by (auto simp: sigchldHandler_wait_def parent_ok_def split: prod.split kid.split)
qed

lemma main_ch_inv:
  assumes "kids_ok argv s" "parent_ok argv s" "sover s = None"
  shows "ch_failed (main serr ss (length argv) tm a k pid (spos s) s) \<or>
    kids_ok argv (main serr ss (length argv) tm a k pid (spos s) s) \<and> parent_ok argv (main serr ss (length argv) tm a k pid (spos s) s)"
proof -
  have x: "spos s \<noteq> S_exited" using assms(2,3) by (auto simp: parent_ok_def)
  show ?thesis
  proof (cases "spos s")
    case S_fork
    then show ?thesis using assms sfail_failed [OF x]
      by (cases "unborn s") (auto simp: kids_ok_def parent_ok_def handling_def unreaped_def dead_def)
  next
    case S_test
    have "out (sio (say t s)) = out (sio s) @ msg t" for t by (simp add: say_def)
    then show ?thesis using S_test assms by (auto simp: kids_ok_def parent_ok_def handling_def Let_def say_def)
  next
    case H_wait
    then show ?thesis using wait_inv [OF assms(1,2)] by simp
  qed (use assms sfail_failed [OF x] in \<open>auto simp: kids_ok_def parent_ok_def handling_def\<close>)
qed

lemma child_ch_inv:
  assumes "kids_ok argv s" "parent_ok argv s" "sover s = None"
  shows "kids_ok argv (child_ends tm st k s) \<and> parent_ok argv (child_ends tm st k s)"
proof -
  have e: "kids_ok argv (s\<lparr>sio := q\<rparr>)" for q using assms(1) by (simp add: kids_ok_def handling_def)
  have x: "spos s \<noteq> S_exited" using assms(2,3) by (auto simp: parent_ok_def)
  have "kids_ok argv (child_ends tm st k s)"
    using die_inv [OF assms(1)] die_inv [OF e] assms(1) die_inv [of argv "say m s" k for m]
    by (auto simp: child_ends_def Let_def kids_ok_frame split: prod.split kid.split sum.split)
  moreover have "parent_ok argv (child_ends tm st k s)"
    using assms(2) x by (auto simp: child_ends_def Let_def parent_ok_def split: prod.split kid.split sum.split)
  ultimately show ?thesis by simp
qed

lemma ch_move_inv:
  assumes "kids_ok argv s" "parent_ok argv s"
  shows "ch_failed (ch_move serr ss (length argv) x s) \<or> kids_ok argv (ch_move serr ss (length argv) x s) \<and> parent_ok argv (ch_move serr ss (length argv) x s)"
proof (cases "sover s = None")
  case True
  then show ?thesis using main_ch_inv [OF assms True] child_ch_inv [OF assms True] by (cases x) (simp_all add: ch_move_def)
qed (use assms in \<open>simp add: ch_move_def\<close>)

lemma ch_begin_inv: "ch_failed (ch_begin argv p) \<or> kids_ok argv (ch_begin argv p) \<and> parent_ok argv (ch_begin argv p)"
  by (simp add: ch_begin_def ch_failed_def kids_ok_def parent_ok_def handling_def)

lemma ch_reach_inv:
  assumes "ch_reach serr ss argv p s"
  shows "ch_failed s \<or> kids_ok argv s \<and> parent_ok argv s"
  using assms
proof (induction rule: ch_reach.induct)
  case ch_start
  show ?case by (rule ch_begin_inv)
next
  case (ch_step s x)
  have "ch_move serr ss (length argv) x s = s" if "ch_failed s" using that by (simp add: ch_failed_def ch_move_def)
  then show ?case using ch_step.IH ch_move_inv [of argv s] by metis
qed

text \<open>
  In every interleaving, when the parent exits with success it has reaped every child, one for each argument, and it
  reports at least one and at most as many signals as there were children.
\<close>

theorem all_children_reaped:
  assumes "ch_reach serr ss argv p s" "spos s = S_exited"
  shows "length (kids s) = length argv \<and> (\<forall>c \<in> set (kids s). snd c = Reaped) \<and> sover s = Some (exit3 EXIT_SUCCESS (sio s)) \<and>
    (argv = [] \<or> 1 \<le> sigCnt s) \<and> sigCnt s \<le> int (length argv) \<and>
    (\<exists>u tm. out (sio s) = u @ msg [tm, '' All '', dec (int (length argv)), '' children have terminated; SIGCHLD was caught '', dec (sigCnt s), '' times'', nl])"
proof -
  have k: "kids_ok argv s" and m: "parent_ok argv s" using ch_reach_inv [OF assms(1)] assms(2) by (auto simp: ch_failed_def)
  have "unborn s = []" "sum_list (map unreaped (kids s)) = 0"
    using k m assms(2) unreaped_bounds(1) [of "kids s"] by (auto simp: kids_ok_def parent_ok_def)
  then show ?thesis using k m assms(2) unreaped_bounds(3) [of "kids s"] all_reaped [of "kids s"]
    by (auto simp: kids_ok_def parent_ok_def handling_def split: if_splits)
qed

section \<open>Progress\<close>

text \<open>As long as no call fails, no signal is lost: a dead child is about to be reaped or the signal is pending.\<close>

definition no_loss :: "chst \<Rightarrow> bool" where
  "no_loss s = (spos s = H_caught \<or> spos s = H_wait \<or> pend s \<or> (\<forall>c \<in> set (kids s). \<not> zombie (snd c)))"

fun kid_steps :: "int \<times> kid \<Rightarrow> int" where
  "kid_steps (pid, Running x) = 9"
| "kid_steps (pid, Zombie st) = 2"
| "kid_steps (pid, Reaped) = 0"

fun pos_steps :: "spc \<Rightarrow> int" where
  "pos_steps S_action = 4"
| "pos_steps S_block = 3"
| "pos_steps S_fork = 2"
| "pos_steps S_test = 1"
| "pos_steps H_caught = 5"
| "pos_steps H_wait = 4"
| "pos_steps H_return = 3"
| "pos_steps c = 0"

definition ch_left :: "chst \<Rightarrow> int" where
  "ch_left s = sum_list (map kid_steps (kids s)) + 10 * int (length (unborn s)) + (if pend s then 6 else 0) + pos_steps (spos s)"

lemma kid_steps_nonneg: "0 \<le> kid_steps c"
  by (cases c rule: kid_steps.cases) auto

lemma ch_left_nonneg: "0 \<le> ch_left s"
proof -
  have "0 \<le> sum_list (map kid_steps (kids s))" by (rule sum_list_nonneg) (auto simp: kid_steps_nonneg)
  moreover have "0 \<le> pos_steps (spos s)" by (cases "spos s") auto
  ultimately show ?thesis by (simp add: ch_left_def)
qed

lemma wait_step:
  assumes "no_loss s" "spos s = H_wait"
  shows "no_loss (sigchldHandler_wait serr ss tm 0 k s)"
    "sigchldHandler_wait serr ss tm 0 k s \<noteq> s \<Longrightarrow> ch_left (sigchldHandler_wait serr ss tm 0 k s) < ch_left s"
    "\<exists>k. sigchldHandler_wait serr ss tm 0 k s \<noteq> s"
proof -
  show "no_loss (sigchldHandler_wait serr ss tm 0 k s)"
    using assms(2) by (auto simp: sigchldHandler_wait_def no_loss_def list_all_iff split: prod.split kid.split)
  show "ch_left (sigchldHandler_wait serr ss tm 0 k s) < ch_left s" if "sigchldHandler_wait serr ss tm 0 k s \<noteq> s"
    using that assms(2) sum_list_upd [of k "kids s" kid_steps]
    by (auto simp: sigchldHandler_wait_def ch_left_def split: prod.splits kid.splits if_splits)
  show "\<exists>k. sigchldHandler_wait serr ss tm 0 k s \<noteq> s"
  proof (cases "list_all (\<lambda>c. \<not> zombie (snd c)) (kids s)")
    case True
    then have "spos (sigchldHandler_wait serr ss tm 0 0 s) \<noteq> spos s" using assms(2) by (simp add: sigchldHandler_wait_def)
    then show ?thesis by metis
  next
    case False
    then obtain k where k: "k < length (kids s)" "zombie (snd (kids s ! k))" by (auto simp: list_all_length)
    then obtain pid st where z: "kids s ! k = (pid, Zombie st)" by (cases "kids s ! k") (auto simp: zombie_def split: kid.splits)
    then have "numLiveChildren (sigchldHandler_wait serr ss tm 0 k s) \<noteq> numLiveChildren s"
      using False k(1) by (simp add: sigchldHandler_wait_def)
    then show ?thesis by metis
  qed
qed

lemma parent_step:
  assumes "no_loss s" "sover s = None"
  shows "no_loss (main serr ss n tm 0 k pid (spos s) s)"
    "main serr ss n tm 0 k pid (spos s) s \<noteq> s \<Longrightarrow> ch_left (main serr ss n tm 0 k pid (spos s) s) < ch_left s"
proof -
  show "no_loss (main serr ss n tm 0 k pid (spos s) s)"
    using assms wait_step(1) [OF assms(1)] by (cases "spos s") (auto simp: no_loss_def zombie_def Let_def split: list.split)
  show "ch_left (main serr ss n tm 0 k pid (spos s) s) < ch_left s" if "main serr ss n tm 0 k pid (spos s) s \<noteq> s"
    using assms that wait_step(2) [OF assms(1)] by (cases "spos s") (auto simp: ch_left_def Let_def split: list.splits if_splits)
qed

lemma child_step:
  assumes "no_loss s"
  shows "no_loss (child_ends tm st k s)" "child_ends tm st k s \<noteq> s \<Longrightarrow> ch_left (child_ends tm st k s) < ch_left s"
proof -
  show "no_loss (child_ends tm st k s)" using assms by (auto simp: child_ends_def no_loss_def Let_def split: prod.split kid.split sum.split)
  show "ch_left (child_ends tm st k s) < ch_left s" if "child_ends tm st k s \<noteq> s"
    using that sum_list_upd [of k "kids s" kid_steps]
    by (auto simp: child_ends_def ch_left_def Let_def split: prod.splits kid.splits sum.splits if_splits)
qed

lemma ch_someone_moves:
  assumes "kids_ok argv s" "parent_ok argv s" "no_loss s" "sover s = None"
  shows "\<exists>x. answered x \<and> ch_move serr ss n x s \<noteq> s"
proof -
  have p: "\<exists>x. answered x \<and> ch_move serr ss n x s \<noteq> s" if "main serr ss n [] 0 k 0 (spos s) s \<noteq> s" for k
    using that assms(4) by (intro exI [of _ "Parent [] 0 k 0"]) (simp add: ch_move_def)
  then have q: "\<exists>x. answered x \<and> ch_move serr ss n x s \<noteq> s" if "spos (main serr ss n [] 0 0 0 (spos s) s) \<noteq> spos s" using that by metis
  show ?thesis
  proof (cases "spos s")
    case S_suspend
    show ?thesis
    proof (cases "pend s")
      case True
      then have "pend (main serr ss n [] 0 0 0 (spos s) s) \<noteq> pend s" using S_suspend by simp
      then show ?thesis using p [of 0] by metis
    next
      case False
      then have "\<forall>c \<in> set (kids s). \<not> zombie (snd c)" using assms(3) S_suspend by (simp add: no_loss_def)
      moreover have "sum_list (map unreaped (kids s)) \<noteq> 0" using assms(1,2) S_suspend by (auto simp: kids_ok_def parent_ok_def)
      ultimately obtain k where k: "k < length (kids s)" "snd (kids s ! k) \<noteq> Reaped" "\<not> zombie (snd (kids s ! k))"
        using all_reaped [of "kids s"] by (metis in_set_conv_nth)
      then obtain pid y where "kids s ! k = (pid, Running y)"
        by (cases "kids s ! k"; cases "snd (kids s ! k)") (auto simp: zombie_def)
      then have "pend (child_ends [] 9 k s) \<noteq> pend s" using k(1) False by (simp add: child_ends_def Let_def)
      then have "ch_move serr ss n (Child [] 9 k) s \<noteq> s" using assms(4) by (auto simp: ch_move_def)
      then show ?thesis by (metis answered.simps(2))
    qed
  next
    case H_wait
    then show ?thesis using wait_step(3) [OF assms(3), of serr ss "[]"] p by auto
  next
    case S_fork
    then have "spos (main serr ss n [] 0 0 0 (spos s) s) \<noteq> spos s \<or> length (unborn (main serr ss n [] 0 0 0 (spos s) s)) \<noteq> length (unborn s)"
      by (cases "unborn s") auto
    then show ?thesis using p [of 0] by metis
  next
    case S_exited
    then show ?thesis using assms(2,4) by (simp add: parent_ok_def)
  qed (use q in \<open>simp add: Let_def\<close>)+
qed

lemma ch_no_failure:
  assumes "sover s = None" "answered x"
  shows "\<not> ch_failed (ch_move serr ss n x s)"
proof (cases x)
  case (Parent tm a k pid)
  have "sover (sigchldHandler_wait serr ss tm 0 k s) = None" using assms(1) by (simp add: sigchldHandler_wait_def split: prod.split kid.split)
  then have "\<not> ch_failed (main serr ss n tm 0 k pid c s)" for c
    using assms(1) by (cases c) (simp_all add: ch_failed_def Let_def split: list.split)
  then show ?thesis using Parent assms by (simp add: ch_move_def)
next
  case (Child tm st k)
  then show ?thesis using assms(1) by (simp add: ch_move_def ch_failed_def child_ends_def Let_def split: prod.split kid.split sum.split)
qed

lemma ch_run_inv:
  assumes "ch_run serr ss argv p n s" "argv \<noteq> []" "hd argv \<noteq> ''--help''"
  shows "kids_ok argv s \<and> parent_ok argv s \<and> no_loss s \<and> int n + ch_left s \<le> 10 * int (length argv) + 4"
  using assms(1)
proof (induction rule: ch_run.induct)
  case chr_start
  show ?case using assms(2,3)
    by (simp add: ch_begin_def kids_ok_def parent_ok_def handling_def no_loss_def ch_left_def)
next
  case (chr_step n s x)
  let ?t = "ch_move serr ss (length argv) x s"
  have i: "kids_ok argv s" "parent_ok argv s" "no_loss s" using chr_step.IH by auto
  have o: "sover s = None" using chr_step.hyps(3) by (auto simp: ch_move_def split: if_splits)
  have l: "no_loss ?t \<and> ch_left ?t < ch_left s"
    using parent_step [OF i(3) o] child_step [OF i(3)] chr_step.hyps(2,3) o by (cases x) (simp_all add: ch_move_def)
  have "\<not> ch_failed ?t" by (rule ch_no_failure [OF o chr_step.hyps(2)])
  then show ?case using ch_move_inv [OF i(1,2)] l chr_step.IH by auto
qed

text \<open>
  C33. If no call fails, every run of the program ends: a run of the parent and its children has at most ten steps for each
  child and four more, and until the parent has exited some process can go on. No child is forgotten because the
  signals are not queued.
\<close>

theorem parent_completes:
  assumes "argv \<noteq> []" "hd argv \<noteq> ''--help''" "ch_run serr ss argv p n s"
  shows "n \<le> 10 * length argv + 4 \<and> (spos s = S_exited \<or> (\<exists>x. answered x \<and> ch_move serr ss (length argv) x s \<noteq> s))"
proof -
  have i: "kids_ok argv s" "parent_ok argv s" "no_loss s" "int n + ch_left s \<le> 10 * int (length argv) + 4" using ch_run_inv [OF assms(3,1,2)] by auto
  have "int n \<le> 10 * int (length argv) + 4" using i(4) ch_left_nonneg [of s] by linarith
  then have "n \<le> 10 * length argv + 4" by linarith
  moreover have "spos s = S_exited \<or> sover s = None" using i(2) by (simp add: parent_ok_def)
  ultimately show ?thesis using ch_someone_moves [OF i(1-3)] by blast
qed

definition ch_plays :: "nat \<Rightarrow> schld list \<Rightarrow> chst \<Rightarrow> chst" where
  "ch_plays n xs s = fold (ch_move (\<lambda>e. []) (\<lambda>g. []) n) xs s"

lemma ch_plays_reach: "ch_reach (\<lambda>e. []) (\<lambda>g. []) argv p s \<Longrightarrow> ch_reach (\<lambda>e. []) (\<lambda>g. []) argv p (ch_plays (length argv) xs s)"
  by (induction xs arbitrary: s) (simp_all add: ch_plays_def ch_step)

definition ch_idle :: "unit proc" where
  "ch_idle = \<lparr>out_buf = [], out = [], err = [], errno = 0, ef_dumpcore = None, world = ()\<rparr>"

definition go :: "nat \<Rightarrow> schld" where
  "go k = Parent ''T'' 0 k (100 + int k)"

text \<open>Two children die before the parent waits: there is one signal for both.\<close>

definition both_die :: "schld list" where
  "both_die = [go 0, go 0, go 0, go 1, Child ''T'' 0 0, Child ''T'' 9 1, go 0, go 0, go 0, go 0, go 1, go 0, go 0, go 0, go 0]"

definition after_both :: chst where
  "after_both = ch_plays 2 both_die (ch_begin [''1'', ''2''] ch_idle)"

theorem all_children_reaped_witness:
  "spos after_both = S_exited \<and> sigCnt after_both = 1 \<and> length (kids after_both) = 2 \<and> (\<forall>c \<in> set (kids after_both). snd c = Reaped)"
proof -
  have "spos after_both = S_exited" "sigCnt after_both = 1" by code_simp+
  then show ?thesis using all_children_reaped [of "\<lambda>e. []" "\<lambda>g. []" "[''1'', ''2'']" ch_idle after_both]
      ch_plays_reach [OF ch_start, of "[''1'', ''2'']" ch_idle both_die] by (simp add: after_both_def numeral_2_eq_2)
qed

theorem parent_completes_witness:
  "\<exists>x. answered x \<and> ch_move (\<lambda>e. []) (\<lambda>g. []) 2 x (ch_begin [''1'', ''2''] ch_idle) \<noteq> ch_begin [''1'', ''2''] ch_idle"
proof -
  have "spos (ch_begin [''1'', ''2''] ch_idle) \<noteq> S_exited" by (simp add: ch_begin_def)
  then show ?thesis using parent_completes [OF _ _ chr_start [of "\<lambda>e. []" "\<lambda>g. []" "[''1'', ''2'']" ch_idle]]
    by (simp add: numeral_2_eq_2)
qed

end
