(* ===== verification/ExecLp.thy ===== *)
theory ExecLp
  imports EnvVars
begin

text \<open>
  \<open>tlpi-dist/procexec/execlp.c\<close>, an execlp(3) over execve(2), which is a parameter:
  \<open>None\<close> when the new program runs, otherwise the error. Of the allocations, those the code checks may fail; strdup(3)
  and the allocation of \<open>pathname\<close>, which it does not check, succeed.
\<close>

section \<open>execlp\<close>

definition EX_ACCES :: int where "EX_ACCES = 13"
definition EX_NOEXEC :: int where "EX_NOEXEC = 8"
definition EX_NOMEM :: int where "EX_NOMEM = 12"
definition SHELL_PATH :: string where "SHELL_PATH = ''/bin/sh''"

text \<open>A call comes back with errno, the process runs another program, or the behaviour is undefined.\<close>

datatype outcome = Back int | Runs string "string list" "string list" | Bad

type_synonym execve = "string \<Rightarrow> string list \<Rightarrow> string list \<Rightarrow> int option"

text \<open>The strings of an array of pointers up to the null pointer; without one execve(2) reads beyond the array.\<close>

definition strings_of :: "string option list \<Rightarrow> string list option" where
  "strings_of cs = (if None \<in> set cs then Some (map the (takeWhile (\<lambda>c. c \<noteq> None) cs)) else None)"

definition do_execve :: "execve \<Rightarrow> string \<Rightarrow> string option list \<Rightarrow> string list \<Rightarrow> outcome" where
  "do_execve K file argv envp =
     (case strings_of argv of
        None \<Rightarrow> Bad
      | Some as \<Rightarrow> (case K file as envp of None \<Rightarrow> Runs file as envp | Some e \<Rightarrow> Back e))"

text \<open>The loop of \<open>execShScript\<close>, from \<open>j\<close> to \<open>argc\<close>.\<close>

function copy_sh_args :: "nat \<Rightarrow> nat \<Rightarrow> string option list \<Rightarrow> string option list \<Rightarrow> string option list option" where
  "copy_sh_args argc j argv sh =
     (if j > argc then Some sh
      else if j \<ge> length argv \<or> j + 1 \<ge> length sh then None
      else copy_sh_args argc (j + 1) argv (sh[j + 1 := argv ! j]))"
  by pat_completeness auto
termination
  by (relation "measure (\<lambda>(argc, j, argv, sh). Suc argc - j)") auto

declare copy_sh_args.simps [simp del]

definition execShScript :: "execve \<Rightarrow> nat \<Rightarrow> string option list \<Rightarrow> string list \<Rightarrow> outcome" where
  "execShScript K argc argv envp =
     (case copy_sh_args argc 0 argv (Some SHELL_PATH # replicate argc None) of
        None \<Rightarrow> Bad
      | Some sh \<Rightarrow> do_execve K SHELL_PATH sh envp)"

text \<open>
  The argument vector: \<open>va\<close> are the arguments that va_arg(3) still gives. realloc(3) leaves room for one pointer,
  because its argument is not multiplied by the size. \<open>None\<close> is undefined behaviour, \<open>Some None\<close> a failed
  allocation.
\<close>

fun build_argv :: "bool \<Rightarrow> string option list \<Rightarrow> string option list \<Rightarrow> nat \<Rightarrow> nat \<Rightarrow> (string option list \<times> nat) option option" where
  "build_argv mem va argv argc argvSize =
     (if argc - 1 \<ge> length argv then None
      else if argv ! (argc - 1) = None then Some (Some (argv, argc))
      else let (argv1, size1) = (if argc + 1 \<ge> argvSize then (take 1 argv, argvSize + 100) else (argv, argvSize))
           in if argc + 1 \<ge> argvSize \<and> \<not> mem then Some None
              else case va of
                     [] \<Rightarrow> None
                   | x # xs \<Rightarrow> if argc \<ge> length argv1 then None else build_argv mem xs (argv1[argc := x]) (argc + 1) size1)"

declare build_argv.simps [simp del]

text \<open>
  One prefix of PATH, which starts at \<open>prStart\<close>: its end, and the name in a buffer of the size that is allocated;
  \<open>None\<close> if the name does not fit.
\<close>

definition prefix_end :: "string \<Rightarrow> nat \<Rightarrow> nat" where
  "prefix_end PATH prStart =
     (case strchr (drop prStart PATH) CHR '':'' of Some i \<Rightarrow> prStart + i | None \<Rightarrow> prStart + length (drop prStart PATH))"

definition build_pathname :: "string \<Rightarrow> string \<Rightarrow> nat \<Rightarrow> nat \<Rightarrow> string option" where
  "build_pathname PATH filename prStart prEnd =
     (let capacity = max 1 (prEnd - prStart) + length filename + 2;
          name = (if prEnd = prStart then ''.'' else take (prEnd - prStart) (drop prStart PATH)) @ ''/'' @ filename
      in if length name + 1 \<le> capacity then Some name else None)"

text \<open>The loop over the prefixes; \<open>savedErrno\<close> is the error of the last execve(2).\<close>

function try_prefixes :: "execve \<Rightarrow> string \<Rightarrow> string \<Rightarrow> nat \<Rightarrow> string option list \<Rightarrow> string list \<Rightarrow> nat \<Rightarrow> bool \<Rightarrow> outcome" where
  "try_prefixes K PATH filename argc argv envp prStart fndEACCES =
     (let prEnd = prefix_end PATH prStart in
      case build_pathname PATH filename prStart prEnd of
        None \<Rightarrow> Bad
      | Some pathname \<Rightarrow>
          (case do_execve K pathname argv envp of
             Runs f as es \<Rightarrow> Runs f as es
           | Bad \<Rightarrow> Bad
           | Back e \<Rightarrow>
               (case (if e = EX_NOEXEC then execShScript K argc argv envp else Back e) of
                  Runs f as es \<Rightarrow> Runs f as es
                | Bad \<Rightarrow> Bad
                | Back e2 \<Rightarrow>
                    let fnd = (fndEACCES \<or> e = EX_ACCES) in
                    if prEnd < length PATH then try_prefixes K PATH filename argc argv envp (prEnd + 1) fnd
                    else Back (if fnd then EX_ACCES else e))))"
  by pat_completeness auto
termination
  by (relation "measure (\<lambda>(K, PATH, filename, argc, argv, envp, prStart, fnd). length PATH - prStart)")
     (auto simp: prefix_end_def split: option.splits)

declare try_prefixes.simps [simp del]

text \<open>\<open>arg\<close> and \<open>va\<close> are the arguments, a null pointer being \<open>None\<close>; the flags tell which allocations succeed.\<close>

definition execlp :: "execve \<Rightarrow> bool \<Rightarrow> bool \<Rightarrow> bool \<Rightarrow> env \<Rightarrow> string \<Rightarrow> string option \<Rightarrow> string option list \<Rightarrow> outcome" where
  "execlp K memArgv memRealloc memEnvp s filename arg va =
     (if \<not> memArgv then Back EX_NOMEM
      else case build_argv memRealloc va (arg # replicate 99 None) 1 100 of
             None \<Rightarrow> Bad
           | Some None \<Rightarrow> Back EX_NOMEM
           | Some (Some (argv, argc)) \<Rightarrow>
               if None \<notin> set (environ s) then Bad
               else if \<not> memEnvp then Back EX_NOMEM
               else let envp = env_strings (environ s) in
               if strchr filename CHR ''/'' \<noteq> None
               then (case do_execve K filename argv envp of
                       Back e \<Rightarrow> (case (if e = EX_NOEXEC then execShScript K argc argv envp else Back e) of
                                    Back e2 \<Rightarrow> Back e | r \<Rightarrow> r)
                     | r \<Rightarrow> r)
               else let PATH = (case getenv ''PATH'' s of None \<Rightarrow> ''.'' | Some q \<Rightarrow> if q = [] then ''.'' else q)
                    in try_prefixes K PATH filename argc argv envp 0 False)"

section \<open>The argument vector\<close>

lemma strings_of_args: "strings_of (map Some as @ None # cs) = Some as"
proof -
  have "takeWhile (\<lambda>c. c \<noteq> None) (map Some as @ None # cs) = map Some as" by (induction as) auto
  then show ?thesis by (simp add: strings_of_def comp_def)
qed

lemma build_argv_arg:
  assumes "xs \<noteq> []" "length xs < 99"
  shows "build_argv mem (x # va) (map Some xs @ replicate (Suc m) None) (length xs) 100 =
    build_argv mem va (map Some xs @ x # replicate m None) (Suc (length xs)) 100"
proof -
  have "(map Some xs @ replicate (Suc m) None) ! (length xs - 1) \<noteq> None" using assms(1) by (simp add: nth_append)
  moreover have "\<not> Suc (length xs + m) \<le> length xs - Suc 0" by simp
  ultimately show ?thesis using assms by (subst build_argv.simps) (auto simp: list_update_append)
qed

lemma build_argv_end: "build_argv mem va (map Some xs @ None # cs) (Suc (length xs)) sz = Some (Some (map Some xs @ None # cs, Suc (length xs)))"
  by (subst build_argv.simps) (simp add: nth_append)

lemma build_argv_run:
  "xs \<noteq> [] \<Longrightarrow> length xs + length ys \<le> 98 \<Longrightarrow>
   build_argv mem (map Some ys @ [None]) (map Some xs @ replicate (Suc (length ys + m)) None) (length xs) 100 =
     Some (Some (map Some (xs @ ys) @ None # replicate m None, Suc (length (xs @ ys))))"
proof (induction ys arbitrary: xs)
  case Nil
  then show ?case using build_argv_arg [of xs mem None "[]" m] build_argv_end [of mem "[]" xs "replicate m None" 100] by simp
next
  case (Cons y ys)
  then show ?case using build_argv_arg [of xs mem "Some y" "map Some ys @ [None]" "Suc (length ys + m)"] Cons.IH [of "xs @ [y]"] by simp
qed

lemma build_argv_small:
  assumes "as \<noteq> []" "length as \<le> 98"
  shows "build_argv mem (map Some (tl as) @ [None]) (Some (hd as) # replicate 99 None) (Suc 0) 100 =
    Some (Some (map Some as @ None # replicate (99 - length as) None, Suc (length as)))"
proof -
  have "99 = Suc (length (tl as) + (99 - length as))" using assms by (cases as) auto
  then have "replicate 99 None = replicate (Suc (length (tl as) + (99 - length as))) (None :: string option)" by metis
  then show ?thesis using build_argv_run [of "[hd as]" "tl as" mem "99 - length as"] assms by (cases as) auto
qed

text \<open>The 99th argument does not fit.\<close>

lemma build_argv_run_bad:
  "xs \<noteq> [] \<Longrightarrow> length xs + length ys = 99 \<Longrightarrow> build_argv True (map Some ys @ x # va) (map Some xs @ replicate (Suc (length ys)) None) (length xs) 100 = None"
proof (induction ys arbitrary: xs)
  case Nil
  then show ?case by (subst build_argv.simps) (simp add: nth_append)
next
  case (Cons y ys)
  then show ?case using build_argv_arg [of xs True "Some y" "map Some ys @ x # va" "Suc (length ys)"] Cons.IH [of "xs @ [y]"] by simp
qed

section \<open>The search\<close>

lemma copy_sh_args_bad: "j \<le> argc \<Longrightarrow> length sh = Suc argc \<Longrightarrow> copy_sh_args argc j argv sh = None"
proof (induction argc j argv sh rule: copy_sh_args.induct)
  case (1 argc j argv sh)
  then show ?case by (subst copy_sh_args.simps) auto
qed

lemma execShScript_bad: "execShScript K argc argv es = Bad"
  by (simp add: execShScript_def copy_sh_args_bad)

text \<open>
  What execlp should try, and what it does with it. The directories of PATH are separated by colons. Of the files the first that
  runs, or that is not a program, decides.
\<close>

fun colon_split :: "string \<Rightarrow> string list" where
  "colon_split [] = [[]]"
| "colon_split (c # cs) =
     (if c = CHR '':'' then [] # colon_split cs else (c # hd (colon_split cs)) # tl (colon_split cs))"

fun colon_list :: "string list \<Rightarrow> string" where
  "colon_list [] = []"
| "colon_list [d] = d"
| "colon_list (d # ds) = d @ CHR '':'' # colon_list ds"

definition in_dir :: "string \<Rightarrow> string \<Rightarrow> string" where
  "in_dir filename d = (if d = [] then ''.'' else d) @ ''/'' @ filename"

definition candidates :: "string \<Rightarrow> string option \<Rightarrow> string list" where
  "candidates filename p =
     (if CHR ''/'' \<in> set filename then [filename]
      else map (in_dir filename) (colon_split (case p of None \<Rightarrow> ''.'' | Some q \<Rightarrow> if q = [] then ''.'' else q)))"

definition search :: "execve \<Rightarrow> string list \<Rightarrow> string list \<Rightarrow> bool \<Rightarrow> string list \<Rightarrow> outcome" where
  "search K as es fnd qs =
     (case List.find (\<lambda>q. K q as es = None \<or> K q as es = Some EX_NOEXEC) qs of
        Some q \<Rightarrow> if K q as es = None then Runs q as es else Bad
      | None \<Rightarrow> Back (if fnd \<or> (\<exists>q \<in> set qs. K q as es = Some EX_ACCES) then EX_ACCES else the (K (last qs) as es)))"

lemma colon_split_ne [simp]: "colon_split p \<noteq> []"
  by (cases p) auto

lemma colon_list_step: "ds \<noteq> [] \<Longrightarrow> colon_list ((c # hd ds) # tl ds) = c # colon_list ds"
  by (cases ds; cases "tl ds") auto

lemma colon_list_split: "colon_list (colon_split p) = p"
proof (induction p)
  case (Cons c p)
  have "colon_list ([] # colon_split p) = CHR '':'' # colon_list (colon_split p)" by (cases "colon_split p") auto
  with Cons show ?case by (simp add: colon_list_step)
qed simp

lemma colon_split_plain: "\<forall>d \<in> set (colon_split p). CHR '':'' \<notin> set d"
proof (induction p)
  case (Cons c p)
  then show ?case by (cases "colon_split p") auto
qed simp

lemma search_Cons:
  "qs \<noteq> [] \<Longrightarrow> search K as es fnd (q # qs) =
    (case K q as es of None \<Rightarrow> Runs q as es | Some e \<Rightarrow> if e = EX_NOEXEC then Bad else search K as es (fnd \<or> e = EX_ACCES) qs)"
  by (auto simp: search_def split: option.split)

lemma search_one:
  "search K as es fnd [q] =
    (case K q as es of None \<Rightarrow> Runs q as es | Some e \<Rightarrow> if e = EX_NOEXEC then Bad else Back (if fnd \<or> e = EX_ACCES then EX_ACCES else e))"
  by (auto simp: search_def split: option.split)

lemma prefix_end_colon: "CHR '':'' \<notin> set d \<Longrightarrow> prefix_end (pre @ d @ CHR '':'' # r) (length pre) = length pre + length d"
  by (simp add: prefix_end_def strchr_append)

lemma prefix_end_last: "CHR '':'' \<notin> set d \<Longrightarrow> prefix_end (pre @ d) (length pre) = length pre + length d"
  by (simp add: prefix_end_def strchr_None)

lemma build_pathname_fits: "build_pathname (pre @ d @ r) filename (length pre) (length pre + length d) = Some (in_dir filename d)"
  by (simp add: build_pathname_def in_dir_def Let_def max_def)

lemma try_prefixes_search:
  assumes "strings_of argv = Some as" "ds \<noteq> []" "\<forall>d \<in> set ds. CHR '':'' \<notin> set d"
  shows "try_prefixes K (pre @ colon_list ds) filename argc argv es (length pre) fnd = search K as es fnd (map (in_dir filename) ds)"
  using assms(2,3)
proof (induction ds arbitrary: pre fnd)
  case (Cons d ds)
  have x: "do_execve K q argv es = (case K q as es of None \<Rightarrow> Runs q as es | Some e \<Rightarrow> Back e)" for q
    by (simp add: do_execve_def assms(1))
  let ?q = "in_dir filename d"
  show ?case
  proof (cases ds)
    case Nil
    then show ?thesis using Cons.prems build_pathname_fits [of pre d "[]" filename] prefix_end_last [of d pre]
      by (subst try_prefixes.simps) (auto simp: Let_def x search_one execShScript_bad split: option.split)
  next
    case (Cons e es')
    then have n: "ds \<noteq> []" and c: "colon_list (d # ds) = d @ CHR '':'' # colon_list ds" by simp_all
    have i: "try_prefixes K (pre @ d @ CHR '':'' # colon_list ds) filename argc argv es (Suc (length pre + length d)) f =
        search K as es f (map (in_dir filename) ds)" for f
      using Cons.IH [OF n, of "pre @ d @ [CHR '':'']" f] Cons.prems by simp
    have s: "search K as es fnd (map (in_dir filename) (d # ds)) =
        (case K ?q as es of None \<Rightarrow> Runs ?q as es | Some e \<Rightarrow> if e = EX_NOEXEC then Bad else search K as es (fnd \<or> e = EX_ACCES) (map (in_dir filename) ds))"
      using n by (simp add: search_Cons)
    show ?thesis unfolding c s using Cons.prems(2) build_pathname_fits [of pre d "CHR '':'' # colon_list ds" filename]
        prefix_end_colon [of d pre "colon_list ds"]
      by (subst try_prefixes.simps) (auto simp: Let_def x i execShScript_bad split: option.split)
  qed
qed simp

section \<open>Properties\<close>

text \<open>
  C34. execlp with up to 98 arguments, when its allocations succeed. A name with a slash is tried as it is; any other is tried in the directories of
  PATH in their order, an empty one, and the whole PATH if it is empty or undefined, meaning the current directory. The first file that
  execve(2) accepts runs, with the arguments and the environment of the caller. If none is accepted the call fails with EACCES when one of
  the files gave that error, otherwise with the error of the last. A file that gives ENOEXEC before any is accepted leads to the
  overflow of \<open>execShScript\<close>, which is undefined. The name that is built always fits its buffer.
\<close>

theorem execlp_searches_path:
  assumes "as \<noteq> []" "length as \<le> 98" "None \<in> set (environ s)"
  shows "execlp K True mem True s filename (Some (hd as)) (map Some (tl as) @ [None]) =
    search K as (env_strings (environ s)) False (candidates filename (getenv ''PATH'' s))"
proof (cases "CHR ''/'' \<in> set filename")
  case True
  then have "strchr filename CHR ''/'' \<noteq> None" by (simp add: strchr_def find_idx_None_iff)
  then show ?thesis using assms(3) True
    by (auto simp: execlp_def build_argv_small [OF assms(1,2)] Let_def do_execve_def strings_of_args candidates_def search_one execShScript_bad
        split: option.split)
next
  case False
  have t: "try_prefixes K p filename argc (map Some as @ None # cs) es 0 False =
      search K as es False (map (in_dir filename) (colon_split p))" for p argc cs es
    using try_prefixes_search [OF strings_of_args, of "colon_split p" K "[]" filename argc as cs es False] colon_split_plain
    by (simp add: colon_list_split)
  then show ?thesis using assms(3) False strchr_None [OF False]
    by (simp add: execlp_def build_argv_small [OF assms(1,2)] Let_def candidates_def split: option.split)
qed

definition exec_env :: env where
  "exec_env = \<lparr>environ = [Some ''HOME=/root'', Some ''PATH=/usr/bin::/bin'', None], env_errno = 0\<rparr>"

definition only_bin :: execve where
  "only_bin q as es = (if q = ''/bin/ls'' then None else Some 2)"

theorem execlp_searches_path_witness:
  "execlp only_bin True True True exec_env ''ls'' (Some ''ls'') [Some ''-l'', None] = Runs ''/bin/ls'' [''ls'', ''-l''] [''HOME=/root'', ''PATH=/usr/bin::/bin'']"
proof -
  have s: "search only_bin [''ls'', ''-l''] (env_strings (environ exec_env)) False (candidates ''ls'' (getenv ''PATH'' exec_env)) =
      Runs ''/bin/ls'' [''ls'', ''-l''] [''HOME=/root'', ''PATH=/usr/bin::/bin'']" by code_simp
  show ?thesis
    using execlp_searches_path [of "[''ls'', ''-l'']" exec_env only_bin True "''ls''"] s by (simp add: exec_env_def)
qed



text \<open>
  The call with 99 or more arguments: realloc(3) is asked for the size of one pointer, and the next argument is
  written behind the array.
\<close>

theorem many_arguments_overflow:
  assumes "99 \<le> length as"
  shows "execlp K True True memEnvp s filename (Some (hd as)) (map Some (tl as) @ [None]) = Bad"
proof -
  obtain a bs where a: "as = a # bs" using assms by (cases as) auto
  let ?ys = "take 98 bs"
  have l: "length ?ys = 98" using assms a by simp
  obtain x va where x: "map Some (drop 98 bs) @ [None] = x # va" by (cases "map Some (drop 98 bs) @ [None :: string option]") auto
  have "map Some bs @ [None] = map Some ?ys @ x # va" by (metis append.assoc append_take_drop_id map_append x)
  then have "build_argv True (map Some bs @ [None]) (Some a # replicate 99 None) (Suc 0) 100 = None"
    using build_argv_run_bad [of "[a]" ?ys x va] l by (simp add: numeral_eq_Suc)
  then show ?thesis by (simp add: execlp_def a)
qed

theorem many_arguments_overflow_witness:
  "execlp (\<lambda>q as es. None) True True True exec_env ''ls'' (Some ''ls'') (map Some (replicate 98 ''x'') @ [None]) = Bad"
  using many_arguments_overflow [of "''ls'' # replicate 98 ''x''"] by simp

end
