(* ===== verification/FileSend.thy ===== *)
theory FileSend
  imports ReadIO ErrorFunctions
begin

text \<open>
  The file transfer of \<open>sp/sock\<close>: \<open>send_file\<close> of \<open>clnt/clnt.c\<close> and \<open>recv_file\<close> of \<open>serv/serv.c\<close>. The descriptors are the
  sources and sinks of \<open>ReadIO\<close>, with the answers of the successive calls; a run for which the answers do not suffice is
  \<open>None\<close>.
\<close>

definition BUFSIZ :: nat where "BUFSIZ = 8192"
definition FS_PATH_MAX :: nat where "FS_PATH_MAX = 4096"

definition perr :: "(int \<Rightarrow> string) \<Rightarrow> string \<Rightarrow> int \<Rightarrow> 'w proc \<Rightarrow> 'w proc" where
  "perr serr m e p = fputs_err (msg [m, '': '', serr e, nl]) (p\<lparr>errno := e\<rparr>)"

section \<open>The client\<close>

record fclient =
  c_file :: source
  c_sock :: sink
  c_open :: bool
  c_proc :: "unit proc"

text \<open>The answer to the recv(2) of the flag: an error, a closed connection, or the flag.\<close>

datatype flag_answer = No_flag int | Closed | Flag int

text \<open>The inner loop of \<open>send_file\<close>: \<open>n\<close> is \<open>ret_read\<close>. Every call starts again at the beginning of \<open>buf\<close>.\<close>

function send_loop :: "string \<Rightarrow> nat \<Rightarrow> sink \<Rightarrow> (int option \<times> sink) option" where
  "send_loop buf n s =
     (if n = 0 then Some (None, s)
      else case write_call (take n buf) s of
             None \<Rightarrow> None
           | Some (Inl e, t) \<Rightarrow> Some (Some e, t)
           | Some (Inr k, t) \<Rightarrow> send_loop buf (n - k) t)"
  by pat_completeness auto
termination
  by (relation "measure (\<lambda>(buf, n, s). length (replies s))") (auto dest: write_call_decreases)

declare send_loop.simps [simp del]

definition fs_error :: "fclient \<Rightarrow> (fclient, int) res" where
  "fs_error c = Exit EXIT_FAILURE (c\<lparr>c_open := False\<rparr>)"

function send_body :: "(int \<Rightarrow> string) \<Rightarrow> fclient \<Rightarrow> (fclient, int) res option" where
  "send_body serr c =
     (case read_call BUFSIZ (c_file c) of
        None \<Rightarrow> None
      | Some (Inl e, f) \<Rightarrow> Some (fs_error (c\<lparr>c_file := f, c_proc := perr serr ''Fail: read()'' e (c_proc c)\<rparr>))
      | Some (Inr buf, f) \<Rightarrow>
          if buf = []
          then Some (Ret 0 (c\<lparr>c_file := f, c_open := False, c_proc := printf_out (msg [''Complete to send! '', nl]) (c_proc c)\<rparr>))
          else (case send_loop buf (length buf) (c_sock c) of
                  None \<Rightarrow> None
                | Some (Some e, s) \<Rightarrow> Some (fs_error (c\<lparr>c_file := f, c_sock := s, c_proc := perr serr ''Fail: send()'' e (c_proc c)\<rparr>))
                | Some (None, s) \<Rightarrow> send_body serr (c\<lparr>c_file := f, c_sock := s\<rparr>)))"
  by pat_completeness auto
termination
  by (relation "measure (\<lambda>(serr, c). length (answers (c_file c)))") (auto dest: read_call_decreases)

declare send_body.simps [simp del]

text \<open>After a closed connection the flag is read without having been set.\<close>

definition send_file :: "(int \<Rightarrow> string) \<Rightarrow> flag_answer \<Rightarrow> string \<Rightarrow> fclient \<Rightarrow> (fclient, int) res option" where
  "send_file serr fl filename c =
     (case write_call filename (c_sock c) of
        None \<Rightarrow> None
      | Some (Inl e, s) \<Rightarrow> Some (fs_error (c\<lparr>c_sock := s, c_proc := perr serr ''Fail: send()'' e (c_proc c)\<rparr>))
      | Some (Inr k, s) \<Rightarrow>
          let c1 = c\<lparr>c_sock := s\<rparr> in
          if k \<noteq> length filename then Some (fs_error (c1\<lparr>c_proc := perr serr ''Fail: send()'' (errno (c_proc c)) (c_proc c)\<rparr>))
          else (case fl of
                  No_flag e \<Rightarrow> Some (fs_error (c1\<lparr>c_proc := perr serr ''Fail: recv()'' e (c_proc c)\<rparr>))
                | Closed \<Rightarrow> Some Undef
                | Flag g \<Rightarrow>
                    if g = - 1 then Some (fs_error (c1\<lparr>c_proc := fputs_err (msg [''Fail to create file to server '', nl]) (c_proc c)\<rparr>))
                    else send_body serr (c1\<lparr>c_proc := printf_out (msg [[CHR 0x09], ''['', filename, ''] Sending file...'', nl]) (c_proc c)\<rparr>)))"

section \<open>The server\<close>

text \<open>\<open>s_later\<close> are the bytes the client sends when it has got the flag.\<close>

record fserver =
  s_sock :: source
  s_later :: string
  s_file :: sink
  s_cfd :: bool
  s_fd :: bool
  s_flag :: "int option"
  s_proc :: "unit proc"

definition child_err :: "int \<Rightarrow> string \<Rightarrow> fserver \<Rightarrow> fserver" where
  "child_err idx m s = s\<lparr>s_proc := fputs_err (msg [''[Child:'', dec idx, ''] '', m, nl]) (s_proc s)\<rparr>"

definition child_out :: "int \<Rightarrow> string \<Rightarrow> fserver \<Rightarrow> fserver" where
  "child_out idx m s = s\<lparr>s_proc := printf_out (msg [''[Child:'', dec idx, ''] '', m, nl]) (s_proc s)\<rparr>"

text \<open>The loop that receives the name; the buffer is zero at first, so what came is a string.\<close>

function recv_name :: "source \<Rightarrow> ((int + string) \<times> source) option" where
  "recv_name s =
     (case read_call (FS_PATH_MAX - 1) s of
        None \<Rightarrow> None
      | Some (Inl e, t) \<Rightarrow> if e = IO_EINTR then recv_name t else Some (Inl e, t)
      | Some (Inr b, t) \<Rightarrow> Some (Inr (takeWhile (\<lambda>c. c \<noteq> CHR 0x00) b), t))"
  by pat_completeness auto
termination
  by (relation "measure (\<lambda>s. length (answers s))") (auto dest: read_call_decreases)

declare recv_name.simps [simp del]

text \<open>The loop that writes \<open>n\<close> bytes: a failed call is repeated, and every call starts at the beginning of \<open>buf\<close>.\<close>

function write_loop :: "string \<Rightarrow> nat \<Rightarrow> sink \<Rightarrow> sink option" where
  "write_loop buf n s =
     (if n = 0 then Some s
      else case write_call (take n buf) s of
             None \<Rightarrow> None
           | Some (Inl e, t) \<Rightarrow> write_loop buf n t
           | Some (Inr k, t) \<Rightarrow> write_loop buf (n - k) t)"
  by pat_completeness auto
termination
  by (relation "measure (\<lambda>(buf, n, s). length (replies s))") (auto dest: write_call_decreases)

declare write_loop.simps [simp del]

function recv_body :: "(int \<Rightarrow> string) \<Rightarrow> int \<Rightarrow> fserver \<Rightarrow> (int \<times> fserver) option" where
  "recv_body serr idx s =
     (case read_call BUFSIZ (s_sock s) of
        None \<Rightarrow> None
      | Some (Inl e, t) \<Rightarrow>
          if e = IO_EINTR then recv_body serr idx (s\<lparr>s_sock := t\<rparr>)
          else Some (- 1, child_err idx (msg [''Fail: recv(): '', serr e, '' '']) (s\<lparr>s_sock := t, s_cfd := False, s_fd := False\<rparr>))
      | Some (Inr buf, t) \<Rightarrow>
          if buf = [] then Some (0, child_out idx ''Complete to receive the file'' (s\<lparr>s_sock := t, s_cfd := False, s_fd := False\<rparr>))
          else (case write_loop buf (length buf) (s_file s) of
                  None \<Rightarrow> None
                | Some f \<Rightarrow> recv_body serr idx (s\<lparr>s_sock := t, s_file := f\<rparr>)))"
  by pat_completeness auto
termination
  by (relation "measure (\<lambda>(serr, idx, s). length (answers (s_sock s)))") (auto dest: read_call_decreases)

declare recv_body.simps [simp del]

text \<open>\<open>create\<close> tells whether open(2) makes the file; the client sends the rest after the flag 0.\<close>

definition recv_file :: "(int \<Rightarrow> string) \<Rightarrow> (string \<Rightarrow> bool) \<Rightarrow> int \<Rightarrow> fserver \<Rightarrow> (int \<times> fserver) option" where
  "recv_file serr create idx s =
     (case recv_name (s_sock s) of
        None \<Rightarrow> None
      | Some (Inl e, t) \<Rightarrow> Some (- 1, child_err idx (msg [''Fail: recv(): '', serr e, '' '']) (s\<lparr>s_sock := t\<rparr>))
      | Some (Inr filename, t) \<Rightarrow>
          let s1 = child_out idx (msg [''File name : ('', filename, '') '']) (s\<lparr>s_sock := t\<rparr>) in
          if \<not> create filename
          then Some (- 1, child_err idx ''Fail: open()'' (s1\<lparr>s_flag := Some (- 1), s_cfd := False\<rparr>))
          else recv_body serr idx (child_out idx ''File receiving... ''
                 (s1\<lparr>s_flag := Some 0, s_fd := True, s_sock := t\<lparr>pending := pending t @ s_later s\<rparr>\<rparr>)))"

section \<open>A transfer\<close>

text \<open>A call of send(2) or write(2) that succeeds takes all it is given.\<close>

definition whole :: "answer \<Rightarrow> bool" where
  "whole a = (case a of Upto k \<Rightarrow> BUFSIZ \<le> k | _ \<Rightarrow> False)"

definition failing :: "answer \<Rightarrow> bool" where
  "failing a = (case a of Upto k \<Rightarrow> False | _ \<Rightarrow> True)"

definition upto :: "answer \<Rightarrow> bool" where
  "upto a = (case a of Upto k \<Rightarrow> True | _ \<Rightarrow> False)"

lemma send_loop_whole:
  assumes "buf \<noteq> []" "length buf \<le> BUFSIZ" "whole a"
  shows "send_loop buf (length buf) \<lparr>accepted = q, replies = a # as\<rparr> = Some (None, \<lparr>accepted = q @ buf, replies = as\<rparr>)"
proof -
  obtain k where k: "a = Upto k" "BUFSIZ \<le> k" using assms(3) by (auto simp: whole_def split: answer.splits)
  then show ?thesis using assms(1,2) by (subst send_loop.simps) (simp add: send_loop.simps [of _ 0])
qed

lemma send_body_sends:
  assumes "list_all upto rs" "length p < length rs" "list_all whole ws" "length p \<le> length ws"
    "c_file c = \<lparr>pending = p, answers = rs\<rparr>" "c_sock c = \<lparr>accepted = q, replies = ws\<rparr>"
  shows "\<exists>d. send_body serr c = Some (Ret 0 d) \<and> accepted (c_sock d) = q @ p \<and> \<not> c_open d"
  using assms
proof (induction rs arbitrary: p q ws c)
  case (Cons a rs)
  obtain k where k: "a = Upto k" using Cons.prems(1) by (auto simp: upto_def split: answer.splits)
  define m where "m = min BUFSIZ (Suc k)"
  have r: "read_call BUFSIZ (c_file c) = Some (Inr (take m p), \<lparr>pending = drop m p, answers = rs\<rparr>)" using Cons.prems(5) k by (simp add: m_def)
  show ?case
  proof (cases "p = []")
    case True
    then show ?thesis using Cons.prems r by (subst send_body.simps) simp
  next
    case False
    have m: "0 < m" by (simp add: m_def BUFSIZ_def)
    then have n: "take m p \<noteq> []" "length (take m p) \<le> BUFSIZ" using False by (auto simp: m_def)
    obtain w vs where w: "ws = w # vs" "whole w" "list_all whole vs" using Cons.prems(3,4) False by (cases ws) auto
    let ?d = "c\<lparr>c_file := \<lparr>pending = drop m p, answers = rs\<rparr>, c_sock := \<lparr>accepted = q @ take m p, replies = vs\<rparr>\<rparr>"
    have "length (drop m p) < length p" unfolding length_drop by (rule diff_less [OF m]) (use False in simp)
    moreover have "length p \<le> Suc (length vs)" "length p < Suc (length rs)" using Cons.prems(2,4) w(1) by auto
    ultimately have l: "length (drop m p) < length rs" "length (drop m p) \<le> length vs" by linarith+
    have "send_body serr c = send_body serr ?d"
      using Cons.prems(6) r n(1) w(1) send_loop_whole [OF n w(2)] by (subst send_body.simps) simp
    moreover have "\<exists>d. send_body serr ?d = Some (Ret 0 d) \<and> accepted (c_sock d) = (q @ take m p) @ drop m p \<and> \<not> c_open d"
      using Cons.prems(1) by (intro Cons.IH [OF _ l(1) w(3) l(2)]) simp_all
    ultimately show ?thesis by simp
  qed
qed simp

lemma write_loop_whole:
  assumes "buf \<noteq> []" "length buf \<le> BUFSIZ" "list_all (\<lambda>a. failing a \<or> whole a) ws" "0 < length (filter whole ws)"
  shows "\<exists>vs. write_loop buf (length buf) \<lparr>accepted = q, replies = ws\<rparr> = Some \<lparr>accepted = q @ buf, replies = vs\<rparr> \<and>
    list_all (\<lambda>a. failing a \<or> whole a) vs \<and> length (filter whole ws) = Suc (length (filter whole vs))"
  using assms(3,4)
proof (induction ws)
  case (Cons a ws)
  show ?case
  proof (cases "whole a")
    case True
    then obtain k where k: "a = Upto k" "BUFSIZ \<le> k" by (auto simp: whole_def split: answer.splits)
    then have "write_loop buf (length buf) \<lparr>accepted = q, replies = a # ws\<rparr> = Some \<lparr>accepted = q @ buf, replies = ws\<rparr>"
      using assms(1,2) by (subst write_loop.simps) (simp add: write_loop.simps [of _ 0])
    then show ?thesis using True Cons.prems(1) by auto
  next
    case False
    then have "failing a" using Cons.prems(1) by simp
    then have "write_loop buf (length buf) \<lparr>accepted = q, replies = a # ws\<rparr> = write_loop buf (length buf) \<lparr>accepted = q, replies = ws\<rparr>"
      using assms(1) by (cases a) (subst write_loop.simps, simp add: failing_def)+
    then show ?thesis using False Cons by simp
  qed
qed simp

lemma recv_body_receives:
  assumes "no_failure as" "length p < calls as" "list_all (\<lambda>a. failing a \<or> whole a) ws" "length p \<le> length (filter whole ws)"
    "s_sock s = \<lparr>pending = p, answers = as\<rparr>" "s_file s = \<lparr>accepted = q, replies = ws\<rparr>"
  shows "\<exists>t. recv_body serr idx s = Some (0, t) \<and> accepted (s_file t) = q @ p \<and> \<not> s_cfd t \<and> \<not> s_fd t \<and> s_flag t = s_flag s"
  using assms
proof (induction as arbitrary: p q ws s)
  case (Cons a as)
  show ?case
  proof (cases a)
    case Intr
    then have "recv_body serr idx s = recv_body serr idx (s\<lparr>s_sock := \<lparr>pending = p, answers = as\<rparr>\<rparr>)"
      using Cons.prems(5) by (subst recv_body.simps) simp
    then show ?thesis using Cons.IH [of p ws "s\<lparr>s_sock := \<lparr>pending = p, answers = as\<rparr>\<rparr>" q] Cons.prems Intr by simp
  next
    case (Fail e)
    then show ?thesis using Cons.prems(1) by simp
  next
    case (Upto k)
    define m where "m = min BUFSIZ (Suc k)"
    have r: "read_call BUFSIZ (s_sock s) = Some (Inr (take m p), \<lparr>pending = drop m p, answers = as\<rparr>)" using Cons.prems(5) Upto by (simp add: m_def)
    show ?thesis
    proof (cases "p = []")
      case True
      then show ?thesis using Cons.prems r by (subst recv_body.simps) (simp add: child_out_def)
    next
      case False
      have m: "0 < m" by (simp add: m_def BUFSIZ_def)
      then have n: "take m p \<noteq> []" "length (take m p) \<le> BUFSIZ" using False by (auto simp: m_def)
      have "0 < length (filter whole ws)" using Cons.prems(4) False by (cases p) auto
      then obtain vs where w: "write_loop (take m p) (length (take m p)) \<lparr>accepted = q, replies = ws\<rparr> = Some \<lparr>accepted = q @ take m p, replies = vs\<rparr>"
        "list_all (\<lambda>a. failing a \<or> whole a) vs" "length (filter whole ws) = Suc (length (filter whole vs))"
        using write_loop_whole [OF n Cons.prems(3)] by blast
      let ?t = "s\<lparr>s_sock := \<lparr>pending = drop m p, answers = as\<rparr>, s_file := \<lparr>accepted = q @ take m p, replies = vs\<rparr>\<rparr>"
      have "length (drop m p) < length p" unfolding length_drop by (rule diff_less [OF m]) (use False in simp)
      moreover have "length p \<le> Suc (length (filter whole vs))" "length p < Suc (calls as)" using Cons.prems(2,4) w(3) Upto by auto
      ultimately have l: "length (drop m p) < calls as" "length (drop m p) \<le> length (filter whole vs)" by linarith+
      have "recv_body serr idx s = recv_body serr idx ?t"
        using Cons.prems(6) r n(1) w(1) by (subst recv_body.simps) simp
      moreover have "\<exists>t. recv_body serr idx ?t = Some (0, t) \<and> accepted (s_file t) = (q @ take m p) @ drop m p \<and> \<not> s_cfd t \<and> \<not> s_fd t \<and> s_flag t = s_flag ?t"
        using Cons.prems(1) Upto by (intro Cons.IH [OF _ l(1) w(2) l(2)]) simp_all
      ultimately show ?thesis by simp
    qed
  qed
qed simp

section \<open>Properties\<close>

text \<open>
  C36. A file arrives: when the name comes in one piece, no call on the socket fails, and every write that succeeds takes all
  its bytes, the client has sent the name and then its file, the server has received exactly that file, and both have
  closed their descriptors. The pieces in which the file is read and received do not matter, nor do interrupted
  calls and failed writes of the server.
\<close>

theorem file_arrives:
  assumes "filename \<noteq> []" "CHR 0x00 \<notin> set filename" "length filename < FS_PATH_MAX" "length filename \<le> Suc k" "create filename"
    "list_all upto rs" "length content < length rs" "list_all whole cws" "length content < length cws"
    "no_failure as" "length content < calls as" "list_all (\<lambda>a. failing a \<or> whole a) sws" "length content \<le> length (filter whole sws)"
    "c_file c = \<lparr>pending = content, answers = rs\<rparr>" "c_sock c = \<lparr>accepted = [], replies = cws\<rparr>"
    "s_sock s = \<lparr>pending = filename, answers = replicate i Intr @ Upto k # as\<rparr>" "s_later s = content" "s_file s = \<lparr>accepted = [], replies = sws\<rparr>"
  shows "\<exists>d t. recv_file serr create idx s = Some (0, t) \<and> s_flag t = Some 0 \<and> send_file serr (Flag 0) filename c = Some (Ret 0 d) \<and>
    accepted (c_sock d) = filename @ content \<and> accepted (s_file t) = content \<and> \<not> c_open d \<and> \<not> s_cfd t \<and> \<not> s_fd t"
proof -
  obtain w vs where w: "cws = w # vs" "whole w" "list_all whole vs" "length content \<le> length vs" using assms(8,9) by (cases cws) auto
  then obtain j where j: "w = Upto j" "BUFSIZ \<le> j" by (auto simp: whole_def split: answer.splits)
  then have f: "length filename \<le> j" using assms(3) by (simp add: BUFSIZ_def FS_PATH_MAX_def)
  let ?c = "c\<lparr>c_sock := \<lparr>accepted = filename, replies = vs\<rparr>,
    c_proc := printf_out (msg [[CHR 0x09], ''['', filename, ''] Sending file...'', nl]) (c_proc c)\<rparr>"
  obtain d where "send_body serr ?c = Some (Ret 0 d)" "accepted (c_sock d) = filename @ content" "\<not> c_open d"
    using send_body_sends [OF assms(6,7) w(3,4), of ?c filename] assms(14) by auto
  moreover have "send_file serr (Flag 0) filename c = send_body serr ?c"
    using assms(15) w j f by (simp add: send_file_def Let_def)
  moreover have "recv_name \<lparr>pending = filename, answers = replicate i Intr @ Upto k # as\<rparr> = Some (Inr filename, \<lparr>pending = [], answers = as\<rparr>)"
  proof (induction i)
    case 0
    then show ?case using assms(2-4) by (subst recv_name.simps) (auto simp: FS_PATH_MAX_def takeWhile_eq_all_conv min_def)
  next
    case (Suc i)
    then show ?case by (subst recv_name.simps) simp
  qed
  moreover define s1 where "s1 = child_out idx ''File receiving... '' ((child_out idx (msg [''File name : ('', filename, '') ''])
      (s\<lparr>s_sock := \<lparr>pending = [], answers = as\<rparr>\<rparr>))\<lparr>s_flag := Some 0, s_fd := True, s_sock := \<lparr>pending = content, answers = as\<rparr>\<rparr>)"
  moreover have "s_sock s1 = \<lparr>pending = content, answers = as\<rparr>" "s_file s1 = \<lparr>accepted = [], replies = sws\<rparr>" "s_flag s1 = Some 0"
    using assms(18) by (simp_all add: s1_def child_out_def)
  then obtain t where "recv_body serr idx s1 = Some (0, t)" "accepted (s_file t) = content" "\<not> s_cfd t" "\<not> s_fd t" "s_flag t = Some 0"
    using recv_body_receives [OF assms(10-13), of s1 "[]" serr idx] by auto
  ultimately show ?thesis using assms(5,16,17) by (simp add: recv_file_def Let_def)
qed

definition fs_idle :: "unit proc" where
  "fs_idle = \<lparr>out_buf = [], out = [], err = [], errno = 0, ef_dumpcore = None, world = ()\<rparr>"

definition fs_client :: fclient where
  "fs_client = \<lparr>c_file = \<lparr>pending = ''ab'', answers = [Upto 0, Upto 0, Upto 0]\<rparr>,
     c_sock = \<lparr>accepted = [], replies = [Upto 9000, Upto 8192, Upto 9000]\<rparr>, c_open = True, c_proc = fs_idle\<rparr>"

definition fs_server :: "answer list \<Rightarrow> fserver" where
  "fs_server ws = \<lparr>s_sock = \<lparr>pending = ''f'', answers = [Intr, Upto 20, Upto 5, Intr, Upto 5, Upto 5]\<rparr>, s_later = ''ab'',
     s_file = \<lparr>accepted = [], replies = ws\<rparr>, s_cfd = True, s_fd = False, s_flag = None, s_proc = fs_idle\<rparr>"

theorem file_arrives_witness:
  "\<exists>d t. recv_file (\<lambda>e. []) (\<lambda>f. f = ''f'') 0 (fs_server [Fail 28, Upto 9000, Upto 9000]) = Some (0, t) \<and> s_flag t = Some 0 \<and>
    send_file (\<lambda>e. []) (Flag 0) ''f'' fs_client = Some (Ret 0 d) \<and> accepted (c_sock d) = ''fab'' \<and> accepted (s_file t) = ''ab'' \<and>
    \<not> c_open d \<and> \<not> s_cfd t \<and> \<not> s_fd t"
  using file_arrives [of "''f''" 20 "\<lambda>f. f = ''f''" "[Upto 0, Upto 0, Upto 0]" "''ab''" "[Upto 9000, Upto 8192, Upto 9000]"
      "[Upto 5, Intr, Upto 5, Upto 5]" "[Fail 28, Upto 9000, Upto 9000]" fs_client "fs_server [Fail 28, Upto 9000, Upto 9000]" 1 "\<lambda>e. []" 0]
  by (simp add: fs_client_def fs_server_def whole_def failing_def upto_def BUFSIZ_def FS_PATH_MAX_def no_failure_def)

text \<open>
  A write that takes only some of the bytes: the next call starts again at the beginning of the buffer, so that the
  file gets these bytes twice and loses the end.
\<close>

theorem partial_write_repeats:
  assumes "0 < k" "k < length buf" "length buf \<le> k + m"
  shows "write_loop buf (length buf) \<lparr>accepted = q, replies = Upto k # Upto m # ws\<rparr> =
    Some \<lparr>accepted = q @ take k buf @ take (length buf - k) buf, replies = ws\<rparr>"
proof -
  have "write_loop buf (length buf - k) \<lparr>accepted = q @ take k buf, replies = Upto m # ws\<rparr> =
      Some \<lparr>accepted = q @ take k buf @ take (length buf - k) buf, replies = ws\<rparr>"
    using assms by (subst write_loop.simps) (simp add: write_loop.simps [of _ 0] min_absorb2)
  then show ?thesis using assms by (subst write_loop.simps) (auto simp: min_def)
qed

theorem partial_write_repeats_witness:
  "write_loop ''abc'' 3 \<lparr>accepted = [], replies = [Upto 1, Upto 9]\<rparr> = Some \<lparr>accepted = ''aab'', replies = []\<rparr>"
  using partial_write_repeats [of 1 "''abc''" 9 "[]" "[]"] by (simp add: numeral_3_eq_3)

text \<open>While write(2) fails, as on a full disk, the loop of the server does not end.\<close>

lemma failing_write_never_ends: "buf \<noteq> [] \<Longrightarrow> write_loop buf (length buf) \<lparr>accepted = q, replies = replicate n (Fail e)\<rparr> = None"
proof (induction n)
  case 0
  then show ?case by (subst write_loop.simps) simp
next
  case (Suc n)
  then show ?case by (subst write_loop.simps) simp
qed

end
