(* ===== verification/IoServers.thy ===== *)
theory IoServers
  imports ErrorFunctions "HOL-Library.Multiset"
begin

text \<open>
  The multiplexing servers \<open>ALSP/io_select.c\<close>, \<open>ALSP/io_poll.c\<close> and \<open>ALSP/io_poll_nb.c\<close>, which keep the sockets they
  serve in a table of fixed size. The kernel and the resolver are the parameter \<open>ionet\<close>. An access outside the
  table, and FD_SET(3) of a descriptor that does not fit an fd_set, is \<open>Undef\<close>. Of a message of \<open>pr_out\<close> and
  \<open>pr_err\<close> the text is kept, without the place in the source that the macro adds.
\<close>

unbundle bit_operations_syntax

section \<open>The table of sockets\<close>

definition MAX_FD_SOCKET :: int where "MAX_FD_SOCKET = 255"
definition POLLIN :: int where "POLLIN = 1"
definition POLLPRI :: int where "POLLPRI = 2"
definition POLLERR :: int where "POLLERR = 8"
definition POLLNVAL :: int where "POLLNVAL = 32"
definition IO_EAGAIN :: int where "IO_EAGAIN = 11"
definition FD_SETSIZE :: int where "FD_SETSIZE = 1024"

record pollfd =
  pfd :: int
  events :: int
  revents :: int

record 'e tbl =
  cells :: "'e list"
  cnt_fd_socket :: int

text \<open>
  \<open>add_socket\<close> with the assignment to the new entry, and the loop of \<open>del_socket\<close> with the descriptor of an entry and
  the assignment to the last one, so that they serve the array of descriptors and the array of pollfd.
\<close>

definition add_cell :: "('e \<Rightarrow> 'e) \<Rightarrow> 'e tbl \<Rightarrow> ('e tbl, int) res" where
  "add_cell upd t =
     (let n = cnt_fd_socket t in
      if n < MAX_FD_SOCKET
      then if n < 0 \<or> n \<ge> int (length (cells t)) then Undef
           else Ret (n + 1) (t\<lparr>cells := (cells t)[nat n := upd (cells t ! nat n)], cnt_fd_socket := n + 1\<rparr>)
      else Ret (- 1) t)"

function del_cell :: "('e \<Rightarrow> int) \<Rightarrow> ('e \<Rightarrow> 'e) \<Rightarrow> int \<Rightarrow> int \<Rightarrow> 'e tbl \<Rightarrow> ('e tbl, int) res" where
  "del_cell get clear fd i t =
     (let n = cnt_fd_socket t in
      if \<not> i < n then Ret (- 1) t
      else if i < 0 \<or> n > int (length (cells t)) then Undef
      else if get (cells t ! nat i) = fd
      then let cs = (if i \<noteq> n - 1 then (cells t)[nat i := cells t ! nat (n - 1)] else cells t)
           in Ret i (t\<lparr>cells := cs[nat (n - 1) := clear (cs ! nat (n - 1))], cnt_fd_socket := n - 1\<rparr>)
      else del_cell get clear fd (i + 1) t)"
  by pat_completeness auto
termination
  by (relation "measure (\<lambda>(get, clear, fd, i, t). nat (cnt_fd_socket t - i))") auto

declare del_cell.simps [simp del]

section \<open>Kernel and state\<close>

record 'w ionet =
  in_getaddrinfo :: "string \<Rightarrow> 'w \<Rightarrow> int + (int \<times> int \<times> int \<times> string)"
  in_socket :: "int \<Rightarrow> int \<Rightarrow> int \<Rightarrow> 'w \<Rightarrow> (int + int) \<times> 'w"
  in_reuse :: "int \<Rightarrow> 'w \<Rightarrow> (int + unit) \<times> 'w"
  in_setnb :: "int \<Rightarrow> 'w \<Rightarrow> (int + unit) \<times> 'w"
  in_bind :: "int \<Rightarrow> string \<Rightarrow> 'w \<Rightarrow> (int + unit) \<times> 'w"
  in_sockname :: "int \<Rightarrow> 'w \<Rightarrow> int \<times> int"
  in_listen :: "int \<Rightarrow> 'w \<Rightarrow> (int + unit) \<times> 'w"
  in_accept :: "int \<Rightarrow> 'w \<Rightarrow> (int + int) \<times> 'w"
  in_recv :: "int \<Rightarrow> nat \<Rightarrow> 'w \<Rightarrow> (int + string) \<times> 'w"
  in_oob :: "int \<Rightarrow> 'w \<Rightarrow> (int + string) \<times> 'w"
  in_close :: "int \<Rightarrow> 'w \<Rightarrow> (int + unit) \<times> 'w"
  in_select :: "int list \<Rightarrow> 'w \<Rightarrow> (int + int list) \<times> 'w"
  in_poll :: "int list \<Rightarrow> 'w \<Rightarrow> (int + int \<times> int list) \<times> 'w"
  in_strerror :: "int \<Rightarrow> string"
  in_gai_strerror :: "int \<Rightarrow> string"

text \<open>The server: its table, the first byte of its buffer, and the process.\<close>

record ('e, 'w) iosrv =
  tab :: "'e tbl"
  buf0 :: char
  prc :: "'w proc"

text \<open>A call of the kernel; a failure sets errno.\<close>

definition ask :: "('w \<Rightarrow> (int + 'a) \<times> 'w) \<Rightarrow> ('e, 'w) iosrv \<Rightarrow> (int + 'a) \<times> ('e, 'w) iosrv" where
  "ask f s = (case f (world (prc s)) of
     (Inl e, w) \<Rightarrow> (Inl e, s\<lparr>prc := (prc s)\<lparr>world := w, errno := e\<rparr>\<rparr>)
   | (Inr v, w) \<Rightarrow> (Inr v, s\<lparr>prc := (prc s)\<lparr>world := w\<rparr>\<rparr>))"

definition pr_out :: "string list \<Rightarrow> ('e, 'w) iosrv \<Rightarrow> ('e, 'w) iosrv" where
  "pr_out t s = s\<lparr>prc := printf_out (msg (t @ [nl])) (prc s)\<rparr>"

definition pr_err :: "string list \<Rightarrow> ('e, 'w) iosrv \<Rightarrow> ('e, 'w) iosrv" where
  "pr_err t s = s\<lparr>prc := fputs_err (msg (t @ [nl])) (prc s)\<rparr>"

definition quit_io :: "string list \<Rightarrow> ('e, 'w) iosrv \<Rightarrow> (('e, 'w) iosrv, 'a) res" where
  "quit_io t s = Exit EXIT_FAILURE (pr_err t s)"

text \<open>An operation on the table.\<close>

definition on_tab :: "('e tbl \<Rightarrow> ('e tbl, 'a) res) \<Rightarrow> ('e, 'w) iosrv \<Rightarrow> (('e, 'w) iosrv, 'a) res" where
  "on_tab f s = (case f (tab s) of Ret a t \<Rightarrow> Ret a (s\<lparr>tab := t\<rparr>) | _ \<Rightarrow> Undef)"

text \<open>\<open>del_socket\<close>: it closes the descriptor and then looks for it in the table.\<close>

definition del_socket :: "('e \<Rightarrow> int) \<Rightarrow> ('e \<Rightarrow> 'e) \<Rightarrow> 'w ionet \<Rightarrow> int \<Rightarrow> ('e, 'w) iosrv \<Rightarrow> (('e, 'w) iosrv, int) res" where
  "del_socket get clear K fd s = on_tab (del_cell get clear fd 0) (snd (ask (in_close K fd) s))"

section \<open>Start (\<open>main\<close> up to the loop)\<close>

definition AF_INET4 :: int where "AF_INET4 = 2"
definition AF_INET6 :: int where "AF_INET6 = 10"

datatype version = Io_select | Io_poll | Io_poll_nb

text \<open>\<open>strncmp(port, "0", strlen(port))\<close> is 0 for a beginning of that string.\<close>

definition any_port :: "string \<Rightarrow> bool" where
  "any_port port = (port = [] \<or> port = ''0'')"

definition report_port :: "'w ionet \<Rightarrow> version \<Rightarrow> string \<Rightarrow> int \<Rightarrow> ('e, 'w) iosrv \<Rightarrow> ('e, 'w) iosrv" where
  "report_port K v port fd s =
     (if any_port port
      then (case in_sockname K fd (world (prc s)) of
              (fam, p) \<Rightarrow>
                if fam = AF_INET4 then pr_out [''bind : IPv4 Port : #'', dec p] s
                else if fam = AF_INET6 then pr_out [''bind : IPv6 Port : #'', dec p] s
                else pr_out [if v = Io_select then ''getsockname : ss_family='' else ''getsockname : ss_family = '', dec fam] s)
      else pr_out [''bind : '', port] s)"

definition open_listener :: "'w ionet \<Rightarrow> version \<Rightarrow> string \<Rightarrow> ('e, 'w) iosrv \<Rightarrow> (('e, 'w) iosrv, int) res" where
  "open_listener K v port s =
     (case in_getaddrinfo K port (world (prc s)) of
        Inl e \<Rightarrow> quit_io [''Fail: getaddrinfo():'', in_gai_strerror K e] s
      | Inr (fam, ty, proto, addr) \<Rightarrow>
          (case ask (in_socket K fam ty proto) s of
             (Inl e, s1) \<Rightarrow> quit_io [''Fail: socket()''] s1
           | (Inr fd, s1) \<Rightarrow>
               (case ask (in_reuse K fd) s1 of
                  (Inl e, s2) \<Rightarrow> quit_io [''Fail: setsockopt()''] s2
                | (Inr u, s2) \<Rightarrow>
                    let s3 = (if v = Io_select then s2\<lparr>prc := printf_out (msg [''Socket option = SO_REUSEADDR(on)'', nl]) (prc s2)\<rparr> else s2)
                    in (case (if v = Io_poll_nb then ask (in_setnb K fd) s3 else (Inr (), s3)) of
                          (Inl e, s4) \<Rightarrow> quit_io [''Fail: fcntl() error''] s4
                        | (Inr u, s4) \<Rightarrow>
                            (case ask (in_bind K fd addr) s4 of
                               (Inl e, s5) \<Rightarrow> quit_io [''Fail: bind()''] s5
                             | (Inr u, s5) \<Rightarrow> Ret fd (snd (ask (in_listen K fd) (report_port K v port fd s5))))))))"

text \<open>The part of \<open>main\<close> before the loop; \<open>args\<close> are the arguments after the name of the program.\<close>

definition start_server :: "'w ionet \<Rightarrow> version \<Rightarrow> string \<Rightarrow> string list \<Rightarrow> (int \<Rightarrow> 'e \<Rightarrow> 'e) \<Rightarrow> 'e list \<Rightarrow> char \<Rightarrow> 'w proc \<Rightarrow> (('e, 'w) iosrv, int) res" where
  "start_server K v prog args put cs b p =
     (let port = (if length args = 1 then hd args else ''0'');
          usage = (if v = Io_select then msg [prog, '' [port number]'', nl] else msg [prog, '' [port number] '', nl]);
          s = \<lparr>tab = \<lparr>cells = cs, cnt_fd_socket = 0\<rparr>, buf0 = b, prc = (if length args \<noteq> 1 then printf_out usage p else p)\<rparr>
      in bindR (open_listener K v port s) (\<lambda>fd s1. bindR (on_tab (add_cell (put fd)) s1) (\<lambda>n s2. Ret fd s2)))"

section \<open>The server with select (\<open>io_select.c\<close>)\<close>

definition add_socket_sel :: "int \<Rightarrow> int tbl \<Rightarrow> (int tbl, int) res" where
  "add_socket_sel fd t = add_cell (\<lambda>c. fd) t"

definition del_socket_sel :: "'w ionet \<Rightarrow> int \<Rightarrow> (int, 'w) iosrv \<Rightarrow> ((int, 'w) iosrv, int) res" where
  "del_socket_sel K fd s = del_socket (\<lambda>c. c) (\<lambda>c. - 1) K fd s"

definition in_fd_set :: "int \<Rightarrow> bool" where
  "in_fd_set fd = (0 \<le> fd \<and> fd < FD_SETSIZE)"

text \<open>The descriptors of \<open>mk_fds\<close>; it also computes the largest, which select(2) needs.\<close>

definition mk_fds :: "int tbl \<Rightarrow> (int list \<times> int) option" where
  "mk_fds t =
     (let fds = take (nat (cnt_fd_socket t)) (cells t)
      in if cnt_fd_socket t \<le> int (length (cells t)) \<and> list_all in_fd_set fds then Some (fds, foldl max (- 1) fds) else None)"

text \<open>The text \<open>%.*s\<close> prints of \<open>n\<close> bytes: up to a null byte.\<close>

definition shown :: "string \<Rightarrow> string" where
  "shown b = takeWhile (\<lambda>c. c \<noteq> CHR 0x00) b"

definition recv_msg :: "int \<Rightarrow> string \<Rightarrow> string list" where
  "recv_msg fd b = [''recv(fd='', dec fd, '',n='', dec (int (length b)), '') = '', shown b]"

text \<open>One socket of the loop: the socket may be deleted from the table.\<close>

definition serve_sel :: "'w ionet \<Rightarrow> int \<Rightarrow> (int, 'w) iosrv \<Rightarrow> ((int, 'w) iosrv, unit) res" where
  "serve_sel K fd s =
     (case ask (in_recv K fd 1024) (pr_out [''FD_ISSET: normal-inband''] s) of
        (Inl e, s1) \<Rightarrow> Ret () (pr_err [''fd('', dec fd, '') recv() error ('', in_strerror K e, '')''] s1)
      | (Inr b, s1) \<Rightarrow>
          if b = [] then
            bindR (del_socket_sel K fd (pr_out [''fd('', dec fd, '') : Session closed''] s1)) (\<lambda>n s2. Ret () s2)
          else Ret () (pr_out (recv_msg fd b) (s1\<lparr>buf0 := hd b\<rparr>)))"

text \<open>The loop over the indices; \<open>ready\<close> is what select(2) has left in the set.\<close>

fun scan_sel :: "'w ionet \<Rightarrow> int list \<Rightarrow> nat list \<Rightarrow> (int, 'w) iosrv \<Rightarrow> ((int, 'w) iosrv, unit) res" where
  "scan_sel K ready [] s = Ret () s"
| "scan_sel K ready (i # is) s =
     (if \<not> int i < cnt_fd_socket (tab s) then Ret () s
      else if i \<ge> length (cells (tab s)) \<or> \<not> in_fd_set (cells (tab s) ! i) then Undef
      else if cells (tab s) ! i \<in> set ready then bindR (serve_sel K (cells (tab s) ! i) s) (\<lambda>u s1. scan_sel K ready is s1)
      else scan_sel K ready is s)"

definition select_round :: "'w ionet \<Rightarrow> int \<Rightarrow> (int, 'w) iosrv \<Rightarrow> ((int, 'w) iosrv, unit) res" where
  "select_round K lfd s =
     (case mk_fds (tab s) of
        None \<Rightarrow> Undef
      | Some (fds, biggest) \<Rightarrow>
          (case ask (in_select K fds) s of
             (Inl e, s1) \<Rightarrow> quit_io [''Fail: select() error''] s1
           | (Inr ready, s1) \<Rightarrow>
               if lfd \<in> set ready
               then (case ask (in_accept K lfd) s1 of
                       (Inl e, s2) \<Rightarrow> Ret () (pr_err [''Error get connection from listen socket''] s2)
                     | (Inr fd, s2) \<Rightarrow> bindR (on_tab (add_socket_sel fd) s2) (\<lambda>n s3. Ret () (pr_out [''accept : add socket ('', dec fd, '')''] s3)))
               else scan_sel K ready [1..<nat (cnt_fd_socket (tab s1))] s1))"

text \<open>\<open>n\<close> rounds of the server, which has no end of its own; the result of a run is the variable \<open>fd_listener\<close>.\<close>

fun rounds :: "(('e, 'w) iosrv \<Rightarrow> (('e, 'w) iosrv, unit) res) \<Rightarrow> nat \<Rightarrow> ('e, 'w) iosrv \<Rightarrow> (('e, 'w) iosrv, unit) res" where
  "rounds f 0 s = Ret () s"
| "rounds f (Suc n) s = bindR (f s) (\<lambda>u s1. rounds f n s1)"

definition io_select :: "'w ionet \<Rightarrow> string \<Rightarrow> string list \<Rightarrow> char \<Rightarrow> nat \<Rightarrow> 'w proc \<Rightarrow> ((int, 'w) iosrv, int) res" where
  "io_select K prog args b n p =
     bindR (start_server K Io_select prog args (\<lambda>fd c. fd) (replicate 255 (- 1)) b p)
       (\<lambda>lfd s. bindR (rounds (select_round K lfd) n s) (\<lambda>u s1. Ret lfd s1))"

section \<open>The servers with poll (\<open>io_poll.c\<close>, \<open>io_poll_nb.c\<close>)\<close>

text \<open>\<open>oob\<close> tells whether the program is compiled with ENABLE_MSG_OOB.\<close>

definition put_pollfd :: "bool \<Rightarrow> int \<Rightarrow> pollfd \<Rightarrow> pollfd" where
  "put_pollfd oob fd c = c\<lparr>pfd := fd, events := (if oob then POLLIN OR POLLPRI else POLLIN)\<rparr>"

definition add_socket_poll :: "bool \<Rightarrow> int \<Rightarrow> pollfd tbl \<Rightarrow> (pollfd tbl, int) res" where
  "add_socket_poll oob fd t = add_cell (put_pollfd oob fd) t"

definition del_socket_poll :: "'w ionet \<Rightarrow> int \<Rightarrow> (pollfd, 'w) iosrv \<Rightarrow> ((pollfd, 'w) iosrv, int) res" where
  "del_socket_poll K fd s = del_socket pfd (\<lambda>c. c\<lparr>pfd := - 1\<rparr>) K fd s"

text \<open>poll(2) on the first entries of the table, whose field revents it sets.\<close>

definition call_poll :: "'w ionet \<Rightarrow> (pollfd, 'w) iosrv \<Rightarrow> (int + int) \<times> (pollfd, 'w) iosrv" where
  "call_poll K s =
     (let n = nat (cnt_fd_socket (tab s)); cs = cells (tab s)
      in case ask (in_poll K (map pfd (take n cs))) s of
           (Inl e, s1) \<Rightarrow> (Inl e, s1)
         | (Inr (r, rs), s1) \<Rightarrow>
             (Inr r, s1\<lparr>tab := (tab s1)\<lparr>cells := map2 (\<lambda>c e. c\<lparr>revents := e\<rparr>) (take n cs) rs @ drop n cs\<rparr>\<rparr>))"

text \<open>A socket with input; the result tells whether it was deleted, after which the same index is tried again.\<close>

definition serve_poll :: "'w ionet \<Rightarrow> int \<Rightarrow> (pollfd, 'w) iosrv \<Rightarrow> ((pollfd, 'w) iosrv, bool) res" where
  "serve_poll K fd s =
     (case ask (in_recv K fd 1024) (pr_out [''POLLIN : normal-inband''] s) of
        (Inl e, s1) \<Rightarrow> Ret False (pr_err [''fd('', dec fd, '') recv() error ('', in_strerror K e, '')''] s1)
      | (Inr b, s1) \<Rightarrow>
          if b = [] then
            bindR (del_socket_poll K fd (pr_out [''fd('', dec fd, '') : Session closed''] s1)) (\<lambda>n s2. Ret True s2)
          else Ret False (pr_out (recv_msg fd b) (s1\<lparr>buf0 := hd b\<rparr>)))"

definition serve_oob :: "'w ionet \<Rightarrow> int \<Rightarrow> (pollfd, 'w) iosrv \<Rightarrow> (pollfd, 'w) iosrv" where
  "serve_oob K fd s =
     (let s2 = (case ask (in_oob K fd) (pr_out [''POLLPRI : Urgent data detected''] s) of
                  (Inl e, s1) \<Rightarrow> pr_err [''Fail: recv()''] s1
                | (Inr b, s1) \<Rightarrow> if b = [] then s1 else s1\<lparr>buf0 := hd b\<rparr>)
      in pr_out [''recv(fd='', dec fd, '',n=1) = '', shown [buf0 s2], '' (OOB)''] s2)"

text \<open>The loop of \<open>main\<close>; \<open>left\<close> is the variable \<open>ret_poll\<close>.\<close>

function scan_poll :: "'w ionet \<Rightarrow> bool \<Rightarrow> int \<Rightarrow> int \<Rightarrow> (pollfd, 'w) iosrv \<Rightarrow> ((pollfd, 'w) iosrv, unit) res" where
  "scan_poll K oob i left s =
     (if \<not> (i < cnt_fd_socket (tab s) \<and> left > 0) then Ret () s
      else if i < 0 \<or> i \<ge> int (length (cells (tab s))) then Undef
      else let c = cells (tab s) ! nat i; r = revents c in
        if r AND POLLIN \<noteq> 0
        then (case serve_poll K (pfd c) s of
                Ret deleted s1 \<Rightarrow> scan_poll K oob (if deleted then i else i + 1) (left - 1) s1
              | Exit x s1 \<Rightarrow> Exit x s1 | Abort s1 \<Rightarrow> Abort s1 | Undef \<Rightarrow> Undef)
        else if oob \<and> r AND POLLPRI \<noteq> 0 then (let s1 = serve_oob K (pfd c) s in scan_poll K oob (i + 1) left (s\<lparr>buf0 := buf0 s1, prc := prc s1\<rparr>))
        else if r AND POLLERR \<noteq> 0 \<or> r AND POLLNVAL \<noteq> 0 then scan_poll K oob (i + 1) (left - 1) s
        else scan_poll K oob (i + 1) left (s\<lparr>prc := prc (pr_out [''> No signal:fd('', dec (pfd c), '')''] s)\<rparr>))"
  by pat_completeness auto
termination
  by (relation "measures [\<lambda>(K, oob, i, left, s). nat left, \<lambda>(K, oob, i, left, s). nat (cnt_fd_socket (tab s) - i)]") auto

declare scan_poll.simps [simp del]

text \<open>The connections \<open>io_poll_nb\<close> accepts in one round, until accept(2) fails.\<close>

partial_function (option) accept_all_poll :: "'w ionet \<Rightarrow> bool \<Rightarrow> int \<Rightarrow> (pollfd, 'w) iosrv \<Rightarrow> ((pollfd, 'w) iosrv, unit) res option" where
  "accept_all_poll K oob lfd s =
     (case ask (in_accept K lfd) s of
        (Inl e, s1) \<Rightarrow> Some (Ret () (if e = IO_EAGAIN then s1 else pr_err [''Error get connection from listen socket''] s1))
      | (Inr fd, s1) \<Rightarrow>
          (case on_tab (add_socket_poll oob fd) s1 of
             Ret m s2 \<Rightarrow> accept_all_poll K oob lfd (pr_out [''accept : add socket('', dec fd, '')''] s2)
           | Exit x s2 \<Rightarrow> Some (Exit x s2) | Abort s2 \<Rightarrow> Some (Abort s2) | Undef \<Rightarrow> Some Undef))"

definition accept_poll :: "'w ionet \<Rightarrow> bool \<Rightarrow> int \<Rightarrow> (pollfd, 'w) iosrv \<Rightarrow> ((pollfd, 'w) iosrv, unit) res" where
  "accept_poll K oob lfd s =
     (case ask (in_accept K lfd) s of
        (Inl e, s1) \<Rightarrow> Ret () (pr_err [''Error get connection from listen socket''] s1)
      | (Inr fd, s1) \<Rightarrow>
          bindR (on_tab (add_socket_poll oob fd) s1)
            (\<lambda>n s2. if n = - 1 then quit_io [''Error disconnect from io socket''] s2
                    else Ret () (pr_out [''accept : add socket ('', dec fd, '')''] s2)))"

definition poll_round :: "'w ionet \<Rightarrow> version \<Rightarrow> bool \<Rightarrow> (pollfd, 'w) iosrv \<Rightarrow> ((pollfd, 'w) iosrv, unit) res option" where
  "poll_round K v oob s =
     (case call_poll K s of
        (Inl e, s1) \<Rightarrow> Some (quit_io [''Fail: poll()''] s1)
      | (Inr r, s1) \<Rightarrow>
          let s2 = pr_out [[CHR 0x09], ''poll = ('', dec r, '')''] s1 in
          if cells (tab s2) = [] then Some Undef
          else if revents (cells (tab s2) ! 0) AND POLLIN \<noteq> 0
          then if v = Io_poll then Some (accept_poll K oob (pfd (cells (tab s2) ! 0)) s2)
               else accept_all_poll K oob (pfd (cells (tab s2) ! 0)) s2
          else Some (scan_poll K oob 1 r s2))"

fun poll_rounds :: "'w ionet \<Rightarrow> version \<Rightarrow> bool \<Rightarrow> nat \<Rightarrow> (pollfd, 'w) iosrv \<Rightarrow> ((pollfd, 'w) iosrv, unit) res option" where
  "poll_rounds K v oob 0 s = Some (Ret () s)"
| "poll_rounds K v oob (Suc n) s =
     Option.bind (poll_round K v oob s) (\<lambda>r. case r of Ret u s1 \<Rightarrow> poll_rounds K v oob n s1 | _ \<Rightarrow> Some r)"

text \<open>The array of pollfd is zero at the start, as a global variable. The result of a run of \<open>n\<close> rounds is the variable \<open>fd_listener\<close>.\<close>

definition io_poll :: "'w ionet \<Rightarrow> version \<Rightarrow> bool \<Rightarrow> string \<Rightarrow> string list \<Rightarrow> char \<Rightarrow> nat \<Rightarrow> 'w proc \<Rightarrow> ((pollfd, 'w) iosrv, int) res option" where
  "io_poll K v oob prog args b n p =
     (case start_server K v prog args (put_pollfd oob) (replicate 255 \<lparr>pfd = 0, events = 0, revents = 0\<rparr>) b p of
        Ret lfd s \<Rightarrow> map_option (\<lambda>r. bindR r (\<lambda>u s1. Ret lfd s1)) (poll_rounds K v oob n s)
      | Exit x s \<Rightarrow> Some (Exit x s) | Abort s \<Rightarrow> Some (Abort s) | Undef \<Rightarrow> Some Undef)"

section \<open>The table as a list of descriptors\<close>

definition conns :: "('e \<Rightarrow> int) \<Rightarrow> 'e tbl \<Rightarrow> int list" where
  "conns get t = map get (take (nat (cnt_fd_socket t)) (cells t))"

definition tbl_ok :: "'e tbl \<Rightarrow> bool" where
  "tbl_ok t = (length (cells t) = 255 \<and> 0 \<le> cnt_fd_socket t \<and> cnt_fd_socket t \<le> 255)"

lemma length_conns: "tbl_ok t \<Longrightarrow> int (length (conns get t)) = cnt_fd_socket t"
  by (auto simp: tbl_ok_def conns_def min_def)

lemma add_cell_spec:
  assumes "tbl_ok t" "length (conns get t) < 255" "\<And>c. get (upd c) = fd"
  shows "\<exists>u. add_cell upd t = Ret (cnt_fd_socket t + 1) u \<and> tbl_ok u \<and> conns get u = conns get t @ [fd]"
proof -
  have c: "0 \<le> cnt_fd_socket t" "cnt_fd_socket t < 255" "length (cells t) = 255"
    using assms(1,2) length_conns [OF assms(1), of get] by (auto simp: tbl_ok_def)
  have "nat (cnt_fd_socket t + 1) = Suc (nat (cnt_fd_socket t))" "nat (cnt_fd_socket t) < length (cells t)" using c by auto
  then show ?thesis using c assms(3) by (simp add: add_cell_def MAX_FD_SOCKET_def tbl_ok_def conns_def take_Suc_conv_app_nth Let_def)
qed

lemma add_cell_full: "tbl_ok t \<Longrightarrow> length (conns get t) = 255 \<Longrightarrow> add_cell upd t = Ret (- 1) t"
  using length_conns [of t get] by (simp add: add_cell_def MAX_FD_SOCKET_def Let_def)

text \<open>The last entry takes the place of the one that is removed.\<close>

definition swap_out :: "nat \<Rightarrow> 'a list \<Rightarrow> 'a list" where
  "swap_out i xs = butlast (xs[i := last xs])"

lemma length_swap_out [simp]: "length (swap_out i xs) = length xs - 1"
  by (simp add: swap_out_def)

lemma nth_swap_out: "k < length xs - 1 \<Longrightarrow> swap_out i xs ! k = (if k = i then last xs else xs ! k)"
  by (simp add: swap_out_def nth_butlast nth_list_update)

lemma swap_out_snoc: "swap_out i (ys @ [z]) = (if i < length ys then ys[i := z] else ys)"
  by (simp add: swap_out_def list_update_append split: nat.splits)

lemma swap_out_distinct:
  assumes "distinct xs" "i < length xs"
  shows "distinct (swap_out i xs)" "set (swap_out i xs) = set xs - {xs ! i}"
proof -
  obtain ys z where x: "xs = ys @ [z]" using assms(2) by (cases xs rule: rev_cases) auto
  then have "distinct ys" "z \<notin> set ys" using assms(1) by auto
  then show "distinct (swap_out i xs)" "set (swap_out i xs) = set xs - {xs ! i}"
    using assms(2) x by (auto simp: swap_out_snoc set_update_distinct nth_append less_Suc_eq intro!: distinct_list_update)
qed

lemma hd_swap_out: "Suc i < length xs \<Longrightarrow> swap_out (Suc i) xs \<noteq> [] \<and> hd (swap_out (Suc i) xs) = hd xs"
  by (cases xs rule: rev_cases) (auto simp: swap_out_snoc hd_conv_nth nth_append)

lemma del_cell_hit:
  assumes "tbl_ok t" "i < length (conns get t)" "conns get t ! i = fd"
  shows "\<exists>u. del_cell get clear fd (int i) t = Ret (int i) u \<and> tbl_ok u \<and> conns get u = swap_out i (conns get t)"
proof -
  obtain m where m: "cnt_fd_socket t = int (Suc m)" "Suc m \<le> 255" "length (cells t) = 255" "i < Suc m"
    using assms(1,2) by (intro that [of "nat (cnt_fd_socket t) - 1"]) (auto simp: tbl_ok_def conns_def)
  have c: "conns get t = map get (take (Suc m) (cells t))" using m(1) by (simp add: conns_def del: of_nat_Suc)
  let ?cs = "if int i \<noteq> int m then (cells t)[i := cells t ! m] else cells t"
  let ?u = "t\<lparr>cells := ?cs[m := clear (?cs ! m)], cnt_fd_socket := int m\<rparr>"
  have "get (cells t ! i) = fd" using assms(3) m by (simp add: c)
  then have d: "del_cell get clear fd (int i) t = Ret (int i) ?u" using m by (subst del_cell.simps) (simp add: Let_def)
  have l: "length (conns get t) = Suc m" "length (conns get ?u) = m" using m by (simp add: c, simp add: conns_def)
  have "conns get ?u = swap_out i (conns get t)"
  proof (rule nth_equalityI)
    show "length (conns get ?u) = length (swap_out i (conns get t))" unfolding length_swap_out l by simp
    fix k
    assume "k < length (conns get ?u)"
    then have k: "k < m" unfolding l .
    have "last (conns get t) = get (cells t ! m)" using m by (simp add: c take_Suc_conv_app_nth)
    then show "conns get ?u ! k = swap_out i (conns get t) ! k" using k m l(1) by (auto simp: nth_swap_out) (auto simp: conns_def nth_list_update)
  qed
  moreover have "tbl_ok ?u" using m by (simp add: tbl_ok_def)
  ultimately show ?thesis using d by blast
qed

lemma del_cell_spec:
  assumes "tbl_ok t" "i < length (conns get t)" "conns get t ! i = fd" "\<And>k. k < i \<Longrightarrow> conns get t ! k \<noteq> fd" "j \<le> i"
  shows "\<exists>u. del_cell get clear fd (int j) t = Ret (int i) u \<and> tbl_ok u \<and> conns get u = swap_out i (conns get t)"
  using assms(5)
proof (induction j rule: inc_induct)
  case base
  show ?case using del_cell_hit [OF assms(1-3)] by blast
next
  case (step k)
  have n: "int k < cnt_fd_socket t" "cnt_fd_socket t \<le> int (length (cells t))"
    using step.hyps assms(1,2) length_conns [OF assms(1), of get] by (auto simp: tbl_ok_def)
  then have "get (cells t ! k) \<noteq> fd" using assms(4) [OF step.hyps(2)] assms(1) by (auto simp: conns_def tbl_ok_def)
  then have "del_cell get clear fd (int k) t = del_cell get clear fd (int (Suc k)) t"
    using n by (subst del_cell.simps) (simp add: Let_def add.commute)
  then show ?case using step.IH by simp
qed

text \<open>A table of connections: what the servers rely on.\<close>

locale conn_table =
  fixes ok :: "'t \<Rightarrow> bool" and socks :: "'t \<Rightarrow> int list" and add :: "int \<Rightarrow> 't \<Rightarrow> ('t, int) res"
    and del :: "int \<Rightarrow> 't \<Rightarrow> ('t, int) res" and cap :: nat
  assumes bound: "ok t \<Longrightarrow> length (socks t) \<le> cap"
    and add: "ok t \<Longrightarrow> length (socks t) < cap \<Longrightarrow> \<exists>n u. add fd t = Ret n u \<and> n \<noteq> - 1 \<and> ok u \<and> socks u = socks t @ [fd]"
    and full: "ok t \<Longrightarrow> length (socks t) = cap \<Longrightarrow> add fd t = Ret (- 1) t"
    and del: "ok t \<Longrightarrow> i < length (socks t) \<Longrightarrow> socks t ! i = fd \<Longrightarrow> (\<And>k. k < i \<Longrightarrow> socks t ! k \<noteq> fd) \<Longrightarrow>
      \<exists>n u. del fd t = Ret n u \<and> ok u \<and> socks u = swap_out i (socks t)"
begin

text \<open>The entry of a socket that is served is removed, and the listening socket stays at the front.\<close>

lemma del_served:
  assumes "ok t" "distinct (socks t)" "fd \<in> set (tl (socks t))"
  obtains n u where "del fd t = Ret n u" "ok u" "distinct (socks u)" "set (socks u) = set (socks t) - {fd}"
    "socks u \<noteq> []" "hd (socks u) = hd (socks t)"
proof -
  obtain x xs where x: "socks t = x # xs" using assms(3) by (cases "socks t") auto
  then obtain i where i: "Suc i < length (socks t)" "socks t ! Suc i = fd" using assms(3) by (auto simp: in_set_conv_nth)
  then have "socks t ! k \<noteq> fd" if "k < Suc i" for k using that assms(2) by (auto simp: nth_eq_iff_index_eq)
  then obtain n u where u: "del fd t = Ret n u" "ok u" "socks u = swap_out (Suc i) (socks t)" using del [OF assms(1) i] by blast
  show thesis
    using that [OF u(1,2)] swap_out_distinct [OF assms(2) i(1)] hd_swap_out [OF i(1)] i(2) u(3) by simp
qed

lemma add_new:
  assumes "ok t" "distinct (socks t)" "fd \<notin> set (socks t)" "length (socks t) < cap" "socks t \<noteq> []"
  obtains n u where "add fd t = Ret n u" "n \<noteq> - 1" "ok u" "distinct (socks u)" "set (socks u) = insert fd (set (socks t))"
    "socks u \<noteq> []" "hd (socks u) = hd (socks t)"
  using add [OF assms(1,4), of fd] assms by (auto simp: hd_append)

end

interpretation sel: conn_table tbl_ok "conns (\<lambda>c. c)" add_socket_sel "\<lambda>fd t. del_cell (\<lambda>c. c) (\<lambda>c. - 1) fd 0 t" 255
proof
  fix t :: "int tbl" and i fd
  show "length (conns (\<lambda>c. c) t) \<le> 255" if "tbl_ok t" using that length_conns [OF that, of "\<lambda>c. c"] by (simp add: tbl_ok_def)
  show "\<exists>n u. add_socket_sel fd t = Ret n u \<and> n \<noteq> - 1 \<and> tbl_ok u \<and> conns (\<lambda>c. c) u = conns (\<lambda>c. c) t @ [fd]"
    if "tbl_ok t" "length (conns (\<lambda>c. c) t) < 255"
    using add_cell_spec [OF that, of "\<lambda>c. fd"] that(1) by (auto simp: add_socket_sel_def tbl_ok_def)
  show "add_socket_sel fd t = Ret (- 1) t" if "tbl_ok t" "length (conns (\<lambda>c. c) t) = 255"
    using add_cell_full [OF that] by (simp add: add_socket_sel_def)
  show "\<exists>n u. del_cell (\<lambda>c. c) (\<lambda>c. - 1) fd 0 t = Ret n u \<and> tbl_ok u \<and> conns (\<lambda>c. c) u = swap_out i (conns (\<lambda>c. c) t)"
    if "tbl_ok t" "i < length (conns (\<lambda>c. c) t)" "conns (\<lambda>c. c) t ! i = fd" "\<And>k. k < i \<Longrightarrow> conns (\<lambda>c. c) t ! k \<noteq> fd"
    using del_cell_spec [OF that le0, of "\<lambda>c. - 1"] by auto
qed

interpretation pol: conn_table tbl_ok "conns pfd" "add_socket_poll oob" "\<lambda>fd t. del_cell pfd (\<lambda>c. c\<lparr>pfd := - 1\<rparr>) fd 0 t" 255 for oob
proof
  fix t :: "pollfd tbl" and i fd
  show "length (conns pfd t) \<le> 255" if "tbl_ok t" using that length_conns [OF that, of pfd] by (simp add: tbl_ok_def)
  show "\<exists>n u. add_socket_poll oob fd t = Ret n u \<and> n \<noteq> - 1 \<and> tbl_ok u \<and> conns pfd u = conns pfd t @ [fd]"
    if "tbl_ok t" "length (conns pfd t) < 255"
    using add_cell_spec [OF that, of "put_pollfd oob fd"] that(1) by (auto simp: add_socket_poll_def put_pollfd_def tbl_ok_def)
  show "add_socket_poll oob fd t = Ret (- 1) t" if "tbl_ok t" "length (conns pfd t) = 255"
    using add_cell_full [OF that] by (simp add: add_socket_poll_def)
  show "\<exists>n u. del_cell pfd (\<lambda>c. c\<lparr>pfd := - 1\<rparr>) fd 0 t = Ret n u \<and> tbl_ok u \<and> conns pfd u = swap_out i (conns pfd t)"
    if "tbl_ok t" "i < length (conns pfd t)" "conns pfd t ! i = fd" "\<And>k. k < i \<Longrightarrow> conns pfd t ! k \<noteq> fd"
    using del_cell_spec [OF that le0, of "\<lambda>c. c\<lparr>pfd := - 1\<rparr>"] by auto
qed

section \<open>The servers and the kernel\<close>

text \<open>
  What the servers rely on, with \<open>fds w\<close> the descriptors that are open: socket(2) and accept(2) return a descriptor that
  was not open, below the limit \<open>L\<close> that the resource RLIMIT_NOFILE sets (see getrlimit(2)), which need not be FD_SETSIZE; close(2) closes its descriptor and no other; no other call opens or
  closes one; poll(2) fills in the field revents of every entry.
\<close>

definition keeps :: "('w \<Rightarrow> int set) \<Rightarrow> ('w \<Rightarrow> 'a \<times> 'w) \<Rightarrow> bool" where
  "keeps fds f = (\<forall>w. fds (snd (f w)) = fds w)"

definition below :: "int \<Rightarrow> int \<Rightarrow> bool" where
  "below L fd = (0 \<le> fd \<and> fd < L)"

definition opens :: "int \<Rightarrow> ('w \<Rightarrow> int set) \<Rightarrow> ('w \<Rightarrow> (int + int) \<times> 'w) \<Rightarrow> bool" where
  "opens L fds f = (\<forall>w. case fst (f w) of
     Inl e \<Rightarrow> fds (snd (f w)) = fds w
   | Inr fd \<Rightarrow> fd \<notin> fds w \<and> below L fd \<and> fds (snd (f w)) = insert fd (fds w))"

definition io_kernel :: "int \<Rightarrow> ('w, 'z) ionet_scheme \<Rightarrow> ('w \<Rightarrow> int set) \<Rightarrow> bool" where
  "io_kernel L K fds =
     ((\<forall>fam ty pr. opens L fds (in_socket K fam ty pr)) \<and> (\<forall>l. opens L fds (in_accept K l)) \<and>
      (\<forall>fd w. fds (snd (in_close K fd w)) = fds w - {fd}) \<and>
      (\<forall>fd. keeps fds (in_reuse K fd) \<and> keeps fds (in_setnb K fd) \<and> keeps fds (in_listen K fd) \<and> keeps fds (in_oob K fd)) \<and>
      (\<forall>fd a. keeps fds (in_bind K fd a)) \<and> (\<forall>fd n. keeps fds (in_recv K fd n)) \<and>
      (\<forall>l. keeps fds (in_select K l) \<and> keeps fds (in_poll K l)) \<and>
      (\<forall>l w r rs w'. in_poll K l w = (Inr (r, rs), w') \<longrightarrow> length rs = length l))"

text \<open>
  The invariant of a server whose listening socket is \<open>lfd\<close> and which was started with the descriptors \<open>base\<close> open.
  With \<open>tight\<close> it has no other descriptor than these and the ones of its table.
\<close>

definition srv_inv :: "int \<Rightarrow> bool \<Rightarrow> ('e \<Rightarrow> int) \<Rightarrow> ('w \<Rightarrow> int set) \<Rightarrow> int set \<Rightarrow> int \<Rightarrow> ('e, 'w) iosrv \<Rightarrow> bool" where
  "srv_inv L tight get fds base lfd s =
     (let cs = conns get (tab s); F = fds (world (prc s)) in
      tbl_ok (tab s) \<and> distinct cs \<and> cs \<noteq> [] \<and> hd cs = lfd \<and> list_all (below L) cs \<and>
      base \<inter> set cs = {} \<and> base \<union> set cs \<subseteq> F \<and> (tight \<longrightarrow> F \<subseteq> base \<union> set cs))"

lemma pr_frame [simp]:
  "tab (pr_out t s) = tab s" "world (prc (pr_out t s)) = world (prc s)"
  "tab (pr_err t s) = tab s" "world (prc (pr_err t s)) = world (prc s)"
  by (simp_all add: pr_out_def pr_err_def printf_out_def fputs_err_def)

lemma ask_frame: "ask f s = (r, s1) \<Longrightarrow> tab s1 = tab s \<and> r = fst (f (world (prc s))) \<and> world (prc s1) = snd (f (world (prc s)))"
  by (auto simp: ask_def split: prod.splits sum.splits)

lemma ask_keeps: "ask f s = (r, s1) \<Longrightarrow> keeps fds f \<Longrightarrow> tab s1 = tab s \<and> fds (world (prc s1)) = fds (world (prc s))"
  using ask_frame [of f s r s1] by (simp add: keeps_def)

lemma srv_inv_frame:
  "srv_inv L tight get fds base lfd s \<Longrightarrow> tab s1 = tab s \<Longrightarrow> fds (world (prc s1)) = fds (world (prc s)) \<Longrightarrow> srv_inv L tight get fds base lfd s1"
  by (simp add: srv_inv_def)

lemma ask_opens:
  assumes "ask f s = (r, s1)" "opens L fds f"
  shows "tab s1 = tab s"
    "r = Inl e \<Longrightarrow> fds (world (prc s1)) = fds (world (prc s))"
    "r = Inr fd \<Longrightarrow> fd \<notin> fds (world (prc s)) \<and> below L fd \<and> fds (world (prc s1)) = insert fd (fds (world (prc s)))"
  using ask_frame [OF assms(1)] spec [OF assms(2) [unfolded opens_def], of "world (prc s)"] by auto

lemmas srv_inv_simps = srv_inv_def Let_def list_all_iff

lemma io_kernelD:
  assumes "io_kernel L K fds"
  shows "opens L fds (in_socket K fam ty pr)" "opens L fds (in_accept K l)" "fds (snd (in_close K fd w)) = fds w - {fd}"
    "keeps fds (in_reuse K fd)" "keeps fds (in_setnb K fd)" "keeps fds (in_listen K fd)" "keeps fds (in_oob K fd)"
    "keeps fds (in_bind K fd a)" "keeps fds (in_recv K fd n)" "keeps fds (in_select K ls)" "keeps fds (in_poll K ls)"
    "in_poll K ls w = (Inr (r, rs), w') \<Longrightarrow> length rs = length ls"
  using assms by (simp_all add: io_kernel_def) blast

text \<open>A socket that leaves the table with its descriptor, and one that enters it.\<close>

lemma srv_inv_del:
  assumes "srv_inv L tight get fds base lfd s" "fd \<in> set (tl (conns get (tab s)))" "tbl_ok (tab s1)" "distinct (conns get (tab s1))"
    "set (conns get (tab s1)) = set (conns get (tab s)) - {fd}" "conns get (tab s1) \<noteq> []" "hd (conns get (tab s1)) = hd (conns get (tab s))"
    "fds (world (prc s1)) = fds (world (prc s)) - {fd}"
  shows "srv_inv L tight get fds base lfd s1"
proof -
  have "fd \<in> set (conns get (tab s))" using assms(2) by (cases "conns get (tab s)") auto
  then show ?thesis using assms(1,3-) by (auto simp: srv_inv_simps)
qed

lemma srv_inv_add:
  assumes "srv_inv L tight get fds base lfd s" "fd \<notin> fds (world (prc s))" "below L fd" "tbl_ok (tab s1)" "distinct (conns get (tab s1))"
    "set (conns get (tab s1)) = insert fd (set (conns get (tab s)))" "conns get (tab s1) \<noteq> []" "hd (conns get (tab s1)) = hd (conns get (tab s))"
    "fds (world (prc s1)) = insert fd (fds (world (prc s)))"
  shows "srv_inv L tight get fds base lfd s1"
  using assms by (auto simp: srv_inv_simps)

lemma srv_inv_leak:
  "srv_inv L False get fds base lfd s \<Longrightarrow> tab s1 = tab s \<Longrightarrow> fds (world (prc s)) \<subseteq> fds (world (prc s1)) \<Longrightarrow> srv_inv L False get fds base lfd s1"
  by (auto simp: srv_inv_simps)

lemma srv_inv_fresh: "srv_inv L tight get fds base lfd s \<Longrightarrow> fd \<notin> fds (world (prc s)) \<Longrightarrow> fd \<notin> set (conns get (tab s))"
  by (auto simp: srv_inv_simps)

lemma srv_inv_tab:
  "srv_inv L tight get fds base lfd s \<Longrightarrow> tbl_ok (tab s) \<and> distinct (conns get (tab s)) \<and> conns get (tab s) \<noteq> []"
  by (simp add: srv_inv_simps)

lemma close_frame:
  assumes "io_kernel L K fds"
  shows "tab (snd (ask (in_close K fd) s)) = tab s" "fds (world (prc (snd (ask (in_close K fd) s)))) = fds (world (prc s)) - {fd}"
  using ask_frame [of "in_close K fd" s] io_kernelD(3) [OF assms] by (metis prod.collapse)+

lemma del_socket_sel_safe:
  assumes "io_kernel L K fds" "srv_inv L tight (\<lambda>c. c) fds base lfd s" "fd \<in> set (tl (conns (\<lambda>c. c) (tab s)))"
  shows "safeR (\<lambda>n. srv_inv L tight (\<lambda>c. c) fds base lfd) (del_socket_sel K fd s)"
proof -
  have i: "tbl_ok (tab s)" "distinct (conns (\<lambda>c. c) (tab s))" using srv_inv_tab [OF assms(2)] by auto
  show ?thesis
    by (rule sel.del_served [OF i assms(3)])
       (simp add: del_socket_sel_def del_socket_def on_tab_def close_frame [OF assms(1)], rule srv_inv_del [OF assms(2,3)], simp_all add: close_frame [OF assms(1)])
qed

lemma del_socket_poll_safe:
  assumes "io_kernel L K fds" "srv_inv L tight pfd fds base lfd s" "fd \<in> set (tl (conns pfd (tab s)))"
  shows "safeR (\<lambda>n. srv_inv L tight pfd fds base lfd) (del_socket_poll K fd s)"
proof -
  have i: "tbl_ok (tab s)" "distinct (conns pfd (tab s))" using srv_inv_tab [OF assms(2)] by auto
  show ?thesis
    by (rule pol.del_served [OF i assms(3)])
       (simp add: del_socket_poll_def del_socket_def on_tab_def close_frame [OF assms(1)], rule srv_inv_del [OF assms(2,3)], simp_all add: close_frame [OF assms(1)])
qed

section \<open>The rounds of \<open>io_select\<close>\<close>

lemma serve_sel_safe:
  assumes "io_kernel L K fds" "srv_inv L tight (\<lambda>c. c) fds base lfd s" "fd \<in> set (tl (conns (\<lambda>c. c) (tab s)))"
  shows "safeR (\<lambda>u. srv_inv L tight (\<lambda>c. c) fds base lfd) (serve_sel K fd s)"
proof -
  obtain r s1 where a: "ask (in_recv K fd 1024) (pr_out [''FD_ISSET: normal-inband''] s) = (r, s1)" by fastforce
  have k: "tab s1 = tab s" "fds (world (prc s1)) = fds (world (prc s))" using ask_keeps [OF a io_kernelD(9) [OF assms(1)]] by auto
  have q: "srv_inv L tight (\<lambda>c. c) fds base lfd s2" if "tab s2 = tab s1" "world (prc s2) = world (prc s1)" for s2
    using srv_inv_frame [OF assms(2), of s2] that k by simp
  show ?thesis
    using a q del_socket_sel_safe [OF assms(1) q, of "pr_out [''fd('', dec fd, '') : Session closed''] s1" fd] assms(3) k
    by (auto simp: serve_sel_def safeR_bindR split: sum.splits)
qed

lemma below_fd_set: "L \<le> FD_SETSIZE \<Longrightarrow> below L fd \<Longrightarrow> in_fd_set fd"
  by (simp add: below_def in_fd_set_def)

lemma scan_sel_safe:
  assumes "io_kernel L K fds" "srv_inv L tight (\<lambda>c. c) fds base lfd s" "0 \<notin> set is" "L \<le> FD_SETSIZE"
  shows "safeR (\<lambda>u. srv_inv L tight (\<lambda>c. c) fds base lfd) (scan_sel K ready is s)"
  using assms(2,3)
proof (induction "is" arbitrary: s)
  case (Cons i "is")
  show ?case
  proof (cases "int i < cnt_fd_socket (tab s)")
    case True
    let ?fd = "cells (tab s) ! i"
    have t: "tbl_ok (tab s)" "conns (\<lambda>c. c) (tab s) ! i = ?fd" "i < length (conns (\<lambda>c. c) (tab s))" "i < length (cells (tab s))"
      using True srv_inv_tab [OF Cons.prems(1)] by (auto simp: conns_def tbl_ok_def)
    then have "?fd \<in> set (tl (conns (\<lambda>c. c) (tab s)))" "below L ?fd"
      using Cons.prems by (auto simp: srv_inv_simps in_set_conv_nth nth_tl intro!: exI [of _ "i - 1"])
    then have f: "?fd \<in> set (tl (conns (\<lambda>c. c) (tab s)))" "in_fd_set ?fd" using below_fd_set [OF assms(4)] by simp_all
    have n: "safeR (\<lambda>u. srv_inv L tight (\<lambda>c. c) fds base lfd) (scan_sel K ready is s1)" if "srv_inv L tight (\<lambda>c. c) fds base lfd s1" for s1
      using Cons.IH [OF that] Cons.prems(2) by simp
    have "safeR (\<lambda>u s1. safeR (\<lambda>u. srv_inv L tight (\<lambda>c. c) fds base lfd) (scan_sel K ready is s1)) (serve_sel K ?fd s)"
      by (rule safeR_mono [OF serve_sel_safe [OF assms(1) Cons.prems(1) f(1)] n])
    then show ?thesis using True t f n [OF Cons.prems(1)] by (simp add: safeR_bindR)
  qed (simp add: Cons.prems)
qed simp

text \<open>A table that is as large as the number of descriptors never is full.\<close>

lemma srv_inv_room:
  assumes "srv_inv L tight get fds base lfd s" "fd \<notin> fds (world (prc s))" "below L fd" "L \<le> 255"
  shows "length (conns get (tab s)) < 255"
proof -
  let ?cs = "fd # conns get (tab s)"
  have d: "distinct ?cs" "set ?cs \<subseteq> {0..<L}"
    using assms(1,3) srv_inv_fresh [OF assms(1,2)] by (auto simp: srv_inv_simps below_def)
  have "length ?cs = card (set ?cs)" using distinct_card [OF d(1)] by simp
  also have "\<dots> \<le> card {0..<L}" using d(2) by (rule card_mono [rotated]) simp
  finally show ?thesis using assms(4) by simp
qed

lemma accept_sel_safe:
  assumes "srv_inv L (L \<le> 255) (\<lambda>c. c) fds base lfd s" "fd \<notin> fds (world (prc s))" "below L fd" "tab s1 = tab s"
    "fds (world (prc s1)) = insert fd (fds (world (prc s)))"
  shows "safeR (\<lambda>n. srv_inv L (L \<le> 255) (\<lambda>c. c) fds base lfd) (on_tab (add_socket_sel fd) s1)"
proof -
  have i: "tbl_ok (tab s)" "distinct (conns (\<lambda>c. c) (tab s))" "conns (\<lambda>c. c) (tab s) \<noteq> []" using srv_inv_tab [OF assms(1)] by auto
  have n: "fd \<notin> set (conns (\<lambda>c. c) (tab s))" using srv_inv_fresh [OF assms(1,2)] .
  show ?thesis
  proof (cases "length (conns (\<lambda>c. c) (tab s)) < 255")
    case True
    show ?thesis
      by (rule sel.add_new [OF i(1,2) n True i(3)])
         (simp add: on_tab_def assms(4), rule srv_inv_add [OF assms(1-3)], simp_all add: assms(5))
  next
    case False
    then have l: "\<not> L \<le> 255" using srv_inv_room [OF assms(1-3)] by blast
    have "add_socket_sel fd (tab s) = Ret (- 1) (tab s)" using False sel.full [OF i(1)] sel.bound [OF i(1)] by simp
    then show ?thesis using srv_inv_leak [of L "\<lambda>c. c" fds base lfd s "s1\<lparr>tab := tab s\<rparr>"] assms(1,4,5) l by (simp add: on_tab_def subset_insertI)
  qed
qed

lemma select_round_safe:
  assumes "io_kernel L K fds" "srv_inv L (L \<le> 255) (\<lambda>c. c) fds base lfd s" "L \<le> FD_SETSIZE"
  shows "safeR (\<lambda>u. srv_inv L (L \<le> 255) (\<lambda>c. c) fds base lfd) (select_round K lfd s)"
proof -
  have "mk_fds (tab s) = Some (conns (\<lambda>c. c) (tab s), foldl max (- 1) (conns (\<lambda>c. c) (tab s)))"
    using assms(2) below_fd_set [OF assms(3)] by (auto simp: mk_fds_def srv_inv_def conns_def tbl_ok_def Let_def list_all_iff)
  moreover obtain r s1 where a: "ask (in_select K (conns (\<lambda>c. c) (tab s))) s = (r, s1)" by fastforce
  moreover have v: "srv_inv L (L \<le> 255) (\<lambda>c. c) fds base lfd s1"
    using srv_inv_frame [OF assms(2)] ask_keeps [OF a io_kernelD(10) [OF assms(1)]] by simp
  moreover obtain r2 s2 where b: "ask (in_accept K lfd) s1 = (r2, s2)" by fastforce
  note o = ask_opens [OF b io_kernelD(2) [OF assms(1)]]
  have "srv_inv L (L \<le> 255) (\<lambda>c. c) fds base lfd (pr_err m s2)" if "r2 = Inl e" for m e
    using srv_inv_frame [OF v, of "pr_err m s2"] o(1) o(2) [OF that] by simp
  moreover have "safeR (\<lambda>n s. srv_inv L (L \<le> 255) (\<lambda>c. c) fds base lfd (pr_out m s)) (on_tab (add_socket_sel fd) s2)" if "r2 = Inr fd" for m fd
    by (rule safeR_mono [OF accept_sel_safe [OF v _ _ o(1)]]) (use o(3) [OF that] in \<open>auto intro: srv_inv_frame\<close>)
  moreover have "safeR (\<lambda>u. srv_inv L (L \<le> 255) (\<lambda>c. c) fds base lfd) (scan_sel K ready [1..<n] s1)" for ready n
    using scan_sel_safe [OF assms(1) v _ assms(3)] by simp
  ultimately show ?thesis using b by (auto simp: select_round_def quit_io_def safeR_bindR split: sum.splits)
qed

lemma rounds_safe:
  assumes "\<And>s. I s \<Longrightarrow> safeR (\<lambda>u. I) (f s)" "I s"
  shows "safeR (\<lambda>u. I) (rounds f n s)"
  using assms(2)
proof (induction n arbitrary: s)
  case (Suc n)
  show ?case using safeR_mono [OF assms(1) [OF Suc.prems], of "\<lambda>u s. safeR (\<lambda>u. I) (rounds f n s)"] Suc.IH by (simp add: safeR_bindR)
qed simp

section \<open>The start\<close>

lemma report_port_frame [simp]: "tab (report_port K v port fd s) = tab s" "world (prc (report_port K v port fd s)) = world (prc s)"
  by (simp_all add: report_port_def split: prod.splits)

lemma ask_opens_Inr:
  "ask f s = (Inr fd, s1) \<Longrightarrow> opens L fds f \<Longrightarrow>
    tab s1 = tab s \<and> fd \<notin> fds (world (prc s)) \<and> below L fd \<and> fds (world (prc s1)) = insert fd (fds (world (prc s)))"
  using ask_opens [of f s "Inr fd" s1 L fds] by auto

lemma ask_keeps_snd: "keeps fds f \<Longrightarrow> tab (snd (ask f s)) = tab s \<and> fds (world (prc (snd (ask f s)))) = fds (world (prc s))"
  using ask_keeps [OF prod.collapse [symmetric]] .

lemma open_listener_safe:
  assumes "io_kernel L K fds"
  shows "safeR (\<lambda>fd s1. tab s1 = tab s \<and> fd \<notin> fds (world (prc s)) \<and> below L fd \<and> fds (world (prc s1)) = insert fd (fds (world (prc s))))
    (open_listener K v port s)"
proof -
  note k = io_kernelD [OF assms]
  show ?thesis
    by (auto simp: open_listener_def quit_io_def Let_def printf_out_def ask_keeps_snd [OF k(6)] split: sum.splits prod.splits if_splits
      dest!: ask_opens_Inr [OF _ k(1)] ask_keeps [OF _ k(4)] ask_keeps [OF _ k(5)] ask_keeps [OF _ k(8)])
qed

lemma start_server_safe:
  assumes "io_kernel L K fds" "\<And>fd c. get (put fd c) = fd" "length cs = 255"
  shows "safeR (\<lambda>lfd s. srv_inv L tight get fds (fds (world p)) lfd s) (start_server K v prog args put cs b p)"
proof -
  have a: "safeR (\<lambda>n s2. safeR (srv_inv L tight get fds B) (Ret lfd s2)) (on_tab (add_cell (put lfd)) s1)"
    if "tab s1 = \<lparr>cells = cs, cnt_fd_socket = 0\<rparr>" "lfd \<notin> B" "below L lfd" "fds (world (prc s1)) = insert lfd B" for lfd s1 B
  proof -
    have c: "conns get (tab s1) = []" "tbl_ok (tab s1)" using that(1) assms(3) by (simp_all add: conns_def tbl_ok_def)
    then obtain u where "add_cell (put lfd) (tab s1) = Ret (cnt_fd_socket (tab s1) + 1) u" "tbl_ok u" "conns get u = [lfd]"
      using add_cell_spec [OF c(2), of get "put lfd" lfd] assms(2) by auto
    then show ?thesis using that by (auto simp: on_tab_def srv_inv_simps)
  qed
  have "safeR (\<lambda>lfd s1. safeR (\<lambda>n s2. safeR (srv_inv L tight get fds (fds (world p))) (Ret lfd s2)) (on_tab (add_cell (put lfd)) s1)) (open_listener K v port s)"
    if "tab s = \<lparr>cells = cs, cnt_fd_socket = 0\<rparr>" "world (prc s) = world p" for s port
    by (rule safeR_mono [OF open_listener_safe [OF assms(1)]], rule a) (simp_all add: that)
  then show ?thesis unfolding start_server_def Let_def safeR_bindR by (simp add: printf_out_def)
qed

text \<open>
  The server with select, when the limit of descriptors is not above FD_SETSIZE, never reads or writes outside its table or an fd_set, whatever its
  clients do: after any number of rounds the table holds the listening socket first and then the sockets of the clients, each once and
  each open. If the limit is not above the size of the table no other descriptor is open but those from the start.
\<close>

theorem io_select_table:
  assumes "io_kernel L K fds" "L \<le> FD_SETSIZE"
  shows "safeR (\<lambda>lfd s. tbl_ok (tab s) \<and> (\<exists>cl. conns (\<lambda>c. c) (tab s) = lfd # cl \<and> distinct (lfd # cl) \<and>
      set (lfd # cl) \<subseteq> fds (world (prc s)) - fds (world p) \<and> (L \<le> 255 \<longrightarrow> fds (world (prc s)) = fds (world p) \<union> set (lfd # cl))) \<and>
      fds (world p) \<subseteq> fds (world (prc s))) (io_select K prog args b n p)"
proof -
  let ?I = "srv_inv L (L \<le> 255) (\<lambda>c. c) fds (fds (world p))"
  have e: "tbl_ok (tab s) \<and> (\<exists>cl. conns (\<lambda>c. c) (tab s) = lfd # cl \<and> distinct (lfd # cl) \<and>
      set (lfd # cl) \<subseteq> fds (world (prc s)) - fds (world p) \<and> (L \<le> 255 \<longrightarrow> fds (world (prc s)) = fds (world p) \<union> set (lfd # cl))) \<and>
      fds (world p) \<subseteq> fds (world (prc s))"
    if "?I lfd s" for lfd s
    using that by (cases "conns (\<lambda>c. c) (tab s)") (auto simp: srv_inv_simps)
  have r: "safeR (\<lambda>u s. safeR ?I (Ret lfd s)) (rounds (select_round K lfd) n s)" if "?I lfd s" for lfd s
    using rounds_safe [OF select_round_safe [OF assms(1) _ assms(2)] that] by simp
  have "safeR ?I (io_select K prog args b n p)"
    unfolding io_select_def safeR_bindR
    by (rule safeR_mono [OF start_server_safe [OF assms(1), where get = "\<lambda>c. c" and tight = "L \<le> 255"]]) (simp_all add: r del: safeR.simps)
  then show ?thesis by (rule safeR_mono) (rule e)
qed

section \<open>The rounds of \<open>io_poll\<close>\<close>

lemma call_poll_inv:
  assumes "io_kernel L K fds" "srv_inv L tight pfd fds base lfd s" "call_poll K s = (r, s1)"
  shows "srv_inv L tight pfd fds base lfd s1"
proof -
  let ?n = "nat (cnt_fd_socket (tab s))"
  obtain r1 s2 where a: "ask (in_poll K (map pfd (take ?n (cells (tab s))))) s = (r1, s2)" by fastforce
  note k = ask_keeps [OF a io_kernelD(11) [OF assms(1)]] and f = ask_frame [OF a]
  have n: "?n \<le> length (cells (tab s))" using srv_inv_tab [OF assms(2)] by (auto simp: tbl_ok_def)
  have c: "s1 = s2 \<or> (\<exists>rs. s1 = s2\<lparr>tab := (tab s2)\<lparr>cells := map2 (\<lambda>c e. c\<lparr>revents := e\<rparr>) (take ?n (cells (tab s))) rs @ drop ?n (cells (tab s))\<rparr>\<rparr> \<and> length rs = ?n)"
  proof (cases r1)
    case (Inr q)
    then have "length (snd q) = ?n"
      using f io_kernelD(12) [OF assms(1), of "map pfd (take ?n (cells (tab s)))" "world (prc s)" "fst q" "snd q" "world (prc s2)"] n by (simp add: prod_eq_iff)
    then show ?thesis using assms(3) a Inr by (auto simp: call_poll_def Let_def split: prod.splits)
  qed (use assms(3) a in \<open>auto simp: call_poll_def Let_def\<close>)
  have m: "map pfd (map2 (\<lambda>c e. c\<lparr>revents := e\<rparr>) xs rs) = map pfd xs" if "length rs = length xs" for xs :: "pollfd list" and rs
    using that by (induction xs rs rule: list_induct2') auto
  have "conns pfd (tab s1) = conns pfd (tab s) \<and> tbl_ok (tab s1)"
    using c k n srv_inv_tab [OF assms(2)] m [of _ "take ?n (cells (tab s))"] by (auto simp: conns_def tbl_ok_def)
  then show ?thesis using c k assms(2) by (auto simp: srv_inv_simps)
qed

lemma serve_poll_safe:
  assumes "io_kernel L K fds" "srv_inv L tight pfd fds base lfd s" "fd \<in> set (tl (conns pfd (tab s)))"
  shows "safeR (\<lambda>u. srv_inv L tight pfd fds base lfd) (serve_poll K fd s)"
proof -
  obtain r s1 where a: "ask (in_recv K fd 1024) (pr_out [''POLLIN : normal-inband''] s) = (r, s1)" by fastforce
  have k: "tab s1 = tab s" "fds (world (prc s1)) = fds (world (prc s))" using ask_keeps [OF a io_kernelD(9) [OF assms(1)]] by auto
  have q: "srv_inv L tight pfd fds base lfd s2" if "tab s2 = tab s1" "world (prc s2) = world (prc s1)" for s2
    using srv_inv_frame [OF assms(2), of s2] that k by simp
  show ?thesis
    using a q del_socket_poll_safe [OF assms(1) q, of "pr_out [''fd('', dec fd, '') : Session closed''] s1" fd] assms(3) k
    by (auto simp: serve_poll_def safeR_bindR split: sum.splits)
qed

lemma serve_oob_keeps:
  assumes "io_kernel L K fds"
  shows "fds (world (prc (serve_oob K fd s))) = fds (world (prc s))"
proof -
  obtain r s1 where a: "ask (in_oob K fd) (pr_out [''POLLPRI : Urgent data detected''] s) = (r, s1)" by fastforce
  show ?thesis using a ask_keeps [OF a io_kernelD(7) [OF assms]] by (cases r) (simp_all add: serve_oob_def Let_def)
qed

lemma scan_poll_safe:
  assumes "io_kernel L K fds" "srv_inv L tight pfd fds base lfd s" "1 \<le> i"
  shows "safeR (\<lambda>u. srv_inv L tight pfd fds base lfd) (scan_poll K oob i left s)"
  using assms
proof (induction K oob i left s rule: scan_poll.induct)
  case (1 K oob i left s)
  show ?case
  proof (cases "i < cnt_fd_socket (tab s) \<and> left > 0")
    case True
    let ?c = "cells (tab s) ! nat i"
    have t: "conns pfd (tab s) ! nat i = pfd ?c" "nat i < length (conns pfd (tab s))" "nat i < length (cells (tab s))"
      using True "1.prems"(3) srv_inv_tab [OF "1.prems"(2)] by (auto simp: conns_def tbl_ok_def)
    then have f: "pfd ?c \<in> set (tl (conns pfd (tab s)))"
      using "1.prems"(3) by (auto simp: in_set_conv_nth nth_tl Suc_nat_eq_nat_zadd1 intro!: exI [of _ "nat i - 1"])
    have s: "safeR (\<lambda>d. srv_inv L tight pfd fds base lfd) (serve_poll K (pfd ?c) s)" by (rule serve_poll_safe [OF "1.prems"(1,2) f])
    have q: "srv_inv L tight pfd fds base lfd (s\<lparr>prc := prc (pr_out m s)\<rparr>)"
      "srv_inv L tight pfd fds base lfd (s\<lparr>buf0 := buf0 (serve_oob K (pfd ?c) s), prc := prc (serve_oob K (pfd ?c) s)\<rparr>)" for m
      by (rule srv_inv_frame [OF "1.prems"(2)]; simp add: serve_oob_keeps [OF "1.prems"(1)])+
    note IH = "1.IH" [OF _ _ refl refl]
    show ?thesis
    proof (cases "revents ?c AND POLLIN = 0")
      case False
      then show ?thesis using True t f "1.prems"(1,3) s IH(1) by (subst scan_poll.simps) (auto simp: Let_def split: res.splits)
    next
      case nin: True
      show ?thesis using True t nin "1.prems" q IH(2-4) by (subst scan_poll.simps) (auto simp: Let_def)
    qed
  qed (use "1.prems" in \<open>simp add: scan_poll.simps\<close>)
qed

lemma add_poll_step:
  assumes "srv_inv L tight pfd fds base lfd s" "fd \<notin> fds (world (prc s))" "below L fd" "tab s1 = tab s"
    "fds (world (prc s1)) = insert fd (fds (world (prc s)))"
  obtains (room) n s2 where "on_tab (add_socket_poll oob fd) s1 = Ret n s2" "n \<noteq> - 1" "srv_inv L tight pfd fds base lfd s2" "prc s2 = prc s1"
    | (full) "on_tab (add_socket_poll oob fd) s1 = Ret (- 1) s1" "length (conns pfd (tab s)) = 255"
proof -
  have i: "tbl_ok (tab s)" "distinct (conns pfd (tab s))" "conns pfd (tab s) \<noteq> []" using srv_inv_tab [OF assms(1)] by auto
  have n: "fd \<notin> set (conns pfd (tab s))" using srv_inv_fresh [OF assms(1,2)] .
  show thesis
  proof (cases "length (conns pfd (tab s)) < 255")
    case True
    obtain n u where u: "add_socket_poll oob fd (tab s) = Ret n u" "n \<noteq> - 1" "tbl_ok u" "distinct (conns pfd u)"
      "set (conns pfd u) = insert fd (set (conns pfd (tab s)))" "conns pfd u \<noteq> []" "hd (conns pfd u) = hd (conns pfd (tab s))"
      by (rule pol.add_new [OF i(1,2) n True i(3)])
    have "srv_inv L tight pfd fds base lfd (s1\<lparr>tab := u\<rparr>)" by (rule srv_inv_add [OF assms(1-3)]) (simp_all add: u assms(5))
    then show thesis using room u(1,2) assms(4) by (simp add: on_tab_def)
  next
    case False
    then have f: "length (conns pfd (tab s)) = 255" using pol.bound [OF i(1)] by simp
    have "s1\<lparr>tab := tab s\<rparr> = s1" using assms(4) by (cases s1) simp
    then show thesis using full pol.full [OF i(1) f, of oob fd] assms(4) f by (simp add: on_tab_def)
  qed
qed

lemma accept_poll_safe:
  assumes "io_kernel L K fds" "srv_inv L tight pfd fds base lfd s"
  shows "safeR (\<lambda>u. srv_inv L tight pfd fds base lfd) (accept_poll K oob l s)"
proof -
  obtain r s1 where a: "ask (in_accept K l) s = (r, s1)" by fastforce
  note o = ask_opens [OF a io_kernelD(2) [OF assms(1)]]
  show ?thesis
  proof (cases r)
    case (Inl e)
    then show ?thesis using a srv_inv_frame [OF assms(2), of "pr_err m s1" for m] o(1) o(2) [OF Inl] by (simp add: accept_poll_def)
  next
    case (Inr fd)
    then have f: "fd \<notin> fds (world (prc s))" "below L fd" "fds (world (prc s1)) = insert fd (fds (world (prc s)))" using o(3) by auto
    show ?thesis
      by (rule add_poll_step [OF assms(2) f(1,2) o(1) f(3), of oob])
         (simp_all add: accept_poll_def a Inr quit_io_def srv_inv_frame)
  qed
qed

text \<open>The loop of accept(2) ends: every connection takes a descriptor.\<close>

lemma accept_all_poll_safe:
  assumes "io_kernel L K fds" "srv_inv L tight pfd fds base lfd s" "tight \<Longrightarrow> L \<le> 255"
  shows "\<exists>r. accept_all_poll K oob l s = Some r \<and> safeR (\<lambda>u. srv_inv L tight pfd fds base lfd) r"
  using assms(2)
proof (induction "card ({0..<L} - fds (world (prc s)))" arbitrary: s rule: less_induct)
  case less
  obtain r s1 where a: "ask (in_accept K l) s = (r, s1)" by fastforce
  note o = ask_opens [OF a io_kernelD(2) [OF assms(1)]]
  show ?case
  proof (cases r)
    case (Inl e)
    then show ?thesis using a srv_inv_frame [OF less.prems, of s2 for s2] o(1) o(2) [OF Inl] by (subst accept_all_poll.simps) simp
  next
    case (Inr fd)
    then have f: "fd \<notin> fds (world (prc s))" "below L fd" "fds (world (prc s1)) = insert fd (fds (world (prc s)))" using o(3) by auto
    have n: "\<exists>r. accept_all_poll K oob l s2 = Some r \<and> safeR (\<lambda>u. srv_inv L tight pfd fds base lfd) r"
      if "srv_inv L tight pfd fds base lfd s2" "world (prc s2) = world (prc s1)" for s2
      using f by (intro less.hyps psubset_card_mono that(1)) (auto simp: that(2) below_def)
    obtain m s2 where s2: "on_tab (add_socket_poll oob fd) s1 = Ret m s2" "srv_inv L tight pfd fds base lfd s2" "prc s2 = prc s1"
    proof (rule add_poll_step [OF less.prems f(1,2) o(1) f(3), of oob])
      assume full: "on_tab (add_socket_poll oob fd) s1 = Ret (- 1) s1" "length (conns pfd (tab s)) = 255"
      then have "\<not> tight" using srv_inv_room [OF less.prems f(1,2)] assms(3) by auto
      then have "srv_inv L tight pfd fds base lfd s1" using srv_inv_leak [of L pfd fds base lfd s s1] less.prems o(1) f(3) by (simp add: subset_insertI)
      then show thesis using that full(1) by blast
    qed (rule that)
    then show ?thesis using a Inr n [of "pr_out t s2" for t] srv_inv_frame [OF s2(2)] by (subst accept_all_poll.simps) simp
  qed
qed

lemma poll_round_safe:
  assumes "io_kernel L K fds" "srv_inv L (v = Io_poll \<or> L \<le> 255) pfd fds base lfd s"
  shows "\<exists>r. poll_round K v oob s = Some r \<and> safeR (\<lambda>u. srv_inv L (v = Io_poll \<or> L \<le> 255) pfd fds base lfd) r"
proof -
  obtain r s1 where c: "call_poll K s = (r, s1)" by fastforce
  then have "srv_inv L (v = Io_poll \<or> L \<le> 255) pfd fds base lfd s1" by (rule call_poll_inv [OF assms])
  then have q: "srv_inv L (v = Io_poll \<or> L \<le> 255) pfd fds base lfd (pr_out m s1)" for m by (rule srv_inv_frame) simp_all
  have "cells (tab s1) \<noteq> []" using srv_inv_tab [OF q] by (auto simp: tbl_ok_def)
  then show ?thesis using c q accept_poll_safe [OF assms(1) q] scan_poll_safe [OF assms(1) q] accept_all_poll_safe [OF assms(1) q]
    by (cases r; cases "v = Io_poll") (auto simp: poll_round_def quit_io_def Let_def)
qed

lemma poll_rounds_safe:
  assumes "io_kernel L K fds" "srv_inv L (v = Io_poll \<or> L \<le> 255) pfd fds base lfd s"
  shows "\<exists>r. poll_rounds K v oob n s = Some r \<and> safeR (\<lambda>u. srv_inv L (v = Io_poll \<or> L \<le> 255) pfd fds base lfd) r"
  using assms(2)
proof (induction n arbitrary: s)
  case (Suc n)
  obtain r where r: "poll_round K v oob s = Some r" "safeR (\<lambda>u. srv_inv L (v = Io_poll \<or> L \<le> 255) pfd fds base lfd) r"
    using poll_round_safe [OF assms(1) Suc.prems] by blast
  show ?case using r Suc.IH by (cases r) auto
qed simp

text \<open>
  C31. The servers with poll, for any limit of descriptors: they never access an entry outside their table, whatever their clients do, and every round
  ends. After any number of rounds the table holds first the listening socket, which \<open>main\<close> got from socket(2), and then the sockets of the
  clients, each once and each open, and none of the descriptors from the start. For \<open>io_poll\<close>, and for \<open>io_poll_nb\<close> when the limit is not above the size
  of the table, no other descriptor is open than these and those from the start: a session that ends is closed and forgotten.
\<close>

theorem io_poll_table:
  assumes "io_kernel L K fds"
  shows "\<exists>r. io_poll K v oob prog args b n p = Some r \<and>
    safeR (\<lambda>lfd s. tbl_ok (tab s) \<and> (\<exists>cl. conns pfd (tab s) = lfd # cl \<and> distinct (lfd # cl)) \<and>
      fds (world p) \<inter> set (conns pfd (tab s)) = {} \<and> fds (world p) \<union> set (conns pfd (tab s)) \<subseteq> fds (world (prc s)) \<and>
      (v = Io_poll \<or> L \<le> 255 \<longrightarrow> fds (world (prc s)) = fds (world p) \<union> set (conns pfd (tab s)))) r"
proof -
  let ?cs = "replicate 255 \<lparr>pfd = 0, events = 0, revents = 0\<rparr>"
  let ?I = "srv_inv L (v = Io_poll \<or> L \<le> 255) pfd fds (fds (world p))"
  have s: "safeR ?I (start_server K v prog args (put_pollfd oob) ?cs b p)"
    by (rule start_server_safe [OF assms]) (simp_all add: put_pollfd_def)
  have "\<exists>r. io_poll K v oob prog args b n p = Some r \<and> safeR ?I r"
  proof (cases "start_server K v prog args (put_pollfd oob) ?cs b p")
    case (Ret lfd s0)
    then obtain r where "poll_rounds K v oob n s0 = Some r" "safeR (\<lambda>u. ?I lfd) r"
      using s poll_rounds_safe [OF assms] by fastforce
    then show ?thesis using Ret by (simp add: io_poll_def safeR_bindR)
  qed (use s in \<open>auto simp: io_poll_def\<close>)
  then obtain r where r: "io_poll K v oob prog args b n p = Some r" "safeR ?I r" by blast
  show ?thesis
    by (rule exI [of _ r], rule conjI [OF r(1)], rule safeR_mono [OF r(2)]) (auto simp: srv_inv_simps neq_Nil_conv)
qed

section \<open>A full table\<close>

text \<open>
  When the table is full, the server with select forgets the socket that accept(2) has returned for a new client: the
  descriptor stays open until the server ends, though the message says that it was added.
\<close>

theorem select_full_leaks:
  assumes "io_kernel L K fds" "L \<le> FD_SETSIZE" "srv_inv L False (\<lambda>c. c) fds base lfd s" "length (conns (\<lambda>c. c) (tab s)) = 255"
    "in_select K (conns (\<lambda>c. c) (tab s)) (world (prc s)) = (Inr ready, w)" "lfd \<in> set ready" "in_accept K lfd w = (Inr fd, w')"
  shows "\<exists>s1. select_round K lfd s = Ret () s1 \<and> tab s1 = tab s \<and> fd \<notin> set (conns (\<lambda>c. c) (tab s1)) \<and> fd \<in> fds (world (prc s1)) \<and>
    out_buf (prc s1) = out_buf (prc s) @ msg [''accept : add socket ('', dec fd, '')'', nl]"
proof -
  let ?s = "s\<lparr>prc := (prc s)\<lparr>world := w'\<rparr>\<rparr>"
  have m: "mk_fds (tab s) = Some (conns (\<lambda>c. c) (tab s), foldl max (- 1) (conns (\<lambda>c. c) (tab s)))"
    using assms(3) below_fd_set [OF assms(2)] by (auto simp: mk_fds_def srv_inv_def conns_def tbl_ok_def Let_def list_all_iff)
  have a: "ask (in_select K (conns (\<lambda>c. c) (tab s))) s = (Inr ready, s\<lparr>prc := (prc s)\<lparr>world := w\<rparr>\<rparr>)"
    "ask (in_accept K lfd) (s\<lparr>prc := (prc s)\<lparr>world := w\<rparr>\<rparr>) = (Inr fd, ?s)" using assms(5,7) by (simp_all add: ask_def)
  have u: "add_socket_sel fd (tab s) = Ret (- 1) (tab s)" using sel.full assms(4) srv_inv_tab [OF assms(3)] by blast
  have r: "select_round K lfd s = Ret () (pr_out [''accept : add socket ('', dec fd, '')''] (?s\<lparr>tab := tab s\<rparr>))"
    using assms(6) by (simp add: select_round_def m a on_tab_def u)
  have "fds w = fds (world (prc s))" using ask_keeps [OF a(1) io_kernelD(10) [OF assms(1)]] by simp
  moreover have "fd \<notin> fds w" "fd \<in> fds w'" using io_kernelD(2) [OF assms(1), of lfd] assms(7) by (auto simp: opens_def dest!: spec [of _ w])
  ultimately show ?thesis using r srv_inv_fresh [OF assms(3)] by (simp add: pr_out_def printf_out_def)
qed

section \<open>Runs\<close>

text \<open>A kernel that always has a new client, and a client that sends nothing and ends.\<close>

definition demo_open :: "int list \<Rightarrow> (int + int) \<times> int list" where
  "demo_open w = (let fd = Max (set (2 # w)) + 1 in if fd < 1024 then (Inr fd, fd # w) else (Inl 24, w))"

definition demo_net :: "int list ionet" where
  "demo_net = \<lparr>in_getaddrinfo = \<lambda>port w. Inr (2, 1, 6, []), in_socket = \<lambda>f t p. demo_open, in_reuse = \<lambda>fd w. (Inr (), w),
     in_setnb = \<lambda>fd w. (Inr (), w), in_bind = \<lambda>fd a w. (Inr (), w), in_sockname = \<lambda>fd w. (2, 5000), in_listen = \<lambda>fd w. (Inr (), w),
     in_accept = \<lambda>l. demo_open, in_recv = \<lambda>fd n w. (Inr [], w), in_oob = \<lambda>fd w. (Inr [], w), in_close = \<lambda>fd w. (Inr (), removeAll fd w),
     in_select = \<lambda>l w. (Inr (if length l < 3 then [3] else [4]), w),
     in_poll = \<lambda>l w. (Inr (1, map (\<lambda>fd. if fd = (if length l < 3 then 3 else 4) then 1 else 0) l), w),
     in_strerror = \<lambda>e. [], in_gai_strerror = \<lambda>e. []\<rparr>"

definition demo_proc :: "int list \<Rightarrow> int list proc" where
  "demo_proc w = \<lparr>out_buf = [], out = [], err = [], errno = 0, ef_dumpcore = None, world = w\<rparr>"

lemma demo_net_ok: "io_kernel 1024 demo_net set"
proof -
  have "opens 1024 set demo_open"
  proof -
    have "m + 1 \<notin> set w" "0 \<le> m + 1" if "m = Max (insert 2 (set w))" for w :: "int list" and m
      using Max_ge [of "insert 2 (set w)" "m + 1"] Max_ge [of "insert 2 (set w)" 2] unfolding that [symmetric] by auto
    then show ?thesis by (simp add: opens_def demo_open_def below_def Let_def del: Max_insert)
  qed
  then show ?thesis by (auto simp: io_kernel_def demo_net_def keeps_def)
qed

theorem io_select_table_witness:
  "io_kernel 1024 demo_net set \<and>
   safeR (\<lambda>lfd s. tbl_ok (tab s) \<and> (\<exists>cl. conns (\<lambda>c. c) (tab s) = lfd # cl \<and> distinct (lfd # cl) \<and>
      set (lfd # cl) \<subseteq> set (world (prc s)) - {0, 1, 2}) \<and> {0, 1, 2} \<subseteq> set (world (prc s)))
     (io_select demo_net ''io_select'' [''5000''] CHR 0x00 4 (demo_proc [0, 1, 2])) \<and>
   (case io_select demo_net ''io_select'' [''5000''] CHR 0x00 4 (demo_proc [0, 1, 2]) of
      Ret lfd s \<Rightarrow> conns (\<lambda>c. c) (tab s) = [3, 5, 6] | _ \<Rightarrow> False)"
proof -
  have "case io_select demo_net ''io_select'' [''5000''] CHR 0x00 4 (demo_proc [0, 1, 2]) of
      Ret lfd s \<Rightarrow> conns (\<lambda>c. c) (tab s) = [3, 5, 6] | _ \<Rightarrow> False"
    by code_simp
  moreover have "set (world (demo_proc [0, 1, 2])) = {0, 1, 2}" by (simp add: demo_proc_def)
  ultimately show ?thesis using io_select_table [OF demo_net_ok, of "demo_proc [0, 1, 2]" "''io_select''" "[''5000'']" "CHR 0x00" 4] demo_net_ok by (simp add: FD_SETSIZE_def)
qed

theorem io_poll_table_witness:
  "\<exists>r. io_poll demo_net Io_poll True ''io_poll'' [''5000''] CHR 0x00 4 (demo_proc [0, 1, 2]) = Some r \<and>
    safeR (\<lambda>lfd s. lfd = 3 \<and> conns pfd (tab s) = [3, 5, 6] \<and> set (world (prc s)) = {0, 1, 2} \<union> set (conns pfd (tab s))) r"
proof -
  have "case io_poll demo_net Io_poll True ''io_poll'' [''5000''] CHR 0x00 4 (demo_proc [0, 1, 2]) of
      Some (Ret lfd s) \<Rightarrow> conns pfd (tab s) = [3, 5, 6] | _ \<Rightarrow> False"
    by code_simp
  then obtain lfd s where s: "io_poll demo_net Io_poll True ''io_poll'' [''5000''] CHR 0x00 4 (demo_proc [0, 1, 2]) = Some (Ret lfd s)"
    "conns pfd (tab s) = [3, 5, 6]"
    by (auto split: option.splits res.splits)
  have "set (world (demo_proc [0, 1, 2])) = {0, 1, 2}" by (simp add: demo_proc_def)
  then show ?thesis
    using s io_poll_table [OF demo_net_ok, of Io_poll True "''io_poll''" "[''5000'']" "CHR 0x00" 4 "demo_proc [0, 1, 2]"]
    by auto
qed

definition demo_full :: "(int, int list) iosrv" where
  "demo_full = \<lparr>tab = \<lparr>cells = map int [4..<259], cnt_fd_socket = 255\<rparr>, buf0 = CHR 0x00, prc = demo_proc (map int [4..<259])\<rparr>"

theorem select_full_leaks_witness:
  "\<exists>s1. select_round demo_net 4 demo_full = Ret () s1 \<and> tab s1 = tab demo_full \<and> 259 \<notin> set (conns (\<lambda>c. c) (tab s1)) \<and>
     259 \<in> set (world (prc s1)) \<and> out_buf (prc s1) = out_buf (prc demo_full) @ msg [''accept : add socket ('', dec 259, '')'', nl]"
proof (rule select_full_leaks [OF demo_net_ok, where base = "{}" and ready = "[4]" and w = "map int [4..<259]" and w' = "259 # map int [4..<259]"])
  have c: "conns (\<lambda>c. c) (tab demo_full) = map int [4..<259]" by (simp add: demo_full_def conns_def)
  show "srv_inv 1024 False (\<lambda>c. c) set {} 4 demo_full"
    unfolding srv_inv_def Let_def c by (simp add: demo_full_def demo_proc_def tbl_ok_def list_all_iff below_def distinct_map hd_map del: upt_rec_numeral)
  show "length (conns (\<lambda>c. c) (tab demo_full)) = 255" by (simp add: c del: upt_rec_numeral)
  show "in_select demo_net (conns (\<lambda>c. c) (tab demo_full)) (world (prc demo_full)) = (Inr [4], map int [4..<259])"
    unfolding c by (simp add: demo_net_def demo_full_def demo_proc_def del: upt_rec_numeral)
  have "Max (set (2 # map int [4..<259])) = 258" by (rule Max_eqI) (auto simp del: upt_rec_numeral simp: image_iff intro!: bexI [of _ 258])
  then show "in_accept demo_net 4 (map int [4..<259]) = (Inr 259, 259 # map int [4..<259])"
    by (simp add: demo_net_def demo_open_def Let_def del: upt_rec_numeral list.set set_map)
qed (simp_all add: FD_SETSIZE_def)

end
