(* ===== verification/EpollServer.thy ===== *)
theory EpollServer
  imports IoServers
begin

text \<open>
  The server \<open>ALSP/io_epoll.c\<close>, which has no table of its own: the kernel keeps the set of sockets that epoll_wait(2)
  watches. The kernel is that of \<open>IoServers\<close> with the calls of epoll(7).
\<close>

unbundle bit_operations_syntax

section \<open>The program\<close>

record 'w epnet = "'w ionet" +
  ep_create :: "'w \<Rightarrow> (int + int) \<times> 'w"
  ep_add :: "int \<Rightarrow> int \<Rightarrow> 'w \<Rightarrow> (int + unit) \<times> 'w"
  ep_del :: "int \<Rightarrow> int \<Rightarrow> 'w \<Rightarrow> (int + unit) \<times> 'w"
  ep_wait :: "int \<Rightarrow> 'w \<Rightarrow> (int + (int \<times> int) list) \<times> 'w"

definition EPOLLIN :: int where "EPOLLIN = 1"
definition EPOLLPRI :: int where "EPOLLPRI = 2"
definition EPOLLERR :: int where "EPOLLERR = 8"

definition add_ev :: "('w, 'z) epnet_scheme \<Rightarrow> int \<Rightarrow> int \<Rightarrow> ('e, 'w) iosrv \<Rightarrow> int \<times> ('e, 'w) iosrv" where
  "add_ev K efd fd s =
     (case ask (ep_add K efd fd) s of
        (Inl e, s1) \<Rightarrow> (- 1, pr_out [''fd('', dec fd, '') EPOLL_CTL_ADD Error('', dec e, '':'', in_strerror K e, '')''] s1)
      | (Inr u, s1) \<Rightarrow> (0, s1))"

definition del_ev :: "('w, 'z) epnet_scheme \<Rightarrow> int \<Rightarrow> int \<Rightarrow> ('e, 'w) iosrv \<Rightarrow> int \<times> ('e, 'w) iosrv" where
  "del_ev K efd fd s =
     (case ask (ep_del K efd fd) s of
        (Inl e, s1) \<Rightarrow> (- 1, pr_out [''fd('', dec fd, '') EPOLL_CTL_DEL Error('', dec e, '':'', in_strerror K e, '')''] s1)
      | (Inr u, s1) \<Rightarrow> (0, snd (ask (in_close K fd) s1)))"

text \<open>The macros that end the server when one of them fails.\<close>

definition ADD_EV :: "('w, 'z) epnet_scheme \<Rightarrow> int \<Rightarrow> int \<Rightarrow> ('e, 'w) iosrv \<Rightarrow> (('e, 'w) iosrv, unit) res" where
  "ADD_EV K efd fd s = (case add_ev K efd fd s of (r, s1) \<Rightarrow> if r = - 1 then quit_io [''Fail: add_ev''] s1 else Ret () s1)"

definition DEL_EV :: "('w, 'z) epnet_scheme \<Rightarrow> int \<Rightarrow> int \<Rightarrow> ('e, 'w) iosrv \<Rightarrow> (('e, 'w) iosrv, unit) res" where
  "DEL_EV K efd fd s = (case del_ev K efd fd s of (r, s1) \<Rightarrow> if r = - 1 then quit_io [''Fail: del_ev''] s1 else Ret () s1)"

text \<open>The error of \<open>fcntl_setnb\<close> is its result, which is not looked at.\<close>

definition fcntl_setnb :: "('w, 'z) epnet_scheme \<Rightarrow> int \<Rightarrow> ('e, 'w) iosrv \<Rightarrow> int \<times> ('e, 'w) iosrv" where
  "fcntl_setnb K fd s = (case ask (in_setnb K fd) s of (Inl e, s1) \<Rightarrow> (e, s1) | (Inr u, s1) \<Rightarrow> (0, s1))"

text \<open>\<open>main\<close> up to the loop: the listening socket, and the descriptor of epoll. \<open>mem\<close> tells whether calloc(3) succeeds.\<close>

definition epoll_listen :: "('w, 'z) epnet_scheme \<Rightarrow> string \<Rightarrow> ('e, 'w) iosrv \<Rightarrow> (('e, 'w) iosrv, int) res" where
  "epoll_listen K port s =
     (case in_getaddrinfo K port (world (prc s)) of
        Inl e \<Rightarrow> quit_io [''Fail: getaddrinfo():'', in_gai_strerror K e] s
      | Inr (fam, ty, proto, addr) \<Rightarrow>
          (case ask (in_socket K fam ty proto) s of
             (Inl e, s1) \<Rightarrow> quit_io [''Fail: socket()''] s1
           | (Inr lfd, s1) \<Rightarrow>
               (case ask (in_reuse K lfd) s1 of
                  (Inl e, s2) \<Rightarrow> quit_io [''Fail: setsockopt()''] s2
                | (Inr u, s2) \<Rightarrow>
                    (case ask (in_bind K lfd addr) (snd (fcntl_setnb K lfd s2)) of
                       (Inl e, s3) \<Rightarrow> quit_io [''Fail: bind()''] s3
                     | (Inr u, s3) \<Rightarrow> Ret lfd (snd (ask (in_listen K lfd) s3))))))"

definition epoll_start :: "('w, 'z) epnet_scheme \<Rightarrow> bool \<Rightarrow> string \<Rightarrow> string list \<Rightarrow> ('e, 'w) iosrv \<Rightarrow> (('e, 'w) iosrv, int \<times> int) res" where
  "epoll_start K mem prog args s =
     (if length args > 1 then Exit EXIT_FAILURE (s\<lparr>prc := printf_out (msg [prog, '' [port number] '', nl]) (prc s)\<rparr>)
      else bindR (epoll_listen K (if length args = 1 then hd args else ''0'') s)
        (\<lambda>lfd s1.
           case ask (ep_create K) s1 of
             (Inl e, s2) \<Rightarrow> quit_io [''Fail: epoll_create()''] s2
           | (Inr efd, s2) \<Rightarrow>
               if \<not> mem then quit_io [''Fail: calloc() epoll_event''] s2
               else bindR (ADD_EV K efd lfd s2) (\<lambda>u s3. Ret (lfd, efd) s3)))"

partial_function (option) accept_ep :: "('w, 'z) epnet_scheme \<Rightarrow> int \<Rightarrow> int \<Rightarrow> ('e, 'w) iosrv \<Rightarrow> (('e, 'w) iosrv, unit) res option" where
  "accept_ep K lfd efd s =
     (case ask (in_accept K lfd) s of
        (Inl e, s1) \<Rightarrow> Some (Ret () (if e = IO_EAGAIN then s1 else pr_err [''Error get connection from listen socket''] s1))
      | (Inr fd, s1) \<Rightarrow>
          (case ADD_EV K efd fd (snd (fcntl_setnb K fd s1)) of
             Ret u s2 \<Rightarrow> accept_ep K lfd efd (pr_out [''accept : add socket ('', dec fd, '')''] s2)
           | Exit x s2 \<Rightarrow> Some (Exit x s2) | Abort s2 \<Rightarrow> Some (Abort s2) | Undef \<Rightarrow> Some Undef))"

definition serve_ep :: "('w, 'z) epnet_scheme \<Rightarrow> int \<Rightarrow> int \<Rightarrow> ('e, 'w) iosrv \<Rightarrow> (('e, 'w) iosrv, unit) res" where
  "serve_ep K efd fd s =
     (case ask (in_recv K fd 1024) s of
        (Inl e, s1) \<Rightarrow> Ret () s1
      | (Inr b, s1) \<Rightarrow>
          if b = [] then DEL_EV K efd fd (pr_out [''fd('', dec fd, '') : Session closed''] s1)
          else Ret () (pr_out (recv_msg fd b) (s1\<lparr>buf0 := hd b\<rparr>)))"

definition urgent_ep :: "('w, 'z) epnet_scheme \<Rightarrow> int \<Rightarrow> ('e, 'w) iosrv \<Rightarrow> ('e, 'w) iosrv" where
  "urgent_ep K fd s =
     (let s2 = (case ask (in_oob K fd) (pr_out [''EPOLLPRI : Urgent data detected''] s) of
                  (Inl e, s1) \<Rightarrow> s1
                | (Inr b, s1) \<Rightarrow> if b = [] then s1 else s1\<lparr>buf0 := hd b\<rparr>)
      in pr_out [''recv(fd='', dec fd, '',n=1) = '', shown [buf0 s2]] s2)"

text \<open>The loop over the events of one epoll_wait(2): pairs of a descriptor and its events.\<close>

fun scan_ep :: "('w, 'z) epnet_scheme \<Rightarrow> int \<Rightarrow> int \<Rightarrow> (int \<times> int) list \<Rightarrow> ('e, 'w) iosrv \<Rightarrow> (('e, 'w) iosrv, unit) res option" where
  "scan_ep K lfd efd [] s = Some (Ret () s)"
| "scan_ep K lfd efd ((fd, evs) # es) s =
     Option.bind
       (if evs AND EPOLLIN \<noteq> 0 then if fd = lfd then accept_ep K lfd efd s else Some (serve_ep K efd fd s)
        else if evs AND EPOLLPRI \<noteq> 0 then Some (Ret () (urgent_ep K fd s))
        else if evs AND EPOLLERR \<noteq> 0 then Some (Ret () s)
        else Some (Ret () (pr_out [''fd('', dec fd, '') epoll event('', dec evs, '') err('', in_strerror K (errno (prc s)), '')''] s)))
       (\<lambda>r. case r of Ret u s1 \<Rightarrow> scan_ep K lfd efd es s1 | _ \<Rightarrow> Some r)"

definition epoll_round :: "('w, 'z) epnet_scheme \<Rightarrow> int \<Rightarrow> int \<Rightarrow> ('e, 'w) iosrv \<Rightarrow> (('e, 'w) iosrv, unit) res option" where
  "epoll_round K lfd efd s =
     (case ask (ep_wait K efd) (pr_out [''Epoll waiting...''] s) of
        (Inl e, s1) \<Rightarrow> Some (Ret () (pr_out [''Epoll return (-1)''] (pr_err [''epoll_wait error''] s1)))
      | (Inr es, s1) \<Rightarrow> scan_ep K lfd efd es (pr_out [''Epoll return ('', dec (int (length es)), '')''] s1))"

fun epoll_rounds :: "('w, 'z) epnet_scheme \<Rightarrow> int \<Rightarrow> int \<Rightarrow> nat \<Rightarrow> ('e, 'w) iosrv \<Rightarrow> (('e, 'w) iosrv, unit) res option" where
  "epoll_rounds K lfd efd 0 s = Some (Ret () s)"
| "epoll_rounds K lfd efd (Suc n) s =
     Option.bind (epoll_round K lfd efd s) (\<lambda>r. case r of Ret u s1 \<Rightarrow> epoll_rounds K lfd efd n s1 | _ \<Rightarrow> Some r)"

text \<open>The result of a run of \<open>n\<close> rounds are the variables \<open>fd_listener\<close> and \<open>epollfd\<close>.\<close>

definition io_epoll :: "('w, 'z) epnet_scheme \<Rightarrow> bool \<Rightarrow> string \<Rightarrow> string list \<Rightarrow> nat \<Rightarrow> ('e, 'w) iosrv \<Rightarrow> (('e, 'w) iosrv, int \<times> int) res option" where
  "io_epoll K mem prog args n s =
     (case epoll_start K mem prog args s of
        Ret (lfd, efd) s1 \<Rightarrow> map_option (\<lambda>r. bindR r (\<lambda>u s2. Ret (lfd, efd) s2)) (epoll_rounds K lfd efd n s1)
      | Exit x s1 \<Rightarrow> Some (Exit x s1) | Abort s1 \<Rightarrow> Some (Abort s1) | Undef \<Rightarrow> Some Undef)"

section \<open>What is watched and what is open\<close>

text \<open>
  \<open>watch w\<close> are the descriptors in the interest list of the server. epoll_ctl(2) adds and removes the one it is
  called for, epoll_wait(2) reports each watched descriptor at most once, and no other call changes the list.
\<close>

definition calm :: "('w \<Rightarrow> int set) \<Rightarrow> ('w \<Rightarrow> int set) \<Rightarrow> ('w \<Rightarrow> 'a \<times> 'w) \<Rightarrow> bool" where
  "calm fds watch f = (keeps fds f \<and> keeps watch f)"

definition ep_kernel :: "int \<Rightarrow> ('w, 'z) epnet_scheme \<Rightarrow> ('w \<Rightarrow> int set) \<Rightarrow> ('w \<Rightarrow> int set) \<Rightarrow> bool" where
  "ep_kernel L K fds watch =
     ((\<forall>fam ty pr. opens L fds (in_socket K fam ty pr) \<and> keeps watch (in_socket K fam ty pr)) \<and>
      (\<forall>l. opens L fds (in_accept K l) \<and> keeps watch (in_accept K l)) \<and>
      opens L fds (ep_create K) \<and> keeps watch (ep_create K) \<and>
      (\<forall>fd w. fds (snd (in_close K fd w)) = fds w - {fd} \<and> watch (snd (in_close K fd w)) = watch w - {fd}) \<and>
      (\<forall>fd. calm fds watch (in_reuse K fd) \<and> calm fds watch (in_setnb K fd) \<and> calm fds watch (in_listen K fd) \<and> calm fds watch (in_oob K fd)) \<and>
      (\<forall>fd a. calm fds watch (in_bind K fd a)) \<and> (\<forall>fd n. calm fds watch (in_recv K fd n)) \<and>
      (\<forall>efd. calm fds watch (ep_wait K efd)) \<and>
      (\<forall>efd w es w'. ep_wait K efd w = (Inr es, w') \<longrightarrow> distinct (map fst es) \<and> set (map fst es) \<subseteq> watch w) \<and>
      (\<forall>efd fd. keeps fds (ep_add K efd fd) \<and> keeps fds (ep_del K efd fd)) \<and>
      (\<forall>efd fd w. case fst (ep_add K efd fd w) of Inl e \<Rightarrow> True | Inr u \<Rightarrow> watch (snd (ep_add K efd fd w)) = insert fd (watch w)) \<and>
      (\<forall>efd fd w. case fst (ep_del K efd fd w) of Inl e \<Rightarrow> True | Inr u \<Rightarrow> watch (snd (ep_del K efd fd w)) = watch w - {fd}))"

definition ep_inv :: "('w \<Rightarrow> int set) \<Rightarrow> ('w \<Rightarrow> int set) \<Rightarrow> int set \<Rightarrow> int \<Rightarrow> int \<Rightarrow> ('e, 'w) iosrv \<Rightarrow> bool" where
  "ep_inv fds watch base lfd efd s =
     (let w = world (prc s) in
      fds w = base \<union> {efd} \<union> watch w \<and> watch w \<inter> (base \<union> {efd}) = {} \<and> lfd \<in> watch w)"

abbreviation now :: "('w \<Rightarrow> 'a) \<Rightarrow> ('e, 'w) iosrv \<Rightarrow> 'a" where
  "now f s \<equiv> f (world (prc s))"

lemma ask_calm: "ask f s = (r, s1) \<Longrightarrow> calm fds watch f \<Longrightarrow> now fds s1 = now fds s \<and> now watch s1 = now watch s"
  using ask_frame [of f s r s1] by (simp add: calm_def keeps_def)

lemma ask_calm_snd: "calm fds watch f \<Longrightarrow> now fds (snd (ask f s)) = now fds s \<and> now watch (snd (ask f s)) = now watch s"
  using ask_calm [OF prod.collapse [symmetric]] .

lemma ep_inv_frame: "ep_inv fds watch base lfd efd s \<Longrightarrow> now fds s1 = now fds s \<Longrightarrow> now watch s1 = now watch s \<Longrightarrow> ep_inv fds watch base lfd efd s1"
  by (simp add: ep_inv_def Let_def)

lemma setnb_frame:
  assumes "ep_kernel L K fds watch"
  shows "now fds (snd (fcntl_setnb K fd s)) = now fds s \<and> now watch (snd (fcntl_setnb K fd s)) = now watch s"
proof -
  obtain r s1 where a: "ask (in_setnb K fd) s = (r, s1)" by fastforce
  have "calm fds watch (in_setnb K fd)" using assms by (simp add: ep_kernel_def)
  then show ?thesis using a ask_calm [OF a] by (cases r) (simp_all add: fcntl_setnb_def)
qed

text \<open>A socket that is accepted and then watched.\<close>

lemma ADD_EV_post:
  assumes "ep_kernel L K fds watch"
  shows "safeR (\<lambda>u s1. now fds s1 = now fds s \<and> now watch s1 = insert fd (now watch s)) (ADD_EV K efd fd s)"
proof -
  obtain r s1 where a: "ask (ep_add K efd fd) s = (r, s1)" by fastforce
  have "keeps fds (ep_add K efd fd)" using assms by (simp add: ep_kernel_def)
  then have "now fds s1 = now fds s" using ask_keeps [OF a] by simp
  moreover have "case fst (ep_add K efd fd (world (prc s))) of Inl e \<Rightarrow> True | Inr u \<Rightarrow> watch (snd (ep_add K efd fd (world (prc s)))) = insert fd (now watch s)"
    using assms by (simp add: ep_kernel_def)
  then have "now watch s1 = insert fd (now watch s)" if "r = Inr ()" using that ask_frame [OF a] by (simp split: sum.splits)
  ultimately show ?thesis using a by (cases r) (simp_all add: ADD_EV_def add_ev_def quit_io_def)
qed

lemma DEL_EV_post:
  assumes "ep_kernel L K fds watch"
  shows "safeR (\<lambda>u s1. now fds s1 = now fds s - {fd} \<and> now watch s1 = now watch s - {fd}) (DEL_EV K efd fd s)"
proof -
  obtain r s1 where a: "ask (ep_del K efd fd) s = (r, s1)" by fastforce
  have "keeps fds (ep_del K efd fd)" using assms by (simp add: ep_kernel_def)
  then have "now fds s1 = now fds s" using ask_keeps [OF a] by simp
  moreover have "case fst (ep_del K efd fd (world (prc s))) of Inl e \<Rightarrow> True | Inr u \<Rightarrow> watch (snd (ep_del K efd fd (world (prc s)))) = now watch s - {fd}"
    using assms by (simp add: ep_kernel_def)
  then have "now watch s1 = now watch s - {fd}" if "r = Inr ()" using that ask_frame [OF a] by (simp split: sum.splits)
  moreover have "fds (snd (in_close K fd w)) = fds w - {fd}" "watch (snd (in_close K fd w)) = watch w - {fd}" for w
    using assms by (simp_all add: ep_kernel_def)
  moreover have "world (prc (snd (ask (in_close K fd) s1))) = snd (in_close K fd (world (prc s1)))" 
    using ask_frame [OF prod.collapse [symmetric], of "in_close K fd" s1] by simp
  ultimately show ?thesis using a by (cases r) (simp_all add: DEL_EV_def del_ev_def quit_io_def)
qed

lemma accept_ep_safe:
  assumes "ep_kernel L K fds watch" "ep_inv fds watch base lfd efd s"
  shows "\<exists>r. accept_ep K lfd efd s = Some r \<and> safeR (\<lambda>u s1. ep_inv fds watch base lfd efd s1 \<and> now watch s \<subseteq> now watch s1) r"
  using assms(2)
proof (induction "card ({0..<L} - now fds s)" arbitrary: s rule: less_induct)
  case less
  obtain r s1 where a: "ask (in_accept K lfd) s = (r, s1)" by fastforce
  have k: "opens L fds (in_accept K lfd)" "keeps watch (in_accept K lfd)" using assms(1) by (auto simp: ep_kernel_def)
  note o = ask_opens [OF a k(1)] and w = ask_keeps [OF a k(2)]
  show ?case
  proof (cases r)
    case (Inl e)
    then show ?thesis using a ep_inv_frame [OF less.prems, of s2 for s2] o(2) [OF Inl] w by (subst accept_ep.simps) auto
  next
    case (Inr fd)
    then have f: "fd \<notin> now fds s" "below L fd" "now fds s1 = insert fd (now fds s)" using o(3) by auto
    let ?s = "snd (fcntl_setnb K fd s1)"
    have p: "safeR (\<lambda>u s2. now fds s2 = insert fd (now fds s) \<and> now watch s2 = insert fd (now watch s)) (ADD_EV K efd fd ?s)"
      using ADD_EV_post [OF assms(1), of ?s fd efd] setnb_frame [OF assms(1), of fd s1] f(3) w by simp
    show ?thesis
    proof (cases "ADD_EV K efd fd ?s")
      case (Ret u s2)
      let ?t = "pr_out [''accept : add socket ('', dec fd, '')''] s2"
      have t: "now fds ?t = insert fd (now fds s)" "now watch ?t = insert fd (now watch s)" using p Ret by simp_all
      then have i: "ep_inv fds watch base lfd efd ?t" using less.prems f(1,2) by (auto simp: ep_inv_def Let_def)
      have "card ({0..<L} - now fds ?t) < card ({0..<L} - now fds s)"
        using f(1,2) t(1) by (intro psubset_card_mono) (auto simp: below_def)
      then obtain r where "accept_ep K lfd efd ?t = Some r" "safeR (\<lambda>u s1. ep_inv fds watch base lfd efd s1 \<and> now watch ?t \<subseteq> now watch s1) r"
        using less.hyps i by blast
      then show ?thesis using a Inr Ret t(2) by (subst accept_ep.simps) (auto elim!: safeR_mono)
    qed (use a Inr p in \<open>subst accept_ep.simps, simp\<close>)+
  qed
qed

lemma serve_ep_safe:
  assumes "ep_kernel L K fds watch" "ep_inv fds watch base lfd efd s" "fd \<in> now watch s" "fd \<noteq> lfd"
  shows "safeR (\<lambda>u s1. ep_inv fds watch base lfd efd s1 \<and> now watch s - {fd} \<subseteq> now watch s1) (serve_ep K efd fd s)"
proof -
  obtain r s1 where a: "ask (in_recv K fd 1024) s = (r, s1)" by fastforce
  have "calm fds watch (in_recv K fd 1024)" using assms(1) by (simp add: ep_kernel_def)
  then have c: "now fds s1 = now fds s" "now watch s1 = now watch s" using ask_calm [OF a] by auto
  have k: "ep_inv fds watch base lfd efd s2" if "now fds s2 = now fds s1" "now watch s2 = now watch s1" for s2
    using ep_inv_frame [OF assms(2)] that c by simp
  have d: "safeR (\<lambda>u s2. ep_inv fds watch base lfd efd s2 \<and> now watch s - {fd} \<subseteq> now watch s2) (DEL_EV K efd fd (pr_out m s1))" for m
    by (rule safeR_mono [OF DEL_EV_post [OF assms(1)]]) (use assms(2-4) c in \<open>auto simp: ep_inv_def Let_def\<close>)
  show ?thesis using a c k d by (cases r) (auto simp: serve_ep_def)
qed

lemma urgent_ep_frame:
  assumes "ep_kernel L K fds watch"
  shows "now fds (urgent_ep K fd s) = now fds s \<and> now watch (urgent_ep K fd s) = now watch s"
proof -
  obtain r s1 where a: "ask (in_oob K fd) (pr_out [''EPOLLPRI : Urgent data detected''] s) = (r, s1)" by fastforce
  have "calm fds watch (in_oob K fd)" using assms by (simp add: ep_kernel_def)
  then show ?thesis using a ask_calm [OF a] by (cases r) (simp_all add: urgent_ep_def Let_def)
qed

lemma scan_ep_safe:
  fixes s :: "('e, 'w) iosrv"
  assumes "ep_kernel L K fds watch" "ep_inv fds watch base lfd efd s" "distinct (map fst es)" "set (map fst es) \<subseteq> now watch s"
  shows "\<exists>r. scan_ep K lfd efd es s = Some r \<and> safeR (\<lambda>u. ep_inv fds watch base lfd efd) r"
  using assms(2-4)
proof (induction es arbitrary: s)
  case (Cons x es)
  obtain fd evs where x: "x = (fd, evs)" by fastforce
  let ?step = "if evs AND EPOLLIN \<noteq> 0 then if fd = lfd then accept_ep K lfd efd s else Some (serve_ep K efd fd s)
        else if evs AND EPOLLPRI \<noteq> 0 then Some (Ret () (urgent_ep K fd s))
        else if evs AND EPOLLERR \<noteq> 0 then Some (Ret () s)
        else Some (Ret () (pr_out [''fd('', dec fd, '') epoll event('', dec evs, '') err('', in_strerror K (errno (prc s)), '')''] s))"
  have m: "fd \<in> now watch s" using Cons.prems(3) x by simp
  have "\<exists>r. ?step = Some r \<and> safeR (\<lambda>u s1. ep_inv fds watch base lfd efd s1 \<and> now watch s - {fd} \<subseteq> now watch s1) r"
    using accept_ep_safe [OF assms(1) Cons.prems(1)] serve_ep_safe [OF assms(1) Cons.prems(1) m] Cons.prems(1)
      ep_inv_frame [OF Cons.prems(1)] urgent_ep_frame [OF assms(1), of fd s] by (auto elim!: safeR_mono)
  then obtain r where r: "?step = Some r" "safeR (\<lambda>u s1. ep_inv fds watch base lfd efd s1 \<and> now watch s - {fd} \<subseteq> now watch s1) r" by blast
  have n: "\<exists>r. scan_ep K lfd efd es s1 = Some r \<and> safeR (\<lambda>u. ep_inv fds watch base lfd efd) r"
    if "ep_inv fds watch base lfd efd s1" "now watch s - {fd} \<subseteq> now watch s1" for s1 :: "('e, 'w) iosrv"
    by (rule Cons.IH [OF that(1)]) (use that(2) Cons.prems(2,3) x in auto)
  have "scan_ep K lfd efd (x # es) s = (case r of Ret u s1 \<Rightarrow> scan_ep K lfd efd es s1 | _ \<Rightarrow> Some r)"
    unfolding x scan_ep.simps r(1) by simp
  then show ?case using r(2) n by (cases r) auto
qed simp

lemma epoll_round_safe:
  fixes s :: "('e, 'w) iosrv"
  assumes "ep_kernel L K fds watch" "ep_inv fds watch base lfd efd s"
  shows "\<exists>r. epoll_round K lfd efd s = Some r \<and> safeR (\<lambda>u. ep_inv fds watch base lfd efd) r"
proof -
  obtain r s1 where a: "ask (ep_wait K efd) (pr_out [''Epoll waiting...''] s) = (r, s1)" by fastforce
  have "calm fds watch (ep_wait K efd)" using assms(1) by (simp add: ep_kernel_def)
  then have c: "now fds s1 = now fds s" "now watch s1 = now watch s" using ask_calm [OF a] by auto
  have k: "ep_inv fds watch base lfd efd s2" if "world (prc s2) = world (prc s1)" for s2 :: "('e, 'w) iosrv"
    using ep_inv_frame [OF assms(2), of s2] that c by simp
  show ?thesis
  proof (cases r)
    case (Inl e)
    then show ?thesis using a k by (simp add: epoll_round_def)
  next
    case (Inr es)
    have "ep_wait K efd (world (prc s)) = (Inr es, world (prc s1))" using ask_frame [OF a] Inr by (simp add: prod_eq_iff)
    then have "distinct (map fst es) \<and> set (map fst es) \<subseteq> now watch s" using assms(1) unfolding ep_kernel_def by blast
    then show ?thesis
      using a Inr scan_ep_safe [OF assms(1) k, of "pr_out m s1" es for m] c by (simp add: epoll_round_def)
  qed
qed

lemma epoll_rounds_safe:
  assumes "ep_kernel L K fds watch" "ep_inv fds watch base lfd efd s"
  shows "\<exists>r. epoll_rounds K lfd efd n s = Some r \<and> safeR (\<lambda>u. ep_inv fds watch base lfd efd) r"
  using assms(2)
proof (induction n arbitrary: s)
  case (Suc n)
  obtain r where r: "epoll_round K lfd efd s = Some r" "safeR (\<lambda>u. ep_inv fds watch base lfd efd) r"
    using epoll_round_safe [OF assms(1) Suc.prems] by blast
  show ?case using r Suc.IH by (cases r) auto
qed simp

lemma ask_opens_watch:
  "ask f s = (Inr fd, s1) \<Longrightarrow> opens L fds f \<Longrightarrow> keeps watch f \<Longrightarrow>
    fd \<notin> now fds s \<and> below L fd \<and> now fds s1 = insert fd (now fds s) \<and> now watch s1 = now watch s"
  using ask_opens_Inr [of f s fd s1 L fds] ask_keeps [of f s _ s1 watch] by blast

lemma epoll_listen_safe:
  assumes "ep_kernel L K fds watch"
  shows "safeR (\<lambda>lfd s1. lfd \<notin> now fds s \<and> below L lfd \<and> now fds s1 = insert lfd (now fds s) \<and> now watch s1 = now watch s) (epoll_listen K port s)"
proof -
  have k: "opens L fds (in_socket K fam ty pr)" "keeps watch (in_socket K fam ty pr)" "calm fds watch (in_reuse K fd)"
    "calm fds watch (in_listen K fd)" "calm fds watch (in_bind K fd ad)" for fam ty pr fd ad
    using assms(1) by (simp_all add: ep_kernel_def)
  show ?thesis
    by (auto simp: epoll_listen_def quit_io_def setnb_frame [OF assms(1)] ask_calm_snd [OF k(4)] split: sum.splits prod.splits
      dest!: ask_opens_watch [OF _ k(1,2)] ask_calm [OF _ k(3)] ask_calm [OF _ k(5)])
qed

lemma epoll_start_safe:
  assumes "ep_kernel L K fds watch" "now watch s = {}"
  shows "safeR (\<lambda>le. ep_inv fds watch (now fds s) (fst le) (snd le)) (epoll_start K mem prog args s)"
proof -
  have k: "opens L fds (ep_create K)" "keeps watch (ep_create K)" using assms(1) by (simp_all add: ep_kernel_def)
  have last: "safeR (\<lambda>u s3. safeR (\<lambda>le. ep_inv fds watch B (fst le) (snd le)) (Ret (lfd, efd) s3)) (ADD_EV K efd lfd s2)"
    if "lfd \<notin> B" "below L lfd" "efd \<notin> insert lfd B" "now fds s2 = insert efd (insert lfd B)" "now watch s2 = {}" for lfd efd B s2
    by (rule safeR_mono [OF ADD_EV_post [OF assms(1)]]) (use that in \<open>auto simp: ep_inv_def Let_def\<close>)
  have rest: "safeR (\<lambda>le. ep_inv fds watch (now fds s) (fst le) (snd le))
      (case ask (ep_create K) s1 of
         (Inl e, s2) \<Rightarrow> quit_io [''Fail: epoll_create()''] s2
       | (Inr efd, s2) \<Rightarrow>
           if \<not> mem then quit_io [''Fail: calloc() epoll_event''] s2
           else bindR (ADD_EV K efd lfd s2) (\<lambda>u s3. Ret (lfd, efd) s3))"
    if "lfd \<notin> now fds s \<and> below L lfd \<and> now fds s1 = insert lfd (now fds s) \<and> now watch s1 = now watch s" for lfd s1
  proof -
    obtain r s2 where a: "ask (ep_create K) s1 = (r, s2)" by fastforce
    show ?thesis
    proof (cases r)
      case (Inr efd)
      then show ?thesis using a ask_opens_watch [OF a [unfolded Inr] k] last [of lfd "now fds s" efd s2] that assms(2)
        by (auto simp: quit_io_def safeR_bindR simp del: safeR.simps(1))
    qed (use a in \<open>simp add: quit_io_def\<close>)
  qed
  show ?thesis
  proof (cases "length args > 1")
    case False
    show ?thesis unfolding epoll_start_def if_not_P [OF False] safeR_bindR
      by (rule safeR_mono [OF epoll_listen_safe [OF assms(1)]], rule rest)
  qed (simp add: epoll_start_def)
qed

text \<open>
  C40. The server with epoll, for any limit of descriptors and whatever the clients do: every round ends, and after any number of rounds the
  descriptors that are open are those from the start, the one of epoll and the ones it watches, which are none of the former; the listening
  socket, which \<open>main\<close> got from socket(2), is watched. So no session is forgotten and no descriptor leaks.
\<close>

theorem io_epoll_no_leak:
  assumes "ep_kernel L K fds watch" "watch (world (prc s)) = {}"
  shows "\<exists>r. io_epoll K mem prog args n s = Some r \<and> safeR (\<lambda>(lfd, efd) s1. lfd \<in> watch (world (prc s1)) \<and>
    fds (world (prc s1)) = fds (world (prc s)) \<union> {efd} \<union> watch (world (prc s1)) \<and>
    watch (world (prc s1)) \<inter> (fds (world (prc s)) \<union> {efd}) = {}) r"
proof -
  let ?I = "\<lambda>le. ep_inv fds watch (now fds s) (fst le) (snd le)"
  have s: "safeR ?I (epoll_start K mem prog args s)" by (rule epoll_start_safe [OF assms])
  have "\<exists>r. io_epoll K mem prog args n s = Some r \<and> safeR ?I r"
  proof (cases "epoll_start K mem prog args s")
    case (Ret le s1)
    then obtain r where "epoll_rounds K (fst le) (snd le) n s1 = Some r" "safeR (\<lambda>u. ?I le) r"
      using s epoll_rounds_safe [OF assms(1)] by fastforce
    then show ?thesis using Ret by (simp add: io_epoll_def split_beta safeR_bindR)
  qed (use s in \<open>auto simp: io_epoll_def\<close>)
  then obtain r where r: "io_epoll K mem prog args n s = Some r" "safeR ?I r" by blast
  show ?thesis
    by (rule exI [of _ r], rule conjI [OF r(1)], rule safeR_mono [OF r(2)]) (auto simp: ep_inv_def Let_def)
qed

text \<open>A kernel whose clients connect while fewer than six descriptors are open and close at once.\<close>

definition on_open :: "(int list \<Rightarrow> 'a \<times> int list) \<Rightarrow> int list \<times> int list \<Rightarrow> 'a \<times> int list \<times> int list" where
  "on_open f w = (case f (fst w) of (r, l) \<Rightarrow> (r, l, snd w))"

definition demo_ep :: "(int list \<times> int list) epnet" where
  "demo_ep = \<lparr>in_getaddrinfo = \<lambda>port w. Inr (2, 1, 6, []), in_socket = \<lambda>f t p. on_open demo_open, in_reuse = \<lambda>fd w. (Inr (), w),
     in_setnb = \<lambda>fd w. (Inr (), w), in_bind = \<lambda>fd a w. (Inr (), w), in_sockname = \<lambda>fd w. (2, 5000), in_listen = \<lambda>fd w. (Inr (), w),
     in_accept = \<lambda>l w. if length (fst w) < 6 then on_open demo_open w else (Inl IO_EAGAIN, w),
     in_recv = \<lambda>fd n w. (Inr [], w), in_oob = \<lambda>fd w. (Inr [], w),
     in_close = \<lambda>fd w. (Inr (), removeAll fd (fst w), removeAll fd (snd w)),
     in_select = \<lambda>l w. (Inr l, w), in_poll = \<lambda>l w. (Inr (0, []), w), in_strerror = \<lambda>e. [], in_gai_strerror = \<lambda>e. [],
     ep_create = on_open demo_open, ep_add = \<lambda>efd fd w. (Inr (), fst w, fd # snd w), ep_del = \<lambda>efd fd w. (Inr (), fst w, removeAll fd (snd w)),
     ep_wait = \<lambda>efd w. (Inr (map (\<lambda>fd. (fd, EPOLLIN)) (remdups (snd w))), w)\<rparr>"

declare accept_ep.simps [code]

lemma on_open_parts [simp]: "fst (on_open f w) = fst (f (fst w))" "fst (snd (on_open f w)) = snd (f (fst w))" "snd (snd (on_open f w)) = snd w"
  by (simp_all add: on_open_def split_beta)

lemma demo_ep_ok: "ep_kernel 1024 demo_ep (\<lambda>w. set (fst w)) (\<lambda>w. set (snd w))"
proof -
  have "opens 1024 set demo_open" using demo_net_ok by (simp add: io_kernel_def demo_net_def)
  then have o: "opens 1024 (\<lambda>w. set (fst w)) (on_open demo_open)" unfolding opens_def on_open_parts by blast
  then have a: "opens 1024 (\<lambda>w. set (fst w)) (in_accept demo_ep l)" for l 
    by (auto simp: opens_def demo_ep_def simp del: split_paired_All)
  have "keeps (\<lambda>w. set (snd w)) (on_open demo_open)" "keeps (\<lambda>w. set (snd w)) (in_accept demo_ep l)" for l
    by (simp_all add: keeps_def demo_ep_def)
  then show ?thesis using o a by (simp add: ep_kernel_def calm_def) (auto simp: demo_ep_def keeps_def comp_def)
qed

definition demo_ep_server :: "(int, int list \<times> int list) iosrv" where
  "demo_ep_server = \<lparr>tab = \<lparr>cells = [], cnt_fd_socket = 0\<rparr>, buf0 = CHR 0x00,
     prc = \<lparr>out_buf = [], out = [], err = [], errno = 0, ef_dumpcore = None, world = ([0, 1, 2], [])\<rparr>\<rparr>"

theorem io_epoll_no_leak_witness:
  "\<exists>s. io_epoll demo_ep True ''io_epoll'' [''5000''] 2 demo_ep_server = Some (Ret (3, 4) s) \<and> world (prc s) = ([5, 4, 3, 0, 1, 2], [5, 3]) \<and>
     3 \<in> set (snd (world (prc s))) \<and> set (fst (world (prc s))) = {0, 1, 2} \<union> {4} \<union> set (snd (world (prc s)))"
proof -
  have "case io_epoll demo_ep True ''io_epoll'' [''5000''] 2 demo_ep_server of
      Some (Ret le s) \<Rightarrow> le = (3, 4) \<and> world (prc s) = ([5, 4, 3, 0, 1, 2], [5, 3]) | _ \<Rightarrow> False"
    by code_simp
  then obtain s where s: "io_epoll demo_ep True ''io_epoll'' [''5000''] 2 demo_ep_server = Some (Ret (3, 4) s)" "world (prc s) = ([5, 4, 3, 0, 1, 2], [5, 3])"
    by (auto split: option.splits res.splits)
  have "world (prc demo_ep_server) = ([0, 1, 2], [])" by (simp add: demo_ep_server_def)
  then show ?thesis using s io_epoll_no_leak [OF demo_ep_ok, of demo_ep_server True "''io_epoll''" "[''5000'']" 2] by auto
qed

end
