(* ===== verification/Chat.thy ===== *)
theory Chat
  imports IoServers
begin

text \<open>
  The chat of \<open>sp/select\<close>: the server \<open>serv.c\<close>, which sends what a client writes to all clients, and the client \<open>clnt.c\<close>.
  The kernel of the server is that of \<open>IoServers\<close> with send(2) and getnameinfo(3). A write outside an array is \<open>Undef\<close>.
\<close>

section \<open>The server\<close>

record 'w chatnet = "'w ionet" +
  cn_send :: "int \<Rightarrow> string \<Rightarrow> 'w \<Rightarrow> (int + nat) \<times> 'w"
  cn_nameinfo :: "int \<Rightarrow> 'w \<Rightarrow> int + (int \<times> string \<times> string \<times> int)"

definition MAXLINE :: nat where "MAXLINE = 511"
definition MAXSOCK :: nat where "MAXSOCK = 1024"
definition exit_string :: string where "exit_string = ''exit''"
definition start_string :: string where "start_string = ''connected to char_server'' @ nl"

definition cprint :: "string list \<Rightarrow> ('e, 'w) iosrv \<Rightarrow> ('e, 'w) iosrv" where
  "cprint t s = s\<lparr>prc := printf_out (msg t) (prc s)\<rparr>"

text \<open>\<open>errquit\<close>, with perror(3).\<close>

definition errquit :: "('w, 'z) ionet_scheme \<Rightarrow> string \<Rightarrow> ('e, 'w) iosrv \<Rightarrow> (('e, 'w) iosrv, 'a) res" where
  "errquit K m s = Exit EXIT_FAILURE (s\<lparr>prc := fputs_err (msg [m, '': '', in_strerror K (errno (prc s)), nl]) (prc s)\<rparr>)"

definition strstr :: "string \<Rightarrow> string \<Rightarrow> bool" where
  "strstr b t = list_ex (\<lambda>k. take (length t) (drop k b) = t) [0..<Suc (length b)]"

definition tcp_listen :: "('w, 'z) ionet_scheme \<Rightarrow> string \<Rightarrow> ('e, 'w) iosrv \<Rightarrow> (('e, 'w) iosrv, int) res" where
  "tcp_listen K port s =
     (case in_getaddrinfo K port (world (prc s)) of
        Inl e \<Rightarrow> Exit EXIT_FAILURE (s\<lparr>prc := fputs_err (msg [''Fail: getaddrinfo(): '', in_gai_strerror K e, '' '', nl]) (prc s)\<rparr>)
      | Inr (fam, ty, proto, addr) \<Rightarrow>
          (case ask (in_socket K fam ty proto) s of
             (Inl e, s1) \<Rightarrow> errquit K ''socket fail'' s1
           | (Inr sd, s1) \<Rightarrow>
               (case ask (in_bind K sd addr) s1 of
                  (Inl e, s2) \<Rightarrow> errquit K ''bind fail'' s2
                | (Inr u, s2) \<Rightarrow> Ret sd (snd (ask (in_listen K sd) s2)))))"

definition addclient :: "('w, 'z) chatnet_scheme \<Rightarrow> int \<Rightarrow> (int, 'w) iosrv \<Rightarrow> ((int, 'w) iosrv, unit) res" where
  "addclient K fd s =
     (case cn_nameinfo K fd (world (prc s)) of
        Inl e \<Rightarrow> Exit EXIT_FAILURE (s\<lparr>prc := fputs_err (msg [''Fail: getnameinfo(): '', in_gai_strerror K e, nl]) (prc s)\<rparr>)
      | Inr (fam, addr, port, scope) \<Rightarrow>
          let s1 = (if fam = AF_INET4 then cprint [''new client (ip:port) ('', addr, '':'', port, '') '', nl] s
                    else if fam = AF_INET6 then cprint [''new client (ip:port,scope) ('', addr, '':'', port, '','', dec scope, '') '', nl] s
                    else s);
              n = cnt_fd_socket (tab s1)
          in if n < 0 \<or> n \<ge> int (length (cells (tab s1))) then Undef
             else Ret () (s1\<lparr>tab := (tab s1)\<lparr>cells := (cells (tab s1))[nat n := fd], cnt_fd_socket := n + 1\<rparr>\<rparr>))"

text \<open>\<open>removeclient\<close> of the index \<open>i\<close>.\<close>

definition removeclient :: "('w, 'z) chatnet_scheme \<Rightarrow> nat \<Rightarrow> (int, 'w) iosrv \<Rightarrow> ((int, 'w) iosrv, unit) res" where
  "removeclient K i s =
     (let cs = cells (tab s); n = cnt_fd_socket (tab s)
      in if i \<ge> length cs \<or> n < 1 \<or> n > int (length cs) then Undef
         else let s1 = snd (ask (in_close K (cs ! i)) s);
                  s2 = s1\<lparr>tab := (tab s1)\<lparr>cells := (if int i \<noteq> n - 1 then cs[i := cs ! nat (n - 1)] else cs), cnt_fd_socket := n - 1\<rparr>\<rparr>
              in Ret () (cprint [''Logouted one of the chatting user, number of chatting user : '', dec (n - 1), nl] s2))"

definition getmax :: "int \<Rightarrow> int list \<Rightarrow> int" where
  "getmax listen_sock cs = foldl (\<lambda>m c. if c > m then c else m) listen_sock cs"

text \<open>The message goes to every entry of the table; the results of send(2) are not looked at.\<close>

definition broadcast :: "('w, 'z) chatnet_scheme \<Rightarrow> string \<Rightarrow> (int, 'w) iosrv \<Rightarrow> (int, 'w) iosrv" where
  "broadcast K b s = fold (\<lambda>fd t. snd (ask (cn_send K fd b) t)) (take (nat (cnt_fd_socket (tab s))) (cells (tab s))) s"

text \<open>A client whose socket is ready. After a failed recv(2) the null byte is written before the buffer.\<close>

definition serve_chat :: "('w, 'z) chatnet_scheme \<Rightarrow> nat \<Rightarrow> (int, 'w) iosrv \<Rightarrow> ((int, 'w) iosrv, unit) res" where
  "serve_chat K i s =
     (case ask (in_recv K (cells (tab s) ! i) MAXLINE) s of
        (Inl e, s1) \<Rightarrow> Undef
      | (Inr b, s1) \<Rightarrow>
          if b = [] then removeclient K i s1
          else if strstr (shown b) exit_string then removeclient K i s1
          else Ret () (cprint [shown b, '' '', nl] (broadcast K b s1)))"

fun scan_chat :: "('w, 'z) chatnet_scheme \<Rightarrow> int list \<Rightarrow> nat list \<Rightarrow> (int, 'w) iosrv \<Rightarrow> ((int, 'w) iosrv, unit) res" where
  "scan_chat K ready [] s = Ret () s"
| "scan_chat K ready (i # is) s =
     (if \<not> int i < cnt_fd_socket (tab s) then Ret () s
      else if i \<ge> length (cells (tab s)) \<or> \<not> in_fd_set (cells (tab s) ! i) then Undef
      else if cells (tab s) ! i \<in> set ready then bindR (serve_chat K i s) (\<lambda>u s1. scan_chat K ready is s1)
      else scan_chat K ready is s)"

definition chat_round :: "('w, 'z) chatnet_scheme \<Rightarrow> int \<Rightarrow> (int, 'w) iosrv \<Rightarrow> ((int, 'w) iosrv, unit) res" where
  "chat_round K lfd s =
     (let n = cnt_fd_socket (tab s); cs = take (nat n) (cells (tab s)); maxfdp1 = getmax lfd cs + 1
      in if n > int (length (cells (tab s))) \<or> \<not> list_all in_fd_set (lfd # cs) then Undef
         else (case ask (in_select K (lfd # cs)) (cprint [''wait for client'', nl] s) of
                 (Inl e, s1) \<Rightarrow> errquit K ''select fail'' s1
               | (Inr ready, s1) \<Rightarrow>
                   bindR (if lfd \<in> set ready
                          then (case ask (in_accept K lfd) s1 of
                                  (Inl e, s2) \<Rightarrow> errquit K ''accept fail'' s2
                                | (Inr fd, s2) \<Rightarrow>
                                    bindR (addclient K fd s2)
                                      (\<lambda>u s3. let s4 = snd (ask (cn_send K fd start_string) s3)
                                              in Ret () (cprint [dec (cnt_fd_socket (tab s4)), '' th user addition '', nl] s4)))
                          else Ret () s1)
                     (\<lambda>u s5. scan_chat K ready [0..<nat (cnt_fd_socket (tab s5))] s5)))"

definition chat_server :: "('w, 'z) chatnet_scheme \<Rightarrow> string \<Rightarrow> string list \<Rightarrow> nat \<Rightarrow> 'w proc \<Rightarrow> ((int, 'w) iosrv, int) res" where
  "chat_server K prog args n p =
     (let s = \<lparr>tab = \<lparr>cells = replicate MAXSOCK 0, cnt_fd_socket = 0\<rparr>, buf0 = CHR 0x00, prc = p\<rparr> in
      if length args \<noteq> 1 then Exit EXIT_FAILURE (cprint [''Usage : '', prog, '' <port> '', nl] s)
      else bindR (tcp_listen K (hd args) s) (\<lambda>lfd s1. bindR (rounds (chat_round K lfd) n s1) (\<lambda>u s2. Ret lfd s2)))"

section \<open>The client\<close>

definition NAME_LEN :: nat where "NAME_LEN = 20"

text \<open>What happens in a round: the sockets that select(2) reports, the message, the line that is typed, and the result of send(2).\<close>

record chat_event =
  ev_sock :: bool
  ev_stdin :: bool
  ev_recv :: "int + string"
  ev_line :: "string option"
  ev_send :: "int option"

record chat_client =
  bufall :: "char list"
  namelen :: nat
  sent :: "string list"
  cl_proc :: "unit proc"

text \<open>A string with its null byte at an offset of \<open>bufall\<close>, if it fits.\<close>

definition put_at :: "nat \<Rightarrow> string \<Rightarrow> char list \<Rightarrow> char list option" where
  "put_at k b cs = (if k + length b \<le> length cs then Some (take k cs @ b @ drop (k + length b) cs) else None)"

definition client_start :: "string \<Rightarrow> char list \<Rightarrow> unit proc \<Rightarrow> (chat_client, unit) res" where
  "client_start name garbage p =
     (let m = msg [''['', name, ''] : '']
      in case put_at 0 (m @ [CHR 0x00]) garbage of
           None \<Rightarrow> Undef
         | Some cs \<Rightarrow> Ret () \<lparr>bufall = cs, namelen = length m, sent = [], cl_proc = printf_out (msg [''connect to server'', nl]) p\<rparr>)"

text \<open>A message from the server, and a line of the user, of which \<open>fgets\<close> takes at most \<open>MAXLINE - 1\<close> characters.\<close>

definition client_recv :: "string \<Rightarrow> chat_client \<Rightarrow> (chat_client, unit) res" where
  "client_recv b c =
     (if b = [] then Ret () c
      else case put_at (namelen c) (take MAXLINE b @ [CHR 0x00]) (bufall c) of
             None \<Rightarrow> Undef
           | Some cs \<Rightarrow> Ret () (c\<lparr>bufall := cs, cl_proc := printf_out (msg [shown (take MAXLINE b), '' '', nl]) (cl_proc c)\<rparr>))"

definition client_type :: "int option \<Rightarrow> string \<Rightarrow> chat_client \<Rightarrow> (chat_client, unit) res" where
  "client_type failed l c =
     (case put_at (namelen c) (take (MAXLINE - 1) l @ [CHR 0x00]) (bufall c) of
        None \<Rightarrow> Undef
      | Some cs \<Rightarrow>
          let bufmsg = shown (take (MAXLINE - 1) l);
              c2 = c\<lparr>bufall := cs, sent := (if failed = None then sent c @ [take (namelen c + length bufmsg) cs] else sent c),
                     cl_proc := (if failed = None then cl_proc c else printf_out (msg [''Error: write error on select'', nl]) (cl_proc c))\<rparr>
          in if strstr bufmsg exit_string
             then Exit EXIT_SUCCESS (c2\<lparr>cl_proc := printf_out (msg [''Good bye!'', nl]) (cl_proc c2)\<rparr>)
             else Ret () c2)"

definition client_round :: "chat_event \<Rightarrow> chat_client \<Rightarrow> (chat_client, unit) res" where
  "client_round ev c =
     bindR (case (ev_sock ev, ev_recv ev) of (True, Inr b) \<Rightarrow> client_recv b c | _ \<Rightarrow> Ret () c)
       (\<lambda>u c1. case (ev_stdin ev, ev_line ev) of (True, Some l) \<Rightarrow> client_type (ev_send ev) l c1 | _ \<Rightarrow> Ret () c1)"

fun client_rounds :: "chat_event list \<Rightarrow> chat_client \<Rightarrow> (chat_client, unit) res" where
  "client_rounds [] c = Ret () c"
| "client_rounds (ev # evs) c = bindR (client_round ev c) (\<lambda>u d. client_rounds evs d)"

definition chat_client_run :: "string \<Rightarrow> char list \<Rightarrow> chat_event list \<Rightarrow> unit proc \<Rightarrow> (chat_client, unit) res" where
  "chat_client_run name garbage evs p = bindR (client_start name garbage p) (\<lambda>u c. client_rounds evs c)"

section \<open>The table of the server\<close>

definition chat_kernel :: "int \<Rightarrow> ('w, 'z) chatnet_scheme \<Rightarrow> ('w \<Rightarrow> int set) \<Rightarrow> bool" where
  "chat_kernel L K fds = (io_kernel L K fds \<and> (\<forall>fd b. keeps fds (cn_send K fd b)))"

definition recv_succeeds :: "('w, 'z) chatnet_scheme \<Rightarrow> bool" where
  "recv_succeeds K = (\<forall>fd n w. case fst (in_recv K fd n w) of Inl e \<Rightarrow> False | Inr b \<Rightarrow> True)"

text \<open>\<open>lfd\<close> is the listening socket and \<open>base\<close> are the descriptors that were open at the start: there are no others than these and the clients.\<close>

definition chat_inv :: "('w \<Rightarrow> int set) \<Rightarrow> int set \<Rightarrow> int \<Rightarrow> (int, 'w) iosrv \<Rightarrow> bool" where
  "chat_inv fds base lfd s =
     (let cs = conns (\<lambda>c. c) (tab s) in
      length (cells (tab s)) = 1024 \<and> 0 \<le> cnt_fd_socket (tab s) \<and> cnt_fd_socket (tab s) \<le> 1024 \<and> distinct (lfd # cs) \<and>
      (\<forall>fd \<in> set (lfd # cs). in_fd_set fd) \<and> base \<inter> set (lfd # cs) = {} \<and> fds (world (prc s)) = base \<union> set (lfd # cs))"

lemma cprint_frame [simp]: "tab (cprint t s) = tab s" "world (prc (cprint t s)) = world (prc s)"
  by (simp_all add: cprint_def printf_out_def)

lemma chat_inv_frame:
  "chat_inv fds base lfd s \<Longrightarrow> tab s1 = tab s \<Longrightarrow> fds (world (prc s1)) = fds (world (prc s)) \<Longrightarrow> chat_inv fds base lfd s1"
  by (simp add: chat_inv_def)

lemma chat_room:
  assumes "chat_inv fds base lfd s"
  shows "cnt_fd_socket (tab s) < 1024" "int (length (conns (\<lambda>c. c) (tab s))) = cnt_fd_socket (tab s)"
proof -
  let ?cs = "lfd # conns (\<lambda>c. c) (tab s)"
  have d: "distinct ?cs" "set ?cs \<subseteq> {0..<1024}" using assms by (auto simp: chat_inv_def Let_def in_fd_set_def FD_SETSIZE_def)
  have "length ?cs = card (set ?cs)" using distinct_card [OF d(1)] by simp
  also have "\<dots> \<le> card {0..<1024 :: int}" using d(2) by (rule card_mono [rotated]) simp
  finally have "length ?cs \<le> 1024" by simp
  moreover show l: "int (length (conns (\<lambda>c. c) (tab s))) = cnt_fd_socket (tab s)"
    using assms by (auto simp: chat_inv_def Let_def conns_def min_def)
  ultimately show "cnt_fd_socket (tab s) < 1024" by (simp flip: l)
qed

lemma conns_snoc:
  assumes "0 \<le> n" "nat n < length cs"
  shows "conns (\<lambda>c. c) \<lparr>cells = cs[nat n := fd], cnt_fd_socket = n + 1\<rparr> = take (nat n) cs @ [fd]"
proof -
  have "nat (n + 1) = Suc (nat n)" using assms(1) by simp
  then show ?thesis using assms(2) by (simp add: conns_def take_Suc_conv_app_nth)
qed

lemma conns_remove:
  assumes "0 < m" "m \<le> length cs" "i < m"
  shows "conns (\<lambda>c. c) \<lparr>cells = (if i \<noteq> m - 1 then cs[i := cs ! (m - 1)] else cs), cnt_fd_socket = int m - 1\<rparr> = swap_out i (take m cs)"
proof (rule nth_equalityI)
  have m: "nat (int m - 1) = m - 1" by simp
  show "length (conns (\<lambda>c. c) \<lparr>cells = (if i \<noteq> m - 1 then cs[i := cs ! (m - 1)] else cs), cnt_fd_socket = int m - 1\<rparr>) = length (swap_out i (take m cs))"
    using assms by (auto simp: conns_def m)
  fix k
  assume "k < length (conns (\<lambda>c. c) \<lparr>cells = (if i \<noteq> m - 1 then cs[i := cs ! (m - 1)] else cs), cnt_fd_socket = int m - 1\<rparr>)"
  then have k: "k < m - 1" by (simp add: conns_def m split: if_splits)
  have "last (take m cs) = cs ! (m - 1)" using assms by (subst last_conv_nth) auto
  then show "conns (\<lambda>c. c) \<lparr>cells = (if i \<noteq> m - 1 then cs[i := cs ! (m - 1)] else cs), cnt_fd_socket = int m - 1\<rparr> ! k = swap_out i (take m cs) ! k"
    using k assms by (auto simp: conns_def m nth_swap_out nth_list_update)
qed

lemma removeclient_safe:
  assumes "chat_kernel L K fds" "chat_inv fds base lfd s" "int i < cnt_fd_socket (tab s)"
  shows "safeR (\<lambda>u. chat_inv fds base lfd) (removeclient K i s)"
proof -
  obtain m where m: "cnt_fd_socket (tab s) = int m" "0 < m" "m \<le> 1024" "length (cells (tab s)) = 1024" "i < m"
    using assms(2,3) by (intro that [of "nat (cnt_fd_socket (tab s))"]) (auto simp: chat_inv_def Let_def)
  let ?cs = "cells (tab s)" and ?xs = "take m (cells (tab s))"
  let ?t = "\<lparr>cells = (if i \<noteq> m - 1 then ?cs[i := ?cs ! (m - 1)] else ?cs), cnt_fd_socket = int m - 1\<rparr>"
  have x: "conns (\<lambda>c. c) (tab s) = ?xs" using m(1) by (simp add: conns_def)
  have v: "distinct (lfd # ?xs)" "\<forall>fd \<in> set (lfd # ?xs). in_fd_set fd" "base \<inter> set (lfd # ?xs) = {}" "fds (world (prc s)) = base \<union> set (lfd # ?xs)"
    using assms(2) x by (auto simp: chat_inv_def Let_def)
  have i: "i < length ?xs" "?xs ! i = ?cs ! i" using m by simp_all
  have w: "distinct (swap_out i ?xs)" "set (swap_out i ?xs) = set ?xs - {?cs ! i}"
    using swap_out_distinct [of ?xs i] v(1) i by simp_all
  have "?cs ! i \<in> set ?xs" using i by (metis nth_mem)
  moreover have c: "conns (\<lambda>c. c) ?t = swap_out i ?xs" using conns_remove [of m ?cs i] m by simp
  ultimately have "chat_inv fds base lfd s1"
    if "tab s1 = ?t" "fds (world (prc s1)) = fds (world (prc s)) - {?cs ! i}" for s1
    using that v w m by (auto simp: chat_inv_def Let_def c)
  moreover have "nat (int m - 1) = m - 1" "int i = int m - 1 \<longleftrightarrow> i = m - 1" using m(2) by auto
  moreover have "(tab s)\<lparr>cells := xs, cnt_fd_socket := n\<rparr> = \<lparr>cells = xs, cnt_fd_socket = n\<rparr>" for xs n by (cases "tab s") simp
  ultimately show ?thesis using m close_frame [of L K fds "?cs ! i" s] assms(1)
    by (simp add: removeclient_def Let_def chat_kernel_def)
qed

lemma ask_send_frame:
  "chat_kernel L K fds \<Longrightarrow> tab (snd (ask (cn_send K fd b) s)) = tab s \<and> fds (world (prc (snd (ask (cn_send K fd b) s)))) = fds (world (prc s))"
  using ask_keeps_snd [of fds "cn_send K fd b" s] by (simp add: chat_kernel_def)

lemma broadcast_frame:
  assumes "chat_kernel L K fds"
  shows "tab (broadcast K b s) = tab s \<and> fds (world (prc (broadcast K b s))) = fds (world (prc s))"
proof -
  have "tab (fold (\<lambda>fd t. snd (ask (cn_send K fd b) t)) xs s) = tab s \<and>
      fds (world (prc (fold (\<lambda>fd t. snd (ask (cn_send K fd b) t)) xs s))) = fds (world (prc s))" for xs
    by (induction xs arbitrary: s) (simp_all add: ask_send_frame [OF assms])
  then show ?thesis by (simp add: broadcast_def)
qed

lemma recv_succeedsD:
  assumes "recv_succeeds K"
  obtains b where "fst (in_recv K fd n w) = Inr b"
proof -
  have "case fst (in_recv K fd n w) of Inl e \<Rightarrow> False | Inr b \<Rightarrow> True" using assms by (simp add: recv_succeeds_def)
  then show thesis using that by (cases "fst (in_recv K fd n w)") auto
qed

lemma serve_chat_safe:
  assumes "chat_kernel L K fds" "recv_succeeds K" "chat_inv fds base lfd s" "int i < cnt_fd_socket (tab s)"
  shows "safeR (\<lambda>u. chat_inv fds base lfd) (serve_chat K i s)"
proof -
  let ?fd = "cells (tab s) ! i"
  obtain r s1 where a: "ask (in_recv K ?fd MAXLINE) s = (r, s1)" by fastforce
  have "io_kernel L K fds" using assms(1) by (simp add: chat_kernel_def)
  then have k: "tab s1 = tab s" "fds (world (prc s1)) = fds (world (prc s))" using ask_keeps [OF a io_kernelD(9)] by auto
  obtain b where b: "r = Inr b"
    using recv_succeedsD [OF assms(2)] ask_frame [OF a] by metis
  have v: "chat_inv fds base lfd s1" using chat_inv_frame [OF assms(3) k] .
  moreover have "chat_inv fds base lfd (cprint m (broadcast K b s1))" for m
    using chat_inv_frame [OF v, of "cprint m (broadcast K b s1)"] broadcast_frame [OF assms(1)] by simp
  ultimately show ?thesis using a b removeclient_safe [OF assms(1) v] k assms(4) by (simp add: serve_chat_def)
qed

lemma scan_chat_safe:
  assumes "chat_kernel L K fds" "recv_succeeds K" "chat_inv fds base lfd s"
  shows "safeR (\<lambda>u. chat_inv fds base lfd) (scan_chat K ready is s)"
  using assms(3)
proof (induction "is" arbitrary: s)
  case (Cons i "is")
  show ?case
  proof (cases "int i < cnt_fd_socket (tab s)")
    case True
    have i: "i < length (cells (tab s))" "i < nat (cnt_fd_socket (tab s))" using True Cons.prems by (auto simp: chat_inv_def Let_def)
    then have "cells (tab s) ! i \<in> set (conns (\<lambda>c. c) (tab s))" by (auto simp: conns_def in_set_conv_nth)
    then have f: "in_fd_set (cells (tab s) ! i)" using Cons.prems by (auto simp: chat_inv_def Let_def)
    have "safeR (\<lambda>u s1. safeR (\<lambda>u. chat_inv fds base lfd) (scan_chat K ready is s1)) (serve_chat K i s)"
      by (rule safeR_mono [OF serve_chat_safe [OF assms(1,2) Cons.prems True] Cons.IH])
    then show ?thesis using True i f Cons.IH [OF Cons.prems] by (simp add: safeR_bindR)
  qed (simp add: Cons.prems)
qed simp

lemma addclient_safe:
  assumes "chat_inv fds base lfd s" "fd \<notin> fds (world (prc s))" "in_fd_set fd" "tab s1 = tab s" "fds (world (prc s1)) = insert fd (fds (world (prc s)))"
  shows "safeR (\<lambda>u. chat_inv fds base lfd) (addclient K fd s1)"
proof -
  note r = chat_room [OF assms(1)]
  let ?n = "cnt_fd_socket (tab s)" and ?cs = "cells (tab s)"
  have n: "0 \<le> ?n" "nat ?n < length ?cs" "length ?cs = 1024" using assms(1) r(1) by (auto simp: chat_inv_def Let_def)
  let ?t = "\<lparr>cells = ?cs[nat ?n := fd], cnt_fd_socket = ?n + 1\<rparr>"
  have c: "conns (\<lambda>c. c) ?t = conns (\<lambda>c. c) (tab s) @ [fd]" using conns_snoc [OF n(1,2)] by (simp add: conns_def)
  have v: "chat_inv fds base lfd s2" if "tab s2 = ?t" "fds (world (prc s2)) = insert fd (fds (world (prc s)))" for s2
    using that assms(1-3) n r(1) by (auto simp: chat_inv_def Let_def c)
  have "(tab s)\<lparr>cells := xs, cnt_fd_socket := m\<rparr> = \<lparr>cells = xs, cnt_fd_socket = m\<rparr>" for xs m by (cases "tab s") simp
  then show ?thesis using assms(4,5) n v by (auto simp: addclient_def Let_def split: sum.split)
qed

lemma chat_round_safe:
  assumes "chat_kernel L K fds" "recv_succeeds K" "L \<le> FD_SETSIZE" "chat_inv fds base lfd s"
  shows "safeR (\<lambda>u. chat_inv fds base lfd) (chat_round K lfd s)"
proof -
  have kn: "io_kernel L K fds" using assms(1) by (simp add: chat_kernel_def)
  let ?cs = "take (nat (cnt_fd_socket (tab s))) (cells (tab s))"
  have g: "cnt_fd_socket (tab s) \<le> int (length (cells (tab s)))" "list_all in_fd_set (lfd # ?cs)"
    using assms(4) by (auto simp: chat_inv_def Let_def conns_def list_all_iff)
  obtain r s1 where a: "ask (in_select K (lfd # ?cs)) (cprint [''wait for client'', nl] s) = (r, s1)" by fastforce
  have v: "chat_inv fds base lfd s1"
    using chat_inv_frame [OF assms(4), of s1] ask_keeps [OF a io_kernelD(10) [OF kn]] by simp
  obtain r2 s2 where b: "ask (in_accept K lfd) s1 = (r2, s2)" by fastforce
  note o = ask_opens [OF b io_kernelD(2) [OF kn]]
  have add: "safeR (\<lambda>u s3. safeR (\<lambda>u. chat_inv fds base lfd) (scan_chat K ready [0..<nat (cnt_fd_socket (tab s3))]
      (cprint [dec (cnt_fd_socket (tab s3)), '' th user addition '', nl] (snd (ask (cn_send K fd start_string) s3))))) (addclient K fd s2)"
    if "r2 = Inr fd" for fd ready
  proof (rule safeR_mono [OF addclient_safe [OF v _ _ o(1)]])
    show "fd \<notin> fds (world (prc s1))" "in_fd_set fd" "fds (world (prc s2)) = insert fd (fds (world (prc s1)))" using o(3) [OF that] below_fd_set [OF assms(3)] by auto
    fix s3
    assume "chat_inv fds base lfd s3"
    then show "safeR (\<lambda>u. chat_inv fds base lfd) (scan_chat K ready [0..<nat (cnt_fd_socket (tab s3))]
      (cprint [dec (cnt_fd_socket (tab s3)), '' th user addition '', nl] (snd (ask (cn_send K fd start_string) s3))))"
      by (intro scan_chat_safe [OF assms(1,2)], elim chat_inv_frame) (simp_all add: ask_send_frame [OF assms(1)])
  qed
  then show ?thesis using a b g scan_chat_safe [OF assms(1,2) v]
    by (auto simp: chat_round_def Let_def errquit_def safeR_bindR ask_send_frame [OF assms(1)] split: sum.split)
qed

lemma tcp_listen_safe:
  assumes "io_kernel L K fds"
  shows "safeR (\<lambda>fd s1. tab s1 = tab s \<and> fd \<notin> fds (world (prc s)) \<and> below L fd \<and> fds (world (prc s1)) = insert fd (fds (world (prc s))))
    (tcp_listen K port s)"
proof -
  note k = io_kernelD [OF assms]
  show ?thesis
    by (auto simp: tcp_listen_def errquit_def ask_keeps_snd [OF k(6)] split: sum.splits prod.splits
      dest!: ask_opens_Inr [OF _ k(1)] ask_keeps [OF _ k(8)])
qed

text \<open>
  C37. As long as no recv(2) fails, and when the limit RLIMIT_NOFILE of the process is at most FD_SETSIZE, the chat server never leaves its table or an
  fd_set, whatever the clients do: after any number of rounds the table lists the sockets of the clients, each once, and besides these, the listening
  socket and the descriptors it was started with no descriptor is open. The table, which is not checked, then cannot overflow, because its entries are distinct
  descriptors below the limit.
\<close>

theorem chat_server_table:
  assumes "chat_kernel L K fds" "recv_succeeds K" "L \<le> FD_SETSIZE"
  shows "safeR (\<lambda>lfd s. cnt_fd_socket (tab s) < int MAXSOCK \<and> distinct (lfd # conns (\<lambda>c. c) (tab s)) \<and>
    fds (world p) \<inter> set (lfd # conns (\<lambda>c. c) (tab s)) = {} \<and>
    fds (world (prc s)) = fds (world p) \<union> set (lfd # conns (\<lambda>c. c) (tab s))) (chat_server K prog args n p)"
proof -
  let ?s = "\<lparr>tab = \<lparr>cells = replicate MAXSOCK 0, cnt_fd_socket = 0\<rparr>, buf0 = CHR 0x00, prc = p\<rparr> :: (int, 'a) iosrv"
  have kn: "io_kernel L K fds" using assms(1) by (simp add: chat_kernel_def)
  have i: "chat_inv fds (fds (world p)) lfd s1" if "tab s1 = tab ?s" "lfd \<notin> fds (world p)" "below L lfd" "fds (world (prc s1)) = insert lfd (fds (world p))" for lfd s1
    using that below_fd_set [OF assms(3)] by (simp add: chat_inv_def conns_def MAXSOCK_def)
  have r: "safeR (\<lambda>u s2. safeR (chat_inv fds (fds (world p))) (Ret lfd s2)) (rounds (chat_round K lfd) n s1)"
    if "chat_inv fds (fds (world p)) lfd s1" for lfd s1
    using rounds_safe [OF chat_round_safe [OF assms] that] by simp
  have t: "safeR (\<lambda>lfd s1. tab s1 = tab ?s \<and> lfd \<notin> fds (world p) \<and> below L lfd \<and> fds (world (prc s1)) = insert lfd (fds (world p))) (tcp_listen K (hd args) ?s)"
    using tcp_listen_safe [OF kn, of ?s "hd args"] by simp
  have "safeR (chat_inv fds (fds (world p))) (chat_server K prog args n p)"
    unfolding chat_server_def Let_def by (auto simp: safeR_bindR simp del: safeR.simps(1) intro!: safeR_mono [OF t] r i)
  then show ?thesis by (rule safeR_mono) (use chat_room(1) in \<open>auto simp: chat_inv_def Let_def MAXSOCK_def\<close>)
qed

section \<open>A higher limit\<close>

lemma scan_chat_overflow:
  assumes "\<forall>k \<in> set is. int k < cnt_fd_socket (tab s) \<and> k < length (cells (tab s)) \<and> cells (tab s) ! k \<notin> set ready"
    "i \<in> set is" "\<not> in_fd_set (cells (tab s) ! i)"
  shows "scan_chat K ready is s = Undef"
  using assms by (induction "is") auto

text \<open>
  C39. With a limit above FD_SETSIZE the server is not safe: when a client connects while no other has sent anything, and accept(2) returns a descriptor
  that does not fit an fd_set, the server uses it with FD_ISSET all the same, which is undefined.
\<close>

theorem chat_limit_overflow:
  assumes "chat_inv fds base lfd s" "in_select K (lfd # conns (\<lambda>c. c) (tab s)) (world (prc s)) = (Inr [lfd], w)"
    "in_accept K lfd w = (Inr fd, w')" "FD_SETSIZE \<le> fd" "cn_nameinfo K fd w' = Inr info"
  shows "chat_round K lfd s = Undef"
proof -
  let ?n = "nat (cnt_fd_socket (tab s))" and ?cs = "cells (tab s)"
  let ?t = "\<lparr>cells = ?cs[?n := fd], cnt_fd_socket = cnt_fd_socket (tab s) + 1\<rparr>"
  have n: "?n < length ?cs" "0 \<le> cnt_fd_socket (tab s)" "cnt_fd_socket (tab s) < int (length ?cs)" "length ?cs = 1024"
    using assms(1) chat_room(1) [OF assms(1)] by (auto simp: chat_inv_def Let_def)
  have c: "conns (\<lambda>c. c) (tab s) = take ?n ?cs" by (simp add: conns_def)
  have v: "list_all in_fd_set (lfd # take ?n ?cs)" "lfd \<notin> set (take ?n ?cs)" "in_fd_set lfd"
    using assms(1) by (auto simp: chat_inv_def Let_def c list_all_iff)
  have "scan_chat K [lfd] [0..<Suc ?n] s1 = Undef" if "tab s1 = ?t" for s1
  proof (rule scan_chat_overflow)
    show "\<forall>k \<in> set [0..<Suc ?n]. int k < cnt_fd_socket (tab s1) \<and> k < length (cells (tab s1)) \<and> cells (tab s1) ! k \<notin> set [lfd]"
    proof
      fix k
      assume k: "k \<in> set [0..<Suc ?n]"
      have "cells (tab s1) ! k \<noteq> lfd"
      proof (cases "k = ?n")
        case True
        then show ?thesis using that n(1) assms(4) v(3) by (auto simp: in_fd_set_def)
      next
        case False
        then have "?cs ! k \<in> set (take ?n ?cs)" using k n(1) by (auto simp: in_set_conv_nth)
        then show ?thesis using that False v(2) by auto
      qed
      then show "int k < cnt_fd_socket (tab s1) \<and> k < length (cells (tab s1)) \<and> cells (tab s1) ! k \<notin> set [lfd]"
        using that n k by auto
    qed
    show "?n \<in> set [0..<Suc ?n]" by simp
    show "\<not> in_fd_set (cells (tab s1) ! ?n)" using that n(1) assms(4) by (simp add: in_fd_set_def)
  qed
  moreover have "nat (cnt_fd_socket (tab s) + 1) = Suc ?n" using n(2) by simp
  moreover have "(tab s)\<lparr>cells := xs, cnt_fd_socket := m\<rparr> = \<lparr>cells = xs, cnt_fd_socket = m\<rparr>" for xs m by (cases "tab s") simp
  moreover have "tab (snd (ask f u)) = tab u" for f :: "'a \<Rightarrow> (int + nat) \<times> 'a" and u :: "(int, 'a) iosrv" by (simp add: ask_frame [OF prod.collapse [symmetric]])
  ultimately show ?thesis using assms(2,3,5) v(1) n c
    by (cases info) (simp add: chat_round_def addclient_def Let_def ask_def [of "in_select K x" for x] ask_def [of "in_accept K x" for x])
qed

section \<open>A failed recv\<close>

text \<open>
  A client whose connection is reset: recv(2) returns -1 and the server writes a null byte before its buffer.
\<close>

theorem chat_reset_undefined:
  assumes "chat_inv fds base lfd s" "conns (\<lambda>c. c) (tab s) = fd # cl"
    "in_select K (lfd # fd # cl) (world (prc s)) = (Inr ready, w)" "lfd \<notin> set ready" "fd \<in> set ready"
    "in_recv K fd MAXLINE w = (Inl e, w')"
  shows "chat_round K lfd s = Undef"
proof -
  let ?n = "nat (cnt_fd_socket (tab s))"
  have t: "take ?n (cells (tab s)) = fd # cl" using assms(2) by (simp add: conns_def)
  then have c: "0 < ?n" "cells (tab s) ! 0 = fd" "0 < length (cells (tab s))" by (cases "cells (tab s)"; cases ?n; simp)+
  have "cnt_fd_socket (tab s) \<le> int (length (cells (tab s)))" "list_all in_fd_set (lfd # fd # cl)"
    using assms(1,2) by (auto simp: chat_inv_def Let_def list_all_iff)
  moreover have "[0..<?n] = 0 # [1..<?n]" using c(1) by (simp add: upt_conv_Cons)
  ultimately show ?thesis using assms(3-6) c t
    by (simp add: chat_round_def Let_def ask_def cprint_def printf_out_def serve_chat_def)
qed

definition reset_net :: "int list chatnet" where
  "reset_net = ionet.extend (demo_net\<lparr>in_select := \<lambda>l w. (Inr [4], w), in_recv := \<lambda>fd n w. (Inl 104, w)\<rparr>)
     \<lparr>cn_send = \<lambda>fd b w. (Inr (length b), w), cn_nameinfo = \<lambda>fd w. Inr (2, ''::1'', ''9'', 0)\<rparr>"

definition one_client :: "(int, int list) iosrv" where
  "one_client = \<lparr>tab = \<lparr>cells = 4 # replicate 1023 0, cnt_fd_socket = 1\<rparr>, buf0 = CHR 0x00, prc = demo_proc [0, 1, 2, 3, 4]\<rparr>"

theorem chat_reset_undefined_witness: "chat_round reset_net 3 one_client = Undef"
  by (rule chat_reset_undefined [of set "{0, 1, 2}" _ _ 4 "[]" _ "[4]" "[0, 1, 2, 3, 4]" 104 "[0, 1, 2, 3, 4]"])
     (auto simp: chat_inv_def one_client_def conns_def in_fd_set_def FD_SETSIZE_def demo_proc_def reset_net_def ionet.defs)

text \<open>A kernel for the server.\<close>

definition chat_net :: "int list chatnet" where
  "chat_net = ionet.extend demo_net
     \<lparr>cn_send = \<lambda>fd b w. (Inr (length b), w), cn_nameinfo = \<lambda>fd w. Inr (2, ''::1'', ''9'', 0)\<rparr>"

theorem chat_server_table_witness:
  "safeR (\<lambda>lfd s. cnt_fd_socket (tab s) < 1024 \<and> distinct (lfd # conns (\<lambda>c. c) (tab s)) \<and>
     set (world (prc s)) = {0, 1, 2} \<union> set (lfd # conns (\<lambda>c. c) (tab s))) (chat_server chat_net ''serv'' [''5000''] 4 (demo_proc [0, 1, 2])) \<and>
   (case chat_server chat_net ''serv'' [''5000''] 4 (demo_proc [0, 1, 2]) of Ret lfd s \<Rightarrow> conns (\<lambda>c. c) (tab s) \<noteq> [] | _ \<Rightarrow> False)"
proof -
  have "case chat_server chat_net ''serv'' [''5000''] 4 (demo_proc [0, 1, 2]) of Ret lfd s \<Rightarrow> conns (\<lambda>c. c) (tab s) \<noteq> [] | _ \<Rightarrow> False"
    by code_simp
  moreover have "chat_kernel 1024 chat_net set"
    using demo_net_ok by (simp add: chat_kernel_def io_kernel_def chat_net_def ionet.defs keeps_def)
  moreover have "recv_succeeds chat_net" by (simp add: recv_succeeds_def chat_net_def ionet.defs demo_net_def)
  ultimately show ?thesis
    using safeR_mono [OF chat_server_table [of 1024 chat_net set "demo_proc [0, 1, 2]" "''serv''" "[''5000'']" 4]]
    by (simp add: MAXSOCK_def FD_SETSIZE_def demo_proc_def)
qed

text \<open>A server that was started with 1023 descriptors open, and its first client.\<close>

definition wide_net :: "int list chatnet" where
  "wide_net = chat_net\<lparr>in_select := \<lambda>l w. (Inr [hd l], w), in_accept := \<lambda>l w. (Inr 1024, 1024 # w)\<rparr>"

definition many_open :: "(int, int list) iosrv" where
  "many_open = \<lparr>tab = \<lparr>cells = replicate 1024 0, cnt_fd_socket = 0\<rparr>, buf0 = CHR 0x00, prc = demo_proc (map int [0..<1024])\<rparr>"

theorem chat_limit_overflow_witness: "chat_round wide_net 1023 many_open = Undef"
proof (rule chat_limit_overflow [of set "{0..<1023}" _ _ _ "map int [0..<1024]" 1024 "1024 # map int [0..<1024]"])
  have "{0..<1024 :: int} = insert 1023 {0..<1023}" by auto
  then show "chat_inv set {0..<1023} 1023 many_open"
    by (simp add: chat_inv_def many_open_def conns_def demo_proc_def in_fd_set_def FD_SETSIZE_def image_int_atLeastLessThan del: upt_rec_numeral)
qed (simp_all add: wide_net_def chat_net_def many_open_def demo_proc_def conns_def FD_SETSIZE_def ionet.defs del: upt_rec_numeral)

section \<open>The buffer of the client\<close>

definition client_ok :: "string \<Rightarrow> chat_client \<Rightarrow> bool" where
  "client_ok name c =
     (length (bufall c) = MAXLINE + NAME_LEN + 1 \<and> namelen c = length name + 5 \<and> take (namelen c) (bufall c) = msg [''['', name, ''] : ''] \<and>
      (\<forall>x \<in> set (sent c). take (length name + 5) x = msg [''['', name, ''] : '']))"

lemma client_start_ok:
  assumes "length garbage = MAXLINE + NAME_LEN + 1" "length name \<le> 15"
  shows "safeR (\<lambda>u. client_ok name) (client_start name garbage p)"
  using assms by (simp add: client_start_def put_at_def client_ok_def Let_def MAXLINE_def NAME_LEN_def msg_def)

lemma put_at_fits:
  assumes "client_ok name c" "length name \<le> 15" "m \<le> MAXLINE"
  obtains ds where "put_at (namelen c) (take m b @ [CHR 0x00]) (bufall c) = Some ds" "length ds = length (bufall c)"
    "take (namelen c) ds = take (namelen c) (bufall c)"
proof -
  have "namelen c + length (take m b @ [CHR 0x00]) \<le> length (bufall c)"
    using assms by (auto simp: client_ok_def MAXLINE_def NAME_LEN_def)
  then show thesis using that by (auto simp: put_at_def)
qed

lemma client_recv_ok:
  assumes "client_ok name c" "length name \<le> 15"
  shows "safeR (\<lambda>u. client_ok name) (client_recv b c)"
proof (rule put_at_fits [OF assms order.refl, of b])
  fix ds
  assume "put_at (namelen c) (take MAXLINE b @ [CHR 0x00]) (bufall c) = Some ds" "length ds = length (bufall c)"
    "take (namelen c) ds = take (namelen c) (bufall c)"
  then show ?thesis using assms(1) by (auto simp: client_recv_def client_ok_def)
qed

lemma client_type_ok:
  assumes "client_ok name c" "length name \<le> 15"
  shows "safeR (\<lambda>u. client_ok name) (client_type f l c)"
proof (rule put_at_fits [OF assms, of "MAXLINE - 1" l])
  fix ds
  assume d: "put_at (namelen c) (take (MAXLINE - 1) l @ [CHR 0x00]) (bufall c) = Some ds" "length ds = length (bufall c)"
    "take (namelen c) ds = take (namelen c) (bufall c)"
  have "take (length name + 5) (take (namelen c + k) ds) = msg [''['', name, ''] : '']" for k
    using assms(1) d(3) by (auto simp: client_ok_def min_def)
  then show ?thesis using assms(1) d by (auto simp: client_type_def client_ok_def Let_def)
qed simp

lemma client_rounds_ok:
  assumes "client_ok name c" "length name \<le> 15"
  shows "safeR (\<lambda>u. client_ok name) (client_rounds evs c)"
  using assms(1)
proof (induction evs arbitrary: c)
  case (Cons ev evs)
  have r: "safeR (\<lambda>u. client_ok name) (case (ev_sock ev, ev_recv ev) of (True, Inr b) \<Rightarrow> client_recv b c | _ \<Rightarrow> Ret () c)"
    using client_recv_ok [OF Cons.prems assms(2)] Cons.prems by (auto split: bool.split sum.split)
  have "safeR (\<lambda>u. client_ok name) (case (ev_stdin ev, ev_line ev) of (True, Some l) \<Rightarrow> client_type (ev_send ev) l d | _ \<Rightarrow> Ret () d)"
    if "client_ok name d" for d
    using client_type_ok [OF that assms(2)] that by (auto split: bool.split option.split)
  then have "safeR (\<lambda>u. client_ok name) (client_round ev c)"
    unfolding client_round_def safeR_bindR by (rule safeR_mono [OF r])
  then show ?case by (auto simp: safeR_bindR intro: safeR_mono Cons.IH)
qed simp

text \<open>
  C38. The client is safe exactly for names of at most 15 characters: then, whatever the server sends and the user types, it
  stays inside its buffer; with a longer name a message of full length is written beyond the end of it.
\<close>

theorem chat_client_safe_iff:
  assumes "length garbage = MAXLINE + NAME_LEN + 1"
  shows "(\<forall>evs p. chat_client_run name garbage evs p \<noteq> Undef) \<longleftrightarrow> length name \<le> 15"
proof
  assume l: "length name \<le> 15"
  have "safeR (\<lambda>u c. True) (chat_client_run name garbage evs p)" for evs p
    unfolding chat_client_run_def safeR_bindR
    by (rule safeR_mono [OF client_start_ok [OF assms l]], rule safeR_mono [OF client_rounds_ok [OF _ l]]) simp_all
  then show "\<forall>evs p. chat_client_run name garbage evs p \<noteq> Undef" by (metis safeR.simps(4))
next
  assume a: "\<forall>evs p. chat_client_run name garbage evs p \<noteq> Undef"
  let ?ev = "\<lparr>ev_sock = True, ev_stdin = False, ev_recv = Inr (replicate 511 CHR ''x''), ev_line = None, ev_send = None\<rparr>"
  have "chat_client_run name garbage [?ev] p = Undef" if l: "15 < length name" for p
  proof (cases "put_at 0 (msg [''['', name, ''] : ''] @ [CHR 0x00]) garbage")
    case None
    then show ?thesis by (simp add: chat_client_run_def client_start_def Let_def)
  next
    case (Some cs)
    then have "length cs = 532" using assms by (auto simp: put_at_def MAXLINE_def NAME_LEN_def split: if_splits)
    then have "put_at (length (msg [''['', name, ''] : ''])) (replicate 511 CHR ''x'' @ [CHR 0x00]) cs = None" using l by (simp add: put_at_def msg_def)
    then show ?thesis using Some by (simp add: chat_client_run_def client_start_def Let_def client_round_def client_recv_def MAXLINE_def)
  qed
  then show "length name \<le> 15" using a by (meson not_le)
qed

theorem chat_client_safe_iff_witness:
  "\<not> (\<forall>evs p. chat_client_run ''a long name here'' (replicate 532 CHR 0x00) evs p \<noteq> Undef) \<and>
   (\<forall>evs p. chat_client_run ''a short name'' (replicate 532 CHR 0x00) evs p \<noteq> Undef)"
  using chat_client_safe_iff [of "replicate 532 CHR 0x00" "''a long name here''"] chat_client_safe_iff [of "replicate 532 CHR 0x00" "''a short name''"]
  by (simp add: MAXLINE_def NAME_LEN_def)

end
