(* ===== verification/Spec2Isabelle.thy ===== *)
theory Spec2Isabelle
  imports DTree_Properties GetNum ReadIO AclUpdate ShmXfr_Live SemInit SemOp MsgFile SeqNum EpollTimer
    EnvVars TtyPty LibMisc PidFile WorkQueue
    ProdCons ThreadIncr OnceInit SigChld ExecLp FileSend IoServers EpollServer Chat
begin

text \<open>
  A verification development for the C programs of this repository: the library and the larger programs of
  \<^verbatim>\<open>tlpi-dist\<close>, and the programs of \<^verbatim>\<open>ALSP\<close>, \<^verbatim>\<open>APUE\<close> and \<^verbatim>\<open>sp\<close> that keep state of their own. All of it is a shallow
  embedding: a C function is an Isabelle function over an explicit state, with the names of the source.

  \<^bold>\<open>Conventions\<close> (\<^verbatim>\<open>Prelude\<close>, \<^verbatim>\<open>ErrorFunctions\<close>). A function that may end the process has the result type \<^typ>\<open>('s, 'a) res\<close>:
  it returns, exits with a status, aborts, or does something that the C standard leaves undefined (\<^term>\<open>Undef\<close>), such
  as an access outside an array. The kernel, the resolver, the ACL library and the other code that is not part
  of the sources are parameters: records of functions over an abstract world, or lists of what the successive
  calls answer. What the programs rely on is stated as a predicate on the parameter and has an instance. The C
  library functions that the sources use are modelled (\<^verbatim>\<open>strtol\<close>, \<^verbatim>\<open>atoi\<close>, \<^verbatim>\<open>snprintf\<close>, \<^verbatim>\<open>getopt\<close>). Integers are
  mathematical with the conversions of LP64 Linux written out, or words where the code wraps around. A call that
  has not returned, or a loop that need not end, gives \<^term>\<open>None\<close>.

  \<^bold>\<open>The parts and their theories.\<close>

  \<^item> \<^verbatim>\<open>inotify/inotify_dtree.c\<close>, which keeps a cache of the watched directories of some trees. \<^verbatim>\<open>DTree_State\<close>: globals,
    system calls, log. \<^verbatim>\<open>DTree_Cache\<close>: the slot array, refining a finite map (locale \<^verbatim>\<open>wd_store\<close>). \<^verbatim>\<open>DTree_Roots\<close>: root
    directories. \<^verbatim>\<open>DTree_Watch\<close>, \<^verbatim>\<open>DTree_Subtree\<close>: tree walks, rename and removal of subtrees (locale \<^verbatim>\<open>path_store\<close>).
    \<^verbatim>\<open>DTree_Events\<close>, \<^verbatim>\<open>DTree_Handler\<close>, \<^verbatim>\<open>DTree_Effects\<close>, \<^verbatim>\<open>DTree_Loop\<close>: the event handler and the loop over a read, with
    its second read. \<^verbatim>\<open>DTree_Main\<close>: commands and the main loop. \<^verbatim>\<open>DTree_Properties\<close>: the invariant of the program, the
    effect of each kind of event on the map, failing calls included, a rename split over two reads, termination of the
    processing of a read.
  \<^item> \<^verbatim>\<open>lib/get_num.c\<close> (\<^verbatim>\<open>GetNum\<close>), \<^verbatim>\<open>lib/error_functions.c\<close> (\<^verbatim>\<open>ErrorFunctions\<close>), \<^verbatim>\<open>users_groups/ugid_functions.c\<close> (\<^verbatim>\<open>Ugid\<close>) and
    the smaller library files (\<^verbatim>\<open>LibMisc\<close>): round trips of numbers, permissions and timer values, bounds of messages.
  \<^item> \<^verbatim>\<open>sockets/read_line.c\<close>, \<^verbatim>\<open>read_line_buf.c\<close>, \<^verbatim>\<open>rdwrn.c\<close> (\<^verbatim>\<open>ReadIO\<close>): what is read and written for every sequence of partial,
    interrupted and failed calls; the buffered reader returns the lines of the plain one, or an error that loses bytes.
  \<^item> \<^verbatim>\<open>acl/acl_update.c\<close> (\<^verbatim>\<open>AclUpdate\<close>) and \<^verbatim>\<open>svsem/svsem_op.c\<close> (\<^verbatim>\<open>SemOp\<close>): parsers with print/parse round trips.
  \<^item> System V IPC: binary semaphores and event flags (\<^verbatim>\<open>SysVSem\<close>, locale \<^verbatim>\<open>unit_store\<close>), the shared memory transfer
    \<^verbatim>\<open>svshm_xfr_*\<close> (\<^verbatim>\<open>ShmXfr\<close>, \<^verbatim>\<open>ShmXfr_Inv\<close>, \<^verbatim>\<open>ShmXfr_Live\<close>: safety in every interleaving, completion), semaphore initialisation
    (\<^verbatim>\<open>SemInit\<close>: the good protocol is safe, the bad one is not), the message queue file server and client (\<^verbatim>\<open>MsgFile\<close>).
  \<^item> Sockets and servers: \<^verbatim>\<open>inet_sockets.c\<close> and \<^verbatim>\<open>unix_sockets.c\<close> (\<^verbatim>\<open>Sockets\<close>: no descriptor leaks but one), the sequence number
    services over sockets and FIFOs (\<^verbatim>\<open>SeqNum\<close>, locale \<^verbatim>\<open>sequencer\<close>: disjoint sequences), \<^verbatim>\<open>ALSP/epoll_timerfd.c\<close> (\<^verbatim>\<open>EpollTimer\<close>:
    the session table stays well formed whatever the events).
  \<^item> \<^verbatim>\<open>proc/setenv.c\<close> (\<^verbatim>\<open>EnvVars\<close>, locale \<^verbatim>\<open>refined_calls\<close>: the array \<^verbatim>\<open>environ\<close> refines a map), \<^verbatim>\<open>pty/pty_fork.c\<close>, \<^verbatim>\<open>pty_master_open.c\<close> and
    \<^verbatim>\<open>tty/tty_functions.c\<close> (\<^verbatim>\<open>TtyPty\<close>: descriptors in every outcome), \<^verbatim>\<open>filelock/region_locking.c\<close> and \<^verbatim>\<open>create_pid_file.c\<close>
    (\<^verbatim>\<open>PidFile\<close>: one instance runs, unless the file is deleted).
  \<^item> \<^verbatim>\<open>ALSP/cond_var.c\<close> and \<^verbatim>\<open>cond_var_rts.c\<close> (\<^verbatim>\<open>WorkQueue\<close>, locale \<^verbatim>\<open>bounded_fifo\<close>): the ring buffer shared by threads is a
    first-in first-out queue, and no wake-up is lost.
  \<^item> Threads and processes: \<^verbatim>\<open>threads/prod_condvar.c\<close> and \<^verbatim>\<open>prod_no_condvar.c\<close> (\<^verbatim>\<open>ProdCons\<close>: what was produced is what was
    consumed, and every run of the version with a condition variable can be completed), \<^verbatim>\<open>threads/thread_incr*.c\<close> and
    \<^verbatim>\<open>psem/thread_incr_psem.c\<close> (\<^verbatim>\<open>ThreadIncr\<close>: no increment is lost under a lock, one is lost without),
    \<^verbatim>\<open>threads/one_time_init.c\<close> (\<^verbatim>\<open>OnceInit\<close>: one initialisation), \<^verbatim>\<open>procexec/multi_SIGCHLD.c\<close> (\<^verbatim>\<open>SigChld\<close>: every child is reaped
    although signals are not queued), \<^verbatim>\<open>procexec/execlp.c\<close> (\<^verbatim>\<open>ExecLp\<close>: the search of PATH; two overflows).
  \<^item> \<^verbatim>\<open>ALSP/io_select.c\<close>, \<^verbatim>\<open>io_poll.c\<close> and \<^verbatim>\<open>io_poll_nb.c\<close> (\<^verbatim>\<open>IoServers\<close>, locale \<^verbatim>\<open>conn_table\<close>): the table of sockets agrees with
    the descriptors that are open, after any number of rounds; the accept loop ends because descriptors run out. The limit of
    descriptors, RLIMIT_NOFILE, is a parameter.
    \<^verbatim>\<open>ALSP/io_epoll.c\<close> (\<^verbatim>\<open>EpollServer\<close>), whose table is in the kernel: what is open is what is watched.
    \<^verbatim>\<open>sp/select\<close> (\<^verbatim>\<open>Chat\<close>), on the same kernel: the table of the server, which is safe for a limit up to FD_SETSIZE and
    overflows beyond, and the buffer of the client. \<^verbatim>\<open>sp/sock\<close> (\<^verbatim>\<open>FileSend\<close>): a
    file arrives unchanged unless a write is partial.


  \<^bold>\<open>How the parts interact.\<close> The programs call the library theories as the sources do: messages go through
  \<^verbatim>\<open>ErrorFunctions\<close>, arguments through \<^verbatim>\<open>GetNum\<close> and \<^verbatim>\<open>Getopt\<close>, lines through \<^verbatim>\<open>ReadIO\<close>, connections through \<^verbatim>\<open>Sockets\<close>. Programs that
  run at the same time are composed in one state with a step per system call; every interleaving of the steps is
  a path of an inductive reachability predicate, and the answers of the calls are arbitrary.

  \<^bold>\<open>Bounds.\<close> Loops are structural recursions or have a measure; where the number of rounds depends on the kernel, the
  answers of the calls are a finite list, or the loop is a partial function whose result is shown to exist under a
  stated condition. There is no fuel that can run out silently. Fixed sizes (buffers, tables) are those of the source.

  \<^bold>\<open>Not modelled.\<close> Time and scheduling other than the order of steps; signal handlers that run in the middle of a
  library call; floating point output (\<^verbatim>\<open>procres/print_rusage.c\<close>); code compiled on other systems only
  (\<^verbatim>\<open>signals/signal.c\<close>, \<^verbatim>\<open>pty/pty_master_open_bsd.c\<close>); the demonstrations that make a single system call and print its
  result, or whose point is an effect inside the kernel, the linker or the memory system (\<^verbatim>\<open>mmap\<close>, \<^verbatim>\<open>vmem\<close>, \<^verbatim>\<open>seccomp\<close>,
  \<^verbatim>\<open>shlibs\<close>, \<^verbatim>\<open>signals\<close>, \<^verbatim>\<open>procpri\<close> and others); third-party code (libcap, libacl, the resolver), which is a parameter where a
  modelled program uses it.
\<close>

end
